(* ===== verification/Jarl_Prelude.thy ===== *)
theory Jarl_Prelude
  imports
    Main
    "HOL-Library.Word"
    "HOL-Library.Monad_Syntax"
    "HOL-Library.Product_Lexorder"
begin

text \<open>
  Shared vocabulary of the development: Rust's fixed-width integers and the checked and
  saturating operations the sources call, array access that panics out of range, the
  iterator helpers (\<open>position\<close>, \<open>flatten\<close>, \<open>take_while\<close>), and a small total-correctness
  calculus for computations that may panic.

  A computation that may panic has type \<open>'a option\<close>: \<open>None\<close> is a panic of the code itself
  (an index out of range, an arithmetic overflow with overflow checks on, an
  \<^verbatim>\<open>expect\<close> that fails) and never a value the code returns. \<open>returns m P\<close> says that \<open>m\<close>
  does not panic and that its value satisfies \<open>P\<close>.
\<close>

unbundle bit_operations_syntax

named_theorems wp \<open>rules that compute \<open>returns\<close> through the structure of a computation\<close>
named_theorems u64 \<open>facts that move word arithmetic to natural numbers\<close>

section \<open>Machine integers\<close>

type_synonym u8 = "8 word"
type_synonym u32 = "32 word"
type_synonym u64 = "64 word"

text \<open>\<open>usize\<close> values are lengths and array positions; they are natural numbers here.\<close>

type_synonym usize = nat

abbreviation u64_MAX :: u64 where
  "u64_MAX \<equiv> - 1"

definition checked_add :: "u64 \<Rightarrow> u64 \<Rightarrow> u64 option" where
  "checked_add a b = (if unat a + unat b < 2 ^ 64 then Some (a + b) else None)"

definition checked_sub :: "u64 \<Rightarrow> u64 \<Rightarrow> u64 option" where
  "checked_sub a b = (if b \<le> a then Some (a - b) else None)"

definition saturating_add :: "u64 \<Rightarrow> u64 \<Rightarrow> u64" where
  "saturating_add a b = (if unat a + unat b < 2 ^ 64 then a + b else u64_MAX)"

definition saturating_sub :: "u64 \<Rightarrow> u64 \<Rightarrow> u64" where
  "saturating_sub a b = (if b \<le> a then a - b else 0)"

text \<open>The remainder panics on a zero divisor.\<close>

definition checked_rem :: "u64 \<Rightarrow> u64 \<Rightarrow> u64 option" where
  "checked_rem a b = (if b = 0 then None else Some (a mod b))"

text \<open>\<^verbatim>\<open>Ord::clamp\<close> asserts that the lower bound does not exceed the upper one.\<close>

definition clamp :: "u64 \<Rightarrow> u64 \<Rightarrow> u64 \<Rightarrow> u64 option" where
  "clamp x lo hi = (if lo \<le> hi then Some (if x < lo then lo else if hi < x then hi else x) else None)"

lemma unat_u64_lt [simp]: "unat (x :: u64) < 18446744073709551616"
  using unsigned_less [of x, where ?'a = nat] by simp

lemma unat_u64_MAX [simp]: "unat u64_MAX = 18446744073709551615"
  by (simp add: unsigned_minus_1_eq_mask mask_eq_exp_minus_1)

lemma checked_add_eq_Some [u64]: "checked_add a b = Some c \<longleftrightarrow> unat c = unat a + unat b"
proof
  assume "checked_add a b = Some c"
  then show "unat c = unat a + unat b"
    by (auto simp: checked_add_def unat_word_ariths split: if_splits)
next
  assume eq: "unat c = unat a + unat b"
  then have lt: "unat a + unat b < 2 ^ 64"
    using unat_u64_lt [of c] by simp
  with eq have "unat c = unat (a + b)"
    by (simp add: unat_word_ariths)
  then have "c = a + b"
    by (simp only: word_unat_eq_iff)
  with lt show "checked_add a b = Some c"
    by (simp add: checked_add_def)
qed

lemma checked_add_eq_None [u64]: "checked_add a b = None \<longleftrightarrow> 2 ^ 64 \<le> unat a + unat b"
  by (auto simp: checked_add_def)

lemma checked_sub_eq_Some [u64]: "checked_sub a b = Some c \<longleftrightarrow> unat a = unat b + unat c"
proof
  assume "checked_sub a b = Some c"
  then show "unat a = unat b + unat c"
    by (auto simp: checked_sub_def unat_sub word_le_nat_alt split: if_splits)
next
  assume eq: "unat a = unat b + unat c"
  then have le: "b \<le> a"
    by (simp add: word_le_nat_alt)
  with eq have "unat (a - b) = unat c"
    by (simp add: unat_sub)
  then have "a - b = c"
    by (simp only: word_unat_eq_iff)
  with le show "checked_sub a b = Some c"
    by (simp add: checked_sub_def)
qed

lemma checked_sub_eq_None [u64]: "checked_sub a b = None \<longleftrightarrow> unat a < unat b"
  by (auto simp: checked_sub_def word_le_nat_alt)

lemma unat_saturating_add [u64]:
  "unat (saturating_add a b) = min (unat a + unat b) 18446744073709551615"
  using unat_u64_lt [of a]
  by (auto simp: saturating_add_def unat_word_ariths min_def)

lemma unat_saturating_sub [u64]: "unat (saturating_sub a b) = unat a - unat b"
  by (auto simp: saturating_sub_def unat_sub word_le_nat_alt)

lemma unat_max_u64 [u64]: "unat (max (a :: u64) b) = max (unat a) (unat b)"
  by (auto simp: max_def word_le_nat_alt)

lemma unat_min_u64 [u64]: "unat (min (a :: u64) b) = min (unat a) (unat b)"
  by (auto simp: min_def word_le_nat_alt)

lemma u64_eq_iff: "(a :: u64) = b \<longleftrightarrow> unat a = unat b"
  by (rule word_unat_eq_iff)

lemmas u64_order [u64] = word_le_nat_alt word_less_nat_alt

lemma saturating_add_one_pos [simp]: "0 < saturating_add x 1"
  by (simp add: u64)

lemma one_le_saturating_add [simp]: "1 \<le> saturating_add x 1"
  by (simp add: u64)

lemma clamp_within: "clamp x lo hi = Some y \<Longrightarrow> lo \<le> y \<and> y \<le> hi"
  by (auto simp: clamp_def split: if_splits)

lemma clamp_defined: "lo \<le> hi \<Longrightarrow> \<exists>y. clamp x lo hi = Some y"
  by (simp add: clamp_def)

section \<open>Arrays and iterators\<close>

text \<open>Indexing \<^verbatim>\<open>xs[i]\<close> and assigning \<^verbatim>\<open>xs[i] = v\<close> panic out of range.\<close>

definition index_read :: "'a list \<Rightarrow> usize \<Rightarrow> 'a option" where
  "index_read xs i = (if i < length xs then Some (xs ! i) else None)"

definition index_write :: "'a list \<Rightarrow> usize \<Rightarrow> 'a \<Rightarrow> 'a list option" where
  "index_write xs i v = (if i < length xs then Some (xs[i := v]) else None)"

lemma index_read_Some [simp]: "index_read xs i = Some x \<longleftrightarrow> i < length xs \<and> xs ! i = x"
  by (auto simp: index_read_def)

lemma index_write_Some [simp]: "index_write xs i v = Some ys \<longleftrightarrow> i < length xs \<and> ys = xs[i := v]"
  by (auto simp: index_write_def)

text \<open>Subtraction of lengths panics below zero. Slicing \<^verbatim>\<open>xs[..n]\<close> and \<^verbatim>\<open>xs[n..]\<close> panics when \<open>n\<close>
  exceeds the length, and \<^verbatim>\<open>rotate_left(k)\<close> panics when \<open>k\<close> exceeds the length of the slice.\<close>

definition usize_sub :: "usize \<Rightarrow> usize \<Rightarrow> usize option" where
  "usize_sub a b = (if b \<le> a then Some (a - b) else None)"

definition rotate_left_upto :: "usize \<Rightarrow> usize \<Rightarrow> 'a list \<Rightarrow> 'a list option" where
  "rotate_left_upto n k xs =
     (if n \<le> length xs \<and> k \<le> n then Some (rotate k (take n xs) @ drop n xs) else None)"

definition fill_from :: "usize \<Rightarrow> 'a \<Rightarrow> 'a list \<Rightarrow> 'a list option" where
  "fill_from n v xs = (if n \<le> length xs then Some (take n xs @ replicate (length xs - n) v) else None)"

definition fill_upto :: "usize \<Rightarrow> 'a \<Rightarrow> 'a list \<Rightarrow> 'a list option" where
  "fill_upto n v xs = (if n \<le> length xs then Some (replicate n v @ drop n xs) else None)"

lemma usize_sub_Some [simp]: "usize_sub a b = Some c \<longleftrightarrow> b \<le> a \<and> c = a - b"
  by (auto simp: usize_sub_def)

lemma rotate_left_upto_Some [simp]:
  "rotate_left_upto n k xs = Some ys \<longleftrightarrow> n \<le> length xs \<and> k \<le> n \<and> ys = rotate k (take n xs) @ drop n xs"
  by (auto simp: rotate_left_upto_def)

lemma fill_from_Some [simp]:
  "fill_from n v xs = Some ys \<longleftrightarrow> n \<le> length xs \<and> ys = take n xs @ replicate (length xs - n) v"
  by (auto simp: fill_from_def)

lemma fill_upto_Some [simp]:
  "fill_upto n v xs = Some ys \<longleftrightarrow> n \<le> length xs \<and> ys = replicate n v @ drop n xs"
  by (auto simp: fill_upto_def)

text \<open>\<^verbatim>\<open>Iterator::position\<close> and \<^verbatim>\<open>Iterator::flatten\<close> over options.\<close>

fun position :: "('a \<Rightarrow> bool) \<Rightarrow> 'a list \<Rightarrow> usize option" where
  "position P [] = None"
| "position P (x # xs) = (if P x then Some 0 else map_option Suc (position P xs))"

fun flatten :: "'a option list \<Rightarrow> 'a list" where
  "flatten [] = []"
| "flatten (None # xs) = flatten xs"
| "flatten (Some x # xs) = x # flatten xs"

text \<open>\<^verbatim>\<open>Option::is_some_and\<close> and \<^verbatim>\<open>Option::is_none_or\<close>.\<close>

definition is_some_and :: "('a \<Rightarrow> bool) \<Rightarrow> 'a option \<Rightarrow> bool" where
  "is_some_and P x = (case x of None \<Rightarrow> False | Some v \<Rightarrow> P v)"

definition is_none_or :: "('a \<Rightarrow> bool) \<Rightarrow> 'a option \<Rightarrow> bool" where
  "is_none_or P x = (case x of None \<Rightarrow> True | Some v \<Rightarrow> P v)"

lemma is_some_and_simps [simp]:
  "is_some_and P None = False" "is_some_and P (Some v) = P v"
  by (simp_all add: is_some_and_def)

lemma is_none_or_simps [simp]:
  "is_none_or P None = True" "is_none_or P (Some v) = P v"
  by (simp_all add: is_none_or_def)

lemma is_some_and_iff: "is_some_and P x \<longleftrightarrow> (\<exists>v. x = Some v \<and> P v)"
  by (cases x) auto

lemma position_Some:
  "position P xs = Some i \<longleftrightarrow> i < length xs \<and> P (xs ! i) \<and> (\<forall>j < i. \<not> P (xs ! j))"
proof (induction xs arbitrary: i)
  case (Cons x xs)
  show ?case
  proof (cases i)
    case 0
    then show ?thesis by (simp add: Cons.IH)
  next
    case (Suc k)
    then show ?thesis
      by (auto simp: Cons.IH All_less_Suc2)
  qed
qed simp

lemma position_None: "position P xs = None \<longleftrightarrow> (\<forall>x \<in> set xs. \<not> P x)"
  by (induction xs) auto

lemma position_less: "position P xs = Some i \<Longrightarrow> i < length xs"
  by (simp add: position_Some)

lemma position_exists: "x \<in> set xs \<Longrightarrow> P x \<Longrightarrow> \<exists>i. position P xs = Some i"
  by (metis not_Some_eq position_None)

lemma set_flatten [simp]: "set (flatten xs) = {x. Some x \<in> set xs}"
  by (induction xs rule: flatten.induct) auto

lemma flatten_append [simp]: "flatten (xs @ ys) = flatten xs @ flatten ys"
  by (induction xs rule: flatten.induct) auto

lemma flatten_map_Some [simp]: "flatten (map Some xs) = xs"
  by (induction xs) auto

lemma flatten_replicate_None [simp]: "flatten (replicate n None) = []"
  by (induction n) auto

lemma flatten_all_None: "\<forall>x \<in> set xs. x = None \<Longrightarrow> flatten xs = []"
  by (induction xs rule: flatten.induct) auto

lemma length_flatten_le: "length (flatten xs) \<le> length xs"
  by (induction xs rule: flatten.induct) auto

lemma flatten_filter_Some: "flatten xs = map the (filter (\<lambda>x. x \<noteq> None) xs)"
  by (induction xs rule: flatten.induct) auto

section \<open>Computations that may panic\<close>

definition returns :: "'a option \<Rightarrow> ('a \<Rightarrow> bool) \<Rightarrow> bool" where
  "returns m P = (case m of None \<Rightarrow> False | Some x \<Rightarrow> P x)"

lemma returns_Some [simp, wp]: "returns (Some x) P = P x"
  by (simp add: returns_def)

lemma returns_None [simp, wp]: "\<not> returns None P"
  by (simp add: returns_def)

lemma returns_bind [wp]: "returns (m \<bind> f) P \<longleftrightarrow> returns m (\<lambda>x. returns (f x) P)"
  by (cases m) auto

lemma returns_if [wp]: "returns (if b then m else m') P \<longleftrightarrow> (if b then returns m P else returns m' P)"
  by simp

lemma returns_index_read [wp]: "returns (index_read xs i) P \<longleftrightarrow> i < length xs \<and> P (xs ! i)"
  by (simp add: index_read_def)

lemma returns_index_write [wp]: "returns (index_write xs i v) P \<longleftrightarrow> i < length xs \<and> P (xs[i := v])"
  by (simp add: index_write_def)

lemma returns_slices [wp]:
  "returns (usize_sub a b) P' \<longleftrightarrow> b \<le> a \<and> P' (a - b)"
  "returns (rotate_left_upto n k xs) P \<longleftrightarrow> n \<le> length xs \<and> k \<le> n \<and> P (rotate k (take n xs) @ drop n xs)"
  "returns (fill_from n v xs) P \<longleftrightarrow> n \<le> length xs \<and> P (take n xs @ replicate (length xs - n) v)"
  "returns (fill_upto n v xs) P \<longleftrightarrow> n \<le> length xs \<and> P (replicate n v @ drop n xs)"
  by (auto simp: usize_sub_def rotate_left_upto_def fill_from_def fill_upto_def)

lemma returns_iff: "returns m P \<longleftrightarrow> (\<exists>x. m = Some x \<and> P x)"
  by (cases m) auto

lemma returnsI: "m = Some x \<Longrightarrow> P x \<Longrightarrow> returns m P"
  by simp

lemma returnsD: "returns m P \<Longrightarrow> m = Some x \<Longrightarrow> P x"
  by simp

lemma returns_conseq: "returns m P \<Longrightarrow> (\<And>x. m = Some x \<Longrightarrow> P x \<Longrightarrow> Q x) \<Longrightarrow> returns m Q"
  by (cases m) auto

lemma returns_conj: "returns m P \<Longrightarrow> returns m Q \<Longrightarrow> returns m (\<lambda>x. P x \<and> Q x)"
  by (cases m) auto

text \<open>A loop over a list of positions, as \<^verbatim>\<open>for i in ...\<close> with a body that may panic.\<close>

fun for_each :: "('i \<Rightarrow> 's \<Rightarrow> 's option) \<Rightarrow> 'i list \<Rightarrow> 's \<Rightarrow> 's option" where
  "for_each f [] s = Some s"
| "for_each f (i # is) s = f i s \<bind> for_each f is"

lemma for_each_returns:
  assumes "I s"
    and "\<And>i s. i \<in> set is \<Longrightarrow> I s \<Longrightarrow> returns (f i s) I"
  shows "returns (for_each f is s) I"
  using assms
proof (induction "is" arbitrary: s)
  case (Cons i "is")
  have "returns (f i s) I"
    using Cons.prems by simp
  moreover have "returns (for_each f is t) I" if "I t" for t
    using that Cons.prems(2) by (intro Cons.IH) auto
  ultimately show ?case
    by (auto simp: returns_bind elim: returns_conseq)
qed simp

lemma for_each_append: "for_each f (is @ js) s = for_each f is s \<bind> for_each f js"
proof (induction "is" arbitrary: s)
  case (Cons i "is")
  show ?case
    by (cases "f i s") (simp_all add: Cons.IH)
qed simp

end
