(* ===== verification/Jarl_Types.thy ===== *)
theory Jarl_Types
  imports Jarl_Prelude
begin

text \<open>
  The vocabulary of the Raft core, from \<^verbatim>\<open>jarl/src/lib.rs\<close>: identities, log positions,
  entries, snapshots, roles, the node configuration, errors, the wire messages and the
  diagnostic structures. A struct is a record whose fields carry a prefix (\<open>li_index\<close> is
  \<^verbatim>\<open>LogId::index\<close>), an enum is a datatype with the constructors of the source.
\<close>

section \<open>Identities, positions, entries and snapshots\<close>

datatype Id = Id (id_num: u64)

text \<open>Identities are compared only for equality by the core; their numeric order orders
  them canonically.\<close>

instantiation Id :: linorder
begin

definition less_eq_Id :: "Id \<Rightarrow> Id \<Rightarrow> bool" where
  "less_eq_Id a b \<longleftrightarrow> id_num a \<le> id_num b"

definition less_Id :: "Id \<Rightarrow> Id \<Rightarrow> bool" where
  "less_Id a b \<longleftrightarrow> id_num a < id_num b"

instance
  by standard (auto simp: less_eq_Id_def less_Id_def intro: Id.expand)

end

record LogId =
  li_index :: u64
  li_term :: u64

definition LogId_default :: LogId where
  "LogId_default = \<lparr>li_index = 0, li_term = 0\<rparr>"

record 'v Entry =
  en_id :: LogId
  en_value :: "'v option"

record 's Snapshot =
  sn_last :: LogId
  sn_value :: 's

datatype Role = Follower | Candidate | Leader

record Config =
  cfg_id :: Id
  cfg_members :: "Id list"
  cfg_heartbeat_ticks :: u64
  cfg_election_ticks :: u64
  cfg_seed :: u64

definition Config_new :: "Id \<Rightarrow> Id list \<Rightarrow> Config" where
  "Config_new i members =
     \<lparr>cfg_id = i, cfg_members = members, cfg_heartbeat_ticks = 2, cfg_election_ticks = 10,
      cfg_seed = id_num i + 1\<rparr>"

lemma LogId_default_simps [simp]:
  "li_index LogId_default = 0" "li_term LogId_default = 0"
  by (simp_all add: LogId_default_def)

section \<open>Errors\<close>

datatype Error =
    ErrConfig
  | ErrState
  | ErrBusy
  | ErrNotLeader "Id option"
  | ErrFull
  | ErrNotCommitted
  | ErrExhausted
  | ErrMessage
  | ErrReconfiguring
  | ErrNotCaughtUp

datatype 'a Result = Ok 'a | Err Error

text \<open>Decimal rendering of an unsigned integer, as \<^verbatim>\<open>{}\<close> prints it.\<close>

fun nat_decimal :: "nat \<Rightarrow> string" where
  "nat_decimal n =
     (if n < 10 then [char_of (48 + n)] else nat_decimal (n div 10) @ [char_of (48 + n mod 10)])"

declare nat_decimal.simps [simp del]

fun Error_fmt :: "Error \<Rightarrow> string" where
  "Error_fmt ErrConfig = ''invalid configuration''"
| "Error_fmt ErrState = ''invalid checkpoint''"
| "Error_fmt ErrBusy = ''persist state and drain messages first''"
| "Error_fmt (ErrNotLeader (Some i)) =
     ''not leader; last known leader is '' @ nat_decimal (unat (id_num i))"
| "Error_fmt (ErrNotLeader None) = ''not leader; leader unknown''"
| "Error_fmt ErrFull = ''log capacity exhausted''"
| "Error_fmt ErrNotCommitted = ''snapshot index is outside the committed suffix''"
| "Error_fmt ErrExhausted = ''term or index exhausted''"
| "Error_fmt ErrMessage = ''invalid message''"
| "Error_fmt ErrReconfiguring = ''membership change is pending''"
| "Error_fmt ErrNotCaughtUp = ''new voter has not caught up''"

section \<open>Messages\<close>

datatype Rejection = Conflict (conflict_next: u64) | RejectFull

definition MAX_APPEND_ENTRIES :: usize where
  "MAX_APPEND_ENTRIES = 16"

datatype ('v, 's) Message =
    PreVote u64 LogId
  | PreVoted u64 u64 bool
  | Vote u64 LogId
  | Voted u64 bool
  | Append u64 LogId "'v Entry option" u64
  | AppendBatch u64 LogId "'v Entry option list" u64
  | Install u64 "'s Snapshot"
  | Replicated u64 u64 "Rejection option"

fun Message_term :: "('v, 's) Message \<Rightarrow> u64" where
  "Message_term (PreVote t _) = t"
| "Message_term (PreVoted t _ _) = t"
| "Message_term (Vote t _) = t"
| "Message_term (Voted t _) = t"
| "Message_term (Append t _ _ _) = t"
| "Message_term (AppendBatch t _ _ _) = t"
| "Message_term (Install t _) = t"
| "Message_term (Replicated t _ _) = t"

record ('v, 's) Envelope =
  env_from :: Id
  env_to :: Id
  env_message :: "('v, 's) Message"

definition Entry_cloned :: "('v \<Rightarrow> 'w) \<Rightarrow> 'v Entry \<Rightarrow> 'w Entry" where
  "Entry_cloned cv e = \<lparr>en_id = en_id e, en_value = map_option cv (en_value e)\<rparr>"

text \<open>The application's \<^verbatim>\<open>Clone\<close> implementations are the parameters \<open>cv\<close> and \<open>cs\<close>.\<close>

fun Message_cloned :: "('v \<Rightarrow> 'w) \<Rightarrow> ('s \<Rightarrow> 't) \<Rightarrow> ('v, 's) Message \<Rightarrow> ('w, 't) Message" where
  "Message_cloned cv cs (PreVote t lst) = PreVote t lst"
| "Message_cloned cv cs (PreVoted t campaign granted) = PreVoted t campaign granted"
| "Message_cloned cv cs (Vote t lst) = Vote t lst"
| "Message_cloned cv cs (Voted t granted) = Voted t granted"
| "Message_cloned cv cs (Append t previous entry commit) =
     Append t previous (map_option (Entry_cloned cv) entry) commit"
| "Message_cloned cv cs (AppendBatch t previous entries commit) =
     AppendBatch t previous (map (map_option (Entry_cloned cv)) entries) commit"
| "Message_cloned cv cs (Install t snapshot) =
     Install t \<lparr>sn_last = sn_last snapshot, sn_value = cs (sn_value snapshot)\<rparr>"
| "Message_cloned cv cs (Replicated t index rejection) = Replicated t index rejection"

definition Envelope_cloned ::
    "('v \<Rightarrow> 'w) \<Rightarrow> ('s \<Rightarrow> 't) \<Rightarrow> ('v, 's) Envelope \<Rightarrow> ('w, 't) Envelope" where
  "Envelope_cloned cv cs e =
     \<lparr>env_from = env_from e, env_to = env_to e,
      env_message = Message_cloned cv cs (env_message e)\<rparr>"

section \<open>Proposals and diagnostics\<close>

record ProposalRange =
  pr_first :: LogId
  pr_last :: LogId

record Status =
  status_id :: Id
  status_role :: Role
  status_term :: u64
  status_last :: LogId
  status_commit :: u64
  status_retained :: usize
  status_capacity :: usize
  status_persistence_pending :: bool
  status_messages_pending :: usize

record PeerProgress =
  pp_id :: Id
  pp_voter :: bool
  pp_matched :: u64
  pp_next :: u64

section \<open>Cloning copies the message\<close>

lemma Entry_cloned_id [simp]: "Entry_cloned (\<lambda>v. v) e = e"
  by (simp add: Entry_cloned_def option.map_ident)

lemma Entry_cloned_id_fun: "Entry_cloned (\<lambda>v. v) = id"
  by (simp add: fun_eq_iff)

lemma Message_cloned_id [simp]: "Message_cloned (\<lambda>v. v) (\<lambda>s. s) m = m"
  by (cases m) (simp_all add: Entry_cloned_id_fun option.map_id0)

lemma Envelope_cloned_id [simp]: "Envelope_cloned (\<lambda>v. v) (\<lambda>s. s) e = e"
  by (simp add: Envelope_cloned_def)

lemma Message_term_cloned [simp]: "Message_term (Message_cloned cv cs m) = Message_term m"
  by (cases m) simp_all

end
