(* ===== verification/Jarl_State.thy ===== *)
theory Jarl_State
  imports Jarl_Types
begin

text \<open>
  The bounded checkpoint of \<^verbatim>\<open>jarl/src/state.rs\<close>: hard state, an optional snapshot, and a
  fixed array of \<open>CAP\<close> slots of which the first \<open>len\<close> hold the retained log. The capacity is
  the length of the slot array. The storage transaction \<open>Write\<close> of \<^verbatim>\<open>jarl/src/ready.rs\<close>, which
  \<^verbatim>\<open>State::write\<close> builds, is here as well.

  The slot array is an implementation of a list of entries. The lemmas give every operation
  its meaning on that list (\<open>State_entries\<close>), under the slot invariant \<open>slots_wf\<close> and the
  contiguity invariant \<open>log_chain\<close>; \<open>State_inv\<close> collects what \<^verbatim>\<open>State::restore\<close> validates.
  The locale \<open>bounded_log\<close> is the interface the protocol code relies on.
\<close>

section \<open>Data\<close>

record HardState =
  hs_term :: u64
  hs_voted_for :: "Id option"
  hs_commit :: u64

definition HardState_default :: HardState where
  "HardState_default = \<lparr>hs_term = 0, hs_voted_for = None, hs_commit = 0\<rparr>"

record ('v, 's) State =
  st_hard :: HardState
  st_snapshot :: "'s Snapshot option"
  st_entries :: "'v Entry option list"
  st_len :: usize

record ('v, 's) Write =
  w_hard :: HardState
  w_snapshot :: "'s Snapshot option"
  w_truncate_from :: "u64 option"
  w_entries :: "'v Entry option list"

definition Write_entries :: "('v, 's) Write \<Rightarrow> 'v Entry list" where
  "Write_entries w = flatten (w_entries w)"

abbreviation State_CAP :: "('v, 's) State \<Rightarrow> usize" where
  "State_CAP st \<equiv> length (st_entries st)"

section \<open>Operations\<close>

definition State_new :: "usize \<Rightarrow> ('v, 's) State" where
  "State_new cap =
     \<lparr>st_hard = HardState_default, st_snapshot = None, st_entries = replicate cap None, st_len = 0\<rparr>"

definition State_entries :: "('v, 's) State \<Rightarrow> 'v Entry list" where
  "State_entries st = flatten (take (st_len st) (st_entries st))"

definition State_base :: "('v, 's) State \<Rightarrow> LogId" where
  "State_base st = (case st_snapshot st of None \<Rightarrow> LogId_default | Some s \<Rightarrow> sn_last s)"

text \<open>The identity of the last element of a log that starts after \<open>b\<close>.\<close>

definition log_last :: "LogId \<Rightarrow> 'v Entry list \<Rightarrow> LogId" where
  "log_last b es = (if es = [] then b else en_id (last es))"

definition State_last :: "('v, 's) State \<Rightarrow> LogId" where
  "State_last st = log_last (State_base st) (State_entries st)"

definition State_full :: "('v, 's) State \<Rightarrow> bool" where
  "State_full st \<longleftrightarrow> st_len st = State_CAP st"

definition State_push :: "'v Entry \<Rightarrow> ('v, 's) State \<Rightarrow> unit Result \<times> ('v, 's) State" where
  "State_push e st =
     (if State_full st then (Err ErrFull, st)
      else (Ok (), st\<lparr>st_entries := (st_entries st)[st_len st := Some e], st_len := st_len st + 1\<rparr>))"

fun State_restore_entries ::
    "HardState \<Rightarrow> 'v Entry list \<Rightarrow> ('v, 's) State \<Rightarrow> ('v, 's) State Result" where
  "State_restore_entries hard [] st = Ok st"
| "State_restore_entries hard (e # es) st =
     (let lst = State_last st in
      if checked_add (li_index lst) 1 \<noteq> Some (li_index (en_id e))
         \<or> li_term (en_id e) = 0
         \<or> li_term (en_id e) < li_term lst
         \<or> hs_term hard < li_term (en_id e)
      then Err ErrState
      else (case State_push e st of
              (Err x, _) \<Rightarrow> Err x
            | (Ok _, st') \<Rightarrow> State_restore_entries hard es st'))"

definition State_restore ::
    "usize \<Rightarrow> HardState \<Rightarrow> 's Snapshot option \<Rightarrow> 'v Entry list \<Rightarrow> ('v, 's) State Result" where
  "State_restore cap hard snapshot entries =
     (let state = (State_new cap)\<lparr>st_hard := hard, st_snapshot := snapshot\<rparr>;
          base = State_base state
      in if (st_snapshot state \<noteq> None \<and> (li_index base = 0 \<or> li_term base = 0))
            \<or> hs_term hard < li_term base
            \<or> (hs_term hard = 0 \<and> hs_voted_for hard \<noteq> None)
         then Err ErrState
         else (case State_restore_entries hard entries state of
                 Err x \<Rightarrow> Err x
               | Ok state' \<Rightarrow>
                   if hs_commit hard < li_index base \<or> li_index (State_last state') < hs_commit hard
                   then Err ErrState
                   else Ok state'))"

text \<open>
  \<^verbatim>\<open>usize::try_from\<close> on a 64-bit target. Where \<open>usize\<close> is narrower the conversion fails only
  for values beyond every array length, and both callers then answer what they answer for
  such a value.
\<close>

definition usize_try_from :: "u64 \<Rightarrow> usize option" where
  "usize_try_from x = Some (unat x)"

definition State_write :: "('v, 's) State \<Rightarrow> u64 option \<Rightarrow> bool \<Rightarrow> ('v, 's) Write" where
  "State_write st from snapshot_changed =
     (let offset =
        (case from of
           None \<Rightarrow> st_len st
         | Some index \<Rightarrow>
             min (case usize_try_from
                         (saturating_sub (saturating_sub index (li_index (State_base st))) 1) of
                    None \<Rightarrow> st_len st | Some n \<Rightarrow> n)
                 (st_len st))
      in \<lparr>w_hard = st_hard st,
          w_snapshot = (if snapshot_changed then st_snapshot st else None),
          w_truncate_from = from,
          w_entries = drop offset (take (st_len st) (st_entries st))\<rparr>)"

definition State_grow :: "usize \<Rightarrow> ('v, 's) State \<Rightarrow> ('v, 's) State" where
  "State_grow new_cap st =
     \<lparr>st_hard = st_hard st, st_snapshot = st_snapshot st,
      st_entries = map (\<lambda>i. if i < st_len st then st_entries st ! i else None) [0..<new_cap],
      st_len = st_len st\<rparr>"

definition State_get :: "u64 \<Rightarrow> ('v, 's) State \<Rightarrow> 'v Entry option" where
  "State_get index st = do {
     a \<leftarrow> checked_sub index (li_index (State_base st));
     b \<leftarrow> checked_sub a 1;
     offset \<leftarrow> usize_try_from b;
     slot \<leftarrow> (if offset < State_CAP st then Some (st_entries st ! offset) else None);
     slot
   }"

definition State_id_at :: "u64 \<Rightarrow> ('v, 's) State \<Rightarrow> LogId option" where
  "State_id_at index st =
     (if index = li_index (State_base st) then Some (State_base st)
      else map_option en_id (State_get index st))"

function State_truncate :: "u64 \<Rightarrow> ('v, 's) State \<Rightarrow> ('v, 's) State" where
  "State_truncate from st =
     (if from \<le> li_index (State_last st) \<and> 0 < st_len st
      then State_truncate from
             (st\<lparr>st_entries := (st_entries st)[st_len st - 1 := None], st_len := st_len st - 1\<rparr>)
      else st)"
  by pat_completeness auto
termination
  by (relation "measure (\<lambda>(from, st). st_len st)") auto

declare State_truncate.simps [simp del]

definition State_install :: "'s Snapshot \<Rightarrow> ('v, 's) State \<Rightarrow> ('v, 's) State option" where
  "State_install snapshot st =
     (let index = li_index (sn_last snapshot)
      in do {
        (slots, len) \<leftarrow>
          (if State_id_at index st = Some (sn_last snapshot)
           then do {
             above \<leftarrow> checked_sub index (li_index (State_base st));
             remove \<leftarrow> Some (unat above);
             rotated \<leftarrow> rotate_left_upto (st_len st) remove (st_entries st);
             len \<leftarrow> usize_sub (st_len st) remove;
             slots \<leftarrow> fill_from len None rotated;
             Some (slots, len)
           }
           else do {
             slots \<leftarrow> fill_upto (st_len st) None (st_entries st);
             Some (slots, 0)
           });
        Some (st\<lparr>st_entries := slots, st_len := len,
                 st_hard := (st_hard st)\<lparr>hs_commit := max (hs_commit (st_hard st)) index\<rparr>,
                 st_snapshot := Some snapshot\<rparr>)
      })"

text \<open>The state that \<open>State_install\<close> returns, where it does not panic.\<close>

definition installed :: "'s Snapshot \<Rightarrow> ('v, 's) State \<Rightarrow> ('v, 's) State" where
  "installed snapshot st = the (State_install snapshot st)"

section \<open>Invariants\<close>

definition slots_wf :: "('v, 's) State \<Rightarrow> bool" where
  "slots_wf st \<longleftrightarrow>
     st_len st \<le> State_CAP st
     \<and> list_all (\<lambda>x. x \<noteq> None) (take (st_len st) (st_entries st))
     \<and> list_all (\<lambda>x. x = None) (drop (st_len st) (st_entries st))"

fun log_chain :: "LogId \<Rightarrow> 'v Entry list \<Rightarrow> bool" where
  "log_chain prev [] \<longleftrightarrow> True"
| "log_chain prev (e # es) \<longleftrightarrow>
     checked_add (li_index prev) 1 = Some (li_index (en_id e))
     \<and> li_term (en_id e) \<noteq> 0 \<and> li_term prev \<le> li_term (en_id e)
     \<and> log_chain (en_id e) es"

definition State_inv :: "('v, 's) State \<Rightarrow> bool" where
  "State_inv st \<longleftrightarrow>
     slots_wf st
     \<and> log_chain (State_base st) (State_entries st)
     \<and> li_term (State_last st) \<le> hs_term (st_hard st)
     \<and> (st_snapshot st \<noteq> None \<longrightarrow> li_index (State_base st) \<noteq> 0 \<and> li_term (State_base st) \<noteq> 0)
     \<and> (hs_term (st_hard st) = 0 \<longrightarrow> hs_voted_for (st_hard st) = None)
     \<and> li_index (State_base st) \<le> hs_commit (st_hard st)
     \<and> hs_commit (st_hard st) \<le> li_index (State_last st)"


section \<open>Contiguous logs\<close>

lemma log_last_simps [simp]:
  "log_last b [] = b" "log_last b (es @ [e]) = en_id e"
  by (simp_all add: log_last_def)

lemma log_last_Cons: "log_last b (e # es) = log_last (en_id e) es"
  by (simp add: log_last_def)

lemma log_last_append: "log_last b (es @ fs) = log_last (log_last b es) fs"
  by (simp add: log_last_def)

lemma log_chain_append:
  "log_chain b (es @ fs) \<longleftrightarrow> log_chain b es \<and> log_chain (log_last b es) fs"
  by (induction es arbitrary: b) (auto simp: log_last_Cons)

lemma log_chain_take: "log_chain b es \<Longrightarrow> log_chain b (take n es)"
  by (metis append_take_drop_id log_chain_append)

lemma log_chain_drop: "log_chain b es \<Longrightarrow> log_chain (log_last b (take n es)) (drop n es)"
  by (metis append_take_drop_id log_chain_append)

lemma log_chain_nth:
  "log_chain b es \<Longrightarrow> i < length es \<Longrightarrow>
     unat (li_index (en_id (es ! i))) = Suc (unat (li_index b) + i)"
proof (induction es arbitrary: b i)
  case (Cons e es)
  then show ?case
    by (cases i) (auto simp: u64)
qed simp

lemma log_chain_last_index:
  "log_chain b es \<Longrightarrow> unat (li_index (log_last b es)) = unat (li_index b) + length es"
  by (induction es arbitrary: b) (auto simp: log_last_Cons u64)

lemma log_chain_last_term: "log_chain b es \<Longrightarrow> li_term b \<le> li_term (log_last b es)"
  by (induction es arbitrary: b) (auto simp: log_last_Cons intro: order_trans)

lemma log_chain_terms:
  "log_chain b es \<Longrightarrow> e \<in> set es \<Longrightarrow>
     li_term b \<le> li_term (en_id e) \<and> li_term (en_id e) \<le> li_term (log_last b es)
     \<and> li_term (en_id e) \<noteq> 0"
proof (induction es arbitrary: b)
  case (Cons f fs)
  then show ?case
    using log_chain_last_term [of "en_id f" fs] by (fastforce simp: log_last_Cons)
qed simp

lemma log_chain_mem_index:
  "log_chain b es \<Longrightarrow> e \<in> set es \<Longrightarrow>
     unat (li_index b) < unat (li_index (en_id e))
     \<and> unat (li_index (en_id e)) \<le> unat (li_index b) + length es"
  by (auto simp: in_set_conv_nth log_chain_nth)

lemma log_chain_inj:
  assumes ch: "log_chain b es" and "d \<in> set es" and "e \<in> set es"
    and eq: "li_index (en_id d) = li_index (en_id e)"
  shows "d = e"
proof -
  obtain i j where i: "i < length es" "d = es ! i" and j: "j < length es" "e = es ! j"
    using assms(2,3) by (auto simp: in_set_conv_nth)
  then have "Suc (unat (li_index b) + i) = Suc (unat (li_index b) + j)"
    using log_chain_nth [OF ch] eq by metis
  with i j show ?thesis
    by simp
qed

text \<open>Selecting entries of a contiguous log by index is taking a prefix or a suffix.\<close>

lemma log_chain_filter_below:
  assumes "log_chain b es"
  shows "filter (\<lambda>e. li_index (en_id e) < f) es = take (unat f - unat (li_index b) - 1) es"
  using assms
proof (induction es arbitrary: b)
  case (Cons e es)
  then have e: "unat (li_index (en_id e)) = Suc (unat (li_index b))"
    and ch: "log_chain (en_id e) es"
    by (auto simp: u64)
  show ?case
  proof (cases "li_index (en_id e) < f")
    case True
    then have "unat f - unat (li_index b) - 1 = Suc (unat f - unat (li_index (en_id e)) - 1)"
      using e by (simp add: u64)
    with True Cons.IH [OF ch] show ?thesis
      by simp
  next
    case False
    then have "unat f - unat (li_index b) - 1 = 0"
      and "unat f - unat (li_index (en_id e)) - 1 = 0"
      using e by (simp_all add: u64)
    with False Cons.IH [OF ch] show ?thesis
      by simp
  qed
qed simp

lemma log_chain_filter_above:
  assumes "log_chain b es"
  shows "filter (\<lambda>e. f < li_index (en_id e)) es = drop (unat f - unat (li_index b)) es"
  using assms
proof (induction es arbitrary: b)
  case (Cons e es)
  then have e: "unat (li_index (en_id e)) = Suc (unat (li_index b))"
    and ch: "log_chain (en_id e) es"
    by (auto simp: u64)
  show ?case
  proof (cases "f < li_index (en_id e)")
    case True
    then have "unat f - unat (li_index b) = 0"
      and "unat f - unat (li_index (en_id e)) = 0"
      using e by (simp_all add: u64)
    with True Cons.IH [OF ch] show ?thesis
      by simp
  next
    case False
    then have "unat f - unat (li_index b) = Suc (unat f - unat (li_index (en_id e)))"
      using e by (simp add: u64)
    with False Cons.IH [OF ch] show ?thesis
      by simp
  qed
qed simp

lemma log_chain_takeWhile_upto:
  assumes "log_chain b es"
  shows "takeWhile (\<lambda>e. li_index (en_id e) \<le> c) es = take (unat c - unat (li_index b)) es"
  using assms
proof (induction es arbitrary: b)
  case (Cons e es)
  then have e: "unat (li_index (en_id e)) = Suc (unat (li_index b))"
    and ch: "log_chain (en_id e) es"
    by (auto simp: u64)
  show ?case
  proof (cases "li_index (en_id e) \<le> c")
    case True
    then have "unat c - unat (li_index b) = Suc (unat c - unat (li_index (en_id e)))"
      using e by (simp add: u64)
    with True Cons.IH [OF ch] show ?thesis
      by simp
  next
    case False
    then have "unat c - unat (li_index b) = 0"
      using e by (simp add: u64)
    with False show ?thesis
      by simp
  qed
qed simp

section \<open>The slot array represents a list\<close>

lemma flatten_all_Some: "list_all (\<lambda>x. x \<noteq> None) xs \<Longrightarrow> map Some (flatten xs) = xs"
  by (induction xs rule: flatten.induct) auto

lemma list_all_None_replicate: "list_all (\<lambda>x. x = None) xs \<Longrightarrow> xs = replicate (length xs) None"
  by (induction xs) auto

text \<open>Every well-formed slot array is the canonical layout of its entries.\<close>

lemma slots_wf_iff:
  "slots_wf st \<longleftrightarrow>
     st_len st = length (State_entries st) \<and> st_len st \<le> State_CAP st
     \<and> st_entries st = map Some (State_entries st) @ replicate (State_CAP st - st_len st) None"
  (is "?wf \<longleftrightarrow> ?len \<and> ?le \<and> ?eq")
proof
  assume wf: ?wf
  then have le: ?le
    and some: "map Some (State_entries st) = take (st_len st) (st_entries st)"
    by (auto simp: slots_wf_def State_entries_def flatten_all_Some)
  have len: ?len
    using arg_cong [OF some, of length] le by simp
  have "drop (st_len st) (st_entries st) = replicate (State_CAP st - st_len st) None"
    using wf list_all_None_replicate [of "drop (st_len st) (st_entries st)"]
    by (simp add: slots_wf_def)
  with some have ?eq
    by (metis append_take_drop_id)
  with len le show "?len \<and> ?le \<and> ?eq"
    by blast
next
  assume "?len \<and> ?le \<and> ?eq"
  then have len: ?len and le: ?le and eq: ?eq
    by blast+
  have "take (st_len st) (st_entries st) = map Some (State_entries st)"
    using len by (subst eq) simp
  moreover have "drop (st_len st) (st_entries st) = replicate (State_CAP st - st_len st) None"
    using len by (subst eq) simp
  ultimately show ?wf
    using le by (simp add: slots_wf_def list_all_iff)
qed

lemma State_entries_layout:
  assumes "st_entries st = map Some es @ replicate k None" and "st_len st = length es"
  shows "slots_wf st" and "State_entries st = es"
  using assms by (simp_all add: slots_wf_def State_entries_def list_all_iff)

lemma slots_wf_len: "slots_wf st \<Longrightarrow> st_len st = length (State_entries st)"
  by (simp add: slots_wf_iff)

lemma slots_wf_cap: "slots_wf st \<Longrightarrow> length (State_entries st) \<le> State_CAP st"
  by (metis slots_wf_iff)

lemma slots_wf_take: "slots_wf st \<Longrightarrow> take (st_len st) (st_entries st) = map Some (State_entries st)"
  by (simp add: slots_wf_def State_entries_def flatten_all_Some)

lemma slots_wf_nth:
  assumes "slots_wf st" and "i < State_CAP st"
  shows "st_entries st ! i = (if i < length (State_entries st) then Some (State_entries st ! i) else None)"
proof -
  from assms have eq: "st_entries st = map Some (State_entries st) @ replicate (State_CAP st - st_len st) None"
    and len: "st_len st = length (State_entries st)"
    by (auto simp: slots_wf_iff)
  show ?thesis
    using assms(2) len by (subst eq) (auto simp: nth_append)
qed

text \<open>Observationally equal checkpoints of the same capacity are equal.\<close>

lemma State_eqI:
  assumes "slots_wf a" and "slots_wf b" and "State_CAP a = State_CAP b"
    and "st_hard a = st_hard b" and "st_snapshot a = st_snapshot b"
    and "State_entries a = State_entries b"
  shows "a = b"
proof -
  have len: "st_len a = st_len b"
    using assms(1,2,6) by (simp add: slots_wf_len)
  moreover have "st_entries a = st_entries b"
  proof (rule nth_equalityI)
    show "length (st_entries a) = length (st_entries b)"
      by (rule assms(3))
  next
    fix i
    assume "i < length (st_entries a)"
    then show "st_entries a ! i = st_entries b ! i"
      using assms by (simp add: slots_wf_nth)
  qed
  ultimately show ?thesis
    using assms(4,5) by (simp add: State.equality)
qed

section \<open>What each operation does to the log\<close>

lemma State_new_simps [simp]:
  "st_hard (State_new cap) = HardState_default"
  "st_snapshot (State_new cap) = None"
  "State_CAP (State_new cap) = cap"
  "State_entries (State_new cap) = []"
  "State_base (State_new cap) = LogId_default"
  by (simp_all add: State_new_def State_entries_def State_base_def)

lemma slots_wf_new [simp]: "slots_wf (State_new cap)"
  by (simp add: State_new_def slots_wf_def list_all_iff)

lemma State_last_new [simp]: "State_last (State_new cap) = LogId_default"
  by (simp add: State_last_def)

lemma State_inv_new [simp]: "State_inv (State_new cap)"
  by (simp add: State_inv_def HardState_default_def)

text \<open>Changing the hard state or the snapshot leaves the slots alone.\<close>

lemma State_update_simps [simp]:
  "State_entries (st\<lparr>st_hard := h\<rparr>) = State_entries st"
  "State_entries (st\<lparr>st_snapshot := s\<rparr>) = State_entries st"
  "State_base (st\<lparr>st_hard := h\<rparr>) = State_base st"
  "State_base (st\<lparr>st_snapshot := Some sn\<rparr>) = sn_last sn"
  "State_base (st\<lparr>st_entries := xs\<rparr>) = State_base st"
  "State_base (st\<lparr>st_len := n\<rparr>) = State_base st"
  "State_last (st\<lparr>st_hard := h\<rparr>) = State_last st"
  "State_full (st\<lparr>st_hard := h\<rparr>) = State_full st"
  "slots_wf (st\<lparr>st_hard := h\<rparr>) = slots_wf st"
  "slots_wf (st\<lparr>st_snapshot := s\<rparr>) = slots_wf st"
  by (simp_all add: State_entries_def State_base_def State_last_def slots_wf_def State_full_def)

lemma State_get_hard [simp]: "State_get i (st\<lparr>st_hard := h\<rparr>) = State_get i st"
  by (simp add: State_get_def cong: if_cong)

lemma State_id_at_hard [simp]: "State_id_at i (st\<lparr>st_hard := h\<rparr>) = State_id_at i st"
  by (simp add: State_id_at_def)

lemma State_full_iff: "slots_wf st \<Longrightarrow> State_full st \<longleftrightarrow> length (State_entries st) = State_CAP st"
  by (simp add: State_full_def slots_wf_len)

lemma State_push_full: "State_full st \<Longrightarrow> State_push e st = (Err ErrFull, st)"
  by (simp add: State_push_def)

lemma State_push_ok:
  assumes wf: "slots_wf st" and room: "\<not> State_full st"
  obtains st' where "State_push e st = (Ok (), st')" and "slots_wf st'"
    and "State_entries st' = State_entries st @ [e]" and "State_CAP st' = State_CAP st"
    and "st_hard st' = st_hard st" and "st_snapshot st' = st_snapshot st"
proof -
  let ?st' = "st\<lparr>st_entries := (st_entries st)[st_len st := Some e], st_len := st_len st + 1\<rparr>"
  let ?es = "State_entries st"
  from wf have len: "st_len st = length ?es"
    and eq: "st_entries st = map Some ?es @ replicate (State_CAP st - st_len st) None"
    and le: "st_len st \<le> State_CAP st"
    by (auto simp: slots_wf_iff)
  obtain k where k: "State_CAP st - st_len st = Suc k"
    using le room by (cases "State_CAP st - st_len st") (auto simp: State_full_def)
  have "st_entries ?st' = map Some (?es @ [e]) @ replicate k None"
    using len k by (simp, subst eq, simp add: list_update_append)
  moreover have "st_len ?st' = length (?es @ [e])"
    using len by simp
  ultimately have "slots_wf ?st'" and "State_entries ?st' = ?es @ [e]"
    by (rule State_entries_layout)+
  with room show ?thesis
    by (intro that [of ?st']) (simp_all add: State_push_def)
qed

lemma State_push_cases:
  assumes "slots_wf st"
  obtains (full) "State_full st" "State_push e st = (Err ErrFull, st)"
  | (ok) st' where "\<not> State_full st" "State_push e st = (Ok (), st')" "slots_wf st'"
      "State_entries st' = State_entries st @ [e]" "State_CAP st' = State_CAP st"
      "st_hard st' = st_hard st" "st_snapshot st' = st_snapshot st"
  using assms by (metis State_push_full State_push_ok)

lemma State_base_cong: "st_snapshot a = st_snapshot b \<Longrightarrow> State_base a = State_base b"
  by (simp add: State_base_def)

text \<open>Reading by index.\<close>

lemma State_get_eq:
  assumes wf: "slots_wf st"
  shows "State_get i st =
    (let b = unat (li_index (State_base st)); k = unat i - b - 1
     in if b < unat i \<and> k < length (State_entries st) then Some (State_entries st ! k) else None)"
proof (cases "unat (li_index (State_base st)) < unat i")
  case True
  let ?b = "li_index (State_base st)"
  obtain a where a: "checked_sub i ?b = Some a"
    using True by (metis checked_sub_eq_None not_Some_eq not_less_iff_gr_or_eq)
  then have ua: "unat a = unat i - unat ?b"
    by (simp add: u64)
  obtain c where c: "checked_sub a 1 = Some c"
    using True ua by (metis checked_sub_eq_None not_Some_eq unat_1 less_one not_less_iff_gr_or_eq zero_less_diff)
  then have uc: "unat c = unat i - unat ?b - 1"
    using ua by (simp add: u64)
  have "length (State_entries st) \<le> State_CAP st"
    using wf by (rule slots_wf_cap)
  with a c True show ?thesis
    using wf by (auto simp: State_get_def usize_try_from_def Let_def uc slots_wf_nth)
next
  case False
  have "checked_sub i (li_index (State_base st)) = None
        \<or> checked_sub i (li_index (State_base st)) = Some 0"
    using False by (cases "unat i = unat (li_index (State_base st))")
      (auto simp: checked_sub_eq_None checked_sub_eq_Some)
  moreover have "checked_sub 0 1 = None"
    by (simp add: u64)
  ultimately show ?thesis
    using False by (auto simp: State_get_def Let_def)
qed

lemma State_get_mem:
  assumes "slots_wf st" and "log_chain (State_base st) (State_entries st)"
  shows "State_get i st = Some e \<longleftrightarrow> e \<in> set (State_entries st) \<and> li_index (en_id e) = i"
proof
  assume "State_get i st = Some e"
  then have lt: "unat (li_index (State_base st)) < unat i"
    and k: "unat i - unat (li_index (State_base st)) - 1 < length (State_entries st)"
    and e: "e = State_entries st ! (unat i - unat (li_index (State_base st)) - 1)"
    by (auto simp: State_get_eq [OF assms(1)] Let_def split: if_splits)
  have "unat (li_index (en_id e)) = unat i"
    using log_chain_nth [OF assms(2) k] lt e by simp
  then show "e \<in> set (State_entries st) \<and> li_index (en_id e) = i"
    using k e by (simp add: u64_eq_iff)
next
  assume e: "e \<in> set (State_entries st) \<and> li_index (en_id e) = i"
  then obtain k where "k < length (State_entries st)" and "e = State_entries st ! k"
    by (auto simp: in_set_conv_nth)
  moreover from this have "unat i = Suc (unat (li_index (State_base st)) + k)"
    using log_chain_nth [OF assms(2)] e by metis
  ultimately show "State_get i st = Some e"
    by (simp add: State_get_eq [OF assms(1)] Let_def)
qed

lemma State_get_defined:
  assumes "slots_wf st" and "log_chain (State_base st) (State_entries st)"
  shows "State_get i st \<noteq> None \<longleftrightarrow> li_index (State_base st) < i \<and> i \<le> li_index (State_last st)"
  using log_chain_last_index [OF assms(2)]
  by (auto simp: State_get_eq [OF assms(1)] Let_def State_last_def u64)

lemma State_id_at_cases:
  assumes "slots_wf st" and "log_chain (State_base st) (State_entries st)"
  shows "State_id_at i st = Some d \<longleftrightarrow>
    (i = li_index (State_base st) \<and> d = State_base st)
    \<or> (\<exists>e \<in> set (State_entries st). en_id e = d \<and> li_index d = i)"
proof (cases "i = li_index (State_base st)")
  case True
  then have "\<not> (\<exists>e \<in> set (State_entries st). en_id e = d \<and> li_index d = i)"
    using log_chain_mem_index [OF assms(2)] by force
  with True show ?thesis
    by (auto simp: State_id_at_def)
next
  case False
  then show ?thesis
    using State_get_mem [OF assms, of i] by (auto simp: State_id_at_def)
qed

lemma State_id_at_index:
  "\<lbrakk>slots_wf st; log_chain (State_base st) (State_entries st); State_id_at i st = Some d\<rbrakk>
     \<Longrightarrow> li_index d = i"
  by (auto simp: State_id_at_cases)

lemma State_id_at_defined:
  assumes "slots_wf st" and "log_chain (State_base st) (State_entries st)"
  shows "State_id_at i st \<noteq> None \<longleftrightarrow> li_index (State_base st) \<le> i \<and> i \<le> li_index (State_last st)"
  using State_get_defined [OF assms, of i] log_chain_last_index [OF assms(2)]
  by (auto simp: State_id_at_def State_last_def u64 u64_eq_iff)

lemma State_id_at_last:
  assumes "slots_wf st" and "log_chain (State_base st) (State_entries st)"
  shows "State_id_at (li_index (State_last st)) st = Some (State_last st)"
  by (auto simp: State_id_at_cases [OF assms] State_last_def log_last_def)

text \<open>Truncation keeps exactly the entries below the given index.\<close>

lemma State_truncate_spec:
  assumes "slots_wf st" and "log_chain (State_base st) (State_entries st)"
  shows "slots_wf (State_truncate from st)
    \<and> State_entries (State_truncate from st) =
        filter (\<lambda>e. li_index (en_id e) < from) (State_entries st)
    \<and> State_CAP (State_truncate from st) = State_CAP st
    \<and> st_hard (State_truncate from st) = st_hard st
    \<and> st_snapshot (State_truncate from st) = st_snapshot st"
  using assms
proof (induction "from" st rule: State_truncate.induct)
  case (1 "from" st)
  let ?es = "State_entries st"
  show ?case
  proof (cases "from \<le> li_index (State_last st) \<and> 0 < st_len st")
    case True
    let ?st' = "st\<lparr>st_entries := (st_entries st)[st_len st - 1 := None], st_len := st_len st - 1\<rparr>"
    have len: "st_len st = length ?es"
      and eq: "st_entries st = map Some ?es @ replicate (State_CAP st - st_len st) None"
      using "1.prems"(1) by (auto simp: slots_wf_iff)
    from True len obtain fs e where fs: "?es = fs @ [e]"
      by (metis length_greater_0_conv rev_exhaust)
    have "st_entries ?st' = map Some fs @ replicate (Suc (State_CAP st - st_len st)) None"
      using len fs by (simp, subst eq, simp add: list_update_append)
    moreover have "st_len ?st' = length fs"
      using len fs by simp
    ultimately have wf': "slots_wf ?st'" and es': "State_entries ?st' = fs"
      by (rule State_entries_layout)+
    have ch': "log_chain (State_base ?st') (State_entries ?st')"
      using "1.prems"(2) fs es' by (simp add: log_chain_append)
    have "\<not> li_index (en_id e) < from"
      using True fs by (simp add: State_last_def not_less)
    with "1.IH" [OF True wf' ch'] True fs es' show ?thesis
      by (subst (1 2 3 4 5) State_truncate.simps) simp
  next
    case False
    have "\<forall>e \<in> set ?es. li_index (en_id e) < from"
    proof
      fix e
      assume e: "e \<in> set ?es"
      then have "0 < st_len st"
        using "1.prems"(1) by (auto simp: slots_wf_len)
      with False have "li_index (State_last st) < from"
        by simp
      then show "li_index (en_id e) < from"
        using log_chain_mem_index [OF "1.prems"(2) e] log_chain_last_index [OF "1.prems"(2)]
        by (simp add: State_last_def u64)
    qed
    moreover have "State_truncate from st = st"
      using False by (subst State_truncate.simps) auto
    ultimately show ?thesis
      using "1.prems" by simp
  qed
qed

text \<open>Installing a snapshot keeps the entries above it when the log contains its last
  entry, and discards the whole log otherwise.\<close>

lemma State_install_keeps:
  assumes "State_install sn st = Some st'"
  shows "State_CAP st' = State_CAP st" and "st_snapshot st' = Some sn"
    and "st_hard st' = (st_hard st)\<lparr>hs_commit := max (hs_commit (st_hard st)) (li_index (sn_last sn))\<rparr>"
  using assms
  by (auto simp: State_install_def Let_def bind_eq_Some_conv split: if_splits)

lemma State_install_returns:
  assumes wf: "slots_wf st" and ch: "log_chain (State_base st) (State_entries st)"
  shows "returns (State_install sn st) (\<lambda>st'. slots_wf st'
    \<and> State_entries st' =
        (if State_id_at (li_index (sn_last sn)) st = Some (sn_last sn)
         then filter (\<lambda>e. li_index (sn_last sn) < li_index (en_id e)) (State_entries st) else []))"
proof -
  let ?es = "State_entries st" and ?i = "li_index (sn_last sn)" and ?b = "li_index (State_base st)"
  have len: "st_len st = length ?es" and le: "st_len st \<le> State_CAP st"
    and eq: "st_entries st = map Some ?es @ replicate (State_CAP st - st_len st) None"
    using wf by (auto simp: slots_wf_iff)
  have tk: "take (length ?es) (st_entries st) = map Some ?es"
    and dr: "drop (length ?es) (st_entries st) = replicate (State_CAP st - length ?es) None"
    using len by (subst eq, simp)+
  show ?thesis
  proof (cases "State_id_at ?i st = Some (sn_last sn)")
    case True
    define r where "r = unat (?i - ?b)"
    have bounds: "?b \<le> ?i" "?i \<le> li_index (State_last st)"
      using State_id_at_defined [OF wf ch, of ?i] True by auto
    have r: "r = unat ?i - unat ?b" "r \<le> length ?es"
      using bounds log_chain_last_index [OF ch]
      by (auto simp: r_def unat_sub State_last_def word_le_nat_alt)
    let ?ds = "drop r ?es"
    have "rotate r (map Some ?es) = map Some (?ds @ take r ?es)"
      using r(2) by (cases "r = length ?es") (simp_all add: rotate_drop_take drop_map take_map)
    moreover have "checked_sub ?i ?b = Some (?i - ?b)"
      using bounds(1) by (simp add: checked_sub_def)
    ultimately have "returns (State_install sn st) (\<lambda>st'.
        st_entries st' = map Some ?ds @ replicate (State_CAP st - length ?ds) None \<and> st_len st' = length ?ds)"
      using True len r(2) le by (simp add: State_install_def Let_def wp r_def [symmetric] tk)
    then obtain st' where st': "State_install sn st = Some st'"
      "st_entries st' = map Some ?ds @ replicate (State_CAP st - length ?ds) None" "st_len st' = length ?ds"
      by (auto simp: returns_iff)
    then show ?thesis
      using State_entries_layout [OF st'(2,3)] r le len True log_chain_filter_above [OF ch, of ?i] by simp
  next
    case False
    then have "returns (State_install sn st) (\<lambda>st'.
        st_entries st' = replicate (State_CAP st) None \<and> st_len st' = 0)"
      using le len by (simp add: State_install_def Let_def wp dr replicate_add [symmetric])
    then obtain st' where st': "State_install sn st = Some st'"
      "st_entries st' = replicate (State_CAP st) None" "st_len st' = 0"
      by (auto simp: returns_iff)
    then show ?thesis
      using State_entries_layout [of st' "[]" "State_CAP st"] False by simp
  qed
qed

lemma State_install_installed:
  assumes "slots_wf st" and "log_chain (State_base st) (State_entries st)"
  shows "State_install sn st = Some (installed sn st)"
  using State_install_returns [OF assms, of sn] by (auto simp: returns_iff installed_def)

lemma installed_spec:
  assumes wf: "slots_wf st" and ch: "log_chain (State_base st) (State_entries st)"
  shows "slots_wf (installed sn st)
    \<and> State_entries (installed sn st) =
        (if State_id_at (li_index (sn_last sn)) st = Some (sn_last sn)
         then filter (\<lambda>e. li_index (sn_last sn) < li_index (en_id e)) (State_entries st) else [])
    \<and> State_CAP (installed sn st) = State_CAP st
    \<and> st_hard (installed sn st) =
        (st_hard st)\<lparr>hs_commit := max (hs_commit (st_hard st)) (li_index (sn_last sn))\<rparr>
    \<and> st_snapshot (installed sn st) = Some sn"
  using State_install_returns [OF assms, of sn] State_install_installed [OF assms, of sn] State_install_keeps
  by auto

text \<open>Growing only adds free slots.\<close>

lemma State_grow_spec:
  assumes wf: "slots_wf st" and le: "State_CAP st \<le> new_cap"
  shows "slots_wf (State_grow new_cap st)
    \<and> State_entries (State_grow new_cap st) = State_entries st
    \<and> State_CAP (State_grow new_cap st) = new_cap
    \<and> st_hard (State_grow new_cap st) = st_hard st
    \<and> st_snapshot (State_grow new_cap st) = st_snapshot st"
proof -
  let ?es = "State_entries st"
  have len: "st_len st = length ?es" and cap: "length ?es \<le> State_CAP st"
    using wf by (simp_all add: slots_wf_len slots_wf_cap)
  have "st_entries (State_grow new_cap st) = map Some ?es @ replicate (new_cap - length ?es) None"
    using len cap le
    by (intro nth_equalityI) (auto simp: State_grow_def nth_append slots_wf_nth [OF wf])
  moreover have "st_len (State_grow new_cap st) = length ?es"
    using len by (simp add: State_grow_def)
  ultimately have "slots_wf (State_grow new_cap st)"
    and "State_entries (State_grow new_cap st) = ?es"
    by (rule State_entries_layout)+
  then show ?thesis
    by (simp add: State_grow_def)
qed

text \<open>A transaction carries exactly the entries from its truncation point on.\<close>

lemma State_write_entries:
  assumes wf: "slots_wf st" and ch: "log_chain (State_base st) (State_entries st)"
  shows "Write_entries (State_write st from ch') =
    (case from of None \<Rightarrow> [] | Some f \<Rightarrow> filter (\<lambda>e. f \<le> li_index (en_id e)) (State_entries st))"
proof -
  let ?es = "State_entries st" and ?b = "li_index (State_base st)"
  have len: "st_len st = length ?es"
    and tk: "take (st_len st) (st_entries st) = map Some ?es"
    using wf by (rule slots_wf_len, rule slots_wf_take)
  have tk': "take (length ?es) (st_entries st) = map Some ?es"
    using tk len by simp
  have fl: "flatten (drop n (map Some ?es)) = drop n ?es" for n
    by (simp add: drop_map)
  show ?thesis
  proof (cases "from")
    case None
    then show ?thesis
      using len by (simp add: Write_entries_def State_write_def tk' fl)
  next
    case (Some f)
    have off: "unat (saturating_sub (saturating_sub f ?b) 1) = unat f - unat ?b - 1"
      by (simp add: u64)
    have "filter (\<lambda>e. f \<le> li_index (en_id e)) ?es = drop (unat f - unat ?b - 1) ?es"
    proof (cases "f = 0")
      case True
      then show ?thesis by simp
    next
      case False
      then have f1: "unat (f - 1) = unat f - 1"
        by (simp add: unat_minus_one)
      have "0 < unat f"
        using False by (simp add: unat_gt_0)
      then have "(f \<le> x) = (f - 1 < x)" for x
        using f1 by (auto simp: word_le_nat_alt word_less_nat_alt)
      then have "filter (\<lambda>e. f \<le> li_index (en_id e)) ?es = filter (\<lambda>e. f - 1 < li_index (en_id e)) ?es"
        by simp
      also have "\<dots> = drop (unat f - unat ?b - 1) ?es"
        using log_chain_filter_above [OF ch, of "f - 1"] f1 by (simp add: diff_commute)
      finally show ?thesis .
    qed
    then show ?thesis
      using Some len off
      by (simp add: Write_entries_def State_write_def Let_def usize_try_from_def tk' fl min_def)
  qed
qed

section \<open>Restoring a checkpoint\<close>

text \<open>The loop of \<^verbatim>\<open>State::restore\<close> accepts exactly the logs that continue the boundary, and
  stops at the first entry that does not fit.\<close>

lemma State_restore_entries_Ok:
  assumes "slots_wf st" and "log_chain (State_base st) (State_entries st)"
    and "li_term (State_last st) \<le> hs_term hard"
  shows "State_restore_entries hard es st = Ok st' \<longleftrightarrow>
    slots_wf st' \<and> State_CAP st' = State_CAP st \<and> st_hard st' = st_hard st
    \<and> st_snapshot st' = st_snapshot st \<and> State_entries st' = State_entries st @ es
    \<and> log_chain (State_last st) es \<and> li_term (log_last (State_last st) es) \<le> hs_term hard"
  using assms
proof (induction es arbitrary: st)
  case Nil
  then show ?case
    by (auto intro: State_eqI)
next
  case (Cons e es)
  note wf = Cons.prems(1) and ch = Cons.prems(2)
  let ?ok = "checked_add (li_index (State_last st)) 1 = Some (li_index (en_id e))
      \<and> li_term (en_id e) \<noteq> 0 \<and> li_term (State_last st) \<le> li_term (en_id e)
      \<and> li_term (en_id e) \<le> hs_term hard"
  show ?case
  proof (cases ?ok)
    case False
    have "li_term (en_id e) \<le> li_term (log_last (en_id e) es)" if "log_chain (en_id e) es"
      using that by (rule log_chain_last_term)
    with False show ?thesis
      by (auto simp: Let_def log_last_Cons not_less not_le dest: order_trans)
  next
    case True
    from wf show ?thesis
    proof (cases rule: State_push_cases [where e = e])
      case full
      have "\<not> (slots_wf st' \<and> State_CAP st' = State_CAP st \<and> State_entries st' = State_entries st @ e # es)"
      proof
        assume a: "slots_wf st' \<and> State_CAP st' = State_CAP st \<and> State_entries st' = State_entries st @ e # es"
        then have "Suc (length (State_entries st)) \<le> State_CAP st"
          using slots_wf_cap [of st'] by simp
        with full(1) wf show False
          by (simp add: State_full_iff)
      qed
      moreover have "State_restore_entries hard (e # es) st = Err ErrFull"
        using full(2) True by (simp add: Let_def not_less)
      ultimately show ?thesis
        by (auto simp del: State_restore_entries.simps)
    next
      case (ok u)
      have base: "State_base u = State_base st"
        using ok(7) by (rule State_base_cong)
      have last: "State_last u = en_id e"
        using ok by (simp add: State_last_def)
      have "log_chain (State_base u) (State_entries u)"
        using ch True ok base by (simp add: log_chain_append State_last_def)
      with Cons.IH [of u] ok True last show ?thesis
        by (auto simp: Let_def log_last_Cons dest: leD)
    qed
  qed
qed

lemma State_restore_Ok:
  fixes st :: "('v, 's) State"
  shows "State_restore cap hard snapshot es = Ok st \<longleftrightarrow>
     State_inv st \<and> State_CAP st = cap \<and> st_hard st = hard \<and> st_snapshot st = snapshot
     \<and> State_entries st = es"
proof -
  let ?st0 = "(State_new cap)\<lparr>st_hard := hard, st_snapshot := snapshot\<rparr> :: ('v, 's) State"
  have st0: "slots_wf ?st0" "State_entries ?st0 = []" "State_CAP ?st0 = cap"
    by (simp_all add: State_new_def slots_wf_def State_entries_def list_all_iff)
  have last0: "State_last ?st0 = State_base ?st0"
    using st0(2) by (simp add: State_last_def)
  show ?thesis
  proof (cases "hs_term hard < li_term (State_base ?st0)")
    case True
    have "\<not> (State_inv st \<and> st_hard st = hard \<and> st_snapshot st = snapshot)"
    proof
      assume a: "State_inv st \<and> st_hard st = hard \<and> st_snapshot st = snapshot"
      then have "State_base st = State_base ?st0"
        by (simp add: State_base_def)
      with a True log_chain_last_term [of "State_base st" "State_entries st"] show False
        by (auto simp: State_inv_def State_last_def)
    qed
    with True show ?thesis
      by (auto simp: State_restore_def Let_def)
  next
    case False
    then have "li_term (State_last ?st0) \<le> hs_term hard"
      using last0 by simp
    note iff = State_restore_entries_Ok [OF st0(1) _ this, of es st, unfolded st0(2,3)]
    have base: "State_base st = State_base ?st0" if "st_snapshot st = snapshot"
      using that by (simp add: State_base_def)
    show ?thesis
      using False iff last0 st0 base
      by (auto simp: State_restore_def Let_def State_inv_def State_last_def not_less
          split: Result.splits if_splits)
  qed
qed

end
