(* ===== verification/Jarl_Storage.thy ===== *)
theory Jarl_Storage
  imports Jarl_State
begin

text \<open>
  Two contracts around the bounded checkpoint.

  \<^item> The locale \<open>bounded_log\<close> is what the proposal code of \<^verbatim>\<open>jarl/src/node.rs\<close> relies on: a
    bounded log with \<open>push\<close> and \<open>truncate\<close>. The loop that admits a proposal batch
    (\<open>push_values\<close>) and its rollback are verified once against it, and it is interpreted on
    the slot array of \<open>Jarl_State\<close>.
  \<^item> \<open>Durable\<close> is the content a storage backend holds, and \<open>Durable_apply\<close> the effect of one
    \<^verbatim>\<open>Write\<close> transaction as the documentation of \<^verbatim>\<open>jarl/src/ready.rs\<close> prescribes it. The
    relation \<open>covers\<close> says that everything below the recorded truncation point is already
    durable; it implies that applying the transaction reproduces the checkpoint, and it is
    kept by every way the protocol changes the log.
\<close>

section \<open>Admitting a batch\<close>

text \<open>How the loop over proposed values ends: all admitted, a push failed, or the iterator
  unwound (an application \<^verbatim>\<open>Clone\<close> panicked, written \<open>None\<close> in the list of values).\<close>

datatype PushEnd = PushDone | PushFailed Error | PushUnwound

fun push_values ::
    "('v Entry \<Rightarrow> 'st \<Rightarrow> unit Result \<times> 'st) \<Rightarrow> LogId \<Rightarrow> usize \<Rightarrow> 'v option list \<Rightarrow> 'st
     \<Rightarrow> (PushEnd \<times> 'st) option" where
  "push_values push first offset [] st = Some (PushDone, st)"
| "push_values push first offset (None # vs) st = Some (PushUnwound, st)"
| "push_values push first offset (Some v # vs) st = do {
     index \<leftarrow> checked_add (li_index first) (of_nat offset);
     (case push \<lparr>en_id = \<lparr>li_index = index, li_term = li_term first\<rparr>, en_value = Some v\<rparr> st of
        (Err e, st') \<Rightarrow> Some (PushFailed e, st')
      | (Ok _, st') \<Rightarrow> push_values push first (Suc offset) vs st')
   }"

text \<open>The entries a batch of values becomes.\<close>

fun batch_entries :: "u64 \<Rightarrow> u64 \<Rightarrow> 'v list \<Rightarrow> 'v Entry list" where
  "batch_entries index term [] = []"
| "batch_entries index term (v # vs) =
     \<lparr>en_id = \<lparr>li_index = index, li_term = term\<rparr>, en_value = Some v\<rparr> # batch_entries (index + 1) term vs"

lemma batch_entries_length [simp]: "length (batch_entries i t vs) = length vs"
  by (induction vs arbitrary: i) auto

lemma batch_entries_values [simp]: "map en_value (batch_entries i t vs) = map Some vs"
  by (induction vs arbitrary: i) auto

lemma batch_entries_append:
  "batch_entries i t (vs @ ws) = batch_entries i t vs @ batch_entries (i + of_nat (length vs)) t ws"
  by (induction vs arbitrary: i) (auto simp: ac_simps)

lemma batch_entries_last:
  assumes "vs \<noteq> []"
  shows "en_id (last (batch_entries i t vs)) = \<lparr>li_index = i + of_nat (length vs - 1), li_term = t\<rparr>"
proof -
  from assms obtain us v where "vs = us @ [v]"
    by (cases vs rule: rev_cases) auto
  then show ?thesis
    by (simp add: batch_entries_append)
qed

lemma batch_entries_chain:
  assumes "unat (li_index b) + length vs < 2 ^ 64" and "li_term b \<le> t" and "t \<noteq> 0"
  shows "log_chain b (batch_entries (li_index b + 1) t vs)"
  using assms
proof (induction vs arbitrary: b)
  case (Cons v vs)
  let ?e = "\<lparr>li_index = li_index b + 1, li_term = t\<rparr>"
  have "unat (li_index b) + unat (1 :: u64) < 2 ^ 64"
    using Cons.prems(1) by simp
  then have add: "checked_add (li_index b) 1 = Some (li_index b + 1)"
    by (simp add: checked_add_def)
  then have "unat (li_index b + 1) = Suc (unat (li_index b))"
    by (simp add: u64)
  then have "log_chain ?e (batch_entries (li_index ?e + 1) t vs)"
    using Cons.prems by (intro Cons.IH) simp_all
  with add Cons.prems(2,3) show ?case
    by simp
qed simp

section \<open>The bounded-log interface\<close>

locale bounded_log =
  fixes inv :: "'st \<Rightarrow> bool"
    and cap :: "'st \<Rightarrow> nat"
    and frame :: "'st \<Rightarrow> 'f"
    and base :: "'st \<Rightarrow> LogId"
    and log :: "'st \<Rightarrow> 'v Entry list"
    and push :: "'v Entry \<Rightarrow> 'st \<Rightarrow> unit Result \<times> 'st"
    and truncate :: "u64 \<Rightarrow> 'st \<Rightarrow> 'st"
  assumes log_bound: "inv st \<Longrightarrow> length (log st) \<le> cap st"
    and push_full: "inv st \<Longrightarrow> length (log st) = cap st \<Longrightarrow> push e st = (Err ErrFull, st)"
    and push_room: "inv st \<Longrightarrow> length (log st) < cap st \<Longrightarrow>
      \<exists>st'. push e st = (Ok (), st') \<and> inv st' \<and> cap st' = cap st \<and> frame st' = frame st
        \<and> log st' = log st @ [e]"
    and truncate_inv: "inv st \<Longrightarrow> log_chain (base st) (log st) \<Longrightarrow> inv (truncate f st)"
    and truncate_cap: "inv st \<Longrightarrow> log_chain (base st) (log st) \<Longrightarrow> cap (truncate f st) = cap st"
    and truncate_frame:
      "inv st \<Longrightarrow> log_chain (base st) (log st) \<Longrightarrow> frame (truncate f st) = frame st"
    and truncate_log: "inv st \<Longrightarrow> log_chain (base st) (log st) \<Longrightarrow>
      log (truncate f st) = filter (\<lambda>e. li_index (en_id e) < f) (log st)"
    and frame_base: "frame a = frame b \<Longrightarrow> base a = base b"
    and extensional: "inv a \<Longrightarrow> inv b \<Longrightarrow> cap a = cap b \<Longrightarrow> frame a = frame b \<Longrightarrow> log a = log b \<Longrightarrow> a = b"
begin

text \<open>A batch that fits is admitted whole, in order, with consecutive indices.\<close>

lemma push_values_done:
  assumes "inv st" and "length (log st) + length vs \<le> cap st"
    and "unat (li_index first) + offset + length vs \<le> 2 ^ 64"
  shows "\<exists>st'. push_values push first offset (map Some vs) st = Some (PushDone, st')
    \<and> inv st' \<and> cap st' = cap st \<and> frame st' = frame st
    \<and> log st' = log st @ batch_entries (li_index first + of_nat offset) (li_term first) vs"
  using assms
proof (induction vs arbitrary: st offset)
  case (Cons v vs)
  let ?e = "\<lparr>en_id = \<lparr>li_index = li_index first + of_nat offset, li_term = li_term first\<rparr>, en_value = Some v\<rparr>"
  have "unat (of_nat offset :: u64) = offset"
    using Cons.prems(3) by (simp add: unat_of_nat)
  then have add: "checked_add (li_index first) (of_nat offset) = Some (li_index first + of_nat offset)"
    using Cons.prems(3) by (simp add: checked_add_def)
  obtain u where u: "push ?e st = (Ok (), u)" "inv u" "cap u = cap st" "frame u = frame st"
    "log u = log st @ [?e]"
    using push_room [OF Cons.prems(1), of ?e] Cons.prems(2) by auto
  have "length (log u) + length vs \<le> cap u" "unat (li_index first) + Suc offset + length vs \<le> 2 ^ 64"
    using Cons.prems u by simp_all
  from Cons.IH [OF u(2) this] obtain w where w:
    "push_values push first (Suc offset) (map Some vs) u = Some (PushDone, w)"
    "inv w" "cap w = cap u" "frame w = frame u"
    "log w = log u @ batch_entries (li_index first + of_nat (Suc offset)) (li_term first) vs"
    by blast
  with u add show ?case
    by (intro exI [of _ w]) (simp add: ac_simps)
qed simp

text \<open>However the loop ends, it has only appended a batch.\<close>

lemma push_values_appends:
  assumes "inv st" and "unat (li_index first) + offset + length vs \<le> 2 ^ 64"
  shows "\<exists>r st' ws. push_values push first offset vs st = Some (r, st')
    \<and> inv st' \<and> cap st' = cap st \<and> frame st' = frame st \<and> length ws \<le> length vs
    \<and> log st' = log st @ batch_entries (li_index first + of_nat offset) (li_term first) ws"
  using assms
proof (induction vs arbitrary: st offset)
  case Nil
  then show ?case
    by (intro exI [of _ PushDone] exI [of _ st] exI [of _ "[]"]) simp
next
  case (Cons x vs)
  show ?case
  proof (cases x)
    case None
    with Cons.prems show ?thesis
      by (intro exI [of _ PushUnwound] exI [of _ st] exI [of _ "[]"]) simp
  next
    case (Some v)
    let ?i = "li_index first + of_nat offset"
    let ?e = "\<lparr>en_id = \<lparr>li_index = ?i, li_term = li_term first\<rparr>, en_value = Some v\<rparr>"
    have "unat (of_nat offset :: u64) = offset"
      using Cons.prems(2) by (simp add: unat_of_nat)
    then have add: "checked_add (li_index first) (of_nat offset) = Some ?i"
      using Cons.prems(2) by (simp add: checked_add_def)
    show ?thesis
    proof (cases "length (log st) = cap st")
      case True
      with Some add push_full [OF Cons.prems(1) True] Cons.prems(1) show ?thesis
        by (intro exI [of _ "PushFailed ErrFull"] exI [of _ st] exI [of _ "[]"]) simp
    next
      case False
      then have "length (log st) < cap st"
        using log_bound [OF Cons.prems(1)] by simp
      from push_room [OF Cons.prems(1) this, of ?e] obtain u where
        u: "push ?e st = (Ok (), u)" "inv u" "cap u = cap st" "frame u = frame st"
          "log u = log st @ [?e]"
        by blast
      have "unat (li_index first) + Suc offset + length vs \<le> 2 ^ 64"
        using Cons.prems(2) by simp
      from Cons.IH [OF u(2) this] obtain r w ws where w:
        "push_values push first (Suc offset) vs u = Some (r, w)" "inv w" "cap w = cap u"
        "frame w = frame u" "length ws \<le> length vs"
        "log w = log u @ batch_entries (li_index first + of_nat (Suc offset)) (li_term first) ws"
        by blast
      with u Some add show ?thesis
        by (intro exI [of _ r] exI [of _ w] exI [of _ "v # ws"]) (simp add: ac_simps)
    qed
  qed
qed

text \<open>Truncating at the first index of the batch gives back the state before it.\<close>

lemma truncate_batch:
  assumes st: "inv st" "log_chain (base st) (log st)"
    and st': "inv st'" "cap st' = cap st" "frame st' = frame st"
      "log st' = log st @ batch_entries (li_index (log_last (base st) (log st)) + 1) t ws"
    and fits: "unat (li_index (log_last (base st) (log st))) + length ws < 2 ^ 64"
    and room: "unat (li_index (log_last (base st) (log st))) + 1 < 2 ^ 64"
    and t: "li_term (log_last (base st) (log st)) \<le> t" "t \<noteq> 0"
  shows "truncate (li_index (log_last (base st) (log st)) + 1) st' = st"
proof -
  let ?b = "log_last (base st) (log st)"
  let ?f = "li_index ?b + 1" and ?bs = "batch_entries (li_index (log_last (base st) (log st)) + 1) t ws"
  have base: "base st' = base st"
    using st'(3) by (rule frame_base)
  have bs: "log_chain ?b ?bs"
    using fits t by (rule batch_entries_chain)
  then have ch: "log_chain (base st') (log st')"
    using st(2) by (simp add: base st'(4) log_chain_append)
  have "unat ?f = Suc (unat (li_index ?b))"
    using room by (simp add: unat_word_ariths)
  then have "\<not> li_index (en_id e) < ?f" if "e \<in> set ?bs" for e
    using log_chain_mem_index [OF bs that] by (simp add: word_less_nat_alt)
  moreover have "li_index (en_id e) < ?f" if "e \<in> set (log st)" for e
    using log_chain_mem_index [OF st(2) that] log_chain_last_index [OF st(2)]
      \<open>unat ?f = Suc (unat (li_index ?b))\<close> by (simp add: word_less_nat_alt)
  ultimately have "filter (\<lambda>e. li_index (en_id e) < ?f) ?bs = []"
    and "filter (\<lambda>e. li_index (en_id e) < ?f) (log st) = log st"
    by (simp_all add: filter_empty_conv filter_id_conv)
  then have "log (truncate ?f st') = log st"
    by (simp add: truncate_log [OF st'(1) ch] st'(4))
  then show ?thesis
    using st(1) st'(2,3)
    by (intro extensional) (simp_all add: truncate_inv truncate_cap truncate_frame st'(1) ch)
qed

end

interpretation slots: bounded_log slots_wf State_CAP "\<lambda>st. (st_hard st, st_snapshot st)"
  State_base State_entries State_push State_truncate
proof (unfold_locales, goal_cases)
  case (1 st)
  then show ?case by (rule slots_wf_cap)
next
  case (2 st e)
  then show ?case by (simp add: State_push_full State_full_iff)
next
  case (3 st e)
  then have "\<not> State_full st"
    by (simp add: State_full_iff)
  with 3(1) show ?case
    by (rule State_push_ok [of st e]) auto
next
  case (8 a b)
  then show ?case by (simp add: State_base_def)
next
  case (9 a b)
  then show ?case by (intro State_eqI) auto
qed (simp_all add: State_truncate_spec)

section \<open>Durable content and transactions\<close>

record ('v, 's) Durable =
  du_hard :: HardState
  du_snapshot :: "'s Snapshot option"
  du_entries :: "'v Entry list"

definition Durable_of :: "('v, 's) State \<Rightarrow> ('v, 's) Durable" where
  "Durable_of st =
     \<lparr>du_hard = st_hard st, du_snapshot = st_snapshot st, du_entries = State_entries st\<rparr>"

text \<open>The three steps the documentation of \<^verbatim>\<open>Write\<close> prescribes, in their order.\<close>

definition Durable_apply :: "('v, 's) Write \<Rightarrow> ('v, 's) Durable \<Rightarrow> ('v, 's) Durable" where
  "Durable_apply w d =
     (let d1 = (case w_snapshot w of
                  None \<Rightarrow> d
                | Some s \<Rightarrow> d\<lparr>du_snapshot := Some s,
                    du_entries := filter (\<lambda>e. li_index (sn_last s) < li_index (en_id e)) (du_entries d)\<rparr>);
          d2 = (case w_truncate_from w of
                  None \<Rightarrow> d1
                | Some f \<Rightarrow> d1\<lparr>du_entries := filter (\<lambda>e. li_index (en_id e) < f) (du_entries d1)\<rparr>)
      in d2\<lparr>du_entries := du_entries d2 @ Write_entries w, du_hard := w_hard w\<rparr>)"

text \<open>
  \<open>covers d st from changed\<close>: relative to the durable checkpoint \<open>d\<close>, the live checkpoint
  \<open>st\<close> differs below the truncation point \<open>from\<close> only by a snapshot that is flagged.
\<close>

definition kept :: "('v, 's) State \<Rightarrow> ('v, 's) State \<Rightarrow> bool \<Rightarrow> 'v Entry list" where
  "kept d st changed =
     (if changed then filter (\<lambda>e. li_index (State_base st) < li_index (en_id e)) (State_entries d)
      else State_entries d)"

definition covers ::
    "('v, 's) State \<Rightarrow> ('v, 's) State \<Rightarrow> u64 option \<Rightarrow> bool \<Rightarrow> bool" where
  "covers d st from changed \<longleftrightarrow>
     (if changed then st_snapshot st \<noteq> None else st_snapshot st = st_snapshot d)
     \<and> State_CAP st = State_CAP d
     \<and> (case from of
          None \<Rightarrow> State_entries st = kept d st changed
        | Some f \<Rightarrow> filter (\<lambda>e. li_index (en_id e) < f) (State_entries st)
                  = filter (\<lambda>e. li_index (en_id e) < f) (kept d st changed))"

lemma log_chain_split_at:
  assumes "log_chain b es"
  shows "es = filter (\<lambda>e. li_index (en_id e) < f) es @ filter (\<lambda>e. f \<le> li_index (en_id e)) es"
  using assms
proof (induction es arbitrary: b)
  case (Cons e es)
  show ?case
  proof (cases "li_index (en_id e) < f")
    case True
    with Cons show ?thesis
      by (auto simp: not_le)
  next
    case False
    have above: "f \<le> li_index (en_id x)" if "x \<in> set es" for x
      using False Cons.prems log_chain_mem_index [OF _ that, of "en_id e"]
      by (simp add: u64 not_less)
    then have "filter (\<lambda>x. li_index (en_id x) < f) es = []"
      by (auto simp: filter_empty_conv not_less)
    moreover have "filter (\<lambda>x. f \<le> li_index (en_id x)) es = es"
      using above by (simp add: filter_id_conv)
    ultimately show ?thesis
      using False by (simp add: not_less)
  qed
qed simp

lemma State_write_simps [simp]:
  "w_snapshot (State_write st from changed) = (if changed then st_snapshot st else None)"
  "w_hard (State_write st from changed) = st_hard st"
  "w_truncate_from (State_write st from changed) = from"
  by (simp_all add: State_write_def Let_def)

lemma Durable_apply_entries:
  "du_entries (Durable_apply w d) =
     (let es = (case w_snapshot w of
                  None \<Rightarrow> du_entries d
                | Some s \<Rightarrow> filter (\<lambda>e. li_index (sn_last s) < li_index (en_id e)) (du_entries d))
      in (case w_truncate_from w of None \<Rightarrow> es | Some f \<Rightarrow> filter (\<lambda>e. li_index (en_id e) < f) es)
         @ Write_entries w)"
  by (simp add: Durable_apply_def Let_def split: option.splits)

text \<open>Applying the transaction to what is durable reproduces the live checkpoint.\<close>

lemma covers_write:
  assumes cov: "covers d st from changed" and wf: "slots_wf st"
    and ch: "log_chain (State_base st) (State_entries st)"
  shows "Durable_apply (State_write st from changed) (Durable_of d) = Durable_of st"
proof -
  have kept_eq: "(case w_snapshot (State_write st from changed) of
        None \<Rightarrow> du_entries (Durable_of d)
      | Some s \<Rightarrow> filter (\<lambda>e. li_index (sn_last s) < li_index (en_id e)) (du_entries (Durable_of d)))
      = kept d st changed"
    using cov by (auto simp: kept_def covers_def State_base_def Durable_of_def split: option.splits)
  have "du_entries (Durable_apply (State_write st from changed) (Durable_of d)) = State_entries st"
    using cov unfolding Durable_apply_entries kept_eq
    by (cases "from")
      (auto simp: covers_def State_write_entries [OF wf ch] log_chain_split_at [OF ch, symmetric]
        dest: sym)
  moreover have "du_snapshot (Durable_apply (State_write st from changed) (Durable_of d)) = st_snapshot st"
    using cov by (auto simp: Durable_apply_def Let_def Durable_of_def covers_def split: option.splits if_splits)
  moreover have "du_hard (Durable_apply (State_write st from changed) (Durable_of d)) = st_hard st"
    by (simp add: Durable_apply_def Let_def)
  ultimately show ?thesis
    by (simp add: Durable_of_def)
qed

text \<open>How the protocol changes the log, and how it moves the truncation point along.\<close>

definition lower_from :: "u64 option \<Rightarrow> u64 \<Rightarrow> u64" where
  "lower_from from i = (case from of None \<Rightarrow> i | Some f \<Rightarrow> min f i)"

lemma covers_refl: "covers d d None False"
  by (simp add: covers_def kept_def)

lemma covers_hard [simp]: "covers d (st\<lparr>st_hard := h\<rparr>) from changed = covers d st from changed"
  by (cases "from") (simp_all add: covers_def kept_def)

lemma kept_cong: "st_snapshot a = st_snapshot b \<Longrightarrow> kept d a changed = kept d b changed"
  by (simp add: kept_def State_base_def)

lemma covers_below:
  assumes "covers d st from changed" and "case from of None \<Rightarrow> True | Some f \<Rightarrow> i \<le> f"
  shows "filter (\<lambda>e. li_index (en_id e) < i) (State_entries st)
    = filter (\<lambda>e. li_index (en_id e) < i) (kept d st changed)"
proof (cases "from")
  case None
  with assms show ?thesis
    by (simp add: covers_def)
next
  case (Some f)
  then have le: "i \<le> f"
    using assms(2) by simp
  have step: "filter (\<lambda>e. li_index (en_id e) < i) xs =
      filter (\<lambda>e. li_index (en_id e) < i) (filter (\<lambda>e. li_index (en_id e) < f) xs)" for xs :: "'a Entry list"
    using le by (auto intro!: filter_cong dest: less_le_trans)
  have eq: "filter (\<lambda>e. li_index (en_id e) < f) (State_entries st)
      = filter (\<lambda>e. li_index (en_id e) < f) (kept d st changed)"
    using Some assms(1) by (simp add: covers_def)
  show ?thesis
    unfolding step [of "State_entries st"] step [of "kept d st changed"] eq ..
qed

lemma lower_from_le: "case from of None \<Rightarrow> True | Some f \<Rightarrow> lower_from from i \<le> f"
  by (simp add: lower_from_def split: option.splits)

lemma lower_from_le_index: "lower_from from i \<le> i"
  by (simp add: lower_from_def split: option.splits)

lemma covers_push:
  assumes cov: "covers d st from changed" and wf: "slots_wf st"
    and push: "State_push e st = (Ok (), st')"
  shows "covers d st' (Some (lower_from from (li_index (en_id e)))) changed"
proof -
  from wf obtain st' where st': "State_push e st = (Ok (), st')" "State_CAP st' = State_CAP st"
    "State_entries st' = State_entries st @ [e]" "st_snapshot st' = st_snapshot st"
    using push by (cases rule: State_push_cases [where e = e]) auto
  moreover have "kept d st' changed = kept d st changed"
    using st'(4) by (rule kept_cong)
  moreover have "\<not> li_index (en_id e) < lower_from from (li_index (en_id e))"
    using lower_from_le_index [of "from" "li_index (en_id e)"] by (simp add: not_less)
  ultimately show ?thesis
    using cov covers_below [OF cov lower_from_le, of "li_index (en_id e)"] push
    by (simp add: covers_def)
qed

lemma covers_truncate:
  assumes cov: "covers d st from changed" and wf: "slots_wf st"
    and ch: "log_chain (State_base st) (State_entries st)"
  shows "covers d (State_truncate i st) (Some (lower_from from i)) changed"
proof -
  note tr = State_truncate_spec [OF wf ch, of i]
  have "kept d (State_truncate i st) changed = kept d st changed"
    using tr by (intro kept_cong) simp
  moreover have "filter (\<lambda>e. li_index (en_id e) < lower_from from i) (filter (\<lambda>e. li_index (en_id e) < i) xs)
      = filter (\<lambda>e. li_index (en_id e) < lower_from from i) xs" for xs :: "'a Entry list"
    using lower_from_le_index [of "from" i] by (auto intro!: filter_cong dest: less_le_trans)
  ultimately show ?thesis
    using tr cov covers_below [OF cov lower_from_le, of i]
    by (simp add: covers_def del: filter_filter)
qed

lemma covers_replace:
  assumes "covers d st from changed" and "slots_wf st"
    and "log_chain (State_base st) (State_entries st)"
    and "State_push e (State_truncate (li_index (en_id e)) st) = (Ok (), st')"
  shows "covers d st' (Some (lower_from from (li_index (en_id e)))) changed"
proof -
  note tr = State_truncate_spec [OF assms(2,3), of "li_index (en_id e)"]
  from covers_push [OF covers_truncate [OF assms(1-3)] _ assms(4)] tr show ?thesis
    by (simp add: lower_from_def split: option.splits)
qed

lemma filter_above_trans:
  "b \<le> i \<Longrightarrow> filter (\<lambda>e. i < li_index (en_id e)) (filter (\<lambda>e. b < li_index (en_id e)) xs)
     = filter (\<lambda>e. i < li_index (en_id e)) (xs :: 'v Entry list)"
  by (auto intro!: filter_cong)

lemma kept_above:
  assumes "li_index (State_base st) \<le> i"
  shows "filter (\<lambda>e. i < li_index (en_id e)) (kept d st changed)
    = filter (\<lambda>e. i < li_index (en_id e)) (State_entries d)"
  using assms by (simp add: kept_def filter_above_trans del: filter_filter)

lemma covers_install_matching:
  assumes cov: "covers d st from changed" and wf: "slots_wf st"
    and ch: "log_chain (State_base st) (State_entries st)"
    and at: "State_id_at (li_index (sn_last sn)) st = Some (sn_last sn)"
  shows "covers d (installed sn st) from True"
proof -
  note ins = installed_spec [OF wf ch, of sn]
  let ?i = "li_index (sn_last sn)"
  have "li_index (State_base st) \<le> ?i"
    using State_id_at_defined [OF wf ch, of ?i] at by simp
  note above = kept_above [OF this, of d changed]
  have base: "State_base (installed sn st) = sn_last sn"
    using ins by (simp add: State_base_def)
  have kept': "kept d (installed sn st) True = filter (\<lambda>e. ?i < li_index (en_id e)) (kept d st changed)"
    unfolding above by (simp add: kept_def base)
  have swap: "filter P (filter Q xs) = filter Q (filter P xs)" for P Q and xs :: "'a Entry list"
    by (simp add: conj_commute)
  show ?thesis
    using cov ins at kept' unfolding covers_def
    by (cases "from") (simp_all add: swap [of "\<lambda>e. li_index (en_id e) < _"] del: filter_filter)
qed

lemma covers_install_other:
  assumes cov: "covers d st from changed" and wf: "slots_wf st"
    and ch: "log_chain (State_base st) (State_entries st)"
    and at: "State_id_at (li_index (sn_last sn)) st \<noteq> Some (sn_last sn)"
  shows "covers d (installed sn st) (checked_add (li_index (sn_last sn)) 1) True"
proof -
  note ins = installed_spec [OF wf ch, of sn]
  let ?i = "li_index (sn_last sn)"
  have base: "State_base (installed sn st) = sn_last sn"
    using ins by (simp add: State_base_def)
  show ?thesis
  proof (cases "checked_add ?i 1")
    case None
    have "\<not> ?i < x" for x
    proof -
      have "18446744073709551615 \<le> unat ?i"
        using None by (simp add: u64)
      then have "\<not> unat ?i < unat x"
        using unat_u64_lt [of x] by linarith
      then show ?thesis
        by (simp add: u64)
    qed
    with None cov ins at show ?thesis
      by (simp add: covers_def kept_def base)
  next
    case (Some f)
    have "\<not> (?i < x \<and> x < f)" for x
      using Some by (simp add: u64)
    with Some cov ins at show ?thesis
      by (auto simp: covers_def kept_def base filter_empty_conv)
  qed
qed

end
