(* ===== verification/Jarl_Membership.thy ===== *)
theory Jarl_Membership
  imports Jarl_Types
begin

text \<open>
  Runtime membership from \<^verbatim>\<open>jarl/src/membership.rs\<close>: a fixed array of \<open>MAX\<close> slots, each empty or
  holding a member with its voter, old-voter and learner flags, and the quorum functions.

  The array represents a finite map from identities to flags (\<open>Membership_map\<close>). The lemmas
  give the meaning of every operation on that map, characterise \<open>Membership_quorum\<close> and
  \<open>Membership_quorum_index\<close>, and show that quorums overlap within a configuration and across
  the steps of a joint reconfiguration (locale \<open>overlapping_quorums\<close>).
\<close>

section \<open>Data\<close>

record Member =
  m_id :: Id
  m_voter :: bool
  m_old :: bool
  m_learner :: bool

record Membership =
  mb_members :: "Member option list"

abbreviation Membership_MAX :: "Membership \<Rightarrow> usize" where
  "Membership_MAX m \<equiv> length (mb_members m)"

definition Membership_empty :: "usize \<Rightarrow> Membership" where
  "Membership_empty mx = \<lparr>mb_members = replicate mx None\<rparr>"

section \<open>Operations\<close>

text \<open>\<^verbatim>\<open>PartialEq::eq\<close>: equal member counts and inclusion.\<close>

definition Membership_eq :: "Membership \<Rightarrow> Membership \<Rightarrow> bool" where
  "Membership_eq a b \<longleftrightarrow>
     length (flatten (mb_members a)) = length (flatten (mb_members b))
     \<and> list_all (\<lambda>m. list_ex (\<lambda>o'. o' = m) (flatten (mb_members b))) (flatten (mb_members a))"

definition Membership_include :: "Id \<Rightarrow> nat \<Rightarrow> Membership \<Rightarrow> Membership Result" where
  "Membership_include i kind m =
     (case (case position (is_some_and (\<lambda>x. m_id x = i)) (mb_members m) of
              Some slot \<Rightarrow> Some slot
            | None \<Rightarrow> position (\<lambda>x. x = None) (mb_members m)) of
        None \<Rightarrow> Err ErrConfig
      | Some slot \<Rightarrow>
          (let member = (case mb_members m ! slot of
                           Some x \<Rightarrow> x
                         | None \<Rightarrow> \<lparr>m_id = i, m_voter = False, m_old = False, m_learner = False\<rparr>);
               member' = (if kind = 0 then member\<lparr>m_voter := True\<rparr>
                          else if kind = 1 then member\<lparr>m_learner := True\<rparr>
                          else member\<lparr>m_old := True\<rparr>)
           in Ok \<lparr>mb_members = (mb_members m)[slot := Some member']\<rparr>))"

text \<open>The inner loop of \<^verbatim>\<open>restore\<close>: \<open>seen\<close> is the prefix \<^verbatim>\<open>set[..i]\<close>.\<close>

fun Membership_restore_set ::
    "Id list \<Rightarrow> nat \<Rightarrow> Id list \<Rightarrow> Id list \<Rightarrow> Membership \<Rightarrow> Membership Result" where
  "Membership_restore_set vs kind seen [] m = Ok m"
| "Membership_restore_set vs kind seen (i # is) m =
     (if i \<in> set seen \<or> (kind = 1 \<and> i \<in> set vs) then Err ErrConfig
      else (case Membership_include i kind m of
              Err e \<Rightarrow> Err e
            | Ok m' \<Rightarrow> Membership_restore_set vs kind (seen @ [i]) is m'))"

definition Membership_restore ::
    "usize \<Rightarrow> Id list \<Rightarrow> Id list \<Rightarrow> Id list \<Rightarrow> Membership Result" where
  "Membership_restore mx vs old_vs ls =
     (if vs = [] then Err ErrConfig
      else (case Membership_restore_set vs 0 [] vs (Membership_empty mx) of
              Err e \<Rightarrow> Err e
            | Ok m1 \<Rightarrow>
                (case Membership_restore_set vs 1 [] ls m1 of
                   Err e \<Rightarrow> Err e
                 | Ok m2 \<Rightarrow> Membership_restore_set vs 2 [] old_vs m2)))"

definition Membership_new :: "usize \<Rightarrow> Id list \<Rightarrow> Id list \<Rightarrow> Membership Result" where
  "Membership_new mx vs ls = Membership_restore mx vs [] ls"

definition Membership_voters :: "Membership \<Rightarrow> Id list" where
  "Membership_voters m = map m_id (filter m_voter (flatten (mb_members m)))"

definition Membership_old_voters :: "Membership \<Rightarrow> Id list" where
  "Membership_old_voters m = map m_id (filter m_old (flatten (mb_members m)))"

definition Membership_learners :: "Membership \<Rightarrow> Id list" where
  "Membership_learners m = map m_id (filter m_learner (flatten (mb_members m)))"

definition Membership_is_joint :: "Membership \<Rightarrow> bool" where
  "Membership_is_joint m \<longleftrightarrow> list_ex m_old (flatten (mb_members m))"

definition Membership_is_voter :: "Id \<Rightarrow> Membership \<Rightarrow> bool" where
  "Membership_is_voter i m \<longleftrightarrow>
     list_ex (\<lambda>x. m_id x = i \<and> (m_voter x \<or> m_old x)) (flatten (mb_members m))"

definition Membership_contains :: "Id \<Rightarrow> Membership \<Rightarrow> bool" where
  "Membership_contains i m \<longleftrightarrow> list_ex (\<lambda>x. m_id x = i) (flatten (mb_members m))"

definition Membership_peers :: "Membership \<Rightarrow> Id option list" where
  "Membership_peers m = map (map_option m_id) (mb_members m)"

fun Membership_include_all :: "Id list \<Rightarrow> nat \<Rightarrow> Membership \<Rightarrow> Membership Result" where
  "Membership_include_all [] kind m = Ok m"
| "Membership_include_all (i # is) kind m =
     (case Membership_include i kind m of
        Err e \<Rightarrow> Err e | Ok m' \<Rightarrow> Membership_include_all is kind m')"

fun Membership_add_learners ::
    "Membership \<Rightarrow> Id list \<Rightarrow> Id list \<Rightarrow> Membership \<Rightarrow> Membership Result" where
  "Membership_add_learners self seen [] m = Ok m"
| "Membership_add_learners self seen (i # is) m =
     (if Membership_is_voter i self \<or> i \<in> set seen then Err ErrConfig
      else (case Membership_include i 1 m of
              Err e \<Rightarrow> Err e
            | Ok m' \<Rightarrow> Membership_add_learners self (seen @ [i]) is m'))"

definition Membership_with_learners :: "Id list \<Rightarrow> Membership \<Rightarrow> Membership Result" where
  "Membership_with_learners ls self =
     (case Membership_include_all (Membership_voters self) 0 (Membership_empty (Membership_MAX self)) of
        Err e \<Rightarrow> Err e
      | Ok next \<Rightarrow> Membership_add_learners self [] ls next)"

definition Membership_joint :: "Membership \<Rightarrow> Membership \<Rightarrow> Membership Result" where
  "Membership_joint self target =
     (if Membership_is_joint self \<or> Membership_is_joint target then Err ErrReconfiguring
      else (case Membership_include_all (Membership_voters self) 2 target of
              Err _ \<Rightarrow> Err ErrFull
            | Ok m \<Rightarrow> Ok m))"

definition Membership_finalized :: "Membership \<Rightarrow> Membership" where
  "Membership_finalized m =
     \<lparr>mb_members = map (\<lambda>slot. case slot of
          None \<Rightarrow> None
        | Some member \<Rightarrow>
            if \<not> m_voter member \<and> \<not> m_learner member then None
            else Some (member\<lparr>m_old := False\<rparr>)) (mb_members m)\<rparr>"

text \<open>
  The position a majority has reached. Subtracting from an empty count underflows, so the
  function panics (\<open>None\<close>) on a membership without voters.
\<close>

definition majority_position :: "u64 list \<Rightarrow> u64 option" where
  "majority_position positions =
     (let sorted_positions = sort positions; count = length positions
      in if count < count div 2 + 1 then None
         else index_read sorted_positions (count - (count div 2 + 1)))"

definition Membership_quorum_index :: "(Id \<Rightarrow> u64) \<Rightarrow> Membership \<Rightarrow> u64 option" where
  "Membership_quorum_index matched m = do {
     new \<leftarrow> majority_position (map matched (Membership_voters m));
     if \<not> Membership_is_joint m then Some new
     else do {
       old \<leftarrow> majority_position (map matched (Membership_old_voters m));
       Some (min new old)
     }
   }"

definition Membership_majority :: "bool \<Rightarrow> (Id \<Rightarrow> bool) \<Rightarrow> Membership \<Rightarrow> bool" where
  "Membership_majority old acknowledged m =
     (let vs = filter (\<lambda>x. if old then m_old x else m_voter x) (flatten (mb_members m));
          total = length vs;
          count = length (filter (\<lambda>x. acknowledged (m_id x)) vs)
      in total div 2 < count)"

definition Membership_quorum :: "(Id \<Rightarrow> bool) \<Rightarrow> Membership \<Rightarrow> bool" where
  "Membership_quorum acknowledged m \<longleftrightarrow>
     Membership_majority False acknowledged m
     \<and> (\<not> Membership_is_joint m \<or> Membership_majority True acknowledged m)"

section \<open>Invariant\<close>

text \<open>
  What the constructors guarantee of every membership value (the slot array is private):
  distinct identities, at least one voter, no empty member, no member that is both a voter
  and a learner.
\<close>

definition Membership_wf :: "Membership \<Rightarrow> bool" where
  "Membership_wf m \<longleftrightarrow>
     distinct (map m_id (flatten (mb_members m)))
     \<and> Membership_voters m \<noteq> []
     \<and> list_all (\<lambda>x. (m_voter x \<or> m_old x \<or> m_learner x) \<and> \<not> (m_voter x \<and> m_learner x))
         (flatten (mb_members m))"

section \<open>The members as a set\<close>

definition Membership_set :: "Membership \<Rightarrow> Member set" where
  "Membership_set m = set (flatten (mb_members m))"

definition Membership_ids :: "Membership \<Rightarrow> Id set" where
  "Membership_ids m = m_id ` Membership_set m"

definition distinct_ids :: "Membership \<Rightarrow> bool" where
  "distinct_ids m \<longleftrightarrow> distinct (map m_id (flatten (mb_members m)))"

definition set_flag :: "nat \<Rightarrow> Member \<Rightarrow> Member" where
  "set_flag kind x =
     (if kind = 0 then x\<lparr>m_voter := True\<rparr> else if kind = 1 then x\<lparr>m_learner := True\<rparr>
      else x\<lparr>m_old := True\<rparr>)"

definition fresh_member :: "Id \<Rightarrow> Member" where
  "fresh_member i = \<lparr>m_id = i, m_voter = False, m_old = False, m_learner = False\<rparr>"

lemma set_flag_id [simp]: "m_id (set_flag kind x) = m_id x"
  by (simp add: set_flag_def)

lemma fresh_member_simps [simp]:
  "m_id (fresh_member i) = i" "\<not> m_voter (fresh_member i)"
  "\<not> m_old (fresh_member i)" "\<not> m_learner (fresh_member i)"
  by (simp_all add: fresh_member_def)

lemma Membership_set_iff: "x \<in> Membership_set m \<longleftrightarrow> Some x \<in> set (mb_members m)"
  by (simp add: Membership_set_def)

lemma Membership_wf_distinct: "Membership_wf m \<Longrightarrow> distinct_ids m"
  by (simp add: Membership_wf_def distinct_ids_def)

lemma distinct_ids_inj:
  "distinct_ids m \<Longrightarrow> x \<in> Membership_set m \<Longrightarrow> y \<in> Membership_set m \<Longrightarrow> m_id x = m_id y \<Longrightarrow> x = y"
  by (auto simp: distinct_ids_def Membership_set_def distinct_map inj_on_def simp del: set_flatten)

lemma distinct_ids_card: "distinct_ids m \<Longrightarrow> card (Membership_ids m) = length (flatten (mb_members m))"
  by (metis Membership_ids_def Membership_set_def distinct_card distinct_ids_def image_set length_map)

lemma set_voters: "set (Membership_voters m) = m_id ` {x \<in> Membership_set m. m_voter x}"
  by (auto simp: Membership_voters_def Membership_set_def)

lemma set_old_voters: "set (Membership_old_voters m) = m_id ` {x \<in> Membership_set m. m_old x}"
  by (auto simp: Membership_old_voters_def Membership_set_def)

lemma set_learners: "set (Membership_learners m) = m_id ` {x \<in> Membership_set m. m_learner x}"
  by (auto simp: Membership_learners_def Membership_set_def)

lemmas membership_sets = set_voters set_old_voters set_learners

lemma is_joint_iff: "Membership_is_joint m \<longleftrightarrow> Membership_old_voters m \<noteq> []"
  by (auto simp: Membership_is_joint_def Membership_old_voters_def list_ex_iff filter_empty_conv)

lemma is_voter_iff:
  "Membership_is_voter i m \<longleftrightarrow> i \<in> set (Membership_voters m) \<or> i \<in> set (Membership_old_voters m)"
  by (auto simp: Membership_is_voter_def list_ex_iff membership_sets Membership_set_iff)

lemma contains_iff: "Membership_contains i m \<longleftrightarrow> i \<in> Membership_ids m"
  by (auto simp: Membership_contains_def list_ex_iff Membership_ids_def Membership_set_iff)

lemma voter_contained: "Membership_is_voter i m \<Longrightarrow> Membership_contains i m"
  by (auto simp: is_voter_iff contains_iff membership_sets Membership_ids_def)

lemma flatten_peers: "flatten (Membership_peers m) = map m_id (flatten (mb_members m))"
proof -
  have "flatten (map (map_option f) xs) = map f (flatten xs)" for f :: "Member \<Rightarrow> Id" and xs
    by (induction xs rule: flatten.induct) auto
  then show ?thesis
    by (simp add: Membership_peers_def)
qed

lemma set_peers: "set (flatten (Membership_peers m)) = Membership_ids m"
  by (simp add: flatten_peers Membership_ids_def Membership_set_def del: set_flatten)

lemma distinct_voters: "distinct_ids m \<Longrightarrow> distinct (Membership_voters m)"
  by (simp add: distinct_ids_def Membership_voters_def distinct_map_filter)

lemma distinct_old_voters: "distinct_ids m \<Longrightarrow> distinct (Membership_old_voters m)"
  by (simp add: distinct_ids_def Membership_old_voters_def distinct_map_filter)

section \<open>Equality ignores the slot layout\<close>

lemma Membership_eq_iff:
  assumes "distinct_ids a" and "distinct_ids b"
  shows "Membership_eq a b \<longleftrightarrow> Membership_set a = Membership_set b"
proof -
  have d: "distinct (flatten (mb_members a))" "distinct (flatten (mb_members b))"
    using assms by (auto simp: distinct_ids_def distinct_map)
  have card: "card (Membership_set a) = length (flatten (mb_members a))"
    "card (Membership_set b) = length (flatten (mb_members b))"
    using d by (simp_all add: Membership_set_def distinct_card del: set_flatten)
  have sub: "list_all (\<lambda>m. list_ex (\<lambda>x. x = m) (flatten (mb_members b))) (flatten (mb_members a))
      \<longleftrightarrow> Membership_set a \<subseteq> Membership_set b"
    by (auto simp: list_all_iff list_ex_iff Membership_set_def)
  have fin: "finite (Membership_set b)"
    by (simp add: Membership_set_def del: set_flatten)
  show ?thesis
    unfolding Membership_eq_def sub card [symmetric]
    using card_subset_eq [OF fin] by auto
qed

section \<open>Including a member\<close>

lemma flatten_update:
  assumes "k < length xs"
  shows "flatten (xs[k := Some x]) = flatten (take k xs) @ x # flatten (drop (Suc k) xs)"
  using assms by (simp add: upd_conv_take_nth_drop)

lemma flatten_split:
  assumes "k < length xs"
  shows "flatten xs = flatten (take k xs) @ (case xs ! k of None \<Rightarrow> [] | Some x \<Rightarrow> [x])
     @ flatten (drop (Suc k) xs)"
  using arg_cong [OF id_take_nth_drop [OF assms], of flatten] by (cases "xs ! k") simp_all

lemma length_flatten_less: "length (flatten xs) < length xs \<longleftrightarrow> None \<in> set xs"
proof (induction xs rule: flatten.induct)
  case (2 xs)
  then show ?case using length_flatten_le [of xs] by simp
qed auto

lemma Membership_include_cases:
  assumes dist: "distinct_ids m"
  obtains (full) "i \<notin> Membership_ids m" "Membership_MAX m \<le> card (Membership_ids m)"
      "Membership_include i kind m = Err ErrConfig"
  | (ok) m' x where "Membership_include i kind m = Ok m'"
      "x \<in> Membership_set m \<and> m_id x = i
        \<or> x = fresh_member i \<and> i \<notin> Membership_ids m \<and> card (Membership_ids m) < Membership_MAX m"
      "Membership_set m' = insert (set_flag kind x) (Membership_set m - {x})"
      "distinct_ids m'" "Membership_MAX m' = Membership_MAX m"
proof (cases "position (is_some_and (\<lambda>x. m_id x = i)) (mb_members m)")
  case (Some k)
  then obtain x where k: "k < Membership_MAX m" and x: "mb_members m ! k = Some x" "m_id x = i"
    by (auto simp: position_Some is_some_and_iff)
  let ?m' = "\<lparr>mb_members = (mb_members m)[k := Some (set_flag kind x)]\<rparr>"
  note split = flatten_split [OF k, unfolded x(1) option.case]
  have inc: "Membership_include i kind m = Ok ?m'"
    using Some x by (simp add: Membership_include_def set_flag_def Let_def)
  have mem: "x \<in> Membership_set m"
    using k x by (metis Membership_set_iff nth_mem)
  have d: "distinct (map m_id (flatten (mb_members m)))"
    using dist by (simp add: distinct_ids_def)
  have set': "Membership_set ?m' = insert (set_flag kind x) (Membership_set m - {x})"
    using d unfolding Membership_set_def
    by (simp add: flatten_update [OF k] del: set_flatten, subst (asm) split, subst split)
      (auto simp del: set_flatten)
  have "distinct_ids ?m'"
    using d unfolding distinct_ids_def by (subst (asm) split) (simp add: flatten_update [OF k] del: set_flatten)
  with inc mem x set' show ?thesis
    by (intro ok [of ?m' x]) simp_all
next
  case None
  then have new: "i \<notin> Membership_ids m"
    by (force simp: position_None Membership_ids_def Membership_set_iff)
  show ?thesis
  proof (cases "position (\<lambda>x. x = None) (mb_members m)")
    case none: None
    then have "None \<notin> set (mb_members m)"
      by (auto simp: position_None)
    then have "Membership_MAX m \<le> card (Membership_ids m)"
      using length_flatten_less [of "mb_members m"] by (simp add: distinct_ids_card [OF dist])
    with new None none show ?thesis
      by (intro full) (simp_all add: Membership_include_def)
  next
    case (Some k)
    then have k: "k < Membership_MAX m" and x: "mb_members m ! k = None"
      by (auto simp: position_Some)
    let ?x = "fresh_member i"
    let ?m' = "\<lparr>mb_members = (mb_members m)[k := Some (set_flag kind ?x)]\<rparr>"
    note split = flatten_split [OF k, unfolded x option.case append.append_Nil]
    have inc: "Membership_include i kind m = Ok ?m'"
      using Some None x by (simp add: Membership_include_def set_flag_def fresh_member_def Let_def)
    have "None \<in> set (mb_members m)"
      using k x by (metis nth_mem)
    then have room: "card (Membership_ids m) < Membership_MAX m"
      using length_flatten_less [of "mb_members m"] by (simp add: distinct_ids_card [OF dist])
    have notin: "?x \<notin> Membership_set m" "i \<notin> m_id ` set (flatten (mb_members m))"
      using new imageI [of ?x "set (flatten (mb_members m))" m_id]
      by (auto simp: Membership_ids_def Membership_set_def simp del: set_flatten)
    have set': "Membership_set ?m' = insert (set_flag kind ?x) (Membership_set m - {?x})"
      using notin(1) unfolding Membership_set_def
      by (simp add: flatten_update [OF k] del: set_flatten, subst (asm) split, subst split)
        (auto simp del: set_flatten)
    have "distinct_ids ?m'"
      using dist notin(2) unfolding distinct_ids_def
      by (subst (asm) (1 2) split) (auto simp: flatten_update [OF k] simp del: set_flatten)
    with inc new room set' show ?thesis
      by (intro ok [of ?m' ?x]) simp_all
  qed
qed

lemma Membership_wf_iff:
  "Membership_wf m \<longleftrightarrow>
     distinct_ids m \<and> Membership_voters m \<noteq> []
     \<and> Membership_ids m =
         set (Membership_voters m) \<union> set (Membership_old_voters m) \<union> set (Membership_learners m)
     \<and> set (Membership_voters m) \<inter> set (Membership_learners m) = {}"
  (is "_ \<longleftrightarrow> _ \<and> _ \<and> ?flag \<and> ?disj")
proof (cases "distinct_ids m")
  case True
  note inj = distinct_ids_inj [OF True]
  have "?flag \<longleftrightarrow> (\<forall>x \<in> Membership_set m. m_voter x \<or> m_old x \<or> m_learner x)"
    unfolding Membership_ids_def membership_sets by (auto dest: inj)
  moreover have "?disj \<longleftrightarrow> (\<forall>x \<in> Membership_set m. \<not> (m_voter x \<and> m_learner x))"
    unfolding membership_sets by (auto dest: inj)
  ultimately show ?thesis
    using True by (auto simp: Membership_wf_def distinct_ids_def list_all_iff Membership_set_def)
next
  case False
  then show ?thesis
    by (simp add: Membership_wf_def distinct_ids_def)
qed

lemma Membership_include_Ok:
  assumes dist: "distinct_ids m" and inc: "Membership_include i kind m = Ok m'"
  shows "distinct_ids m'" and "Membership_MAX m' = Membership_MAX m"
    and "Membership_ids m' = insert i (Membership_ids m)"
    and "set (Membership_voters m') =
      (if kind = 0 then insert i (set (Membership_voters m)) else set (Membership_voters m))"
    and "set (Membership_learners m') =
      (if kind = 1 then insert i (set (Membership_learners m)) else set (Membership_learners m))"
    and "set (Membership_old_voters m') =
      (if kind = 0 \<or> kind = 1 then set (Membership_old_voters m)
       else insert i (set (Membership_old_voters m)))"
proof -
  from dist obtain x where x: "x \<in> Membership_set m \<and> m_id x = i
        \<or> x = fresh_member i \<and> i \<notin> Membership_ids m"
    and M': "Membership_set m' = insert (set_flag kind x) (Membership_set m - {x})"
    and "distinct_ids m'" "Membership_MAX m' = Membership_MAX m"
    by (cases rule: Membership_include_cases [where i = i and kind = kind]) (auto simp: inc)
  then show "distinct_ids m'" "Membership_MAX m' = Membership_MAX m"
    by blast+
  have flags: "m_id ` {y \<in> Membership_set m'. P y} =
      (if P (set_flag kind x) then insert i (m_id ` {y \<in> Membership_set m. P y})
       else m_id ` {y \<in> Membership_set m. P y})"
    if "\<And>z. P z \<Longrightarrow> P (set_flag kind z)" and "\<not> P (fresh_member i)" for P
  proof -
    have "x \<in> Membership_set m \<Longrightarrow> P x \<Longrightarrow> P (set_flag kind x)"
      using that(1) by blast
    with x that(2) show ?thesis
      unfolding M' by (auto simp: image_iff) (metis set_flag_id fresh_member_simps(1))+
  qed
  show "Membership_ids m' = insert i (Membership_ids m)"
    using x unfolding Membership_ids_def M' by auto
  show "set (Membership_voters m') =
      (if kind = 0 then insert i (set (Membership_voters m)) else set (Membership_voters m))"
    using flags [of m_voter] x
    by (auto simp: set_voters set_flag_def split: if_splits)
  show "set (Membership_learners m') =
      (if kind = 1 then insert i (set (Membership_learners m)) else set (Membership_learners m))"
    using flags [of m_learner] x
    by (auto simp: set_learners set_flag_def split: if_splits)
  show "set (Membership_old_voters m') =
      (if kind = 0 \<or> kind = 1 then set (Membership_old_voters m)
       else insert i (set (Membership_old_voters m)))"
    using flags [of m_old] x
    by (auto simp: set_old_voters set_flag_def split: if_splits)
qed

lemma Membership_include_defined:
  assumes "distinct_ids m"
  shows "(\<exists>m'. Membership_include i kind m = Ok m') \<longleftrightarrow>
     i \<in> Membership_ids m \<or> card (Membership_ids m) < Membership_MAX m"
  using assms
  by (cases rule: Membership_include_cases [where i = i and kind = kind])
    (auto simp: Membership_ids_def)

lemma Membership_include_Err: "Membership_include i kind m = Err e \<Longrightarrow> e = ErrConfig"
  by (auto simp: Membership_include_def Let_def split: option.splits)

section \<open>Building configurations\<close>

lemma Membership_empty_simps [simp]:
  "distinct_ids (Membership_empty mx)" "Membership_ids (Membership_empty mx) = {}"
  "Membership_voters (Membership_empty mx) = []" "Membership_old_voters (Membership_empty mx) = []"
  "Membership_learners (Membership_empty mx) = []" "Membership_MAX (Membership_empty mx) = mx"
  by (simp_all add: Membership_empty_def distinct_ids_def Membership_ids_def Membership_set_def
      Membership_voters_def Membership_old_voters_def Membership_learners_def)

lemma card_ids_le: "distinct_ids m \<Longrightarrow> card (Membership_ids m) \<le> Membership_MAX m"
  using length_flatten_le by (simp add: distinct_ids_card)

lemma finite_ids [simp]: "finite (Membership_ids m)"
  by (simp add: Membership_ids_def Membership_set_def del: set_flatten)

lemma Membership_include_all_Ok:
  assumes "distinct_ids m" and "Membership_include_all is kind m = Ok m'"
  shows "distinct_ids m' \<and> Membership_MAX m' = Membership_MAX m
    \<and> Membership_ids m' = set is \<union> Membership_ids m
    \<and> set (Membership_voters m') =
        (if kind = 0 then set is \<union> set (Membership_voters m) else set (Membership_voters m))
    \<and> set (Membership_learners m') =
        (if kind = 1 then set is \<union> set (Membership_learners m) else set (Membership_learners m))
    \<and> set (Membership_old_voters m') =
        (if kind = 0 \<or> kind = 1 then set (Membership_old_voters m)
         else set is \<union> set (Membership_old_voters m))"
  using assms
proof (induction "is" arbitrary: m)
  case (Cons i "is")
  then obtain u where u: "Membership_include i kind m = Ok u"
    and rest: "Membership_include_all is kind u = Ok m'"
    by (auto split: Result.splits)
  note inc = Membership_include_Ok [OF Cons.prems(1) u]
  from Cons.IH [OF inc(1) rest] show ?case
    by (simp add: inc(2-6))
qed simp

lemma Membership_include_all_defined:
  assumes "distinct_ids m"
  shows "(\<exists>m'. Membership_include_all is kind m = Ok m') \<longleftrightarrow>
    card (set is \<union> Membership_ids m) \<le> Membership_MAX m"
  using assms
proof (induction "is" arbitrary: m)
  case Nil
  then show ?case
    by (simp add: card_ids_le)
next
  case (Cons i "is")
  let ?room = "i \<in> Membership_ids m \<or> card (Membership_ids m) < Membership_MAX m"
  show ?case
  proof (cases ?room)
    case True
    then obtain u where u: "Membership_include i kind m = Ok u"
      using Membership_include_defined [OF Cons.prems] by blast
    note inc = Membership_include_Ok [OF Cons.prems u]
    from Cons.IH [OF inc(1)] show ?thesis
      by (simp add: u inc(2,3))
  next
    case False
    then have "Suc (Membership_MAX m) \<le> card (insert i (Membership_ids m))"
      by simp
    also have "\<dots> \<le> card (set (i # is) \<union> Membership_ids m)"
      by (intro card_mono) auto
    finally have "\<not> card (set (i # is) \<union> Membership_ids m) \<le> Membership_MAX m"
      by simp
    moreover have "\<not> (\<exists>m'. Membership_include i kind m = Ok m')"
      using False Membership_include_defined [OF Cons.prems] by blast
    ultimately show ?thesis
      by (auto split: Result.splits)
  qed
qed

lemma Membership_restore_set_Ok:
  "Membership_restore_set vs kind seen is m = Ok m' \<longleftrightarrow>
     distinct is \<and> set seen \<inter> set is = {} \<and> (kind = 1 \<longrightarrow> set vs \<inter> set is = {})
     \<and> Membership_include_all is kind m = Ok m'"
  by (induction "is" arbitrary: seen m) (auto split: Result.splits)

lemma Membership_add_learners_Ok:
  "Membership_add_learners self seen is m = Ok m' \<longleftrightarrow>
     distinct is \<and> set seen \<inter> set is = {} \<and> (\<forall>i \<in> set is. \<not> Membership_is_voter i self)
     \<and> Membership_include_all is 1 m = Ok m'"
  by (induction "is" arbitrary: seen m) (auto split: Result.splits)

lemma Membership_restore_Ok:
  assumes "Membership_restore mx vs os ls = Ok m"
  shows "Membership_wf m" and "Membership_MAX m = mx"
    and "set (Membership_voters m) = set vs" and "set (Membership_old_voters m) = set os"
    and "set (Membership_learners m) = set ls"
proof -
  from assms obtain m1 m2 where vs: "vs \<noteq> []" "set vs \<inter> set ls = {}"
    and m1: "Membership_include_all vs 0 (Membership_empty mx) = Ok m1"
    and m2: "Membership_include_all ls 1 m1 = Ok m2"
    and m: "Membership_include_all os 2 m2 = Ok m"
    by (auto simp: Membership_restore_def Membership_restore_set_Ok split: if_splits Result.splits)
  note f1 = Membership_include_all_Ok [OF _ m1, simplified]
  note f2 = Membership_include_all_Ok [OF _ m2]
  note f3 = Membership_include_all_Ok [OF _ m]
  have "distinct_ids m \<and> Membership_MAX m = mx \<and> Membership_ids m = set vs \<union> set os \<union> set ls
    \<and> set (Membership_voters m) = set vs \<and> set (Membership_old_voters m) = set os
    \<and> set (Membership_learners m) = set ls"
    using f1 f2 f3 by auto
  moreover from this vs(1) have "Membership_voters m \<noteq> []"
    by (metis set_empty)
  ultimately show "Membership_wf m" "Membership_MAX m = mx"
    "set (Membership_voters m) = set vs" "set (Membership_old_voters m) = set os"
    "set (Membership_learners m) = set ls"
    using vs(2) by (simp_all add: Membership_wf_iff)
qed

lemma Membership_restore_defined:
  "(\<exists>m. Membership_restore mx vs os ls = Ok m) \<longleftrightarrow>
     vs \<noteq> [] \<and> distinct vs \<and> distinct ls \<and> distinct os \<and> set vs \<inter> set ls = {}
     \<and> card (set vs \<union> set ls \<union> set os) \<le> mx"
  (is "?ok \<longleftrightarrow> ?cond")
proof
  assume ?ok
  then obtain m where m: "Membership_restore mx vs os ls = Ok m" ..
  then have "Membership_ids m = set vs \<union> set ls \<union> set os" and "distinct_ids m" and "Membership_MAX m = mx"
    using Membership_restore_Ok [OF m] by (auto simp: Membership_wf_iff)
  then have "card (set vs \<union> set ls \<union> set os) \<le> mx"
    using card_ids_le [of m] by simp
  with m show ?cond
    by (auto simp: Membership_restore_def Membership_restore_set_Ok split: if_splits Result.splits)
next
  assume c: ?cond
  have le: "card A \<le> mx" if "A \<subseteq> set vs \<union> set ls \<union> set os" for A
    using c card_mono [OF _ that] by simp
  obtain m1 where m1: "Membership_include_all vs 0 (Membership_empty mx) = Ok m1"
    using Membership_include_all_defined [of "Membership_empty mx" vs 0] le by auto
  note f1 = Membership_include_all_Ok [OF _ m1, simplified]
  obtain m2 where m2: "Membership_include_all ls 1 m1 = Ok m2"
    using Membership_include_all_defined [of m1 ls 1] le [of "set ls \<union> set vs"] f1 by auto
  note f2 = Membership_include_all_Ok [OF _ m2]
  obtain m where m: "Membership_include_all os 2 m2 = Ok m"
    using Membership_include_all_defined [of m2 os 2] le [of "set os \<union> (set ls \<union> set vs)"] f1 f2 by auto
  have "Membership_restore_set vs 0 [] vs (Membership_empty mx) = Ok m1"
    and "Membership_restore_set vs 1 [] ls m1 = Ok m2"
    and "Membership_restore_set vs 2 [] os m2 = Ok m"
    using c m1 m2 m by (simp_all add: Membership_restore_set_Ok)
  with c have "Membership_restore mx vs os ls = Ok m"
    by (simp add: Membership_restore_def)
  then show ?ok ..
qed

lemma Membership_with_learners_Ok:
  assumes self: "Membership_wf self" and ok: "Membership_with_learners ls self = Ok m"
  shows "Membership_wf m" and "Membership_MAX m = Membership_MAX self"
    and "set (Membership_voters m) = set (Membership_voters self)"
    and "\<not> Membership_is_joint m" and "set (Membership_learners m) = set ls"
proof -
  let ?vs = "Membership_voters self"
  from ok obtain m1 where vs: "\<forall>i \<in> set ls. \<not> Membership_is_voter i self"
    and m1: "Membership_include_all ?vs 0 (Membership_empty (Membership_MAX self)) = Ok m1"
    and m2: "Membership_include_all ls 1 m1 = Ok m"
    by (auto simp: Membership_with_learners_def Membership_add_learners_Ok split: Result.splits)
  note f1 = Membership_include_all_Ok [OF _ m1, simplified]
  note f2 = Membership_include_all_Ok [OF _ m2]
  have "distinct_ids m \<and> Membership_MAX m = Membership_MAX self
    \<and> Membership_ids m = set ?vs \<union> set ls \<and> set (Membership_voters m) = set ?vs
    \<and> set (Membership_old_voters m) = {} \<and> set (Membership_learners m) = set ls"
    using f1 f2 by auto
  moreover from this self have "Membership_voters m \<noteq> []"
    by (metis Membership_wf_def set_empty)
  ultimately show "Membership_wf m" "Membership_MAX m = Membership_MAX self"
    "set (Membership_voters m) = set ?vs" "\<not> Membership_is_joint m"
    "set (Membership_learners m) = set ls"
    using vs by (auto simp: Membership_wf_iff is_joint_iff is_voter_iff)
qed

lemma Membership_joint_Ok:
  assumes self: "Membership_wf self" and target: "Membership_wf target"
    and ok: "Membership_joint self target = Ok m"
  shows "Membership_wf m" and "Membership_MAX m = Membership_MAX target"
    and "set (Membership_voters m) = set (Membership_voters target)"
    and "set (Membership_old_voters m) = set (Membership_voters self)"
    and "set (Membership_learners m) = set (Membership_learners target)"
    and "Membership_is_joint m"
proof -
  from ok have stable: "set (Membership_old_voters target) = {}"
    and inc: "Membership_include_all (Membership_voters self) 2 target = Ok m"
    by (auto simp: Membership_joint_def is_joint_iff split: if_splits Result.splits)
  note f = Membership_include_all_Ok [OF Membership_wf_distinct [OF target] inc]
  from f stable show "Membership_MAX m = Membership_MAX target"
    and vs: "set (Membership_voters m) = set (Membership_voters target)"
    and os: "set (Membership_old_voters m) = set (Membership_voters self)"
    and "set (Membership_learners m) = set (Membership_learners target)"
    by auto
  then show "Membership_wf m"
    using f target stable by (auto simp: Membership_wf_iff simp flip: set_empty)
  show "Membership_is_joint m"
    using os self by (metis Membership_wf_def is_joint_iff set_empty)
qed

lemma Membership_joint_defined:
  assumes "Membership_wf target"
  shows "(\<exists>m. Membership_joint self target = Ok m) \<longleftrightarrow>
    \<not> Membership_is_joint self \<and> \<not> Membership_is_joint target
    \<and> card (set (Membership_voters self) \<union> Membership_ids target) \<le> Membership_MAX target"
  unfolding Membership_include_all_defined [OF Membership_wf_distinct [OF assms], symmetric, of _ 2]
  by (auto simp: Membership_joint_def split: Result.splits)

lemma flatten_map_bind: "flatten (map (\<lambda>x. Option.bind x f) xs) = List.map_filter f (flatten xs)"
  by (induction xs rule: flatten.induct) (auto simp: map_filter_simps split: option.splits)

definition finalized_member :: "Member \<Rightarrow> Member option" where
  "finalized_member x =
     (if \<not> m_voter x \<and> \<not> m_learner x then None else Some (x\<lparr>m_old := False\<rparr>))"

lemma Membership_finalized_members:
  "flatten (mb_members (Membership_finalized m)) =
     map (\<lambda>x. x\<lparr>m_old := False\<rparr>) (filter (\<lambda>x. m_voter x \<or> m_learner x) (flatten (mb_members m)))"
proof -
  have "mb_members (Membership_finalized m) =
      map (\<lambda>x. Option.bind x finalized_member) (mb_members m)"
    by (auto simp: Membership_finalized_def finalized_member_def split: option.splits)
  then show ?thesis
    by (simp add: flatten_map_bind List.map_filter_def finalized_member_def comp_def)
qed

lemma Membership_finalized_voters: "Membership_voters (Membership_finalized m) = Membership_voters m"
  unfolding Membership_voters_def Membership_finalized_members
  by (auto simp: filter_map comp_def intro!: arg_cong [where f = "map m_id"] filter_cong)

lemma Membership_finalized_learners: "Membership_learners (Membership_finalized m) = Membership_learners m"
  unfolding Membership_learners_def Membership_finalized_members
  by (auto simp: filter_map comp_def intro!: arg_cong [where f = "map m_id"] filter_cong)

lemma Membership_finalized_Ok:
  assumes "Membership_wf m"
  shows "Membership_wf (Membership_finalized m)"
    and "Membership_MAX (Membership_finalized m) = Membership_MAX m"
    and "set (Membership_voters (Membership_finalized m)) = set (Membership_voters m)"
    and "set (Membership_learners (Membership_finalized m)) = set (Membership_learners m)"
    and "\<not> Membership_is_joint (Membership_finalized m)"
proof -
  let ?f = "Membership_finalized m"
  have set': "Membership_set ?f =
      (\<lambda>x. x\<lparr>m_old := False\<rparr>) ` {x \<in> Membership_set m. m_voter x \<or> m_learner x}"
    unfolding Membership_set_def Membership_finalized_members by (simp del: set_flatten)
  show "Membership_MAX ?f = Membership_MAX m"
    by (simp add: Membership_finalized_def)
  show vs: "set (Membership_voters ?f) = set (Membership_voters m)"
    by (simp add: Membership_finalized_voters)
  show ls: "set (Membership_learners ?f) = set (Membership_learners m)"
    by (simp add: Membership_finalized_learners)
  show stable: "\<not> Membership_is_joint ?f"
    by (auto simp: Membership_is_joint_def list_ex_iff Membership_finalized_members simp del: set_flatten)
  have "distinct_ids ?f"
    using assms unfolding distinct_ids_def Membership_finalized_members Membership_wf_def
    by (simp add: comp_def distinct_map_filter)
  moreover have "Membership_ids ?f = set (Membership_voters m) \<union> set (Membership_learners m)"
    unfolding Membership_ids_def set' membership_sets by (auto simp: image_image)
  ultimately show "Membership_wf ?f"
    using assms vs ls stable by (auto simp: Membership_wf_iff is_joint_iff simp flip: set_empty)
qed

lemma member_flags:
  assumes "distinct_ids p" and x: "x \<in> Membership_set p"
  shows "m_voter x \<longleftrightarrow> m_id x \<in> set (Membership_voters p)"
    and "m_old x \<longleftrightarrow> m_id x \<in> set (Membership_old_voters p)"
    and "m_learner x \<longleftrightarrow> m_id x \<in> set (Membership_learners p)"
  using x distinct_ids_inj [OF assms] unfolding membership_sets by blast+

text \<open>Finishing a joint configuration gives the target, whatever the slot layout.\<close>

lemma Membership_set_eqI:
  assumes "Membership_wf a" and "Membership_wf b"
    and "set (Membership_voters a) = set (Membership_voters b)"
    and "set (Membership_old_voters a) = set (Membership_old_voters b)"
    and "set (Membership_learners a) = set (Membership_learners b)"
  shows "Membership_set a = Membership_set b"
proof -
  have "Membership_set p \<subseteq> Membership_set q"
    if p: "Membership_wf p" and q: "Membership_wf q"
      and v: "set (Membership_voters p) = set (Membership_voters q)"
      and o': "set (Membership_old_voters p) = set (Membership_old_voters q)"
      and l: "set (Membership_learners p) = set (Membership_learners q)" for p q
  proof
    fix x
    assume x: "x \<in> Membership_set p"
    have "m_id x \<in> Membership_ids p"
      using x by (simp add: Membership_ids_def)
    then have "m_id x \<in> Membership_ids q"
      using p q v o' l by (simp add: Membership_wf_iff)
    then obtain y where y: "y \<in> Membership_set q" "m_id y = m_id x"
      by (auto simp: Membership_ids_def)
    have "m_voter x = m_voter y" "m_old x = m_old y" "m_learner x = m_learner y"
      using member_flags [OF Membership_wf_distinct [OF p] x] y(2) v o' l
        member_flags [OF Membership_wf_distinct [OF q] y(1)] by simp_all
    with y(2) have "x = y"
      by (simp add: Member.equality)
    with y show "x \<in> Membership_set q"
      by simp
  qed
  from this [OF assms] this [OF assms(2,1)] assms(3-5) show ?thesis
    by auto
qed

section \<open>Quorums\<close>

lemma majority_iff:
  assumes "distinct_ids m"
  shows "Membership_majority old ack m \<longleftrightarrow>
    (let vs = (if old then set (Membership_old_voters m) else set (Membership_voters m))
     in card vs div 2 < card {i \<in> vs. ack i})"
proof -
  define xs where "xs = (if old then Membership_old_voters m else Membership_voters m)"
  have d: "distinct xs"
    using assms by (simp add: xs_def distinct_voters distinct_old_voters)
  have "map m_id (filter (\<lambda>x. if old then m_old x else m_voter x) (flatten (mb_members m))) = xs"
    by (cases old) (simp_all add: xs_def Membership_old_voters_def Membership_voters_def)
  then have "length (filter (\<lambda>x. if old then m_old x else m_voter x) (flatten (mb_members m))) = length xs"
    and "length (filter (\<lambda>x. ack (m_id x)) (filter (\<lambda>x. if old then m_old x else m_voter x)
        (flatten (mb_members m)))) = length (filter ack xs)"
    by (metis length_map, metis (no_types, lifting) comp_apply filter_cong filter_map length_map)
  moreover have "length xs = card (set xs)" "length (filter ack xs) = card {i \<in> set xs. ack i}"
    using d by (simp_all add: distinct_card distinct_length_filter Int_def conj_commute)
  ultimately show ?thesis
    by (simp add: Membership_majority_def Let_def xs_def split: if_splits)
qed

lemma majority_mono:
  assumes "Membership_majority old a m" and "\<And>i. a i \<Longrightarrow> b i"
  shows "Membership_majority old b m"
proof -
  have "length (filter (\<lambda>x. a (m_id x)) xs) \<le> length (filter (\<lambda>x. b (m_id x)) xs)" for xs
    using assms(2) by (induction xs) (auto intro: le_SucI)
  then show ?thesis
    using assms(1) unfolding Membership_majority_def Let_def by (rule less_le_trans [rotated])
qed

lemma quorum_mono:
  "Membership_quorum a m \<Longrightarrow> (\<And>i. a i \<Longrightarrow> b i) \<Longrightarrow> Membership_quorum b m"
  unfolding Membership_quorum_def by (meson majority_mono)

text \<open>Two majorities of the same finite set have a common element.\<close>

lemma majorities_meet:
  fixes V :: "Id set"
  assumes "finite V" and "card V div 2 < card {i \<in> V. a i}" and "card V div 2 < card {i \<in> V. b i}"
  shows "\<exists>i \<in> V. a i \<and> b i"
proof (rule ccontr)
  assume "\<not> ?thesis"
  then have "{i \<in> V. a i} \<inter> {i \<in> V. b i} = {}"
    by blast
  then have "card ({i \<in> V. a i} \<union> {i \<in> V. b i}) = card {i \<in> V. a i} + card {i \<in> V. b i}"
    using assms(1) by (intro card_Un_disjoint) auto
  moreover have "card ({i \<in> V. a i} \<union> {i \<in> V. b i}) \<le> card V"
    using assms(1) by (intro card_mono) auto
  ultimately show False
    using assms(2,3) by linarith
qed

text \<open>The majority position of a sorted prefix.\<close>

lemma sorted_nth_count:
  assumes "sorted xs" and k: "k < length xs"
  shows "t \<le> xs ! k \<longleftrightarrow> length xs - k \<le> length (filter (\<lambda>x. t \<le> x) xs)"
proof -
  let ?C = "{i. i < length xs \<and> t \<le> xs ! i}"
  have count: "length (filter (\<lambda>x. t \<le> x) xs) = card ?C"
    by (rule length_filter_conv_card)
  show ?thesis
  proof
    assume t: "t \<le> xs ! k"
    have "{k..<length xs} \<subseteq> ?C"
      using t sorted_nth_mono [OF assms(1), of k] by (auto intro: order_trans)
    then have "card {k..<length xs} \<le> card ?C"
      by (intro card_mono) auto
    then show "length xs - k \<le> length (filter (\<lambda>x. t \<le> x) xs)"
      by (simp add: count)
  next
    assume c: "length xs - k \<le> length (filter (\<lambda>x. t \<le> x) xs)"
    show "t \<le> xs ! k"
    proof (rule ccontr)
      assume n: "\<not> t \<le> xs ! k"
      have "?C \<subseteq> {Suc k..<length xs}"
      proof
        fix i
        assume i: "i \<in> ?C"
        have "\<not> i \<le> k"
          using n i sorted_nth_mono [OF assms(1), of i k] k by (auto dest: order_trans)
        with i show "i \<in> {Suc k..<length xs}"
          by simp
      qed
      then have "card ?C \<le> card {Suc k..<length xs}"
        by (intro card_mono) auto
      with c k show False
        by (simp add: count)
    qed
  qed
qed

lemma majority_position_spec:
  assumes "ps \<noteq> []"
  shows "returns (majority_position ps)
    (\<lambda>p. \<forall>t. t \<le> p \<longleftrightarrow> length ps div 2 < length (filter (\<lambda>x. t \<le> x) ps))"
proof -
  let ?k = "length ps - (length ps div 2 + 1)"
  have pos: "0 < length ps"
    using assms by simp
  then have half: "length ps div 2 + 1 \<le> length ps"
    by linarith
  then have k: "?k < length (sort ps)" "length (sort ps) - ?k = length ps div 2 + 1"
    by simp_all
  have "majority_position ps = Some (sort ps ! ?k)"
    using half k(1) by (simp add: majority_position_def Let_def index_read_def not_less)
  moreover have "t \<le> sort ps ! ?k \<longleftrightarrow> length ps div 2 < length (filter (\<lambda>x. t \<le> x) ps)" for t
    using sorted_nth_count [OF sorted_sort k(1), of t] unfolding k(2) filter_sort
    by (simp add: Suc_le_eq)
  ultimately show ?thesis
    by simp
qed

lemma majority_position_voters:
  assumes "Membership_voters m \<noteq> []"
  shows "returns (majority_position (map f (Membership_voters m)))
    (\<lambda>p. \<forall>t. t \<le> p \<longleftrightarrow> Membership_majority False (\<lambda>i. t \<le> f i) m)"
  using majority_position_spec [of "map f (Membership_voters m)"] assms
  by (simp add: Membership_majority_def Membership_voters_def Let_def filter_map comp_def)

lemma majority_position_old_voters:
  assumes "Membership_old_voters m \<noteq> []"
  shows "returns (majority_position (map f (Membership_old_voters m)))
    (\<lambda>p. \<forall>t. t \<le> p \<longleftrightarrow> Membership_majority True (\<lambda>i. t \<le> f i) m)"
  using majority_position_spec [of "map f (Membership_old_voters m)"] assms
  by (simp add: Membership_majority_def Membership_old_voters_def Let_def filter_map comp_def)

lemma quorum_index_spec:
  assumes "Membership_voters m \<noteq> []"
  shows "returns (Membership_quorum_index f m)
    (\<lambda>p. \<forall>t. t \<le> p \<longleftrightarrow> Membership_quorum (\<lambda>i. t \<le> f i) m)"
proof -
  obtain p where p: "majority_position (map f (Membership_voters m)) = Some p"
    and pt: "\<And>t. t \<le> p \<longleftrightarrow> Membership_majority False (\<lambda>i. t \<le> f i) m"
    using majority_position_voters [OF assms, of f] by (auto simp: returns_iff)
  show ?thesis
  proof (cases "Membership_is_joint m")
    case False
    then show ?thesis
      by (simp add: Membership_quorum_index_def p pt Membership_quorum_def)
  next
    case True
    then have "Membership_old_voters m \<noteq> []"
      by (simp add: is_joint_iff)
    then obtain q where "majority_position (map f (Membership_old_voters m)) = Some q"
      and "\<And>t. t \<le> q \<longleftrightarrow> Membership_majority True (\<lambda>i. t \<le> f i) m"
      using majority_position_old_voters [of m f] by (auto simp: returns_iff)
    with True show ?thesis
      by (simp add: Membership_quorum_index_def p pt Membership_quorum_def)
  qed
qed

section \<open>Overlapping quorums\<close>

text \<open>
  The contract elections and commitment rely on: any acknowledgement set that is a quorum of
  the first kind shares a member with any that is a quorum of the second kind.
\<close>

locale overlapping_quorums =
  fixes Q1 Q2 :: "(Id \<Rightarrow> bool) \<Rightarrow> bool"
  assumes overlap: "Q1 a \<Longrightarrow> Q2 b \<Longrightarrow> \<exists>i. a i \<and> b i"
    and mono1: "Q1 a \<Longrightarrow> (\<And>i. a i \<Longrightarrow> b i) \<Longrightarrow> Q1 b"
    and mono2: "Q2 a \<Longrightarrow> (\<And>i. a i \<Longrightarrow> b i) \<Longrightarrow> Q2 b"
begin

text \<open>Members that each make one choice cannot form two quorums for different choices.\<close>

lemma single_choice:
  assumes "Q1 (\<lambda>i. choice i = Some x)" and "Q2 (\<lambda>i. choice i = Some y)"
  shows "x = y"
  using overlap [OF assms] by auto

text \<open>What a quorum of the first kind knows, every quorum of the second kind learns.\<close>

lemma knowledge_transfer:
  assumes "Q1 knows" and "Q2 asked"
  shows "\<exists>i. asked i \<and> knows i"
  using overlap [OF assms] by blast

lemma not_disjoint: "Q1 a \<Longrightarrow> \<not> Q2 (\<lambda>i. \<not> a i)"
  using overlap by blast

end

locale quorum_system = overlapping_quorums Q Q for Q
begin

lemma nonempty: "Q a \<Longrightarrow> \<exists>i. a i"
  using overlap by blast

end

text \<open>Configurations overlap when a majority both need is taken over the same voter set.\<close>

definition shares_majority :: "Membership \<Rightarrow> Membership \<Rightarrow> bool" where
  "shares_majority m n \<longleftrightarrow>
     Membership_wf m \<and> Membership_wf n
     \<and> (set (Membership_voters m) = set (Membership_voters n)
        \<or> (Membership_is_joint m \<and> set (Membership_old_voters m) = set (Membership_voters n))
        \<or> (Membership_is_joint n \<and> set (Membership_voters m) = set (Membership_old_voters n))
        \<or> (Membership_is_joint m \<and> Membership_is_joint n
            \<and> set (Membership_old_voters m) = set (Membership_old_voters n)))"

lemma quorum_majority:
  assumes "Membership_wf m" and "Membership_quorum a m"
  shows "card (set (Membership_voters m)) div 2 < card {i \<in> set (Membership_voters m). a i}"
    and "Membership_is_joint m \<Longrightarrow>
      card (set (Membership_old_voters m)) div 2 < card {i \<in> set (Membership_old_voters m). a i}"
  using assms by (auto simp: Membership_quorum_def majority_iff Membership_wf_distinct Let_def)

lemma quorums_overlap:
  assumes "shares_majority m n" and "Membership_quorum a m" and "Membership_quorum b n"
  shows "\<exists>i. a i \<and> b i"
proof -
  have wf: "Membership_wf m" "Membership_wf n"
    using assms(1) by (auto simp: shares_majority_def)
  note ma = quorum_majority [OF wf(1) assms(2)] and nb = quorum_majority [OF wf(2) assms(3)]
  consider "set (Membership_voters m) = set (Membership_voters n)"
    | "Membership_is_joint m" "set (Membership_old_voters m) = set (Membership_voters n)"
    | "Membership_is_joint n" "set (Membership_voters m) = set (Membership_old_voters n)"
    | "Membership_is_joint m" "Membership_is_joint n"
      "set (Membership_old_voters m) = set (Membership_old_voters n)"
    using assms(1) by (auto simp: shares_majority_def)
  then show ?thesis
  proof cases
    case 1
    then show ?thesis
      using majorities_meet [of "set (Membership_voters n)" a b] ma(1) nb(1) by auto
  next
    case 2
    then show ?thesis
      using majorities_meet [of "set (Membership_voters n)" a b] ma(2) nb(1) by auto
  next
    case 3
    then show ?thesis
      using majorities_meet [of "set (Membership_voters m)" a b] ma(1) nb(2) by auto
  next
    case 4
    then show ?thesis
      using majorities_meet [of "set (Membership_old_voters m)" a b] ma(2) nb(2) by auto
  qed
qed

interpretation successive: overlapping_quorums
  "\<lambda>a. shares_majority m n \<and> Membership_quorum a m"
  "\<lambda>a. shares_majority m n \<and> Membership_quorum a n"
  for m n
  by unfold_locales (auto intro: quorums_overlap elim: quorum_mono)

interpretation stable: quorum_system "\<lambda>a. Membership_wf m \<and> Membership_quorum a m" for m
  by unfold_locales (auto simp: shares_majority_def intro: quorums_overlap elim: quorum_mono)

end
