(* ===== verification/Jarl_Node.thy ===== *)
theory Jarl_Node
  imports Jarl_Storage Jarl_Membership
begin

text \<open>
  The Raft node of \<^verbatim>\<open>jarl/src/node.rs\<close>, one definition per method, and the persistence token of
  \<^verbatim>\<open>jarl/src/ready.rs\<close>. The const parameters are lengths: \<open>N\<close> is the length of the peer array
  and \<open>CAP\<close> the length of the log's slot array.

  A method that may panic returns an \<open>option\<close> (\<open>None\<close> is the panic). A method with a
  \<^verbatim>\<open>Result\<close> returns the result together with the node, since an error can leave the node
  changed. The arrays of a node all have length \<open>N\<close> by their type, so a position found in one
  of them indexes the others without a check; an index that could be out of range, such as
  \<open>local\<close>, goes through \<open>index_write\<close>.

  The invariant of the node is in theory \<open>Jarl_Node_Inv\<close>.
\<close>

section \<open>Data\<close>

datatype Outbound =
    OutPreVote u64
  | OutPreVoted u64 bool
  | OutVote
  | OutVoted bool
  | OutReplicate
  | OutReplicated u64 "Rejection option"

record ('v, 's) MembershipHooks =
  hook_record :: "'v \<Rightarrow> Membership option"
  hook_snapshot :: "'s \<Rightarrow> Membership"

record ('v, 's) Node =
  n_config :: Config
  n_state :: "('v, 's) State"
  n_role :: Role
  n_leader :: "Id option"
  n_local :: usize
  n_membership :: Membership
  n_bootstrap :: Membership
  n_hooks :: "('v, 's) MembershipHooks option"
  n_peers :: "Id option list"
  n_votes :: "bool list"
  n_next :: "u64 list"
  n_matched :: "u64 list"
  n_outbox :: "Outbound option list"
  n_dirty :: bool
  n_log_from :: "u64 option"
  n_snapshot_changed :: bool
  n_elapsed :: u64
  n_election_deadline :: u64
  n_random :: u64
  n_prevoting :: "u64 option"
  n_leader_age :: u64
  n_quorum_elapsed :: u64
  n_active :: "bool list"
  n_extra_reply :: "(Id \<times> Outbound) option"
  n_request_from :: "Id option"

abbreviation Node_N :: "('v, 's) Node \<Rightarrow> usize" where
  "Node_N n \<equiv> length (n_peers n)"

abbreviation n_hard :: "('v, 's) Node \<Rightarrow> HardState" where
  "n_hard n \<equiv> st_hard (n_state n)"

abbreviation n_last :: "('v, 's) Node \<Rightarrow> LogId" where
  "n_last n \<equiv> State_last (n_state n)"

abbreviation n_base :: "('v, 's) Node \<Rightarrow> LogId" where
  "n_base n \<equiv> State_base (n_state n)"

definition set_hard :: "(HardState \<Rightarrow> HardState) \<Rightarrow> ('v, 's) Node \<Rightarrow> ('v, 's) Node" where
  "set_hard f n = n\<lparr>n_state := (n_state n)\<lparr>st_hard := f (n_hard n)\<rparr>\<rparr>"

section \<open>Timers, roles and peers\<close>

text \<open>SplitMix64: the election jitter.\<close>

definition splitmix64 :: "u64 \<Rightarrow> u64" where
  "splitmix64 random =
     (let s1 = (random XOR drop_bit 30 random) * 0xbf58476d1ce4e5b9;
          s2 = (s1 XOR drop_bit 27 s1) * 0x94d049bb133111eb
      in s2 XOR drop_bit 31 s2)"

definition Node_reset_election :: "('v, 's) Node \<Rightarrow> ('v, 's) Node option" where
  "Node_reset_election n =
     (let random = n_random n + 0x9e3779b97f4a7c15;
          ticks = cfg_election_ticks (n_config n)
      in do {
        jitter \<leftarrow> checked_rem (splitmix64 random) ticks;
        deadline \<leftarrow> checked_add ticks jitter;
        Some (n\<lparr>n_random := random, n_election_deadline := deadline, n_elapsed := 0\<rparr>)
      })"

definition Node_follow :: "Id option \<Rightarrow> ('v, 's) Node \<Rightarrow> ('v, 's) Node option" where
  "Node_follow leader n =
     (let n1 = n\<lparr>n_role := Follower, n_prevoting := None\<rparr>;
          n2 = (if leader \<noteq> None then n1\<lparr>n_leader_age := 0\<rparr> else n1)
      in Node_reset_election (n2\<lparr>n_leader := leader\<rparr>))"

definition Node_peer_slot :: "Id \<Rightarrow> ('v, 's) Node \<Rightarrow> usize option" where
  "Node_peer_slot i n = position (\<lambda>p. p = Some i) (n_peers n)"

definition Node_election_quorum :: "('v, 's) Node \<Rightarrow> bool" where
  "Node_election_quorum n =
     Membership_quorum (\<lambda>i. is_some_and (\<lambda>k. n_votes n ! k) (Node_peer_slot i n)) (n_membership n)"

fun latest_configuration ::
    "('v, 's) MembershipHooks \<Rightarrow> 'v Entry list \<Rightarrow> u64 \<times> Membership \<Rightarrow> u64 \<times> Membership" where
  "latest_configuration h [] r = r"
| "latest_configuration h (e # es) r =
     latest_configuration h es
       (case Option.bind (en_value e) (hook_record h) of
          None \<Rightarrow> r | Some m \<Rightarrow> (li_index (en_id e), m))"

definition Node_membership_at :: "u64 \<Rightarrow> ('v, 's) Node \<Rightarrow> u64 \<times> Membership" where
  "Node_membership_at index n =
     (case n_hooks n of
        None \<Rightarrow> (0, n_bootstrap n)
      | Some h \<Rightarrow>
          latest_configuration h
            (takeWhile (\<lambda>e. li_index (en_id e) \<le> index) (State_entries (n_state n)))
            (case st_snapshot (n_state n) of
               None \<Rightarrow> (0, n_bootstrap n)
             | Some s \<Rightarrow> (li_index (sn_last s), hook_snapshot h (sn_value s))))"

text \<open>One step of the loop of \<^verbatim>\<open>refresh_membership\<close>: give a new member the slot of an absent one.\<close>

definition Node_place_peer :: "Id \<Rightarrow> ('v, 's) Node \<Rightarrow> ('v, 's) Node option" where
  "Node_place_peer i n =
     (if Some i \<in> set (n_peers n) then Some n
      else do {
        slot \<leftarrow> position (is_none_or (\<lambda>j. \<not> Membership_contains j (n_membership n))) (n_peers n);
        Some (n\<lparr>n_peers := (n_peers n)[slot := Some i],
                n_votes := (n_votes n)[slot := False],
                n_active := (n_active n)[slot := False],
                n_next := (n_next n)[slot := 1],
                n_matched := (n_matched n)[slot := 0],
                n_outbox := (n_outbox n)[slot := None]\<rparr>)
      })"

definition Node_locate :: "('v, 's) Node \<Rightarrow> ('v, 's) Node" where
  "Node_locate n =
     n\<lparr>n_local := (case Node_peer_slot (cfg_id (n_config n)) n of None \<Rightarrow> Node_N n | Some i \<Rightarrow> i)\<rparr>"

definition Node_refresh_membership :: "('v, 's) Node \<Rightarrow> ('v, 's) Node option" where
  "Node_refresh_membership n =
     (let n1 = n\<lparr>n_membership := snd (Node_membership_at (li_index (n_last n)) n)\<rparr>
      in do {
        n2 \<leftarrow> for_each Node_place_peer (flatten (Membership_peers (n_membership n1))) n1;
        (let n3 = Node_locate n2
         in if n_role n3 = Leader \<and> \<not> Membership_is_voter (cfg_id (n_config n3)) (n_membership n3)
               \<and> fst (Node_membership_at (li_index (n_last n3)) n3) \<le> hs_commit (n_hard n3)
            then Node_follow None n3
            else Some n3)
      })"

definition Node_matched :: "Id \<Rightarrow> ('v, 's) Node \<Rightarrow> u64" where
  "Node_matched i n = (case Node_peer_slot i n of None \<Rightarrow> 0 | Some k \<Rightarrow> n_matched n ! k)"

section \<open>The outbox\<close>

definition Node_available :: "('v, 's) Node \<Rightarrow> unit Result" where
  "Node_available n =
     (if n_dirty n \<or> n_extra_reply n \<noteq> None \<or> list_ex (\<lambda>x. x \<noteq> None) (n_outbox n)
      then Err ErrBusy else Ok ())"

definition Node_send :: "usize \<Rightarrow> Outbound \<Rightarrow> ('v, 's) Node \<Rightarrow> ('v, 's) Node option" where
  "Node_send peer outbound n =
     (if peer = Node_N n
      then Some (case n_request_from n of
                   None \<Rightarrow> n
                 | Some i \<Rightarrow> n\<lparr>n_extra_reply := Some (i, outbound)\<rparr>)
      else do {
        outbox \<leftarrow> index_write (n_outbox n) peer (Some outbound);
        Some (n\<lparr>n_outbox := outbox\<rparr>)
      })"

definition Node_reply :: "usize \<Rightarrow> u64 \<Rightarrow> Rejection option \<Rightarrow> ('v, 's) Node \<Rightarrow> ('v, 's) Node option" where
  "Node_reply peer index rejection n = Node_send peer (OutReplicated index rejection) n"

definition Node_replicate :: "usize \<Rightarrow> ('v, 's) Node \<Rightarrow> ('v, 's) Node option" where
  "Node_replicate peer n = Node_send peer OutReplicate n"

definition Node_broadcast :: "('v, 's) Node \<Rightarrow> ('v, 's) Node option" where
  "Node_broadcast n =
     for_each (\<lambda>peer n.
         if peer \<noteq> n_local n
            \<and> is_some_and (\<lambda>i. Membership_contains i (n_membership n)) (n_peers n ! peer)
         then Node_replicate peer n else Some n)
       [0..<Node_N n] n"

text \<open>The loop that asks every other voter, in \<^verbatim>\<open>campaign\<close> and in the probe of \<^verbatim>\<open>tick\<close>.\<close>

definition Node_ask_voters :: "Outbound \<Rightarrow> ('v, 's) Node \<Rightarrow> ('v, 's) Node option" where
  "Node_ask_voters outbound n =
     for_each (\<lambda>peer n.
         if peer \<noteq> n_local n
            \<and> is_some_and (\<lambda>i. Membership_is_voter i (n_membership n)) (n_peers n ! peer)
         then Node_send peer outbound n else Some n)
       [0..<Node_N n] n"

section \<open>Commitment and elections\<close>

definition Node_commit_to :: "u64 \<Rightarrow> ('v, 's) Node \<Rightarrow> ('v, 's) Node option" where
  "Node_commit_to index n =
     (if hs_commit (n_hard n) < index
      then Node_refresh_membership
             ((set_hard (\<lambda>h. h\<lparr>hs_commit := index\<rparr>) n)\<lparr>n_dirty := True\<rparr>)
      else Some n)"

definition Node_advance_commit :: "('v, 's) Node \<Rightarrow> (bool \<times> ('v, 's) Node) option" where
  "Node_advance_commit n = do {
     index \<leftarrow> Membership_quorum_index (\<lambda>i. Node_matched i n) (n_membership n);
     if hs_commit (n_hard n) < index
        \<and> is_some_and (\<lambda>i. li_term i = hs_term (n_hard n)) (State_id_at index (n_state n))
     then do { n' \<leftarrow> Node_commit_to index n; Some (True, n') }
     else Some (False, n)
   }"

definition Node_set_local_matched :: "u64 \<Rightarrow> ('v, 's) Node \<Rightarrow> ('v, 's) Node" where
  "Node_set_local_matched index n =
     (if n_local n < Node_N n then n\<lparr>n_matched := (n_matched n)[n_local n := index]\<rparr> else n)"

definition Node_barrier :: "('v, 's) Node \<Rightarrow> ('v, 's) Node option" where
  "Node_barrier n =
     (if li_term (n_last n) = hs_term (n_hard n) \<or> State_full (n_state n) then Some n
      else (case checked_add (li_index (n_last n)) 1 of
              None \<Rightarrow> Some n
            | Some index \<Rightarrow>
                (case State_push
                        \<lparr>en_id = \<lparr>li_index = index, li_term = hs_term (n_hard n)\<rparr>, en_value = None\<rparr>
                        (n_state n) of
                   (Err _, st) \<Rightarrow> Some (n\<lparr>n_state := st\<rparr>)
                 | (Ok _, st) \<Rightarrow> do {
                     r \<leftarrow> Node_advance_commit
                            (Node_set_local_matched index
                              (n\<lparr>n_state := st, n_dirty := True, n_log_from := Some index\<rparr>));
                     Some (snd r)
                   })))"

definition Node_become_leader :: "('v, 's) Node \<Rightarrow> ('v, 's) Node option" where
  "Node_become_leader n =
     (let n1 = n\<lparr>n_quorum_elapsed := 0,
                 n_active := map (\<lambda>_. False) (n_active n),
                 n_role := Leader,
                 n_leader := Some (cfg_id (n_config n)),
                 n_elapsed := 0,
                 n_next := map (\<lambda>_. saturating_add (li_index (n_last n)) 1) (n_next n),
                 n_matched := map (\<lambda>_. 0) (n_matched n)\<rparr>;
          n2 = Node_set_local_matched (li_index (n_last n)) n1
      in do {
        n3 \<leftarrow> Node_barrier n2;
        Node_broadcast n3
      })"

text \<open>\<^verbatim>\<open>votes.fill(false); votes[local] = true\<close>: panics when the node has no slot.\<close>

definition Node_vote_for_self :: "('v, 's) Node \<Rightarrow> ('v, 's) Node option" where
  "Node_vote_for_self n = do {
     votes \<leftarrow> index_write (map (\<lambda>_. False) (n_votes n)) (n_local n) True;
     Some (n\<lparr>n_votes := votes\<rparr>)
   }"

definition Node_campaign :: "u64 \<Rightarrow> ('v, 's) Node \<Rightarrow> ('v, 's) Node option" where
  "Node_campaign term n =
     (let n1 = (set_hard (\<lambda>h. h\<lparr>hs_term := term, hs_voted_for := Some (cfg_id (n_config n))\<rparr>)
                 (n\<lparr>n_prevoting := None\<rparr>))
               \<lparr>n_dirty := True, n_role := Candidate, n_leader := None\<rparr>
      in do {
        n2 \<leftarrow> Node_vote_for_self n1;
        n3 \<leftarrow> Node_reset_election n2;
        if Node_election_quorum n3 then Node_become_leader n3
        else Node_ask_voters OutVote n3
      })"

section \<open>Replication\<close>

definition Node_append ::
    "LogId \<Rightarrow> 'v Entry option \<Rightarrow> u64 \<Rightarrow> ('v, 's) Node
     \<Rightarrow> ((u64 \<times> Rejection option) \<times> ('v, 's) Node) option" where
  "Node_append previous entry commit n =
     (let st = n_state n
      in if State_id_at (li_index previous) st \<noteq> Some previous
         then (let next =
                 (if li_index previous < li_index (State_base st)
                  then saturating_add (li_index (State_base st)) 1
                  else max (min (li_index previous) (saturating_add (li_index (State_last st)) 1)) 1)
               in Some ((li_index previous, Some (Conflict next)), n))
         else (case entry of
             None \<Rightarrow> do {
               n' \<leftarrow> Node_commit_to (min commit (li_index previous)) n;
               Some ((li_index previous, None), n')
             }
           | Some e \<Rightarrow>
               (let index = li_index (en_id e)
                in if State_id_at index st = Some (en_id e)
                   then do {
                     n' \<leftarrow> Node_commit_to (min commit index) n;
                     Some ((index, None), n')
                   }
                   else if index \<le> hs_commit (st_hard st)
                   then Some ((li_index previous, Some (Conflict index)), n)
                   else if State_full st \<and> li_index (State_last st) < index
                   then do {
                     n' \<leftarrow> Node_commit_to (min commit (li_index previous)) n;
                     Some ((li_index previous, Some RejectFull), n')
                   }
                   else (case State_push e (State_truncate index st) of
                       (Err _, st') \<Rightarrow>
                         Some ((li_index previous, Some RejectFull), n\<lparr>n_state := st'\<rparr>)
                     | (Ok _, st') \<Rightarrow> do {
                         n1 \<leftarrow> Node_refresh_membership (n\<lparr>n_state := st'\<rparr>);
                         (let n2 = n1\<lparr>n_dirty := True,
                                     n_log_from := Some (lower_from (n_log_from n1) index)\<rparr>
                          in do {
                            n3 \<leftarrow> Node_commit_to (min commit index) n2;
                            Some ((index, None), n3)
                          })
                       }))))"

text \<open>The loop over a batch, with \<open>response\<close> and \<open>accepted\<close> threaded through.\<close>

fun Node_append_batch ::
    "LogId \<Rightarrow> 'v Entry list \<Rightarrow> u64 \<Rightarrow> bool \<Rightarrow> u64 \<times> Rejection option \<Rightarrow> ('v, 's) Node
     \<Rightarrow> ((u64 \<times> Rejection option) \<times> ('v, 's) Node) option" where
  "Node_append_batch previous [] commit accepted response n = Some (response, n)"
| "Node_append_batch previous (e # es) commit accepted response n = do {
     (r, n') \<leftarrow> Node_append previous (Some e) commit n;
     (if snd r \<noteq> None
      then Some (if accepted then response else r, n')
      else Node_append_batch (en_id e) es commit True (fst r, None) n')
   }"

definition Node_replicated ::
    "usize \<Rightarrow> u64 \<Rightarrow> Rejection option \<Rightarrow> ('v, 's) Node \<Rightarrow> ('v, 's) Node option" where
  "Node_replicated peer index rejection n0 = do {
     active \<leftarrow> index_write (n_active n0) peer True;
     (let n = n0\<lparr>n_active := active\<rparr>
      in if li_index (n_last n) < index then Some n
         else (case rejection of
             None \<Rightarrow>
               if index \<le> n_matched n ! peer then Some n
               else do {
                 (let n1 = n\<lparr>n_matched := (n_matched n)[peer := index],
                            n_next := (n_next n)[peer := max (n_next n ! peer) (saturating_add index 1)]\<rparr>
                  in do {
                    (advanced, n2) \<leftarrow> Node_advance_commit n1;
                    if advanced then Node_broadcast n2
                    else if index < li_index (n_last n2) then Node_replicate peer n2
                    else Some n2
                  })
               }
           | Some (Conflict next) \<Rightarrow>
               if n_matched n ! peer \<le> index \<and> checked_add index 1 = Some (n_next n ! peer)
               then do {
                 next' \<leftarrow> clamp next (saturating_add (n_matched n ! peer) 1)
                            (saturating_add (li_index (n_last n)) 1);
                 Node_replicate peer (n\<lparr>n_next := (n_next n)[peer := next']\<rparr>)
               }
               else Some n
           | Some RejectFull \<Rightarrow> Some n))
   }"

section \<open>Message validation\<close>

definition valid_id :: "u64 \<Rightarrow> LogId \<Rightarrow> bool" where
  "valid_id term i \<longleftrightarrow>
     i = LogId_default \<or> (0 < li_index i \<and> 0 < li_term i \<and> li_term i \<le> term)"

definition valid_next :: "u64 \<Rightarrow> LogId \<Rightarrow> 'v Entry \<Rightarrow> bool" where
  "valid_next term previous e \<longleftrightarrow>
     valid_id term (en_id e)
     \<and> checked_add (li_index previous) 1 = Some (li_index (en_id e))
     \<and> li_term previous \<le> li_term (en_id e)"

fun valid_batch :: "u64 \<Rightarrow> LogId \<Rightarrow> bool \<Rightarrow> nat \<Rightarrow> 'v Entry option list \<Rightarrow> bool" where
  "valid_batch term previous ended count [] = (0 < count)"
| "valid_batch term previous ended count (None # es) = valid_batch term previous True count es"
| "valid_batch term previous ended count (Some e # es) =
     (if ended \<or> \<not> valid_next term previous e then False
      else valid_batch term (en_id e) ended (count + 1) es)"

definition Node_valid :: "('v, 's) Message \<Rightarrow> bool" where
  "Node_valid message =
     (case message of
        PreVoted _ campaign _ \<Rightarrow> 0 < campaign
      | _ \<Rightarrow>
          (let term = Message_term message
           in 0 < term
              \<and> (case message of
                   Vote _ lst \<Rightarrow> valid_id term lst
                 | PreVote _ lst \<Rightarrow> valid_id term lst
                 | Append _ previous entry _ \<Rightarrow>
                     valid_id term previous \<and> is_none_or (valid_next term previous) entry
                 | AppendBatch _ previous entries _ \<Rightarrow>
                     valid_id term previous \<and> valid_batch term previous False 0 entries
                 | Install _ snapshot \<Rightarrow>
                     0 < li_index (sn_last snapshot) \<and> valid_id term (sn_last snapshot)
                 | Replicated _ _ (Some (Conflict next)) \<Rightarrow> 0 < next
                 | _ \<Rightarrow> True)))"

section \<open>Time\<close>

text \<open>The leader's quorum check at the start of a tick: whether leadership is lost.\<close>

definition Node_check_quorum :: "('v, 's) Node \<Rightarrow> bool \<times> ('v, 's) Node" where
  "Node_check_quorum n =
     (if n_hooks n \<noteq> None \<and> n_role n = Leader
      then (let n1 = n\<lparr>n_quorum_elapsed := saturating_add (n_quorum_elapsed n) 1\<rparr>
            in if cfg_election_ticks (n_config n1) \<le> n_quorum_elapsed n1
               then (let quorum = Membership_quorum
                           (\<lambda>i. i = cfg_id (n_config n1)
                                \<or> is_some_and (\<lambda>k. n_active n1 ! k) (Node_peer_slot i n1))
                           (n_membership n1);
                         n2 = n1\<lparr>n_quorum_elapsed := 0, n_active := map (\<lambda>_. False) (n_active n1)\<rparr>
                     in (\<not> quorum, n2))
               else (False, n1))
      else (False, n))"

text \<open>The probe of the dynamic engine: start a pre-vote round for the next term.\<close>

definition Node_probe :: "u64 \<Rightarrow> ('v, 's) Node \<Rightarrow> ('v, 's) Node option" where
  "Node_probe term n = do {
     n1 \<leftarrow> Node_vote_for_self (n\<lparr>n_role := Follower, n_prevoting := Some term\<rparr>);
     n2 \<leftarrow> Node_reset_election n1;
     if Node_election_quorum n2 then Node_campaign term n2
     else Node_ask_voters (OutPreVote term) n2
   }"

definition Node_timers :: "('v, 's) Node \<Rightarrow> (unit Result \<times> ('v, 's) Node) option" where
  "Node_timers n =
     (if n_role n = Leader
      then (if cfg_heartbeat_ticks (n_config n) \<le> n_elapsed n
            then do {
              n1 \<leftarrow> Node_barrier (n\<lparr>n_elapsed := 0\<rparr>);
              n2 \<leftarrow> Node_broadcast n1;
              Some (Ok (), n2)
            }
            else Some (Ok (), n))
      else if Membership_is_voter (cfg_id (n_config n)) (n_membership n)
              \<and> n_election_deadline n \<le> n_elapsed n
      then (case checked_add (hs_term (n_hard n)) 1 of
              None \<Rightarrow> Some (Err ErrExhausted, n)
            | Some term \<Rightarrow> do {
                n1 \<leftarrow> (if n_hooks n \<noteq> None then Node_probe term n else Node_campaign term n);
                Some (Ok (), n1)
              })
      else Some (Ok (), n))"

definition Node_tick :: "('v, 's) Node \<Rightarrow> (unit Result \<times> ('v, 's) Node) option" where
  "Node_tick n =
     (case Node_available n of
        Err e \<Rightarrow> Some (Err e, n)
      | Ok _ \<Rightarrow>
          (let n1 = n\<lparr>n_elapsed := saturating_add (n_elapsed n) 1,
                      n_leader_age := saturating_add (n_leader_age n) 1\<rparr>;
               (lost, n2) = Node_check_quorum n1
           in if lost then do { n3 \<leftarrow> Node_follow None n2; Some (Ok (), n3) }
              else Node_timers n2))"

section \<open>Receiving a message\<close>

fun is_request :: "('v, 's) Message \<Rightarrow> bool" where
  "is_request (Vote _ _) = True"
| "is_request (PreVote _ _) = True"
| "is_request (Append _ _ _ _) = True"
| "is_request (AppendBatch _ _ _ _) = True"
| "is_request (Install _ _) = True"
| "is_request _ = False"

text \<open>Where the answer goes: the sender's slot, or the extra reply for an unknown requester of
  the dynamic engine.\<close>

definition Node_sender :: "('v, 's) Envelope \<Rightarrow> ('v, 's) Node \<Rightarrow> usize option" where
  "Node_sender env n =
     (case Node_peer_slot (env_from env) n of
        Some k \<Rightarrow> Some k
      | None \<Rightarrow> if n_hooks n \<noteq> None \<and> is_request (env_message env) then Some (Node_N n) else None)"

text \<open>The comparison of log positions in elections: by term, then by index.\<close>

definition log_up_to_date :: "LogId \<Rightarrow> LogId \<Rightarrow> bool" where
  "log_up_to_date lst ours \<longleftrightarrow> (li_term ours, li_index ours) \<le> (li_term lst, li_index lst)"

definition Node_on_prevote ::
    "usize \<Rightarrow> u64 \<Rightarrow> LogId \<Rightarrow> ('v, 's) Node \<Rightarrow> ('v, 's) Node option" where
  "Node_on_prevote peer term lst n =
     (let granted = hs_term (n_hard n) < term \<and> n_role n \<noteq> Leader
            \<and> cfg_election_ticks (n_config n) \<le> n_leader_age n
            \<and> log_up_to_date lst (n_last n)
      in Node_send peer (OutPreVoted term granted) n)"

text \<open>A message of a newer term makes the node a follower in that term.\<close>

definition Node_observe_term :: "u64 \<Rightarrow> ('v, 's) Node \<Rightarrow> ('v, 's) Node option" where
  "Node_observe_term term n =
     (if hs_term (n_hard n) < term
      then Node_follow None
             ((set_hard (\<lambda>h. h\<lparr>hs_term := term, hs_voted_for := None\<rparr>) n)\<lparr>n_dirty := True\<rparr>)
      else Some n)"

definition Node_on_prevoted ::
    "usize \<Rightarrow> u64 \<Rightarrow> bool \<Rightarrow> ('v, 's) Node \<Rightarrow> ('v, 's) Node option" where
  "Node_on_prevoted peer campaign granted n =
     (if n_prevoting n = Some campaign \<and> granted
      then do {
        votes \<leftarrow> index_write (n_votes n) peer True;
        (let n1 = n\<lparr>n_votes := votes\<rparr>
         in if Node_election_quorum n1 then Node_campaign campaign n1 else Some n1)
      }
      else Some n)"

fun Node_on_stale ::
    "usize \<Rightarrow> ('v, 's) Message \<Rightarrow> ('v, 's) Node \<Rightarrow> ('v, 's) Node option" where
  "Node_on_stale peer (Vote _ _) n = Node_send peer (OutVoted False) n"
| "Node_on_stale peer (Append _ previous _ _) n =
     Node_reply peer (li_index previous) (Some (Conflict 1)) n"
| "Node_on_stale peer (AppendBatch _ previous _ _) n =
     Node_reply peer (li_index previous) (Some (Conflict 1)) n"
| "Node_on_stale peer (Install _ snapshot) n =
     Node_reply peer (li_index (sn_last snapshot)) (Some (Conflict 1)) n"
| "Node_on_stale peer _ n = Some n"

definition Node_on_vote ::
    "Id \<Rightarrow> usize \<Rightarrow> LogId \<Rightarrow> ('v, 's) Node \<Rightarrow> ('v, 's) Node option" where
  "Node_on_vote from peer lst n =
     (let granted = is_none_or (\<lambda>i. i = from) (hs_voted_for (n_hard n))
            \<and> log_up_to_date lst (n_last n)
      in do {
        n1 \<leftarrow> (if granted
               then Node_reset_election
                      (if hs_voted_for (n_hard n) \<noteq> Some from
                       then (set_hard (\<lambda>h. h\<lparr>hs_voted_for := Some from\<rparr>) n)\<lparr>n_dirty := True\<rparr>
                       else n)
               else Some n);
        Node_send peer (OutVoted granted) n1
      })"

definition Node_on_voted :: "usize \<Rightarrow> bool \<Rightarrow> ('v, 's) Node \<Rightarrow> ('v, 's) Node option" where
  "Node_on_voted peer granted n =
     (if n_role n = Candidate \<and> granted
      then do {
        votes \<leftarrow> index_write (n_votes n) peer True;
        (let n1 = n\<lparr>n_votes := votes\<rparr>
         in if Node_election_quorum n1 then Node_become_leader n1 else Some n1)
      }
      else Some n)"

definition Node_on_append ::
    "Id \<Rightarrow> usize \<Rightarrow> LogId \<Rightarrow> 'v Entry option \<Rightarrow> u64 \<Rightarrow> ('v, 's) Node \<Rightarrow> ('v, 's) Node option" where
  "Node_on_append from peer previous entry commit n = do {
     n1 \<leftarrow> Node_follow (Some from) n;
     (r, n2) \<leftarrow> Node_append previous entry commit n1;
     Node_reply peer (fst r) (snd r) n2
   }"

definition Node_on_append_batch ::
    "Id \<Rightarrow> usize \<Rightarrow> LogId \<Rightarrow> 'v Entry option list \<Rightarrow> u64 \<Rightarrow> ('v, 's) Node
     \<Rightarrow> ('v, 's) Node option" where
  "Node_on_append_batch from peer previous entries commit n = do {
     n1 \<leftarrow> Node_follow (Some from) n;
     (r, n2) \<leftarrow> Node_append_batch previous (flatten entries) commit False (li_index previous, None) n1;
     Node_reply peer (fst r) (snd r) n2
   }"

definition Node_on_install ::
    "Id \<Rightarrow> usize \<Rightarrow> 's Snapshot \<Rightarrow> ('v, 's) Node \<Rightarrow> ('v, 's) Node option" where
  "Node_on_install from peer snapshot n0 =
     (let index = li_index (sn_last snapshot)
      in do {
        n \<leftarrow> Node_follow (Some from) n0;
        if index \<le> hs_commit (n_hard n)
           \<and> is_some_and (\<lambda>i. i \<noteq> sn_last snapshot) (State_id_at index (n_state n))
        then Node_reply peer index (Some (Conflict (saturating_add (li_index (n_base n)) 1))) n
        else do {
          n3 \<leftarrow> (if li_index (n_base n) < index
                    \<and> (hs_commit (n_hard n) < index
                       \<or> State_id_at index (n_state n) = Some (sn_last snapshot))
                 then (let n1 = (if State_id_at index (n_state n) \<noteq> Some (sn_last snapshot)
                                 then n\<lparr>n_log_from := checked_add index 1\<rparr> else n)
                       in do {
                         st \<leftarrow> State_install snapshot (n_state n1);
                         n2 \<leftarrow> Node_refresh_membership (n1\<lparr>n_state := st\<rparr>);
                         Some (n2\<lparr>n_snapshot_changed := True, n_dirty := True\<rparr>)
                       })
                 else Some n);
          Node_reply peer index None n3
        }
      })"

text \<open>The final \<^verbatim>\<open>match\<close> of \<^verbatim>\<open>step\<close>, for a message of the current term; election probes were
  handled before it (\<^verbatim>\<open>unreachable!\<close>).\<close>

fun Node_dispatch ::
    "Id \<Rightarrow> usize \<Rightarrow> ('v, 's) Message \<Rightarrow> ('v, 's) Node \<Rightarrow> ('v, 's) Node option" where
  "Node_dispatch from peer (PreVote _ _) n = None"
| "Node_dispatch from peer (PreVoted _ _ _) n = None"
| "Node_dispatch from peer (Vote _ lst) n = Node_on_vote from peer lst n"
| "Node_dispatch from peer (Voted _ granted) n = Node_on_voted peer granted n"
| "Node_dispatch from peer (Append _ previous entry commit) n =
     Node_on_append from peer previous entry commit n"
| "Node_dispatch from peer (AppendBatch _ previous entries commit) n =
     Node_on_append_batch from peer previous entries commit n"
| "Node_dispatch from peer (Install _ snapshot) n = Node_on_install from peer snapshot n"
| "Node_dispatch from peer (Replicated _ index rejection) n =
     (if n_role n = Leader then Node_replicated peer index rejection n else Some n)"

definition Node_accept ::
    "usize \<Rightarrow> ('v, 's) Envelope \<Rightarrow> ('v, 's) Node \<Rightarrow> ('v, 's) Node option" where
  "Node_accept peer env n =
     (case env_message env of
        PreVote term lst \<Rightarrow> Node_on_prevote peer term lst n
      | message \<Rightarrow>
          if n_hooks n \<noteq> None \<and> (case message of Vote _ _ \<Rightarrow> True | _ \<Rightarrow> False)
             \<and> (n_role n = Leader \<or> n_leader_age n < cfg_election_ticks (n_config n))
          then Some n
          else do {
            n1 \<leftarrow> Node_observe_term (Message_term message) n;
            (case message of
               PreVoted _ campaign granted \<Rightarrow> Node_on_prevoted peer campaign granted n1
             | _ \<Rightarrow>
                 if Message_term message < hs_term (n_hard n1)
                 then Node_on_stale peer message n1
                 else Node_dispatch (env_from env) peer message n1)
          })"

definition Node_step ::
    "('v, 's) Envelope \<Rightarrow> ('v, 's) Node \<Rightarrow> (unit Result \<times> ('v, 's) Node) option" where
  "Node_step env n =
     (case Node_available n of
        Err e \<Rightarrow> Some (Err e, n)
      | Ok _ \<Rightarrow>
          (case Node_sender env n of
             None \<Rightarrow> Some (Err ErrMessage, n)
           | Some peer \<Rightarrow>
               if env_from env = cfg_id (n_config n) \<or> env_to env \<noteq> cfg_id (n_config n)
                  \<or> \<not> Node_valid (env_message env)
               then Some (Err ErrMessage, n)
               else do {
                 n' \<leftarrow> Node_accept peer env (n\<lparr>n_request_from := Some (env_from env)\<rparr>);
                 Some (Ok (), n')
               }))"

section \<open>Proposals, compaction and diagnostics\<close>

text \<open>A proposal returns, or unwinds because a clone of a proposed value panicked; either way
  the node is left in a definite state.\<close>

datatype 'a Outcome = Returned "'a Result" | Unwound

definition BatchRollback_drop :: "u64 \<Rightarrow> bool \<Rightarrow> ('v, 's) State \<Rightarrow> ('v, 's) State" where
  "BatchRollback_drop from finished st = (if \<not> finished then State_truncate from st else st)"

definition Node_propose_many ::
    "usize \<Rightarrow> 'v option list \<Rightarrow> ('v, 's) Node
     \<Rightarrow> (ProposalRange Outcome \<times> ('v, 's) Node) option" where
  "Node_propose_many count values n =
     (case Node_available n of
        Err e \<Rightarrow> Some (Returned (Err e), n)
      | Ok _ \<Rightarrow>
          if n_role n \<noteq> Leader then Some (Returned (Err (ErrNotLeader (n_leader n))), n)
          else if count = 0 then Some (Returned (Err ErrConfig), n)
          else if State_CAP (n_state n) - length (State_entries (n_state n)) < count
          then Some (Returned (Err ErrFull), n)
          else (case (if count < 2 ^ 64 then checked_add (li_index (n_last n)) (of_nat count) else None) of
              None \<Rightarrow> Some (Returned (Err ErrExhausted), n)
            | Some last_index \<Rightarrow> do {
                first_index \<leftarrow> checked_add (li_index (n_last n)) 1;
                (let first = \<lparr>li_index = first_index, li_term = hs_term (n_hard n)\<rparr>
                 in do {
                   (end, st) \<leftarrow> push_values State_push first 0 values (n_state n);
                   (case end of
                      PushFailed e \<Rightarrow>
                        Some (Returned (Err e), n\<lparr>n_state := BatchRollback_drop first_index False st\<rparr>)
                    | PushUnwound \<Rightarrow>
                        Some (Unwound, n\<lparr>n_state := BatchRollback_drop first_index False st\<rparr>)
                    | PushDone \<Rightarrow>
                        (let lst = \<lparr>li_index = last_index, li_term = hs_term (n_hard n)\<rparr>;
                             n1 = n\<lparr>n_state := BatchRollback_drop first_index True st,
                                    n_dirty := True, n_log_from := Some first_index\<rparr>
                         in do {
                           n2 \<leftarrow> Node_refresh_membership n1;
                           (_, n3) \<leftarrow> Node_advance_commit (Node_set_local_matched last_index n2);
                           n4 \<leftarrow> Node_broadcast n3;
                           Some (Returned (Ok \<lparr>pr_first = first, pr_last = lst\<rparr>), n4)
                         }))
                 })
              }))"

text \<open>The public proposals clone with \<^verbatim>\<open>Clone\<close> implementations that return; an unwinding clone
  is a panic of the call.\<close>

definition Node_propose_batch ::
    "'v list \<Rightarrow> ('v, 's) Node \<Rightarrow> (ProposalRange Result \<times> ('v, 's) Node) option" where
  "Node_propose_batch values n = do {
     (r, n') \<leftarrow> Node_propose_many (length values) (map Some values) n;
     (case r of Returned x \<Rightarrow> Some (x, n') | Unwound \<Rightarrow> None)
   }"

definition Node_propose :: "'v \<Rightarrow> ('v, 's) Node \<Rightarrow> (LogId Result \<times> ('v, 's) Node) option" where
  "Node_propose value n = do {
     (r, n') \<leftarrow> Node_propose_many 1 [Some value] n;
     (case r of
        Returned (Ok rng) \<Rightarrow> Some (Ok (pr_first rng), n')
      | Returned (Err e) \<Rightarrow> Some (Err e, n')
      | Unwound \<Rightarrow> None)
   }"

definition Node_status :: "('v, 's) Node \<Rightarrow> Status" where
  "Node_status n =
     \<lparr>status_id = cfg_id (n_config n),
      status_role = n_role n,
      status_term = hs_term (n_hard n),
      status_last = n_last n,
      status_commit = hs_commit (n_hard n),
      status_retained = length (State_entries (n_state n)),
      status_capacity = State_CAP (n_state n),
      status_persistence_pending = n_dirty n,
      status_messages_pending =
        length (flatten (n_outbox n)) + (if n_extra_reply n \<noteq> None then 1 else 0)\<rparr>"

definition Node_progress :: "('v, 's) Node \<Rightarrow> PeerProgress list" where
  "Node_progress n =
     List.map_filter (\<lambda>i. case n_peers n ! i of
         None \<Rightarrow> None
       | Some p \<Rightarrow>
           if n_role n = Leader \<and> Membership_contains p (n_membership n) \<and> p \<noteq> cfg_id (n_config n)
           then Some \<lparr>pp_id = p, pp_voter = Membership_is_voter p (n_membership n),
                      pp_matched = n_matched n ! i, pp_next = n_next n ! i\<rparr>
           else None) [0..<Node_N n]"

definition Node_compact :: "u64 \<Rightarrow> 's \<Rightarrow> ('v, 's) Node \<Rightarrow> (unit Result \<times> ('v, 's) Node) option" where
  "Node_compact index value n =
     (case Node_available n of
        Err e \<Rightarrow> Some (Err e, n)
      | Ok _ \<Rightarrow>
          if index \<le> li_index (n_base n) \<or> hs_commit (n_hard n) < index
          then Some (Err ErrNotCommitted, n)
          else (case State_id_at index (n_state n) of
              None \<Rightarrow> Some (Err ErrNotCommitted, n)
            | Some lst \<Rightarrow>
                do {
                  st \<leftarrow> State_install \<lparr>sn_last = lst, sn_value = value\<rparr> (n_state n);
                  n1 \<leftarrow> Some (n\<lparr>n_state := st, n_dirty := True, n_snapshot_changed := True\<rparr>);
                  if n_role n1 = Leader
                  then do {
                    n2 \<leftarrow> Node_barrier n1;
                    n3 \<leftarrow> Node_broadcast n2;
                    Some (Ok (), n3)
                  }
                  else Some (Ok (), n1)
                }))"

section \<open>Output\<close>

text \<open>The message for a descriptor; the inner \<open>None\<close> is the early return of a \<^verbatim>\<open>?\<close>.\<close>

definition Node_replicate_message ::
    "usize \<Rightarrow> ('v, 's) Node \<Rightarrow> ('v, 's) Message option option" where
  "Node_replicate_message peer n =
     (let st = n_state n; term = hs_term (st_hard st); commit = hs_commit (st_hard st)
      in do {
        next \<leftarrow> index_read (n_next n) peer;
        if next \<le> li_index (State_base st)
        then Some (map_option (\<lambda>s. Install term \<lparr>sn_last = sn_last s, sn_value = sn_value s\<rparr>)
                     (st_snapshot st))
        else do {
          before \<leftarrow> checked_sub next 1;
          Some (do {
            previous \<leftarrow> State_id_at before st;
            Some (if n_hooks n \<noteq> None
                     \<and> Option.bind (checked_add next 1) (\<lambda>i. State_get i st) \<noteq> None
                  then AppendBatch term previous
                         (map (\<lambda>offset. Option.bind (checked_add next (of_nat offset)) (\<lambda>i. State_get i st))
                           [0..<MAX_APPEND_ENTRIES])
                         commit
                  else Append term previous (State_get next st) commit)
          })
        }
      })"

definition Node_message ::
    "usize \<Rightarrow> Outbound \<Rightarrow> ('v, 's) Node \<Rightarrow> ('v, 's) Message option option" where
  "Node_message peer outbound n =
     (let term = hs_term (n_hard n)
      in case outbound of
        OutPreVote campaign \<Rightarrow> Some (Some (PreVote campaign (n_last n)))
      | OutPreVoted campaign granted \<Rightarrow> Some (Some (PreVoted term campaign granted))
      | OutVote \<Rightarrow> Some (Some (Vote term (n_last n)))
      | OutVoted granted \<Rightarrow> Some (Some (Voted term granted))
      | OutReplicated index rejection \<Rightarrow> Some (Some (Replicated term index rejection))
      | OutReplicate \<Rightarrow> Node_replicate_message peer n)"

definition Node_emit ::
    "usize \<Rightarrow> Id \<Rightarrow> Outbound \<Rightarrow> ('v, 's) Node
     \<Rightarrow> (('v, 's) Envelope option \<times> ('v, 's) Node) option" where
  "Node_emit peer to outbound n = do {
     message \<leftarrow> Node_message peer outbound n;
     Some (map_option (\<lambda>m. \<lparr>env_from = cfg_id (n_config n), env_to = to, env_message = m\<rparr>) message, n)
   }"

definition Node_next_message ::
    "('v, 's) Node \<Rightarrow> (('v, 's) Envelope option \<times> ('v, 's) Node) option" where
  "Node_next_message n =
     (if n_dirty n then Some (None, n)
      else (case position (\<lambda>x. x \<noteq> None) (n_outbox n) of
          Some peer \<Rightarrow>
            (case (n_peers n ! peer, n_outbox n ! peer) of
               (Some to, Some outbound) \<Rightarrow>
                 Node_emit peer to outbound (n\<lparr>n_outbox := (n_outbox n)[peer := None]\<rparr>)
             | _ \<Rightarrow> Some (None, n))
        | None \<Rightarrow>
            (case n_extra_reply n of
               None \<Rightarrow> Some (None, n)
             | Some (to, outbound) \<Rightarrow>
                 Node_emit (Node_N n) to outbound (n\<lparr>n_extra_reply := None\<rparr>))))"

definition Node_committed :: "('v, 's) Node \<Rightarrow> 'v Entry list" where
  "Node_committed n =
     takeWhile (\<lambda>e. \<not> n_dirty n \<and> li_index (en_id e) \<le> hs_commit (n_hard n))
       (State_entries (n_state n))"

definition Node_snapshot :: "('v, 's) Node \<Rightarrow> 's Snapshot option" where
  "Node_snapshot n = (if n_dirty n then None else st_snapshot (n_state n))"

section \<open>Persistence\<close>

text \<open>The token \<^verbatim>\<open>Ready\<close> is an exclusive borrow of the node: it is the node itself.\<close>

definition Node_ready :: "('v, 's) Node \<Rightarrow> ('v, 's) Node option" where
  "Node_ready n = (if n_dirty n then Some n else None)"

definition Ready_write :: "('v, 's) Node \<Rightarrow> ('v, 's) Write" where
  "Ready_write n = State_write (n_state n) (n_log_from n) (n_snapshot_changed n)"

definition Ready_state :: "('v, 's) Node \<Rightarrow> ('v, 's) State" where
  "Ready_state n = n_state n"

definition Ready_persisted :: "('v, 's) Node \<Rightarrow> ('v, 's) Node" where
  "Ready_persisted n = n\<lparr>n_dirty := False, n_log_from := None, n_snapshot_changed := False\<rparr>"

section \<open>Construction\<close>

definition valid_timing :: "Config \<Rightarrow> bool" where
  "valid_timing c \<longleftrightarrow>
     \<not> (cfg_heartbeat_ticks c = 0 \<or> cfg_election_ticks c \<le> cfg_heartbeat_ticks c
        \<or> u64_MAX div 2 < cfg_election_ticks c)"

definition Node_build ::
    "Config \<Rightarrow> ('v, 's) State \<Rightarrow> Membership \<Rightarrow> ('v, 's) MembershipHooks option
     \<Rightarrow> ('v, 's) Node Result option" where
  "Node_build config state membership hooks =
     (if State_CAP state = 0 \<or> \<not> valid_timing config then Some (Err ErrConfig)
      else (let peers = Membership_peers membership; nn = length peers;
                node =
                  \<lparr>n_config = config, n_state = state, n_role = Follower, n_leader = None,
                   n_local = (case position (\<lambda>p. p = Some (cfg_id config)) peers of
                                None \<Rightarrow> nn | Some i \<Rightarrow> i),
                   n_membership = membership, n_bootstrap = membership, n_hooks = hooks,
                   n_peers = peers, n_votes = replicate nn False, n_next = replicate nn 1,
                   n_matched = replicate nn 0, n_outbox = replicate nn None, n_dirty = False,
                   n_log_from = None, n_snapshot_changed = False, n_elapsed = 0,
                   n_election_deadline = 0, n_random = cfg_seed config, n_prevoting = None,
                   n_leader_age = u64_MAX, n_quorum_elapsed = 0, n_active = replicate nn False,
                   n_extra_reply = None, n_request_from = None\<rparr>
            in do {
              n1 \<leftarrow> Node_refresh_membership node;
              n2 \<leftarrow> Node_reset_election n1;
              Some (Ok n2)
            }))"

definition Node_new :: "Config \<Rightarrow> ('v, 's) State \<Rightarrow> ('v, 's) Node Result option" where
  "Node_new config state =
     (let members = cfg_members config; nn = length members
      in if nn = 0 \<or> State_CAP state = 0
            \<or> position (\<lambda>i. i = cfg_id config) members = None
            \<or> \<not> valid_timing config
            \<or> list_ex (\<lambda>i. members ! i \<in> set (take i members)) [0..<nn]
         then Some (Err ErrConfig)
         else if is_some_and (\<lambda>i. i \<notin> set members) (hs_voted_for (st_hard state))
         then Some (Err ErrState)
         else (case Membership_new nn members [] of
                 Err e \<Rightarrow> Some (Err e)
               | Ok membership \<Rightarrow> Node_build config state membership None))"

definition Node_grow :: "usize \<Rightarrow> ('v, 's) Node \<Rightarrow> ('v, 's) Node" where
  "Node_grow new_cap n = n\<lparr>n_state := State_grow new_cap (n_state n)\<rparr>"

end
