(* ===== verification/Jarl_Node_Inv.thy ===== *)
theory Jarl_Node_Inv
  imports Jarl_Node
begin

text \<open>
  The invariant of the Raft node and the relation between the node before an operation and
  the node after it.

  \<open>Node_inv\<close> is what holds between any two calls: the checkpoint is well formed, the arrays
  have their length, every member has a slot, the effective membership is the newest
  configuration of the log, and a leader's replication positions lie within its log.
  \<open>evolves n0 n\<close> relates the start \<open>n0\<close> of an operation to a later point \<open>n\<close>: terms, votes and
  commitment only move forward, committed entries stay, and the pending transaction described
  by \<open>log_from\<close> and \<open>snapshot_changed\<close> turns the checkpoint of \<open>n0\<close> into that of \<open>n\<close>.
\<close>

section \<open>Transitions of the checkpoint\<close>

definition HardState_le :: "HardState \<Rightarrow> HardState \<Rightarrow> bool" where
  "HardState_le h h' \<longleftrightarrow>
     hs_term h \<le> hs_term h' \<and> hs_commit h \<le> hs_commit h'
     \<and> (hs_term h = hs_term h' \<and> hs_voted_for h \<noteq> None \<longrightarrow> hs_voted_for h' = hs_voted_for h)"

definition State_advances :: "('v, 's) State \<Rightarrow> ('v, 's) State \<Rightarrow> bool" where
  "State_advances st st' \<longleftrightarrow>
     HardState_le (st_hard st) (st_hard st')
     \<and> li_index (State_base st) \<le> li_index (State_base st')
     \<and> (\<forall>e \<in> set (State_entries st). li_index (en_id e) \<le> hs_commit (st_hard st) \<longrightarrow>
          e \<in> set (State_entries st') \<or> li_index (en_id e) \<le> li_index (State_base st'))"

lemma HardState_le_refl [simp]: "HardState_le h h"
  by (simp add: HardState_le_def)

lemma HardState_le_trans: "HardState_le a b \<Longrightarrow> HardState_le b c \<Longrightarrow> HardState_le a c"
  unfolding HardState_le_def by (metis order.antisym order.trans)

lemma State_advances_refl [simp]: "State_advances st st"
  by (simp add: State_advances_def)

lemma State_advances_trans:
  assumes "State_advances a b" and "State_advances b c"
  shows "State_advances a c"
proof -
  have "hs_commit (st_hard a) \<le> hs_commit (st_hard b)"
    using assms by (simp add: State_advances_def HardState_le_def)
  with assms show ?thesis
    unfolding State_advances_def by (meson HardState_le_trans order.trans)
qed

lemma State_advances_hard:
  "State_advances st (st\<lparr>st_hard := h\<rparr>) \<longleftrightarrow> HardState_le (st_hard st) h"
  by (auto simp: State_advances_def)

lemma State_inv_D:
  assumes "State_inv st"
  shows "slots_wf st" and "log_chain (State_base st) (State_entries st)"
    and "li_term (State_last st) \<le> hs_term (st_hard st)"
    and "li_index (State_base st) \<le> hs_commit (st_hard st)"
    and "hs_commit (st_hard st) \<le> li_index (State_last st)"
  using assms by (auto simp: State_inv_def)

lemma State_inv_base:
  assumes "State_inv st" and "st_snapshot st = Some s"
  shows "li_index (sn_last s) \<noteq> 0" and "li_term (sn_last s) \<noteq> 0"
  using assms by (auto simp: State_inv_def State_base_def)

lemma State_inv_hard:
  assumes "State_inv st" and "hs_term (st_hard st) \<le> hs_term h"
    and "hs_commit (st_hard st) \<le> hs_commit h" and "hs_commit h \<le> li_index (State_last st)"
    and "hs_term h = 0 \<longrightarrow> hs_voted_for h = None"
  shows "State_inv (st\<lparr>st_hard := h\<rparr>)"
  using assms by (auto simp: State_inv_def slots_wf_def)

text \<open>Appending the next entry.\<close>

lemma State_inv_push:
  assumes inv: "State_inv st" and room: "\<not> State_full st"
    and idx: "checked_add (li_index (State_last st)) 1 = Some (li_index (en_id e))"
    and trm: "li_term (en_id e) \<noteq> 0" "li_term (State_last st) \<le> li_term (en_id e)"
      "li_term (en_id e) \<le> hs_term (st_hard st)"
  obtains st' where "State_push e st = (Ok (), st')" and "State_inv st'"
    and "State_entries st' = State_entries st @ [e]" and "State_CAP st' = State_CAP st"
    and "st_hard st' = st_hard st" and "st_snapshot st' = st_snapshot st"
    and "State_last st' = en_id e" and "State_base st' = State_base st"
    and "State_advances st st'"
proof -
  obtain st' where st': "State_push e st = (Ok (), st')" "slots_wf st'"
    "State_entries st' = State_entries st @ [e]" "State_CAP st' = State_CAP st"
    "st_hard st' = st_hard st" "st_snapshot st' = st_snapshot st"
    using State_push_ok [OF State_inv_D(1) [OF inv] room] by metis
  have base: "State_base st' = State_base st"
    using st'(6) by (simp add: State_base_def)
  have lst: "State_last st' = en_id e"
    by (simp add: State_last_def st'(3))
  have "hs_commit (st_hard st) \<le> li_index (en_id e)"
    using State_inv_D(5) [OF inv] idx by (auto simp: u64)
  moreover have "log_chain (State_base st) (State_entries st @ [e])"
    using State_inv_D(2) [OF inv] idx trm by (simp add: log_chain_append State_last_def)
  ultimately have "State_inv st'"
    using inv st' trm lst base by (auto simp: State_inv_def)
  moreover have "State_advances st st'"
    by (simp add: State_advances_def base st')
  ultimately show ?thesis
    using st' base lst by (intro that) auto
qed

text \<open>Dropping an uncommitted suffix.\<close>

lemma State_inv_truncate:
  assumes inv: "State_inv st" and i: "hs_commit (st_hard st) < i"
  shows "State_inv (State_truncate i st)"
    and "State_base (State_truncate i st) = State_base st"
    and "State_advances st (State_truncate i st)"
proof -
  let ?es = "State_entries st" and ?b = "State_base st"
  note tr = State_truncate_spec [OF State_inv_D(1,2) [OF inv], of i]
  show base: "State_base (State_truncate i st) = ?b"
    using tr by (simp add: State_base_def)
  show "State_advances st (State_truncate i st)"
    using i tr base by (auto simp: State_advances_def u64)
  let ?k = "unat i - unat (li_index ?b) - 1"
  have es: "State_entries (State_truncate i st) = take ?k ?es"
    using tr log_chain_filter_below [OF State_inv_D(2) [OF inv]] by simp
  have ch: "log_chain ?b (take ?k ?es)"
    using State_inv_D(2) [OF inv] by (rule log_chain_take)
  have last_t: "li_term (log_last ?b (take ?k ?es)) \<le> li_term (State_last st)"
  proof -
    have "State_last st = log_last (log_last ?b (take ?k ?es)) (drop ?k ?es)"
      unfolding State_last_def by (metis append_take_drop_id log_last_append)
    then show ?thesis
      using log_chain_last_term [OF log_chain_drop [OF State_inv_D(2) [OF inv]]] by metis
  qed
  have "unat (hs_commit (st_hard st)) \<le> unat (li_index ?b) + length (take ?k ?es)"
  proof -
    have "unat (li_index (State_last st)) = unat (li_index ?b) + length ?es"
      unfolding State_last_def by (rule log_chain_last_index [OF State_inv_D(2) [OF inv]])
    with State_inv_D(4,5) [OF inv] i show ?thesis
      by (auto simp: u64)
  qed
  then have "hs_commit (st_hard st) \<le> li_index (log_last ?b (take ?k ?es))"
    using log_chain_last_index [OF ch] by (simp add: u64)
  then show "State_inv (State_truncate i st)"
    using inv tr es ch last_t base
    by (auto simp: State_inv_def State_last_def intro: order.trans)
qed

text \<open>After a truncation at the index following a held entry, that entry is the last one.\<close>

lemma State_truncate_last:
  assumes inv: "State_inv st" and p: "State_id_at (li_index p) st = Some p"
    and i: "checked_add (li_index p) 1 = Some i"
  shows "State_last (State_truncate i st) = p"
proof -
  let ?es = "State_entries st" and ?b = "State_base st"
  note ch = State_inv_D(2) [OF inv]
  note tr = State_truncate_spec [OF State_inv_D(1,2) [OF inv], of i]
  have base: "State_base (State_truncate i st) = ?b"
    using tr by (simp add: State_base_def)
  let ?k = "unat (li_index p) - unat (li_index ?b)"
  have "unat i = Suc (unat (li_index p))"
    using i by (simp add: u64)
  then have es: "State_entries (State_truncate i st) = take ?k ?es"
    using tr log_chain_filter_below [OF ch, of i] by simp
  show ?thesis
  proof (cases "p = ?b")
    case True
    then show ?thesis
      by (simp add: State_last_def es base)
  next
    case False
    then obtain e where e: "e \<in> set ?es" "en_id e = p"
      using p State_id_at_cases [OF State_inv_D(1,2) [OF inv]] by auto
    then obtain j where j: "j < length ?es" "?es ! j = e"
      by (auto simp: in_set_conv_nth)
    then have "unat (li_index p) = Suc (unat (li_index ?b) + j)"
      using log_chain_nth [OF ch j(1)] e by simp
    then have "take ?k ?es = take j ?es @ [e]"
      using j by (simp add: take_Suc_conv_app_nth)
    then show ?thesis
      by (simp add: State_last_def es base e)
  qed
qed

text \<open>Installing a snapshot, with and without its last entry in the log.\<close>

lemma State_inv_install:
  assumes inv: "State_inv st" and pos: "li_index (sn_last sn) \<noteq> 0" "li_term (sn_last sn) \<noteq> 0"
    and trm: "li_term (sn_last sn) \<le> hs_term (st_hard st)"
    and fwd: "li_index (State_base st) < li_index (sn_last sn)"
    and ok: "hs_commit (st_hard st) < li_index (sn_last sn)
      \<or> State_id_at (li_index (sn_last sn)) st = Some (sn_last sn)"
  shows "State_inv (installed sn st)" and "State_advances st (installed sn st)"
    and "State_id_at (li_index (sn_last sn)) st = Some (sn_last sn)
      \<Longrightarrow> State_last (installed sn st) = State_last st"
proof -
  let ?i = "li_index (sn_last sn)" and ?es = "State_entries st" and ?b = "State_base st"
  let ?st' = "installed sn st"
  note wf = State_inv_D(1) [OF inv] and ch = State_inv_D(2) [OF inv]
  note ins = installed_spec [OF wf ch, of sn]
  have base: "State_base ?st' = sn_last sn"
    using ins by (simp add: State_base_def)
  show adv: "State_advances st ?st'"
    using ins base fwd ok by (auto simp: State_advances_def HardState_le_def u64)
  let ?k = "unat ?i - unat (li_index ?b)"
  have held: "State_entries ?st' = drop ?k ?es \<and> log_last ?b (take ?k ?es) = sn_last sn"
    if at: "State_id_at ?i st = Some (sn_last sn)"
  proof -
    from at fwd obtain e where e: "e \<in> set ?es" "en_id e = sn_last sn"
      using State_id_at_cases [OF wf ch] by auto
    then obtain j where j: "j < length ?es" "?es ! j = e"
      by (auto simp: in_set_conv_nth)
    then have "?k = Suc j"
      using log_chain_nth [OF ch j(1)] e by simp
    then have "log_last ?b (take ?k ?es) = sn_last sn"
      using j e by (simp add: take_Suc_conv_app_nth)
    then show ?thesis
      using ins at log_chain_filter_above [OF ch] by simp
  qed
  have same: "State_last ?st' = State_last st" if "State_id_at ?i st = Some (sn_last sn)"
    using held [OF that] base unfolding State_last_def
    by (metis append_take_drop_id log_last_append)
  then show "State_id_at ?i st = Some (sn_last sn) \<Longrightarrow> State_last ?st' = State_last st" .
  show "State_inv ?st'"
  proof (cases "State_id_at ?i st = Some (sn_last sn)")
    case True
    then have "?i \<le> li_index (State_last st)"
      using State_id_at_defined [OF wf ch, of ?i] by simp
    moreover have "log_chain (sn_last sn) (drop ?k ?es)"
      using held [OF True] log_chain_drop [OF ch, of ?k] by simp
    ultimately show ?thesis
      using ins held [OF True] same [OF True] base inv pos trm
      by (auto simp: State_inv_def)
  next
    case False
    then have "State_entries ?st' = []" "hs_commit (st_hard st) < ?i"
      using ins ok by auto
    then show ?thesis
      using ins base inv pos trm by (auto simp: State_inv_def State_last_def)
  qed
qed

section \<open>The invariant\<close>

definition Membership_ok :: "usize \<Rightarrow> Membership \<Rightarrow> bool" where
  "Membership_ok mx m \<longleftrightarrow> Membership_wf m \<and> Membership_MAX m = mx"

text \<open>The configurations carried by application payloads are well-formed values of the type
  \<^verbatim>\<open>Membership<N>\<close>.\<close>

definition entry_ok :: "('v, 's) MembershipHooks option \<Rightarrow> usize \<Rightarrow> 'v Entry \<Rightarrow> bool" where
  "entry_ok hooks mx e \<longleftrightarrow>
     is_none_or (\<lambda>h. is_none_or (Membership_ok mx) (Option.bind (en_value e) (hook_record h))) hooks"

definition snapshot_ok :: "('v, 's) MembershipHooks option \<Rightarrow> usize \<Rightarrow> 's Snapshot \<Rightarrow> bool" where
  "snapshot_ok hooks mx s \<longleftrightarrow> is_none_or (\<lambda>h. Membership_ok mx (hook_snapshot h (sn_value s))) hooks"

definition payloads_ok :: "('v, 's) MembershipHooks option \<Rightarrow> usize \<Rightarrow> ('v, 's) State \<Rightarrow> bool" where
  "payloads_ok hooks mx st \<longleftrightarrow>
     list_all (entry_ok hooks mx) (State_entries st) \<and> is_none_or (snapshot_ok hooks mx) (st_snapshot st)"

fun message_ok :: "('v, 's) MembershipHooks option \<Rightarrow> usize \<Rightarrow> ('v, 's) Message \<Rightarrow> bool" where
  "message_ok hooks mx (Append _ _ e _) = is_none_or (entry_ok hooks mx) e"
| "message_ok hooks mx (AppendBatch _ _ es _) = list_all (entry_ok hooks mx) (flatten es)"
| "message_ok hooks mx (Install _ s) = snapshot_ok hooks mx s"
| "message_ok hooks mx _ = True"

text \<open>The part of the invariant about what is durable and what is fixed at construction.\<close>

definition log_ok :: "('v, 's) Node \<Rightarrow> bool" where
  "log_ok n \<longleftrightarrow>
     valid_timing (n_config n) \<and> Membership_ok (Node_N n) (n_bootstrap n)
     \<and> 0 < State_CAP (n_state n) \<and> State_inv (n_state n)
     \<and> payloads_ok (n_hooks n) (Node_N n) (n_state n)"

text \<open>The per-peer arrays and the outbox.\<close>

definition slots_ok :: "('v, 's) Node \<Rightarrow> bool" where
  "slots_ok n \<longleftrightarrow>
     length (n_votes n) = Node_N n \<and> length (n_next n) = Node_N n
     \<and> length (n_matched n) = Node_N n \<and> length (n_outbox n) = Node_N n
     \<and> length (n_active n) = Node_N n \<and> distinct (flatten (n_peers n))
     \<and> (\<forall>i < Node_N n. 1 \<le> n_next n ! i)
     \<and> (\<forall>i < Node_N n. n_peers n ! i = None \<longrightarrow> n_outbox n ! i = None)
     \<and> is_none_or (\<lambda>(_, out). out \<noteq> OutReplicate) (n_extra_reply n)"

text \<open>Every replication position is at most one past the log.\<close>

definition reach :: "('v, 's) Node \<Rightarrow> bool" where
  "reach n \<longleftrightarrow> (\<forall>i < Node_N n. n_next n ! i \<le> saturating_add (li_index (n_last n)) 1)"

text \<open>Role, election and replication state.\<close>

definition next_ok :: "('v, 's) Node \<Rightarrow> bool" where
  "next_ok n \<longleftrightarrow>
     (n_role n = Leader \<or> Some OutReplicate \<in> set (n_outbox n) \<longrightarrow> reach n)
     \<and> (n_role n = Leader \<longrightarrow> (\<forall>i < Node_N n. n_matched n ! i \<le> li_index (n_last n)))"

definition role_ok :: "('v, 's) Node \<Rightarrow> bool" where
  "role_ok n \<longleftrightarrow>
     (n_role n \<noteq> Follower \<longrightarrow>
        hs_term (n_hard n) \<noteq> 0 \<and> hs_voted_for (n_hard n) = Some (cfg_id (n_config n))
        \<and> n_prevoting n = None)"

definition prevote_ok :: "('v, 's) Node \<Rightarrow> bool" where
  "prevote_ok n \<longleftrightarrow>
     (n_prevoting n \<noteq> None \<longrightarrow>
        n_local n < Node_N n \<and> n_prevoting n = checked_add (hs_term (n_hard n)) 1)"

text \<open>The effective membership is the newest configuration of the log, and its members have slots.\<close>

definition slot_of :: "Id \<Rightarrow> Id option list \<Rightarrow> usize" where
  "slot_of i peers = (case position (\<lambda>p. p = Some i) peers of None \<Rightarrow> length peers | Some k \<Rightarrow> k)"

definition members_ok :: "('v, 's) Node \<Rightarrow> bool" where
  "members_ok n \<longleftrightarrow>
     n_membership n = snd (Node_membership_at (li_index (n_last n)) n)
     \<and> Some ` Membership_ids (n_membership n) \<subseteq> set (n_peers n)
     \<and> n_local n = slot_of (cfg_id (n_config n)) (n_peers n)"

definition clean_ok :: "('v, 's) Node \<Rightarrow> bool" where
  "clean_ok n \<longleftrightarrow> (\<not> n_dirty n \<longrightarrow> n_log_from n = None \<and> \<not> n_snapshot_changed n)"

definition Node_inv :: "('v, 's) Node \<Rightarrow> bool" where
  "Node_inv n \<longleftrightarrow>
     log_ok n \<and> slots_ok n \<and> next_ok n \<and> role_ok n \<and> prevote_ok n \<and> members_ok n \<and> clean_ok n"

section \<open>Steps of an operation\<close>

definition evolves :: "('v, 's) Node \<Rightarrow> ('v, 's) Node \<Rightarrow> bool" where
  "evolves n0 n \<longleftrightarrow>
     n_config n = n_config n0 \<and> n_bootstrap n = n_bootstrap n0 \<and> n_hooks n = n_hooks n0
     \<and> Node_N n = Node_N n0
     \<and> (\<forall>i < Node_N n0. n_peers n0 ! i \<noteq> None \<longrightarrow> n_peers n ! i \<noteq> None)
     \<and> State_advances (n_state n0) (n_state n)
     \<and> covers (n_state n0) (n_state n) (n_log_from n) (n_snapshot_changed n)
     \<and> is_none_or (\<lambda>f. li_index (n_base n) < f) (n_log_from n)"

definition saved :: "('v, 's) Node \<Rightarrow> ('v, 's) Node \<Rightarrow> bool" where
  "saved n0 n \<longleftrightarrow> n_dirty n \<or> n_state n = n_state n0"

definition good :: "('v, 's) Node \<Rightarrow> ('v, 's) Node \<Rightarrow> bool" where
  "good n0 n \<longleftrightarrow> Node_inv n \<and> evolves n0 n \<and> saved n0 n"

text \<open>What the volatile operations leave alone.\<close>

definition fixed_part ::
    "('v, 's) Node \<Rightarrow> Config \<times> Membership \<times> ('v, 's) MembershipHooks option \<times> ('v, 's) State
       \<times> bool \<times> u64 option \<times> bool \<times> usize" where
  "fixed_part n = (n_config n, n_bootstrap n, n_hooks n, n_state n, n_dirty n, n_log_from n,
     n_snapshot_changed n, Node_N n)"

lemma fixed_part_eq:
  "fixed_part n' = fixed_part n \<longleftrightarrow>
     n_config n' = n_config n \<and> n_bootstrap n' = n_bootstrap n \<and> n_hooks n' = n_hooks n
     \<and> n_state n' = n_state n \<and> n_dirty n' = n_dirty n \<and> n_log_from n' = n_log_from n
     \<and> n_snapshot_changed n' = n_snapshot_changed n \<and> Node_N n' = Node_N n"
  by (simp add: fixed_part_def)

lemma log_ok_fixed: "fixed_part n' = fixed_part n \<Longrightarrow> log_ok n' \<longleftrightarrow> log_ok n"
  by (simp add: fixed_part_eq log_ok_def)

lemma clean_ok_fixed: "fixed_part n' = fixed_part n \<Longrightarrow> clean_ok n' \<longleftrightarrow> clean_ok n"
  by (simp add: fixed_part_eq clean_ok_def)

lemma saved_fixed: "fixed_part n' = fixed_part n \<Longrightarrow> saved n0 n' \<longleftrightarrow> saved n0 n"
  by (simp add: fixed_part_eq saved_def)

lemma membership_at_fixed:
  "fixed_part n' = fixed_part n \<Longrightarrow> Node_membership_at i n' = Node_membership_at i n"
  by (simp add: fixed_part_eq Node_membership_at_def split: option.splits)

lemma evolves_fixed:
  assumes "fixed_part n' = fixed_part n"
    and "\<And>i. i < Node_N n \<Longrightarrow> n_peers n ! i \<noteq> None \<Longrightarrow> n_peers n' ! i \<noteq> None"
    and "evolves n0 n"
  shows "evolves n0 n'"
  using assms by (auto simp: evolves_def fixed_part_eq)

lemma evolves_refl: "clean_ok n \<Longrightarrow> \<not> n_dirty n \<Longrightarrow> evolves n n"
  by (simp add: evolves_def clean_ok_def covers_refl)

section \<open>Timers\<close>

lemma valid_timing_ticks:
  assumes "valid_timing c"
  shows "cfg_election_ticks c \<noteq> 0" and "2 * unat (cfg_election_ticks c) < 2 ^ 64"
proof -
  from assms have lt: "cfg_heartbeat_ticks c < cfg_election_ticks c"
    and le: "cfg_election_ticks c \<le> u64_MAX div 2"
    by (auto simp: valid_timing_def not_le not_less)
  from lt show "cfg_election_ticks c \<noteq> 0"
    by (auto simp: u64)
  have "unat (u64_MAX div 2 :: u64) = 9223372036854775807"
    by (simp add: unat_div)
  with le show "2 * unat (cfg_election_ticks c) < 2 ^ 64"
    by (simp add: u64)
qed

text \<open>The election deadline is drawn from \<open>[ticks, 2 * ticks)\<close>.\<close>

lemma reset_election_returns:
  assumes "valid_timing (n_config n)"
  obtains deadline where
    "Node_reset_election n = Some (n\<lparr>n_random := n_random n + 0x9e3779b97f4a7c15,
        n_election_deadline := deadline, n_elapsed := 0\<rparr>)"
    and "cfg_election_ticks (n_config n) \<le> deadline"
    and "unat deadline < 2 * unat (cfg_election_ticks (n_config n))"
proof -
  let ?t = "cfg_election_ticks (n_config n)"
  let ?j = "splitmix64 (n_random n + 0x9e3779b97f4a7c15) mod ?t"
  note ticks = valid_timing_ticks [OF assms]
  have j: "unat ?j < unat ?t"
    using ticks(1) by (simp add: unat_mod unat_gt_0)
  then have "checked_add ?t ?j = Some (?t + ?j)"
    using ticks(2) by (simp add: checked_add_def)
  moreover from this have d: "unat (?t + ?j) = unat ?t + unat ?j"
    by (simp add: checked_add_eq_Some)
  ultimately have "Node_reset_election n = Some (n\<lparr>n_random := n_random n + 0x9e3779b97f4a7c15,
        n_election_deadline := ?t + ?j, n_elapsed := 0\<rparr>)"
    using ticks(1) by (simp add: Node_reset_election_def checked_rem_def Let_def)
  moreover have "?t \<le> ?t + ?j" and "unat (?t + ?j) < 2 * unat ?t"
    using d j unfolding word_le_nat_alt by linarith+
  ultimately show ?thesis
    by (rule that)
qed

lemma follow_returns:
  assumes "valid_timing (n_config n)"
  obtains a r d where
    "Node_follow l n = Some (n\<lparr>n_role := Follower, n_prevoting := None, n_leader_age := a,
       n_leader := l, n_random := r, n_election_deadline := d, n_elapsed := 0\<rparr>)"
proof -
  let ?n1 = "n\<lparr>n_role := Follower, n_prevoting := None\<rparr>"
  let ?n2 = "(if l \<noteq> None then ?n1\<lparr>n_leader_age := 0\<rparr> else ?n1)\<lparr>n_leader := l\<rparr>"
  have "valid_timing (n_config ?n2)"
    using assms by simp
  from reset_election_returns [OF this] obtain d where
    "Node_reset_election ?n2 = Some (?n2\<lparr>n_random := n_random ?n2 + 0x9e3779b97f4a7c15,
        n_election_deadline := d, n_elapsed := 0\<rparr>)"
    by blast
  then have "Node_follow l n = Some (n\<lparr>n_role := Follower, n_prevoting := None,
      n_leader_age := (if l \<noteq> None then 0 else n_leader_age n), n_leader := l,
      n_random := n_random n + 0x9e3779b97f4a7c15, n_election_deadline := d, n_elapsed := 0\<rparr>)"
    by (simp add: Node_follow_def)
  then show ?thesis
    by (rule that)
qed

section \<open>Volatile changes\<close>

text \<open>The fields the slot and membership invariants read, beside the fixed part.\<close>

definition slot_part ::
    "('v, 's) Node \<Rightarrow> Id option list \<times> u64 list \<times> u64 list \<times> Outbound option list
       \<times> Membership \<times> usize \<times> (Id \<times> Outbound) option \<times> usize \<times> usize" where
  "slot_part n = (n_peers n, n_next n, n_matched n, n_outbox n, n_membership n, n_local n,
     n_extra_reply n, length (n_votes n), length (n_active n))"

lemma slot_part_eq:
  "slot_part n' = slot_part n \<longleftrightarrow>
     n_peers n' = n_peers n \<and> n_next n' = n_next n \<and> n_matched n' = n_matched n
     \<and> n_outbox n' = n_outbox n \<and> n_membership n' = n_membership n \<and> n_local n' = n_local n
     \<and> n_extra_reply n' = n_extra_reply n \<and> length (n_votes n') = length (n_votes n)
     \<and> length (n_active n') = length (n_active n)"
  by (simp add: slot_part_def)

lemma slots_ok_same: "slot_part n' = slot_part n \<Longrightarrow> slots_ok n' \<longleftrightarrow> slots_ok n"
  by (simp add: slot_part_eq slots_ok_def)

lemma members_ok_same:
  assumes "fixed_part n' = fixed_part n" and "slot_part n' = slot_part n"
  shows "members_ok n' \<longleftrightarrow> members_ok n"
proof -
  have "n_state n' = n_state n" and "n_config n' = n_config n"
    using assms(1) by (simp_all add: fixed_part_eq)
  then show ?thesis
    using assms(2) membership_at_fixed [OF assms(1)] by (simp add: slot_part_eq members_ok_def)
qed

lemma evolves_same:
  "fixed_part n' = fixed_part n \<Longrightarrow> slot_part n' = slot_part n \<Longrightarrow> evolves n0 n \<Longrightarrow> evolves n0 n'"
  by (erule evolves_fixed) (simp_all add: slot_part_eq)

lemma reach_same:
  "fixed_part n' = fixed_part n \<Longrightarrow> slot_part n' = slot_part n \<Longrightarrow> reach n' \<longleftrightarrow> reach n"
  by (simp add: reach_def fixed_part_eq slot_part_eq)

lemma next_ok_same:
  assumes "fixed_part n' = fixed_part n" and "slot_part n' = slot_part n"
    and "n_role n' = n_role n \<or> n_role n' \<noteq> Leader"
  shows "next_ok n \<Longrightarrow> next_ok n'"
  using assms reach_same [OF assms(1,2)] by (auto simp: next_ok_def fixed_part_eq slot_part_eq)

text \<open>Only volatile timers, ballots or hints changed, or the node became a follower.\<close>

lemma good_volatile:
  assumes fp: "fixed_part n' = fixed_part n" and sp: "slot_part n' = slot_part n"
    and role: "n_role n' = n_role n \<and> n_prevoting n' = n_prevoting n
      \<or> n_role n' = Follower \<and> n_prevoting n' = None"
    and good: "good n0 n"
  shows "good n0 n'"
proof -
  have "role_ok n'" and "prevote_ok n'"
    using good role fp sp
    by (auto simp: good_def Node_inv_def role_ok_def prevote_ok_def fixed_part_eq slot_part_eq)
  moreover have "next_ok n'"
    using good role next_ok_same [OF fp sp] by (auto simp: good_def Node_inv_def)
  ultimately show ?thesis
    using good evolves_same [OF fp sp]
    by (simp add: good_def Node_inv_def log_ok_fixed [OF fp] slots_ok_same [OF sp]
        members_ok_same [OF fp sp] clean_ok_fixed [OF fp] saved_fixed [OF fp])
qed

lemma good_timing: "good n0 n \<Longrightarrow> valid_timing (n_config n)"
  by (simp add: good_def Node_inv_def log_ok_def)

lemma good_reset_election:
  assumes "good n0 n"
  shows "returns (Node_reset_election n) (\<lambda>n'. good n0 n' \<and> fixed_part n' = fixed_part n
    \<and> slot_part n' = slot_part n \<and> n_role n' = n_role n \<and> n_prevoting n' = n_prevoting n
    \<and> n_votes n' = n_votes n)"
proof -
  obtain d where d: "Node_reset_election n = Some (n\<lparr>n_random := n_random n + 0x9e3779b97f4a7c15,
        n_election_deadline := d, n_elapsed := 0\<rparr>)"
    using reset_election_returns [OF good_timing [OF assms]] by blast
  have "good n0 (n\<lparr>n_random := n_random n + 0x9e3779b97f4a7c15, n_election_deadline := d,
      n_elapsed := 0\<rparr>)"
    by (rule good_volatile [OF _ _ _ assms]) (simp_all add: fixed_part_eq slot_part_eq)
  then show ?thesis
    by (simp add: d fixed_part_eq slot_part_eq)
qed

text \<open>A node that follows and has nothing to replicate.\<close>

definition quiet :: "('v, 's) Node \<Rightarrow> bool" where
  "quiet n \<longleftrightarrow> n_role n = Follower \<and> n_prevoting n = None \<and> Some OutReplicate \<notin> set (n_outbox n)"

lemma good_follow:
  assumes "good n0 n"
  shows "returns (Node_follow l n) (\<lambda>n'. good n0 n' \<and> fixed_part n' = fixed_part n
    \<and> slot_part n' = slot_part n \<and> n_role n' = Follower \<and> n_prevoting n' = None)"
proof -
  obtain a r d where f: "Node_follow l n = Some (n\<lparr>n_role := Follower, n_prevoting := None,
       n_leader_age := a, n_leader := l, n_random := r, n_election_deadline := d, n_elapsed := 0\<rparr>)"
    using follow_returns [OF good_timing [OF assms]] by blast
  have "good n0 (n\<lparr>n_role := Follower, n_prevoting := None,
       n_leader_age := a, n_leader := l, n_random := r, n_election_deadline := d, n_elapsed := 0\<rparr>)"
    by (rule good_volatile [OF _ _ _ assms]) (simp_all add: fixed_part_eq slot_part_eq)
  then show ?thesis
    by (simp add: f fixed_part_eq slot_part_eq)
qed

section \<open>Peers and the effective membership\<close>

lemma distinct_flatten_update:
  assumes "distinct (flatten xs)" and "Some i \<notin> set xs" and "k < length xs"
  shows "distinct (flatten (xs[k := Some i]))"
proof -
  have "flatten xs = flatten (take k xs) @ flatten [xs ! k] @ flatten (drop (Suc k) xs)"
    by (metis append_Cons append_Nil assms(3) flatten_append id_take_nth_drop)
  then have "distinct (flatten (take k xs) @ flatten (drop (Suc k) xs))"
    using assms(1) by (auto simp del: set_flatten)
  moreover have "i \<notin> set (flatten (take k xs) @ flatten (drop (Suc k) xs))"
    using assms(2) by (auto dest: in_set_takeD in_set_dropD)
  ultimately show ?thesis
    using assms(3) by (simp add: upd_conv_take_nth_drop del: set_flatten)
qed

text \<open>A configuration that fits the peer array leaves a slot for each of its members.\<close>

lemma free_slot:
  assumes ok: "Membership_ok (length ps) m" and dist: "distinct (flatten ps)"
    and i: "i \<in> Membership_ids m" "Some i \<notin> set ps"
  shows "\<exists>k. position (is_none_or (\<lambda>j. \<not> Membership_contains j m)) ps = Some k"
proof (rule ccontr)
  assume "\<not> ?thesis"
  then have all: "\<forall>p \<in> set ps. \<exists>j. p = Some j \<and> j \<in> Membership_ids m"
    by (auto simp: position_None contains_iff is_none_or_def split: option.splits)
  then have "list_all (\<lambda>x. x \<noteq> None) ps"
    by (auto simp: list_all_iff)
  then have len: "length (flatten ps) = length ps"
    by (metis flatten_all_Some length_map)
  have sub: "set (flatten ps) \<subseteq> Membership_ids m - {i}"
    using all i by auto
  have dids: "distinct_ids m"
    using ok by (simp add: Membership_ok_def Membership_wf_distinct)
  have fin: "finite (Membership_ids m)"
    by (simp add: Membership_ids_def Membership_set_def del: set_flatten)
  have "length ps \<le> card (Membership_ids m - {i})"
    using card_mono [OF _ sub] fin distinct_card [OF dist] len by simp
  also have "\<dots> < card (Membership_ids m)"
    using fin i by (intro psubset_card_mono) auto
  also have "\<dots> \<le> length ps"
    using distinct_ids_card [OF dids] length_flatten_le [of "mb_members m"] ok
    by (simp add: Membership_ok_def)
  finally show False by simp
qed

definition placed :: "('v, 's) Node \<Rightarrow> ('v, 's) Node \<Rightarrow> bool" where
  "placed n n' \<longleftrightarrow>
     slots_ok n' \<and> next_ok n' \<and> (reach n \<longrightarrow> reach n')
     \<and> fixed_part n' = fixed_part n \<and> n_membership n' = n_membership n
     \<and> n_role n' = n_role n \<and> n_prevoting n' = n_prevoting n
     \<and> n_extra_reply n' = n_extra_reply n
     \<and> set (n_outbox n') \<subseteq> insert None (set (n_outbox n))
     \<and> (\<forall>j \<in> Membership_ids (n_membership n). Some j \<in> set (n_peers n) \<longrightarrow> Some j \<in> set (n_peers n'))
     \<and> (\<forall>i < Node_N n. n_peers n ! i \<noteq> None \<longrightarrow> n_peers n' ! i \<noteq> None)"

lemma placed_refl: "slots_ok n \<Longrightarrow> next_ok n \<Longrightarrow> placed n n"
  by (auto simp: placed_def)

lemma placed_trans: "placed a b \<Longrightarrow> placed b c \<Longrightarrow> placed a c"
  unfolding placed_def by (auto simp: fixed_part_eq)

lemma place_peer_returns:
  assumes ok: "Membership_ok (Node_N n) (n_membership n)" and i: "i \<in> Membership_ids (n_membership n)"
    and slots: "slots_ok n" and nxt: "next_ok n"
  shows "returns (Node_place_peer i n) (\<lambda>n'. placed n n' \<and> Some i \<in> set (n_peers n'))"
proof (cases "Some i \<in> set (n_peers n)")
  case True
  then show ?thesis
    using placed_refl [OF slots nxt] by (simp add: Node_place_peer_def)
next
  case False
  have dist: "distinct (flatten (n_peers n))"
    using slots by (simp add: slots_ok_def)
  obtain k where k: "position (is_none_or (\<lambda>j. \<not> Membership_contains j (n_membership n))) (n_peers n) = Some k"
    using free_slot [OF ok dist i False] by blast
  then have lt: "k < Node_N n" and evict: "is_none_or (\<lambda>j. j \<notin> Membership_ids (n_membership n)) (n_peers n ! k)"
    by (simp_all add: position_Some contains_iff)
  let ?n' = "n\<lparr>n_peers := (n_peers n)[k := Some i], n_votes := (n_votes n)[k := False],
      n_active := (n_active n)[k := False], n_next := (n_next n)[k := 1],
      n_matched := (n_matched n)[k := 0], n_outbox := (n_outbox n)[k := None]\<rparr>"
  have slots': "slots_ok ?n'"
    using slots lt distinct_flatten_update [OF dist False lt] by (auto simp: slots_ok_def nth_list_update)
  have out: "set ((n_outbox n)[k := None]) \<subseteq> insert None (set (n_outbox n))"
    by (rule set_update_subset_insert)
  have reach': "reach n \<longrightarrow> reach ?n'"
    using slots lt by (auto simp: reach_def slots_ok_def nth_list_update)
  then have nxt': "next_ok ?n'"
    using nxt slots out lt by (auto simp: next_ok_def slots_ok_def nth_list_update)
  have "Some j \<in> set ((n_peers n)[k := Some i])"
    if "j \<in> Membership_ids (n_membership n)" "Some j \<in> set (n_peers n)" for j
  proof -
    from that(2) obtain l where l: "l < Node_N n" "n_peers n ! l = Some j"
      by (auto simp: in_set_conv_nth)
    with that(1) evict have "l \<noteq> k" by auto
    with l show ?thesis
      by (metis length_list_update nth_list_update_neq nth_mem)
  qed
  then have "placed n ?n'"
    using slots' nxt' reach' out lt by (auto simp: placed_def fixed_part_eq nth_list_update)
  then show ?thesis
    using False k lt by (simp add: Node_place_peer_def set_update_memI)
qed

lemma place_peers_returns:
  assumes "Membership_ok (Node_N n) (n_membership n)" and "set is \<subseteq> Membership_ids (n_membership n)"
    and "slots_ok n" and "next_ok n"
  shows "returns (for_each Node_place_peer is n) (\<lambda>n'. placed n n' \<and> Some ` set is \<subseteq> set (n_peers n'))"
  using assms
proof (induction "is" arbitrary: n)
  case Nil
  then show ?case by (simp add: placed_refl)
next
  case (Cons i "is")
  obtain a where a: "Node_place_peer i n = Some a" "placed n a" "Some i \<in> set (n_peers a)"
    using place_peer_returns [of n i] Cons.prems by (auto simp: returns_iff)
  then have "returns (for_each Node_place_peer is a) (\<lambda>n'. placed a n' \<and> Some ` set is \<subseteq> set (n_peers n'))"
    using Cons.prems by (intro Cons.IH) (auto simp: placed_def fixed_part_eq)
  then obtain b where b: "for_each Node_place_peer is a = Some b" "placed a b"
    "Some ` set is \<subseteq> set (n_peers b)"
    by (auto simp: returns_iff)
  have "Some i \<in> set (n_peers b)"
    using a b Cons.prems(2) by (simp add: placed_def)
  then show ?case
    using a b placed_trans [OF a(2) b(2)] by simp
qed

text \<open>Every configuration the node can adopt is well formed.\<close>

lemma latest_configuration_ok:
  assumes "list_all (entry_ok (Some h) mx) es" and "Membership_ok mx (snd r)"
  shows "Membership_ok mx (snd (latest_configuration h es r))"
  using assms
proof (induction h es r rule: latest_configuration.induct)
  case (2 h e es r)
  then show ?case
    by (auto simp: entry_ok_def split: option.splits)
qed simp

lemma membership_at_ok:
  assumes "log_ok n"
  shows "Membership_ok (Node_N n) (snd (Node_membership_at i n))"
proof (cases "n_hooks n")
  case None
  then show ?thesis
    using assms by (simp add: Node_membership_at_def log_ok_def)
next
  case (Some h)
  have "list_all (entry_ok (Some h) (Node_N n))
      (takeWhile (\<lambda>e. li_index (en_id e) \<le> i) (State_entries (n_state n)))"
    using assms Some by (auto simp: log_ok_def payloads_ok_def list_all_iff dest: set_takeWhileD)
  then show ?thesis
    using assms Some
    by (auto simp: Node_membership_at_def log_ok_def payloads_ok_def snapshot_ok_def
        intro!: latest_configuration_ok split: option.splits)
qed

lemma members_ok_wf: "log_ok n \<Longrightarrow> members_ok n \<Longrightarrow> Membership_ok (Node_N n) (n_membership n)"
  by (simp add: members_ok_def membership_at_ok)

definition refreshed :: "('v, 's) Node \<Rightarrow> ('v, 's) Node \<Rightarrow> bool" where
  "refreshed n n' \<longleftrightarrow>
     slots_ok n' \<and> next_ok n' \<and> members_ok n'
     \<and> fixed_part n' = fixed_part n \<and> (reach n \<longrightarrow> reach n')
     \<and> n_extra_reply n' = n_extra_reply n
     \<and> (n_role n' = n_role n \<and> n_prevoting n' = n_prevoting n
        \<or> n_role n' = Follower \<and> n_prevoting n' = None)
     \<and> set (n_outbox n') \<subseteq> insert None (set (n_outbox n))
     \<and> (\<forall>i < Node_N n. n_peers n ! i \<noteq> None \<longrightarrow> n_peers n' ! i \<noteq> None)"

lemma refresh_returns:
  assumes log: "log_ok n" and slots: "slots_ok n" and nxt: "next_ok n"
  shows "returns (Node_refresh_membership n) (refreshed n)"
proof -
  let ?m = "snd (Node_membership_at (li_index (n_last n)) n)"
  let ?n1 = "n\<lparr>n_membership := ?m\<rparr>"
  have "slots_ok ?n1" and "next_ok ?n1"
    using slots nxt by (auto simp: slots_ok_def next_ok_def reach_def)
  moreover have "Membership_ok (Node_N ?n1) (n_membership ?n1)"
    using membership_at_ok [OF log] by simp
  ultimately obtain n2 where n2: "placed ?n1 n2" "Some ` Membership_ids ?m \<subseteq> set (n_peers n2)"
      "for_each Node_place_peer (flatten (Membership_peers ?m)) ?n1 = Some n2"
    using place_peers_returns [of ?n1 "flatten (Membership_peers ?m)"]
    by (auto simp: returns_iff set_peers simp del: set_flatten)
  let ?n3 = "Node_locate n2"
  have fp2: "fixed_part n2 = fixed_part n"
    using n2(1) by (simp add: placed_def fixed_part_eq)
  have fp3: "fixed_part ?n3 = fixed_part n"
    using fp2 by (simp add: Node_locate_def fixed_part_eq)
  have at: "Node_membership_at (li_index (n_last n')) n' = Node_membership_at (li_index (n_last n)) n"
    if "fixed_part n' = fixed_part n" for n'
    using membership_at_fixed [OF that] that by (simp add: fixed_part_eq)
  have m3: "members_ok ?n3"
    using n2(1,2) at [OF fp3]
    by (simp add: members_ok_def Node_locate_def placed_def Node_peer_slot_def slot_of_def)
  have rest: "slots_ok ?n3" "next_ok ?n3" "reach n \<longrightarrow> reach ?n3" "n_role ?n3 = n_role n" "n_prevoting ?n3 = n_prevoting n"
    "n_extra_reply ?n3 = n_extra_reply n"
    "set (n_outbox ?n3) \<subseteq> insert None (set (n_outbox n))"
    "\<forall>i < Node_N n. n_peers n ! i \<noteq> None \<longrightarrow> n_peers ?n3 ! i \<noteq> None"
    using n2(1) by (auto simp: placed_def Node_locate_def slots_ok_def next_ok_def reach_def)
  have t3: "valid_timing (n_config ?n3)"
    using log fp3 by (simp add: log_ok_def fixed_part_eq)
  obtain a r d where f: "Node_follow None ?n3 = Some (?n3\<lparr>n_role := Follower, n_prevoting := None,
       n_leader_age := a, n_leader := None, n_random := r, n_election_deadline := d, n_elapsed := 0\<rparr>)"
    (is "_ = Some ?n4") using follow_returns [OF t3] by blast
  have fp4: "fixed_part ?n4 = fixed_part ?n3" and sp4: "slot_part ?n4 = slot_part ?n3"
    by (simp_all add: fixed_part_eq slot_part_eq)
  have four: "slots_ok ?n4" "next_ok ?n4" "members_ok ?n4" "reach n \<longrightarrow> reach ?n4"
    using rest m3 slots_ok_same [OF sp4] next_ok_same [OF fp4 sp4] members_ok_same [OF fp4 sp4]
      reach_same [OF fp4 sp4]
    by simp_all
  show ?thesis
    using n2(3) m3 rest fp3 f four fp4
    by (simp add: Node_refresh_membership_def Let_def refreshed_def)
qed

end
