(* ===== verification/Jarl_Node_Ops.thy ===== *)
theory Jarl_Node_Ops
  imports Jarl_Node_Inv
begin

text \<open>
  Every method of the node returns without a panic and keeps the invariant. The lemmas follow
  the call graph of \<^verbatim>\<open>jarl/src/node.rs\<close> bottom up; each says, for an operation begun in \<open>n0\<close>,
  that a method called at a later point \<open>n\<close> of it returns a node that is again \<open>good n0\<close>.
\<close>

section \<open>Components of the invariant\<close>

lemma goodD:
  assumes "good n0 n"
  shows "log_ok n" and "slots_ok n" and "next_ok n" and "role_ok n" and "prevote_ok n"
    and "members_ok n" and "clean_ok n" and "evolves n0 n" and "saved n0 n"
  using assms by (auto simp: good_def Node_inv_def)

lemma log_okD:
  assumes "log_ok n"
  shows "State_inv (n_state n)" and "slots_wf (n_state n)"
    and "log_chain (n_base n) (State_entries (n_state n))"
    and "0 < State_CAP (n_state n)" and "valid_timing (n_config n)"
    and "li_term (n_last n) \<le> hs_term (n_hard n)" and "hs_commit (n_hard n) \<le> li_index (n_last n)"
    and "payloads_ok (n_hooks n) (Node_N n) (n_state n)"
  using assms by (auto simp: log_ok_def State_inv_def)

lemma base_le_commit: "log_ok n \<Longrightarrow> li_index (n_base n) \<le> hs_commit (n_hard n)"
  and base_le_last: "log_ok n \<Longrightarrow> li_index (n_base n) \<le> li_index (n_last n)"
  by (auto simp: log_ok_def State_inv_def)

lemma members_ok_cong:
  assumes "members_ok n"
    and "n_hooks n' = n_hooks n" and "n_bootstrap n' = n_bootstrap n" and "n_state n' = n_state n"
    and "n_config n' = n_config n" and "n_membership n' = n_membership n"
    and "n_peers n' = n_peers n" and "n_local n' = n_local n"
  shows "members_ok n'"
proof -
  have "Node_membership_at i n' = Node_membership_at i n" for i
    using assms by (simp add: Node_membership_at_def split: option.splits)
  with assms show ?thesis
    by (auto simp: members_ok_def)
qed

text \<open>A membership refresh completes a change of the checkpoint.\<close>

lemma refreshed_good:
  assumes ref: "refreshed n n'" and log: "log_ok n" and role: "role_ok n" and pre: "n_prevoting n = None"
    and ev: "evolves n0 (n\<lparr>n_log_from := f, n_snapshot_changed := c\<rparr>)"
  shows "good n0 (n'\<lparr>n_dirty := True, n_log_from := f, n_snapshot_changed := c\<rparr>)"
proof -
  let ?m = "n'\<lparr>n_dirty := True, n_log_from := f, n_snapshot_changed := c\<rparr>"
  have fp: "fixed_part n' = fixed_part n"
    using ref by (simp add: refreshed_def)
  have "log_ok ?m"
    using log fp by (simp add: log_ok_def fixed_part_eq)
  moreover have "slots_ok ?m" and "next_ok ?m"
    using ref by (auto simp: refreshed_def slots_ok_def next_ok_def reach_def)
  moreover have "members_ok ?m"
    using ref by (auto simp: refreshed_def intro: members_ok_cong [of n'])
  moreover have "role_ok ?m" and "prevote_ok ?m"
    using ref role pre fp by (auto simp: refreshed_def role_ok_def prevote_ok_def fixed_part_eq)
  moreover have "evolves n0 ?m"
    using ev ref fp by (auto simp: refreshed_def evolves_def fixed_part_eq)
  ultimately show ?thesis
    by (simp add: good_def Node_inv_def clean_ok_def saved_def)
qed

text \<open>What commitment leaves unchanged.\<close>

definition calm :: "('v, 's) Node \<Rightarrow> ('v, 's) Node \<Rightarrow> bool" where
  "calm n n' \<longleftrightarrow>
     hs_term (n_hard n') = hs_term (n_hard n) \<and> hs_voted_for (n_hard n') = hs_voted_for (n_hard n)
     \<and> n_last n' = n_last n \<and> State_entries (n_state n') = State_entries (n_state n)
     \<and> Node_N n' = Node_N n \<and> n_log_from n' = n_log_from n
     \<and> n_prevoting n' = None \<and> (reach n \<longrightarrow> reach n')
     \<and> (n_role n' = n_role n \<or> n_role n' = Follower)
     \<and> set (n_outbox n') \<subseteq> insert None (set (n_outbox n))"

lemma calm_refl: "n_prevoting n = None \<Longrightarrow> calm n n"
  by (auto simp: calm_def)

lemma calm_trans: "calm a b \<Longrightarrow> calm b c \<Longrightarrow> calm a c"
  by (auto simp: calm_def)

section \<open>Commitment\<close>

lemma good_commit_to:
  assumes good: "good n0 n" and i: "index \<le> li_index (n_last n)" and pre: "n_prevoting n = None"
  shows "returns (Node_commit_to index n) (\<lambda>n'. good n0 n' \<and> calm n n')"
proof (cases "hs_commit (n_hard n) < index")
  case False
  then show ?thesis
    using good pre by (simp add: Node_commit_to_def calm_refl)
next
  case True
  let ?h = "(n_hard n)\<lparr>hs_commit := index\<rparr>"
  let ?n1 = "(set_hard (\<lambda>h. h\<lparr>hs_commit := index\<rparr>) n)\<lparr>n_dirty := True\<rparr>"
  note log = goodD(1) [OF good]
  have st: "n_state ?n1 = (n_state n)\<lparr>st_hard := ?h\<rparr>"
    by (simp add: set_hard_def)
  have inv: "State_inv ((n_state n)\<lparr>st_hard := ?h\<rparr>)"
    using log_okD(1) [OF log] True i by (intro State_inv_hard) (auto simp: State_inv_def)
  have log1: "log_ok ?n1"
    using log inv by (simp add: log_ok_def set_hard_def payloads_ok_def)
  have slots1: "slots_ok ?n1" and next1: "next_ok ?n1" and role1: "role_ok ?n1" and pre1: "n_prevoting ?n1 = None"
    using goodD [OF good] pre
    by (auto simp: set_hard_def slots_ok_def next_ok_def reach_def role_ok_def)
  have "State_advances (n_state n) (n_state ?n1)"
    unfolding st State_advances_hard using True by (simp add: HardState_le_def)
  then have ev: "evolves n0 (?n1\<lparr>n_log_from := n_log_from n, n_snapshot_changed := n_snapshot_changed n\<rparr>)"
    using goodD(8) [OF good]
    by (auto simp: evolves_def set_hard_def intro: State_advances_trans)
  obtain n' where n': "Node_refresh_membership ?n1 = Some n'" "refreshed ?n1 n'"
    using refresh_returns [OF log1 slots1 next1] by (auto simp: returns_iff)
  have "n'\<lparr>n_dirty := True, n_log_from := n_log_from n, n_snapshot_changed := n_snapshot_changed n\<rparr> = n'"
    using n'(2) by (simp add: refreshed_def fixed_part_eq set_hard_def)
  then have "good n0 n'"
    using refreshed_good [OF n'(2) log1 role1 pre1 ev] by simp
  moreover have "calm n n'"
    using n'(2) pre1 by (auto simp: calm_def refreshed_def fixed_part_eq set_hard_def reach_def)
  ultimately show ?thesis
    using True n'(1) by (simp add: Node_commit_to_def)
qed

lemma good_voters: "good n0 n \<Longrightarrow> Membership_voters (n_membership n) \<noteq> []"
  using members_ok_wf goodD(1,6) by (fastforce simp: Membership_ok_def Membership_wf_def)

lemma good_advance_commit:
  assumes good: "good n0 n" and pre: "n_prevoting n = None"
  shows "returns (Node_advance_commit n) (\<lambda>(_, n'). good n0 n' \<and> calm n n')"
proof -
  obtain index where index: "Membership_quorum_index (\<lambda>i. Node_matched i n) (n_membership n) = Some index"
    using quorum_index_spec [OF good_voters [OF good]] by (auto simp: returns_iff)
  have le: "index \<le> li_index (n_last n)" if "State_id_at index (n_state n) \<noteq> None"
    using that State_id_at_defined log_okD(2,3) [OF goodD(1) [OF good]] by blast
  show ?thesis
  proof (cases "hs_commit (n_hard n) < index
      \<and> is_some_and (\<lambda>i. li_term i = hs_term (n_hard n)) (State_id_at index (n_state n))")
    case True
    then obtain n' where "Node_commit_to index n = Some n'" "good n0 n' \<and> calm n n'"
      using le good_commit_to [OF good _ pre, of index] by (auto simp: returns_iff is_some_and_iff)
    with True show ?thesis
      by (simp add: Node_advance_commit_def index)
  next
    case False
    then show ?thesis
      using good pre by (auto simp: Node_advance_commit_def index calm_refl)
  qed
qed

lemma good_matched:
  assumes good: "good n0 n" and len: "length ms = Node_N n"
    and le: "n_role n = Leader \<Longrightarrow> \<forall>i < Node_N n. ms ! i \<le> li_index (n_last n)"
  shows "good n0 (n\<lparr>n_matched := ms\<rparr>)"
proof -
  let ?m = "n\<lparr>n_matched := ms\<rparr>"
  have "slots_ok ?m" and "log_ok ?m" and "role_ok ?m" and "prevote_ok ?m" and "clean_ok ?m"
    and "evolves n0 ?m" and "saved n0 ?m"
    using goodD [OF good] len
    by (simp_all add: slots_ok_def log_ok_def role_ok_def prevote_ok_def clean_ok_def evolves_def saved_def)
  moreover have "next_ok ?m"
    using goodD(3) [OF good] le by (simp add: next_ok_def reach_def)
  moreover have "members_ok ?m"
    using goodD(6) [OF good] by (rule members_ok_cong) simp_all
  ultimately show ?thesis
    by (simp add: good_def Node_inv_def)
qed

lemma good_set_local_matched:
  assumes good: "good n0 n" and i: "index \<le> li_index (n_last n)"
  shows "good n0 (Node_set_local_matched index n)"
proof -
  have "length (n_matched n) = Node_N n"
    using goodD(2) [OF good] by (simp add: slots_ok_def)
  moreover have "\<forall>i < Node_N n. (n_matched n)[n_local n := index] ! i \<le> li_index (n_last n)"
    if "n_role n = Leader" "n_local n < Node_N n"
    using goodD(3) [OF good] i that calculation by (simp add: next_ok_def nth_list_update)
  ultimately show ?thesis
    using good by (auto simp: Node_set_local_matched_def intro: good_matched)
qed

lemma set_local_matched_calm:
  "n_prevoting n = None \<Longrightarrow> calm n (Node_set_local_matched index n)"
  by (auto simp: Node_set_local_matched_def calm_def reach_def)

section \<open>The outbox\<close>

lemma good_outbox:
  assumes good: "good n0 n" and len: "length out = Node_N n"
    and some: "\<forall>i < Node_N n. n_peers n ! i = None \<longrightarrow> out ! i = None"
    and rep: "Some OutReplicate \<in> set out \<Longrightarrow> reach n"
  shows "good n0 (n\<lparr>n_outbox := out\<rparr>)"
proof -
  let ?m = "n\<lparr>n_outbox := out\<rparr>"
  have "slots_ok ?m" and "log_ok ?m" and "role_ok ?m" and "prevote_ok ?m" and "clean_ok ?m"
    and "evolves n0 ?m" and "saved n0 ?m"
    using goodD [OF good] len some
    by (simp_all add: slots_ok_def log_ok_def role_ok_def prevote_ok_def clean_ok_def evolves_def saved_def)
  moreover have "next_ok ?m"
    using goodD(3) [OF good] rep by (auto simp: next_ok_def reach_def)
  moreover have "members_ok ?m"
    using goodD(6) [OF good] by (rule members_ok_cong) simp_all
  ultimately show ?thesis
    by (simp add: good_def Node_inv_def)
qed

definition addressable :: "usize \<Rightarrow> ('v, 's) Node \<Rightarrow> bool" where
  "addressable peer n \<longleftrightarrow> peer = Node_N n \<or> peer < Node_N n \<and> n_peers n ! peer \<noteq> None"

lemma addressable_evolves: "evolves n0 n \<Longrightarrow> addressable peer n0 \<Longrightarrow> addressable peer n"
  by (auto simp: addressable_def evolves_def)

text \<open>What a message queued for a peer leaves unchanged: everything but the outbox.\<close>

definition sent :: "('v, 's) Node \<Rightarrow> ('v, 's) Node \<Rightarrow> bool" where
  "sent n n' \<longleftrightarrow>
     n' = n\<lparr>n_outbox := n_outbox n', n_extra_reply := n_extra_reply n'\<rparr>"

lemma sent_refl: "sent n n"
  by (simp add: sent_def)

lemma sent_trans: "sent a b \<Longrightarrow> sent b c \<Longrightarrow> sent a c"
  unfolding sent_def
  by (metis (no_types, lifting) Node.surjective Node.update_convs(13) Node.update_convs(24))

lemma good_send:
  assumes good: "good n0 n" and addr: "addressable peer n"
    and rep: "outbound = OutReplicate \<Longrightarrow> reach n \<and> peer < Node_N n"
  shows "returns (Node_send peer outbound n) (\<lambda>n'. good n0 n' \<and> sent n n')"
proof (cases "peer = Node_N n")
  case True
  then have out: "outbound \<noteq> OutReplicate"
    using rep by auto
  have "good n0 (n\<lparr>n_extra_reply := Some (i, outbound)\<rparr>)" for i
  proof -
    let ?m = "n\<lparr>n_extra_reply := Some (i, outbound)\<rparr>"
    have "slots_ok ?m" and "log_ok ?m" and "role_ok ?m" and "prevote_ok ?m" and "clean_ok ?m"
      and "evolves n0 ?m" and "saved n0 ?m" and "next_ok ?m"
      using goodD [OF good] out
      by (simp_all add: slots_ok_def log_ok_def role_ok_def prevote_ok_def clean_ok_def evolves_def
          saved_def next_ok_def reach_def)
    moreover have "members_ok ?m"
      using goodD(6) [OF good] by (rule members_ok_cong) simp_all
    ultimately show ?thesis
      by (simp add: good_def Node_inv_def)
  qed
  then show ?thesis
    using True good by (simp add: Node_send_def sent_def split: option.splits)
next
  case False
  then have lt: "peer < Node_N n" "n_peers n ! peer \<noteq> None"
    using addr by (auto simp: addressable_def)
  have len: "length (n_outbox n) = Node_N n"
    using goodD(2) [OF good] by (simp add: slots_ok_def)
  have "good n0 (n\<lparr>n_outbox := (n_outbox n)[peer := Some outbound]\<rparr>)"
  proof (rule good_outbox [OF good])
    show "\<forall>i < Node_N n. n_peers n ! i = None \<longrightarrow> (n_outbox n)[peer := Some outbound] ! i = None"
      using goodD(2) [OF good] lt len by (auto simp: slots_ok_def nth_list_update)
    show "reach n" if "Some OutReplicate \<in> set ((n_outbox n)[peer := Some outbound])"
      using that rep goodD(3) [OF good] set_update_subset_insert [of "n_outbox n" peer "Some outbound"]
      by (auto simp: next_ok_def)
  qed (simp add: len)
  then show ?thesis
    using False lt len by (simp add: Node_send_def sent_def returns_bind returns_index_write)
qed

lemma sentE:
  assumes "sent n n'"
  obtains out ex where "n' = n\<lparr>n_outbox := out, n_extra_reply := ex\<rparr>"
  using assms unfolding sent_def by blast

lemma sent_same:
  assumes "sent n n'"
  shows "fixed_part n' = fixed_part n" and "n_peers n' = n_peers n" and "n_role n' = n_role n"
    and "n_prevoting n' = n_prevoting n" and "reach n' \<longleftrightarrow> reach n" and "n_local n' = n_local n"
    and "n_membership n' = n_membership n" and "n_votes n' = n_votes n"
  using assms by (auto elim!: sentE simp: fixed_part_eq reach_def)

text \<open>The two loops over the peers share their shape.\<close>

lemma good_send_to_peers:
  assumes good: "good n0 n" and rep: "outbound = OutReplicate \<Longrightarrow> reach n"
    and some: "\<And>peer m. C peer m \<Longrightarrow> n_peers m ! peer \<noteq> None"
  shows "returns (for_each (\<lambda>peer m. if C peer m then Node_send peer outbound m else Some m)
      [0..<Node_N n] n) (\<lambda>n'. good n0 n' \<and> sent n n')"
proof (rule for_each_returns)
  show "good n0 n \<and> sent n n"
    using good by (simp add: sent_refl)
next
  fix peer m
  assume "peer \<in> set [0..<Node_N n]" and m: "good n0 m \<and> sent n m"
  then have lt: "peer < Node_N m"
    using sent_same(2) [of n m] by simp
  have "returns (Node_send peer outbound m) (\<lambda>n'. good n0 n' \<and> sent n n')" if "C peer m"
  proof (rule returns_conseq [OF good_send [of n0 m peer outbound]])
    show "addressable peer m"
      using lt some [OF that] by (simp add: addressable_def)
    show "reach m \<and> peer < Node_N m" if "outbound = OutReplicate"
      using rep [OF that] m lt sent_same(5) [of n m] by simp
  qed (use m sent_trans in auto)
  then show "returns (if C peer m then Node_send peer outbound m else Some m)
      (\<lambda>n'. good n0 n' \<and> sent n n')"
    using m by simp
qed

lemma good_broadcast:
  assumes "good n0 n" and "reach n"
  shows "returns (Node_broadcast n) (\<lambda>n'. good n0 n' \<and> sent n n')"
  unfolding Node_broadcast_def Node_replicate_def
  using assms by (intro good_send_to_peers) (auto simp: is_some_and_iff)

lemma good_ask_voters:
  assumes "good n0 n" and "outbound \<noteq> OutReplicate"
  shows "returns (Node_ask_voters outbound n) (\<lambda>n'. good n0 n' \<and> sent n n')"
  unfolding Node_ask_voters_def
  using assms by (intro good_send_to_peers) (auto simp: is_some_and_iff)

section \<open>Elections\<close>

text \<open>The newest configuration is read from the whole log; an entry without a configuration
  does not change it.\<close>

lemma latest_configuration_append:
  "latest_configuration h (es @ fs) r = latest_configuration h fs (latest_configuration h es r)"
  by (induction h es r rule: latest_configuration.induct) simp_all

lemma membership_at_last:
  assumes "log_ok n"
  shows "Node_membership_at (li_index (n_last n)) n =
    (case n_hooks n of
        None \<Rightarrow> (0, n_bootstrap n)
      | Some h \<Rightarrow> latest_configuration h (State_entries (n_state n))
          (case st_snapshot (n_state n) of
             None \<Rightarrow> (0, n_bootstrap n)
           | Some s \<Rightarrow> (li_index (sn_last s), hook_snapshot h (sn_value s))))"
proof -
  note ch = log_okD(3) [OF assms]
  have "unat (li_index (n_last n)) - unat (li_index (n_base n)) = length (State_entries (n_state n))"
    using log_chain_last_index [OF ch] by (simp add: State_last_def)
  then have all: "takeWhile (\<lambda>e. li_index (en_id e) \<le> li_index (n_last n)) (State_entries (n_state n))
      = State_entries (n_state n)"
    by (simp add: log_chain_takeWhile_upto [OF ch])
  show ?thesis
    unfolding Node_membership_at_def all ..
qed

text \<open>A leader whose log ends in an older term adds an entry without a value, where it can.\<close>

definition barrier_entries :: "('v, 's) Node \<Rightarrow> 'v Entry list" where
  "barrier_entries n =
     (if li_term (n_last n) = hs_term (n_hard n) \<or> State_full (n_state n) then []
      else (case checked_add (li_index (n_last n)) 1 of
              None \<Rightarrow> []
            | Some index \<Rightarrow> [\<lparr>en_id = \<lparr>li_index = index, li_term = hs_term (n_hard n)\<rparr>, en_value = None\<rparr>]))"

lemma good_barrier:
  assumes good: "good n0 n" and lead: "n_role n = Leader" and lf: "n_log_from n = None"
  shows "returns (Node_barrier n) (\<lambda>n'. good n0 n' \<and> reach n' \<and> n_prevoting n' = None
    \<and> State_entries (n_state n') = State_entries (n_state n) @ barrier_entries n)"
proof -
  note log = goodD(1) [OF good]
  have reach: "reach n" and pre: "n_prevoting n = None" and tm: "hs_term (n_hard n) \<noteq> 0"
    using goodD(3,4) [OF good] lead by (auto simp: next_ok_def role_ok_def)
  show ?thesis
  proof (cases "li_term (n_last n) = hs_term (n_hard n) \<or> State_full (n_state n)
      \<or> checked_add (li_index (n_last n)) 1 = None")
    case True
    then show ?thesis
      using good reach pre by (auto simp: Node_barrier_def barrier_entries_def)
  next
    case False
    then obtain index where idx: "checked_add (li_index (n_last n)) 1 = Some index"
      by auto
    let ?e = "\<lparr>en_id = \<lparr>li_index = index, li_term = hs_term (n_hard n)\<rparr>, en_value = None\<rparr> :: 'a Entry"
    have le: "li_term (n_last n) \<le> hs_term (n_hard n)"
      by (rule log_okD(6) [OF log])
    obtain st where push: "State_push ?e (n_state n) = (Ok (), st)" and inv: "State_inv st"
      and es: "State_entries st = State_entries (n_state n) @ [?e]"
      and cap: "State_CAP st = State_CAP (n_state n)" and hard: "st_hard st = n_hard n"
      and snap: "st_snapshot st = st_snapshot (n_state n)" and lst: "State_last st = en_id ?e"
      and adv: "State_advances (n_state n) st"
      using State_inv_push [OF log_okD(1) [OF log], of ?e] False idx tm le by auto
    let ?n1 = "n\<lparr>n_state := st, n_dirty := True, n_log_from := Some index\<rparr>"
    have lt: "li_index (n_last n) \<le> index"
      using idx by (auto simp: u64)
    have log1: "log_ok ?n1"
      using log inv es cap snap by (simp add: log_ok_def payloads_ok_def entry_ok_def is_none_or_def split: option.splits)
    have reach1: "reach ?n1"
      using reach lst lt by (fastforce simp: reach_def u64)
    have "next_ok ?n1"
      using goodD(3) [OF good] reach1 lst lt lead by (fastforce simp: next_ok_def)
    moreover have "slots_ok ?n1" and "role_ok ?n1" and "prevote_ok ?n1" and "clean_ok ?n1"
      using goodD [OF good] hard
      by (simp_all add: slots_ok_def role_ok_def prevote_ok_def clean_ok_def)
    moreover have "members_ok ?n1"
    proof -
      have "Node_membership_at (li_index (n_last ?n1)) ?n1 = Node_membership_at (li_index (n_last n)) n"
        unfolding membership_at_last [OF log] membership_at_last [OF log1]
        by (simp add: es snap latest_configuration_append split: option.splits)
      then show ?thesis
        using goodD(6) [OF good] by (auto simp: members_ok_def)
    qed
    moreover have "evolves n0 ?n1"
    proof -
      have "covers (n_state n0) (n_state n) None (n_snapshot_changed n)"
        using goodD(8) [OF good] lf by (simp add: evolves_def)
      from covers_push [OF this log_okD(2) [OF log] push]
      have "covers (n_state n0) st (Some index) (n_snapshot_changed n)"
        by (simp add: lower_from_def)
      moreover have "li_index (State_base st) < index"
        using base_le_last [OF log] State_base_cong [OF snap] idx by (auto simp: u64)
      ultimately show ?thesis
        using goodD(8) [OF good] adv by (auto simp: evolves_def intro: State_advances_trans)
    qed
    ultimately have "good n0 ?n1"
      using log1 by (simp add: good_def Node_inv_def saved_def)
    then have "good n0 (Node_set_local_matched index ?n1)"
      using lst by (intro good_set_local_matched) auto
    moreover have calm1: "calm ?n1 (Node_set_local_matched index ?n1)"
      using pre by (intro set_local_matched_calm) simp
    ultimately obtain b n' where n': "Node_advance_commit (Node_set_local_matched index ?n1) = Some (b, n')"
        "good n0 n'" "calm (Node_set_local_matched index ?n1) n'"
      using good_advance_commit [of n0 "Node_set_local_matched index ?n1"]
      by (auto simp: returns_iff calm_def)
    have "calm ?n1 n'"
      using calm1 n'(3) by (rule calm_trans)
    then have "reach n'" and "n_prevoting n' = None" and "State_entries (n_state n') = State_entries st"
      using reach1 by (auto simp: calm_def)
    then show ?thesis
      using False idx push n'(1,2) es by (simp add: Node_barrier_def barrier_entries_def)
  qed
qed

lemma good_become_leader:
  assumes good: "good n0 n" and tm: "hs_term (n_hard n) \<noteq> 0"
    and self: "hs_voted_for (n_hard n) = Some (cfg_id (n_config n))"
    and pre: "n_prevoting n = None" and lf: "n_log_from n = None"
  shows "returns (Node_become_leader n) (good n0)"
proof -
  let ?n1 = "n\<lparr>n_quorum_elapsed := 0, n_active := map (\<lambda>_. False) (n_active n), n_role := Leader,
       n_leader := Some (cfg_id (n_config n)), n_elapsed := 0,
       n_next := map (\<lambda>_. saturating_add (li_index (n_last n)) 1) (n_next n),
       n_matched := map (\<lambda>_. 0) (n_matched n)\<rparr>"
  have "slots_ok ?n1" and "log_ok ?n1" and "role_ok ?n1" and "prevote_ok ?n1" and "clean_ok ?n1"
    and "evolves n0 ?n1" and "saved n0 ?n1"
    using goodD [OF good] tm self pre
    by (simp_all add: slots_ok_def log_ok_def role_ok_def prevote_ok_def clean_ok_def evolves_def saved_def)
  moreover have "next_ok ?n1"
    using goodD(2) [OF good] by (simp add: next_ok_def reach_def slots_ok_def)
  moreover have "members_ok ?n1"
    using goodD(6) [OF good] by (rule members_ok_cong) simp_all
  ultimately have "good n0 ?n1"
    by (simp add: good_def Node_inv_def)
  then have good2: "good n0 (Node_set_local_matched (li_index (n_last n)) ?n1)" (is "good n0 ?n2")
    by (intro good_set_local_matched) simp_all
  have "n_role ?n2 = Leader" and "n_log_from ?n2 = None"
    using lf by (simp_all add: Node_set_local_matched_def)
  from good_barrier [OF good2 this] obtain n3 where n3: "Node_barrier ?n2 = Some n3" "good n0 n3" "reach n3"
    by (auto simp: returns_iff)
  then show ?thesis
    using good_broadcast [of n0 n3]
    by (auto simp: Node_become_leader_def Let_def intro: returns_conseq)
qed

text \<open>Changes of the ballots and the other volatile fields keep the invariant.\<close>

lemma good_votes:
  "good n0 n \<Longrightarrow> length vs = length (n_votes n) \<Longrightarrow> good n0 (n\<lparr>n_votes := vs\<rparr>)"
  by (erule good_volatile [rotated 3]) (simp_all add: fixed_part_eq slot_part_eq)

lemma good_vote_for_self:
  assumes good: "good n0 n" and l: "n_local n < Node_N n"
  obtains vs where "Node_vote_for_self n = Some (n\<lparr>n_votes := vs\<rparr>)" and "good n0 (n\<lparr>n_votes := vs\<rparr>)"
proof -
  have "length (n_votes n) = Node_N n"
    using goodD(2) [OF good] by (simp add: slots_ok_def)
  then show ?thesis
    using l good_votes [OF good]
    by (intro that [of "(map (\<lambda>_. False) (n_votes n))[n_local n := True]"])
      (simp_all add: Node_vote_for_self_def index_write_def)
qed

text \<open>Entering a new term, with a vote for oneself or none.\<close>

lemma good_new_term:
  assumes good: "good n0 n" and tm: "hs_term (n_hard n) < t"
    and role: "r = Follower \<or> r = Candidate \<and> v = Some (cfg_id (n_config n))"
  shows "good n0 ((set_hard (\<lambda>h. h\<lparr>hs_term := t, hs_voted_for := v\<rparr>) (n\<lparr>n_prevoting := None\<rparr>))
      \<lparr>n_dirty := True, n_role := r, n_leader := l\<rparr>)" (is "good n0 ?m")
proof -
  let ?h = "(n_hard n)\<lparr>hs_term := t, hs_voted_for := v\<rparr>"
  note log = goodD(1) [OF good]
  have st: "n_state ?m = (n_state n)\<lparr>st_hard := ?h\<rparr>"
    by (simp add: set_hard_def)
  have t0: "t \<noteq> 0"
    using tm by (auto simp: u64)
  have "State_inv ((n_state n)\<lparr>st_hard := ?h\<rparr>)"
    using log_okD(1) [OF log] tm t0 by (intro State_inv_hard) (auto simp: State_inv_def)
  then have "log_ok ?m"
    using log by (simp add: log_ok_def set_hard_def payloads_ok_def)
  moreover have "State_advances (n_state n) (n_state ?m)"
    unfolding st State_advances_hard using tm by (auto simp: HardState_le_def)
  then have "evolves n0 ?m"
    using goodD(8) [OF good] by (auto simp: evolves_def set_hard_def intro: State_advances_trans)
  moreover have "slots_ok ?m" and "role_ok ?m" and "prevote_ok ?m" and "clean_ok ?m" and "saved n0 ?m"
    using goodD [OF good] role t0
    by (auto simp: slots_ok_def set_hard_def role_ok_def prevote_ok_def clean_ok_def saved_def)
  moreover have "next_ok ?m"
    using goodD(3) [OF good] role by (auto simp: next_ok_def reach_def set_hard_def)
  moreover have "members_ok ?m"
  proof -
    have at: "Node_membership_at i ?m = Node_membership_at i n" for i
      by (simp add: Node_membership_at_def set_hard_def split: option.splits)
    show ?thesis
      using goodD(6) [OF good] unfolding members_ok_def at by (auto simp: set_hard_def)
  qed
  ultimately show ?thesis
    by (simp add: good_def Node_inv_def)
qed

lemma good_campaign:
  assumes good: "good n0 n" and tm: "hs_term (n_hard n) < t"
    and l: "n_local n < Node_N n" and lf: "n_log_from n = None"
  shows "returns (Node_campaign t n) (good n0)"
proof -
  let ?n1 = "(set_hard (\<lambda>h. h\<lparr>hs_term := t, hs_voted_for := Some (cfg_id (n_config n))\<rparr>)
      (n\<lparr>n_prevoting := None\<rparr>))\<lparr>n_dirty := True, n_role := Candidate, n_leader := None\<rparr>"
  have good1: "good n0 ?n1"
    using good tm by (rule good_new_term) simp
  have "n_local ?n1 < Node_N ?n1"
    using l by (simp add: set_hard_def)
  from good_vote_for_self [OF good1 this] obtain vs
    where vs: "Node_vote_for_self ?n1 = Some (?n1\<lparr>n_votes := vs\<rparr>)" and good2: "good n0 (?n1\<lparr>n_votes := vs\<rparr>)" .
  from good_reset_election [OF good2] obtain n3
    where n3: "Node_reset_election (?n1\<lparr>n_votes := vs\<rparr>) = Some n3" "good n0 n3"
      "fixed_part n3 = fixed_part (?n1\<lparr>n_votes := vs\<rparr>)" "n_prevoting n3 = None"
    by (auto simp: returns_iff set_hard_def)
  have "hs_term (n_hard n3) = t" "hs_voted_for (n_hard n3) = Some (cfg_id (n_config n3))" "n_log_from n3 = None"
    using n3(3) lf by (simp_all add: fixed_part_eq set_hard_def)
  moreover have "t \<noteq> 0"
    using tm by (auto simp: u64)
  ultimately have "returns (Node_become_leader n3) (good n0)"
    using n3 by (intro good_become_leader) auto
  moreover have "returns (Node_ask_voters OutVote n3) (good n0)"
    using good_ask_voters [OF n3(2), of OutVote] by (auto intro: returns_conseq)
  ultimately show ?thesis
    using vs n3(1) by (simp add: Node_campaign_def Let_def)
qed

section \<open>Time\<close>

lemma good_local:
  assumes good: "good n0 n" and v: "Membership_is_voter (cfg_id (n_config n)) (n_membership n)"
  shows "n_local n < Node_N n"
proof -
  have "cfg_id (n_config n) \<in> Membership_ids (n_membership n)"
    using voter_contained [OF v] by (simp add: contains_iff)
  then have "Some (cfg_id (n_config n)) \<in> set (n_peers n)"
    using goodD(6) [OF good] by (auto simp: members_ok_def)
  then obtain k where k: "position (\<lambda>p. p = Some (cfg_id (n_config n))) (n_peers n) = Some k"
    using position_exists [of _ "n_peers n" "\<lambda>p. p = Some (cfg_id (n_config n))"] by auto
  moreover have "n_local n = slot_of (cfg_id (n_config n)) (n_peers n)"
    using goodD(6) [OF good] by (simp add: members_ok_def)
  ultimately show ?thesis
    using position_less [OF k] by (simp add: slot_of_def)
qed

lemma good_probe:
  assumes good: "good n0 n" and t: "checked_add (hs_term (n_hard n)) 1 = Some t"
    and l: "n_local n < Node_N n" and lf: "n_log_from n = None"
  shows "returns (Node_probe t n) (good n0)"
proof -
  let ?n1 = "n\<lparr>n_role := Follower, n_prevoting := Some t\<rparr>"
  have "slots_ok ?n1" and "log_ok ?n1" and "role_ok ?n1" and "prevote_ok ?n1" and "clean_ok ?n1"
    and "evolves n0 ?n1" and "saved n0 ?n1" and "next_ok ?n1"
    using goodD [OF good] t l
    by (simp_all add: slots_ok_def log_ok_def role_ok_def prevote_ok_def clean_ok_def evolves_def
        saved_def next_ok_def reach_def)
  moreover have "members_ok ?n1"
    using goodD(6) [OF good] by (rule members_ok_cong) simp_all
  ultimately have good1: "good n0 ?n1"
    by (simp add: good_def Node_inv_def)
  have "n_local ?n1 < Node_N ?n1"
    using l by simp
  from good_vote_for_self [OF good1 this] obtain vs
    where vs: "Node_vote_for_self ?n1 = Some (?n1\<lparr>n_votes := vs\<rparr>)" and good2: "good n0 (?n1\<lparr>n_votes := vs\<rparr>)" .
  from good_reset_election [OF good2] obtain n3
    where n3: "Node_reset_election (?n1\<lparr>n_votes := vs\<rparr>) = Some n3" "good n0 n3"
      "fixed_part n3 = fixed_part (?n1\<lparr>n_votes := vs\<rparr>)" "slot_part n3 = slot_part (?n1\<lparr>n_votes := vs\<rparr>)"
    by (auto simp: returns_iff)
  have lt: "hs_term (n_hard n) < t"
    using t by (auto simp: u64)
  have "returns (Node_campaign t n3) (good n0)"
    using n3(3,4) l lf lt by (intro good_campaign [OF n3(2)]) (simp_all add: fixed_part_eq slot_part_eq)
  moreover have "returns (Node_ask_voters (OutPreVote t) n3) (good n0)"
    using good_ask_voters [OF n3(2), of "OutPreVote t"] by (auto intro: returns_conseq)
  ultimately show ?thesis
    using vs n3(1) by (simp add: Node_probe_def)
qed

lemma good_timers:
  assumes good: "good n0 n" and lf: "n_log_from n = None"
  shows "returns (Node_timers n) (\<lambda>(_, n'). good n0 n')"
proof (cases "n_role n = Leader")
  case True
  have good1: "good n0 (n\<lparr>n_elapsed := 0\<rparr>)"
    by (rule good_volatile [OF _ _ _ good]) (simp_all add: fixed_part_eq slot_part_eq)
  from good_barrier [OF this] obtain n1
    where n1: "Node_barrier (n\<lparr>n_elapsed := 0\<rparr>) = Some n1" "good n0 n1" "reach n1"
    using True lf by (auto simp: returns_iff)
  from good_broadcast [OF n1(2,3)] obtain n2 where "Node_broadcast n1 = Some n2" "good n0 n2"
    by (auto simp: returns_iff)
  with n1 True good show ?thesis
    by (simp add: Node_timers_def)
next
  case False
  show ?thesis
  proof (cases "Membership_is_voter (cfg_id (n_config n)) (n_membership n)
      \<and> n_election_deadline n \<le> n_elapsed n")
    case voter: True
    show ?thesis
    proof (cases "checked_add (hs_term (n_hard n)) 1")
      case None
      with False voter good show ?thesis
        by (simp add: Node_timers_def)
    next
      case (Some t)
      then have lt: "hs_term (n_hard n) < t"
        by (auto simp: u64)
      have "n_local n < Node_N n"
        using good_local [OF good] voter by simp
      then have "returns (if n_hooks n \<noteq> None then Node_probe t n else Node_campaign t n) (good n0)"
        using good_probe [OF good Some _ lf] good_campaign [OF good lt _ lf] by simp
      then show ?thesis
        using False voter Some by (auto simp: Node_timers_def returns_iff)
    qed
  next
    case idle: False
    then show ?thesis
      using False good by (auto simp: Node_timers_def)
  qed
qed

lemma available_iff:
  "Node_available n = Ok () \<longleftrightarrow>
     \<not> n_dirty n \<and> n_extra_reply n = None \<and> (\<forall>x \<in> set (n_outbox n). x = None)"
  by (cases "n_extra_reply n") (auto simp: Node_available_def list_ex_iff)

lemma good_start:
  assumes "Node_inv n" and "Node_available n = Ok ()"
  shows "good n n" and "n_log_from n = None" and "Some OutReplicate \<notin> set (n_outbox n)"
  using assms by (auto simp: good_def Node_inv_def available_iff saved_def clean_ok_def evolves_refl)

lemma good_check_quorum:
  assumes "good n0 n"
  shows "good n0 (snd (Node_check_quorum n)) \<and> n_log_from (snd (Node_check_quorum n)) = n_log_from n"
proof -
  have "fixed_part (snd (Node_check_quorum n)) = fixed_part n"
    and "slot_part (snd (Node_check_quorum n)) = slot_part n"
    and "n_role (snd (Node_check_quorum n)) = n_role n"
    and "n_prevoting (snd (Node_check_quorum n)) = n_prevoting n"
    by (simp_all add: Node_check_quorum_def Let_def fixed_part_eq slot_part_eq)
  then show ?thesis
    using good_volatile [OF _ _ _ assms] by (auto simp: fixed_part_eq)
qed

lemma good_tick:
  assumes inv: "Node_inv n" and av: "Node_available n = Ok ()"
  shows "returns (Node_tick n) (\<lambda>(_, n'). good n n')"
proof -
  let ?n1 = "n\<lparr>n_elapsed := saturating_add (n_elapsed n) 1, n_leader_age := saturating_add (n_leader_age n) 1\<rparr>"
  have "good n ?n1"
    by (rule good_volatile [OF _ _ _ good_start(1) [OF inv av]]) (simp_all add: fixed_part_eq slot_part_eq)
  then have good2: "good n (snd (Node_check_quorum ?n1))" and lf: "n_log_from (snd (Node_check_quorum ?n1)) = None"
    using good_check_quorum [of n ?n1] good_start(2) [OF inv av] by simp_all
  obtain n3 where "Node_follow None (snd (Node_check_quorum ?n1)) = Some n3" "good n n3"
    using good_follow [OF good2] by (auto simp: returns_iff)
  then show ?thesis
    using good_timers [OF good2 lf]
    by (cases "Node_check_quorum ?n1") (simp add: Node_tick_def av Let_def)
qed

section \<open>Replication\<close>

lemma calm_quiet: "quiet n \<Longrightarrow> calm n n' \<Longrightarrow> quiet n'"
  by (auto simp: quiet_def calm_def)

lemma valid_next_term:
  assumes "valid_next t p e"
  shows "checked_add (li_index p) 1 = Some (li_index (en_id e))" and "li_term (en_id e) \<noteq> 0"
    and "li_term p \<le> li_term (en_id e)" and "li_term (en_id e) \<le> t"
  using assms by (auto simp: valid_next_def valid_id_def LogId_default_def u64)

text \<open>Replacing an uncommitted suffix by the entry that follows \<open>previous\<close>.\<close>

lemma replace_suffix:
  assumes inv: "State_inv st" and cap: "0 < State_CAP st"
    and at: "State_id_at (li_index previous) st = Some previous"
    and val: "valid_next (hs_term (st_hard st)) previous e"
    and unc: "hs_commit (st_hard st) < li_index (en_id e)"
    and room: "\<not> (State_full st \<and> li_index (State_last st) < li_index (en_id e))"
  obtains st' where "State_push e (State_truncate (li_index (en_id e)) st) = (Ok (), st')"
    and "State_inv st'" and "State_advances st st'" and "State_last st' = en_id e"
    and "State_CAP st' = State_CAP st" and "st_hard st' = st_hard st"
    and "st_snapshot st' = st_snapshot st"
    and "State_entries st' = filter (\<lambda>x. li_index (en_id x) < li_index (en_id e)) (State_entries st) @ [e]"
proof -
  let ?i = "li_index (en_id e)" and ?tr = "State_truncate (li_index (en_id e)) st"
  note tr = State_truncate_spec [OF State_inv_D(1,2) [OF inv], of ?i]
  note inv1 = State_inv_truncate [OF inv unc]
  note v = valid_next_term [OF val]
  have lst: "State_last ?tr = previous"
    using State_truncate_last [OF inv at v(1)] .
  have "\<not> State_full ?tr"
  proof
    assume full: "State_full ?tr"
    then have len: "length (filter (\<lambda>x. li_index (en_id x) < ?i) (State_entries st)) = State_CAP st"
      using tr State_full_iff by metis
    then have "length (State_entries st) = State_CAP st"
      using slots_wf_cap [OF State_inv_D(1) [OF inv]]
        length_filter_le [of "\<lambda>x. li_index (en_id x) < ?i" "State_entries st"] by linarith
    with len have all: "\<forall>x \<in> set (State_entries st). li_index (en_id x) < ?i"
      by (metis (no_types, lifting) length_filter_less less_irrefl)
    have "State_full st" and "State_entries st \<noteq> []"
      using \<open>length (State_entries st) = State_CAP st\<close> cap State_full_iff [OF State_inv_D(1) [OF inv]]
      by auto
    with all have "State_full st \<and> li_index (State_last st) < ?i"
      by (simp add: State_last_def log_last_def)
    with room show False by simp
  qed
  from State_inv_push [OF inv1(1) this, of e]
  obtain st' where "State_push e ?tr = (Ok (), st')" "State_inv st'"
    "State_entries st' = State_entries ?tr @ [e]" "State_CAP st' = State_CAP ?tr"
    "st_hard st' = st_hard ?tr" "st_snapshot st' = st_snapshot ?tr" "State_last st' = en_id e"
    "State_advances ?tr st'"
    using v tr unfolding lst by metis
  then show ?thesis
    using tr State_advances_trans [OF inv1(3)] by (intro that) auto
qed

lemma good_append_entry:
  assumes good: "good n0 n" and quiet: "quiet n"
    and push: "State_push e (State_truncate (li_index (en_id e)) (n_state n)) = (Ok (), st)"
    and inv: "State_inv st" and adv: "State_advances (n_state n) st"
    and cap: "State_CAP st = State_CAP (n_state n)" and hard: "st_hard st = n_hard n"
    and snap: "st_snapshot st = st_snapshot (n_state n)"
    and es: "State_entries st = filter P (State_entries (n_state n)) @ [e]"
    and ok: "entry_ok (n_hooks n) (Node_N n) e" and unc: "hs_commit (n_hard n) < li_index (en_id e)"
  shows "returns (Node_refresh_membership (n\<lparr>n_state := st\<rparr>)) (\<lambda>n1.
    good n0 (n1\<lparr>n_dirty := True, n_log_from := Some (lower_from (n_log_from n1) (li_index (en_id e)))\<rparr>)
    \<and> quiet n1 \<and> n_state n1 = st)"
proof -
  let ?n1 = "n\<lparr>n_state := st\<rparr>" and ?f = "Some (lower_from (n_log_from n) (li_index (en_id e)))"
  note log = goodD(1) [OF good]
  have log1: "log_ok ?n1"
    using log inv cap snap es ok by (auto simp: log_ok_def payloads_ok_def list_all_iff)
  have slots1: "slots_ok ?n1" and next1: "next_ok ?n1" and role1: "role_ok ?n1" and pre1: "n_prevoting ?n1 = None"
    using goodD(2) [OF good] quiet by (auto simp: quiet_def slots_ok_def next_ok_def role_ok_def)
  have "covers (n_state n0) st ?f (n_snapshot_changed n)"
    using goodD(8) [OF good] covers_replace [OF _ log_okD(2,3) [OF log] push]
    by (simp add: evolves_def)
  moreover have "li_index (State_base st) < lower_from (n_log_from n) (li_index (en_id e))"
    using goodD(8) [OF good] base_le_commit [OF log] State_base_cong [OF snap] unc
    by (auto simp: evolves_def lower_from_def is_none_or_def split: option.splits)
  ultimately have ev: "evolves n0 (?n1\<lparr>n_log_from := ?f, n_snapshot_changed := n_snapshot_changed n\<rparr>)"
    using goodD(8) [OF good] adv by (auto simp: evolves_def intro: State_advances_trans)
  obtain n1 where n1: "Node_refresh_membership ?n1 = Some n1" "refreshed ?n1 n1"
    using refresh_returns [OF log1 slots1 next1] by (auto simp: returns_iff)
  have same: "n_log_from n1 = n_log_from n" "n_snapshot_changed n1 = n_snapshot_changed n" "n_state n1 = st"
    using n1(2) by (simp_all add: refreshed_def fixed_part_eq)
  from same(2) have eq: "n1\<lparr>n_dirty := True, n_log_from := ?f, n_snapshot_changed := n_snapshot_changed n\<rparr>
      = n1\<lparr>n_dirty := True, n_log_from := ?f\<rparr>"
    by simp
  have "quiet n1"
    using n1(2) quiet by (auto simp: refreshed_def quiet_def)
  then show ?thesis
    using refreshed_good [OF n1(2) log1 role1 pre1 ev, unfolded eq] n1(1) same by simp
qed

lemma good_append:
  assumes good: "good n0 n" and quiet: "quiet n"
    and val: "is_none_or (valid_next (hs_term (n_hard n)) previous) entry"
    and ok: "is_none_or (entry_ok (n_hooks n) (Node_N n)) entry"
  shows "returns (Node_append previous entry commit n)
    (\<lambda>(_, n'). good n0 n' \<and> quiet n' \<and> hs_term (n_hard n') = hs_term (n_hard n))"
proof -
  note log = goodD(1) [OF good]
  have commit: "\<exists>n'. Node_commit_to i n = Some n' \<and> good n0 n' \<and> quiet n' \<and> hs_term (n_hard n') = hs_term (n_hard n)"
    if "State_id_at j (n_state n) \<noteq> None" "i \<le> j" for i j
  proof -
    have "i \<le> li_index (n_last n)"
      using that State_id_at_defined log_okD(2,3) [OF log] by (meson order.trans)
    then show ?thesis
      using good_commit_to [OF good] quiet calm_quiet [OF quiet]
      by (fastforce simp: returns_iff quiet_def calm_def)
  qed
  show ?thesis
  proof (cases "State_id_at (li_index previous) (n_state n) = Some previous")
    case False
    then show ?thesis
      using good quiet by (simp add: Node_append_def Let_def)
  next
    case at: True
    obtain a where a: "Node_commit_to (min commit (li_index previous)) n = Some a" "good n0 a" "quiet a"
      "hs_term (n_hard a) = hs_term (n_hard n)"
      using commit [of "li_index previous" "min commit (li_index previous)"] at by auto
    show ?thesis
    proof (cases entry)
      case None
      then show ?thesis
        using at a by (simp add: Node_append_def)
    next
      case (Some e)
      let ?i = "li_index (en_id e)"
      have v: "valid_next (hs_term (n_hard n)) previous e" and eok: "entry_ok (n_hooks n) (Node_N n) e"
        using val ok Some by simp_all
      consider (held) "State_id_at ?i (n_state n) = Some (en_id e)"
        | (refused) "State_id_at ?i (n_state n) \<noteq> Some (en_id e)" "?i \<le> hs_commit (n_hard n)"
        | (full) "State_id_at ?i (n_state n) \<noteq> Some (en_id e)" "hs_commit (n_hard n) < ?i"
            "State_full (n_state n) \<and> li_index (n_last n) < ?i"
        | (replace) "State_id_at ?i (n_state n) \<noteq> Some (en_id e)" "hs_commit (n_hard n) < ?i"
            "\<not> (State_full (n_state n) \<and> li_index (n_last n) < ?i)"
        using linorder_not_le [of ?i "hs_commit (n_hard n)"] by blast
      then show ?thesis
      proof cases
        case held
        then obtain b where "Node_commit_to (min commit ?i) n = Some b" "good n0 b" "quiet b"
          "hs_term (n_hard b) = hs_term (n_hard n)"
          using commit [of ?i "min commit ?i"] by auto
        with at Some held show ?thesis
          by (simp add: Node_append_def)
      next
        case refused
        then show ?thesis
          using at Some good quiet by (simp add: Node_append_def)
      next
        case full
        then show ?thesis
          using at Some a good quiet by (simp add: Node_append_def Let_def)
      next
        case replace
        obtain st where st: "State_push e (State_truncate ?i (n_state n)) = (Ok (), st)"
          "State_inv st" "State_advances (n_state n) st" "State_last st = en_id e"
          "State_CAP st = State_CAP (n_state n)" "st_hard st = n_hard n"
          "st_snapshot st = st_snapshot (n_state n)"
          "State_entries st = filter (\<lambda>x. li_index (en_id x) < ?i) (State_entries (n_state n)) @ [e]"
          using replace_suffix [OF log_okD(1,4) [OF log] at v replace(2,3)] by metis
        from good_append_entry [OF good quiet st(1,2,3,5,6,7,8) eok replace(2)] obtain n1
          where n1: "Node_refresh_membership (n\<lparr>n_state := st\<rparr>) = Some n1" "n_state n1 = st" "quiet n1"
            and good2: "good n0 (n1\<lparr>n_dirty := True, n_log_from := Some (lower_from (n_log_from n1) ?i)\<rparr>)"
              (is "good n0 ?n2")
          by (auto simp: returns_iff)
        have q2: "quiet ?n2"
          using n1(3) by (simp add: quiet_def)
        have "returns (Node_commit_to (min commit ?i) ?n2) (\<lambda>n'. good n0 n' \<and> calm ?n2 n')"
          using q2 n1(2) st(4) by (intro good_commit_to [OF good2]) (auto simp: quiet_def)
        then obtain n3 where n3: "Node_commit_to (min commit ?i) ?n2 = Some n3" "good n0 n3" "calm ?n2 n3"
          by (auto simp: returns_iff)
        have "hs_term (n_hard n3) = hs_term (n_hard n)"
          using n3(3) n1(2) st(6) by (simp add: calm_def)
        then show ?thesis
          using at Some replace st(1) n1(1) n3 calm_quiet [OF q2 n3(3)] good quiet
          by (auto simp: Node_append_def Let_def)
      qed
    qed
  qed
qed

fun valid_chain :: "u64 \<Rightarrow> LogId \<Rightarrow> 'v Entry list \<Rightarrow> bool" where
  "valid_chain t p [] = True"
| "valid_chain t p (e # es) = (valid_next t p e \<and> valid_chain t (en_id e) es)"

lemma valid_batch_chain: "valid_batch t p ended count es \<Longrightarrow> valid_chain t p (flatten es)"
  by (induction t p ended count es rule: valid_batch.induct) (auto split: if_splits)

lemma good_append_batch:
  assumes "good n0 n" and "quiet n" and "valid_chain (hs_term (n_hard n)) previous es"
    and "list_all (entry_ok (n_hooks n0) (Node_N n0)) es"
  shows "returns (Node_append_batch previous es commit accepted response n) (\<lambda>(_, n'). good n0 n' \<and> quiet n')"
  using assms
proof (induction es arbitrary: previous accepted response n)
  case (Cons e es)
  have same: "n_hooks n = n_hooks n0" "Node_N n = Node_N n0"
    using goodD(8) [OF Cons.prems(1)] by (simp_all add: evolves_def)
  obtain r n' where r: "Node_append previous (Some e) commit n = Some (r, n')" "good n0 n'" "quiet n'"
      "hs_term (n_hard n') = hs_term (n_hard n)"
    using good_append [OF Cons.prems(1,2), of previous "Some e" commit] Cons.prems(3,4) same
    by (auto simp: returns_iff)
  then have "returns (Node_append_batch (en_id e) es commit True (fst r, None) n') (\<lambda>(_, n'). good n0 n' \<and> quiet n')"
    using Cons.prems by (intro Cons.IH) auto
  then show ?case
    using r by simp
qed simp

lemma good_next:
  assumes good: "good n0 n" and len: "length ns = Node_N n" and pos: "\<forall>i < Node_N n. 1 \<le> ns ! i"
    and le: "\<forall>i < Node_N n. ns ! i \<le> saturating_add (li_index (n_last n)) 1"
  shows "good n0 (n\<lparr>n_next := ns\<rparr>)" and "reach (n\<lparr>n_next := ns\<rparr>)"
proof -
  let ?m = "n\<lparr>n_next := ns\<rparr>"
  have "slots_ok ?m" and "log_ok ?m" and "role_ok ?m" and "prevote_ok ?m" and "clean_ok ?m"
    and "evolves n0 ?m" and "saved n0 ?m"
    using goodD [OF good] len pos
    by (simp_all add: slots_ok_def log_ok_def role_ok_def prevote_ok_def clean_ok_def evolves_def saved_def)
  moreover show "reach ?m"
    using le by (simp add: reach_def)
  then have "next_ok ?m"
    using goodD(3) [OF good] by (simp add: next_ok_def)
  moreover have "members_ok ?m"
    using goodD(6) [OF good] by (rule members_ok_cong) simp_all
  ultimately show "good n0 ?m"
    by (simp add: good_def Node_inv_def)
qed

lemma good_replicate:
  assumes "good n0 n" and "reach n" and "addressable peer n0" and "peer < Node_N n0"
  shows "returns (Node_replicate peer n) (good n0)"
proof -
  have "addressable peer n" and "peer < Node_N n"
    using assms addressable_evolves [OF goodD(8) [OF assms(1)]] goodD(8) [OF assms(1)]
    by (auto simp: evolves_def)
  then show ?thesis
    unfolding Node_replicate_def using assms
    by (intro returns_conseq [OF good_send [OF assms(1)]]) auto
qed

lemma good_replicated:
  assumes good0: "good n0 n" and lead: "n_role n = Leader"
    and peer: "peer < Node_N n0" "addressable peer n0"
  shows "returns (Node_replicated peer index rejection n) (good n0)"
proof -
  have N: "Node_N n = Node_N n0"
    using goodD(8) [OF good0] by (simp add: evolves_def)
  then have lt: "peer < Node_N n"
    using peer by simp
  have lens: "length (n_active n) = Node_N n" "length (n_next n) = Node_N n" "length (n_matched n) = Node_N n"
    and pos: "\<forall>i < Node_N n. 1 \<le> n_next n ! i"
    using goodD(2) [OF good0] by (simp_all add: slots_ok_def)
  have pre: "n_prevoting n = None" and reach: "reach n"
    and mat: "\<forall>i < Node_N n. n_matched n ! i \<le> li_index (n_last n)"
    using goodD(3,4) [OF good0] lead by (simp_all add: role_ok_def next_ok_def)
  let ?n = "n\<lparr>n_active := (n_active n)[peer := True]\<rparr>"
  have good: "good n0 ?n"
    by (rule good_volatile [OF _ _ _ good0]) (simp_all add: fixed_part_eq slot_part_eq)
  have act: "index_write (n_active n) peer True = Some ((n_active n)[peer := True])"
    using peer N lens by (simp add: index_write_def)
  show ?thesis
  proof (cases "li_index (n_last n) < index \<or> rejection = Some RejectFull")
    case True
    then show ?thesis
      using good by (auto simp: Node_replicated_def act Let_def)
  next
    case False
    then have le: "index \<le> li_index (n_last n)"
      by (simp add: not_less)
    show ?thesis
    proof (cases rejection)
      case None
      let ?m = "?n\<lparr>n_matched := (n_matched n)[peer := index]\<rparr>"
      let ?ns = "(n_next n)[peer := max (n_next n ! peer) (saturating_add index 1)]"
      have "good n0 ?m"
        using good lens mat le lt by (intro good_matched) (auto simp: nth_list_update)
      moreover have "\<forall>i < Node_N n. 1 \<le> ?ns ! i"
        using pos lens lt by (simp add: nth_list_update le_max_iff_disj)
      moreover have "\<forall>i < Node_N n. ?ns ! i \<le> saturating_add (li_index (n_last n)) 1"
        using reach le lens lt by (auto simp: nth_list_update reach_def u64)
      ultimately have good1: "good n0 (?m\<lparr>n_next := ?ns\<rparr>)" and reach1: "reach (?m\<lparr>n_next := ?ns\<rparr>)"
        using lens good_next [of n0 ?m ?ns] by simp_all
      then obtain b n2 where n2: "Node_advance_commit (?m\<lparr>n_next := ?ns\<rparr>) = Some (b, n2)" "good n0 n2"
          "calm (?m\<lparr>n_next := ?ns\<rparr>) n2"
        using good_advance_commit [OF good1] pre by (auto simp: returns_iff)
      have reach2: "reach n2"
        using n2(3) reach1 by (simp add: calm_def)
      have "returns (Node_broadcast n2) (good n0)"
        using good_broadcast [OF n2(2) reach2] by (auto intro: returns_conseq)
      moreover have "returns (Node_replicate peer n2) (good n0)"
        using good_replicate [OF n2(2) reach2 peer(2,1)] .
      ultimately show ?thesis
        using False None good n2(1,2) by (auto simp: Node_replicated_def act Let_def)
    next
      case (Some rej)
      with False obtain next' where rej: "rejection = Some (Conflict next')"
        by (cases rej) auto
      have lo: "saturating_add (n_matched n ! peer) 1 \<le> saturating_add (li_index (n_last n)) 1"
        using mat peer N by (auto simp: u64)
      then obtain c where c: "clamp next' (saturating_add (n_matched n ! peer) 1)
          (saturating_add (li_index (n_last n)) 1) = Some c"
        using clamp_defined by blast
      have cb: "1 \<le> c" "c \<le> saturating_add (li_index (n_last n)) 1"
        using clamp_within [OF c] order.trans [OF one_le_saturating_add [of "n_matched n ! peer"]] by blast+
      have "good n0 (?n\<lparr>n_next := (n_next n)[peer := c]\<rparr>)" and "reach (?n\<lparr>n_next := (n_next n)[peer := c]\<rparr>)"
        using good_next [OF good, of "(n_next n)[peer := c]"] lens pos reach cb lt
        by (auto simp: nth_list_update reach_def)
      then have "returns (Node_replicate peer (?n\<lparr>n_next := (n_next n)[peer := c]\<rparr>)) (good n0)"
        using peer by (intro good_replicate)
      then show ?thesis
        using False rej good c by (simp add: Node_replicated_def act Let_def)
    qed
  qed
qed

section \<open>Receiving a message\<close>

lemma good_reply:
  assumes "good n0 n" and "addressable peer n0"
  shows "returns (Node_reply peer index rejection n) (good n0)"
  unfolding Node_reply_def
  using assms addressable_evolves [OF goodD(8)]
  by (intro returns_conseq [OF good_send]) auto

lemma good_send_other:
  assumes "good n0 n" and "addressable peer n0" and "outbound \<noteq> OutReplicate"
  shows "returns (Node_send peer outbound n) (good n0)"
  using assms addressable_evolves [OF goodD(8)]
  by (intro returns_conseq [OF good_send]) auto

lemma good_observe_term:
  assumes good: "good n0 n"
  shows "returns (Node_observe_term t n) (\<lambda>n'. good n0 n' \<and> slot_part n' = slot_part n
    \<and> n_log_from n' = n_log_from n \<and> t \<le> hs_term (n_hard n'))"
proof (cases "hs_term (n_hard n) < t")
  case True
  let ?h = "\<lambda>h. h\<lparr>hs_term := t, hs_voted_for := None\<rparr>"
  let ?n1 = "(set_hard ?h n)\<lparr>n_dirty := True\<rparr>"
  let ?m = "(set_hard ?h (n\<lparr>n_prevoting := None\<rparr>))\<lparr>n_dirty := True, n_role := Follower, n_leader := None\<rparr>"
  have "valid_timing (n_config ?n1)"
    using good_timing [OF good] by (simp add: set_hard_def)
  from follow_returns [OF this, of None] obtain a r d where
    f: "Node_follow None ?n1 = Some (?n1\<lparr>n_role := Follower, n_prevoting := None, n_leader_age := a,
       n_leader := None, n_random := r, n_election_deadline := d, n_elapsed := 0\<rparr>)" (is "_ = Some ?n2")
    by blast
  have "good n0 ?m"
    using good True by (rule good_new_term) simp
  then have "good n0 ?n2"
    by (rule good_volatile [rotated 3]) (simp_all add: fixed_part_eq slot_part_eq set_hard_def)
  then show ?thesis
    using True f by (simp add: Node_observe_term_def slot_part_eq set_hard_def)
next
  case False
  then show ?thesis
    using good by (simp add: Node_observe_term_def)
qed

lemma good_grant:
  assumes good: "good n0 n" and none: "hs_voted_for (n_hard n) = None" and tm: "hs_term (n_hard n) \<noteq> 0"
  shows "good n0 ((set_hard (\<lambda>h. h\<lparr>hs_voted_for := Some i\<rparr>) n)\<lparr>n_dirty := True\<rparr>)" (is "good n0 ?m")
proof -
  let ?h = "(n_hard n)\<lparr>hs_voted_for := Some i\<rparr>"
  note log = goodD(1) [OF good]
  have st: "n_state ?m = (n_state n)\<lparr>st_hard := ?h\<rparr>"
    by (simp add: set_hard_def)
  have "State_inv ((n_state n)\<lparr>st_hard := ?h\<rparr>)"
    using log_okD(1) [OF log] tm by (intro State_inv_hard) (auto simp: State_inv_def)
  then have "log_ok ?m"
    using log by (simp add: log_ok_def set_hard_def payloads_ok_def)
  moreover have "State_advances (n_state n) (n_state ?m)"
    unfolding st State_advances_hard using none by (auto simp: HardState_le_def)
  then have "evolves n0 ?m"
    using goodD(8) [OF good] by (auto simp: evolves_def set_hard_def intro: State_advances_trans)
  moreover have "slots_ok ?m" and "role_ok ?m" and "prevote_ok ?m" and "clean_ok ?m" and "saved n0 ?m"
    and "next_ok ?m"
    using goodD [OF good] none
    by (auto simp: slots_ok_def set_hard_def role_ok_def prevote_ok_def clean_ok_def saved_def
        next_ok_def reach_def)
  moreover have "members_ok ?m"
  proof -
    have at: "Node_membership_at i ?m = Node_membership_at i n" for i
      by (simp add: Node_membership_at_def set_hard_def split: option.splits)
    show ?thesis
      using goodD(6) [OF good] unfolding members_ok_def at by (auto simp: set_hard_def)
  qed
  ultimately show ?thesis
    by (simp add: good_def Node_inv_def)
qed

lemma good_on_vote:
  assumes good: "good n0 n" and tm: "hs_term (n_hard n) \<noteq> 0" and peer: "addressable peer n0"
  shows "returns (Node_on_vote i peer lst n) (good n0)"
proof (cases "is_none_or (\<lambda>j. j = i) (hs_voted_for (n_hard n)) \<and> log_up_to_date lst (n_last n)")
  case True
  let ?n1 = "if hs_voted_for (n_hard n) \<noteq> Some i
      then (set_hard (\<lambda>h. h\<lparr>hs_voted_for := Some i\<rparr>) n)\<lparr>n_dirty := True\<rparr> else n"
  have "good n0 ?n1"
    using good_grant [OF good _ tm, of i] good True by (cases "hs_voted_for (n_hard n)") auto
  then obtain n2 where n2: "Node_reset_election ?n1 = Some n2" "good n0 n2"
    using good_reset_election [of n0 ?n1] by (auto simp: returns_iff)
  then show ?thesis
    using True good_send_other [OF n2(2) peer, of "OutVoted True"]
    by (simp add: Node_on_vote_def)
next
  case False
  then have no: "(is_none_or (\<lambda>j. j = i) (hs_voted_for (n_hard n)) \<and> log_up_to_date lst (n_last n)) = False"
    by simp
  show ?thesis
    unfolding Node_on_vote_def no Let_def
    using good_send_other [OF good peer, of "OutVoted False"] by simp
qed

lemma good_on_voted:
  assumes good: "good n0 n" and lf: "n_log_from n = None" and peer: "peer < Node_N n"
  shows "returns (Node_on_voted peer granted n) (good n0)"
proof (cases "n_role n = Candidate \<and> granted")
  case True
  let ?n1 = "n\<lparr>n_votes := (n_votes n)[peer := True]\<rparr>"
  have good1: "good n0 ?n1"
    using good by (rule good_votes) simp
  have "peer < length (n_votes n)"
    using peer goodD(2) [OF good] by (simp add: slots_ok_def)
  moreover have "returns (Node_become_leader ?n1) (good n0)"
    using goodD(4) [OF good] True lf by (intro good_become_leader [OF good1]) (simp_all add: role_ok_def)
  ultimately show ?thesis
    using True good1 by (simp add: Node_on_voted_def returns_bind returns_index_write Let_def)
next
  case False
  then show ?thesis
    using good by (auto simp: Node_on_voted_def)
qed

lemma good_on_prevoted:
  assumes good: "good n0 n" and lf: "n_log_from n = None" and peer: "peer < Node_N n"
  shows "returns (Node_on_prevoted peer campaign granted n) (good n0)"
proof (cases "n_prevoting n = Some campaign \<and> granted")
  case True
  let ?n1 = "n\<lparr>n_votes := (n_votes n)[peer := True]\<rparr>"
  have good1: "good n0 ?n1"
    using good by (rule good_votes) simp
  have "peer < length (n_votes n)"
    using peer goodD(2) [OF good] by (simp add: slots_ok_def)
  moreover have "n_local n < Node_N n" and "checked_add (hs_term (n_hard n)) 1 = Some campaign"
    using goodD(5) [OF good] True by (auto simp: prevote_ok_def)
  then have "returns (Node_campaign campaign ?n1) (good n0)"
    using lf by (intro good_campaign [OF good1]) (auto simp: u64)
  ultimately show ?thesis
    using True good1 by (simp add: Node_on_prevoted_def returns_bind returns_index_write Let_def)
next
  case False
  then show ?thesis
    using good by (auto simp: Node_on_prevoted_def)
qed

text \<open>A message from the leader of the term starts with following it.\<close>

lemma good_follow_quiet:
  assumes "good n0 n" and "Some OutReplicate \<notin> set (n_outbox n)"
  shows "returns (Node_follow l n) (\<lambda>n'. good n0 n' \<and> quiet n' \<and> n_state n' = n_state n
    \<and> n_log_from n' = n_log_from n)"
  using assms(2) by (intro returns_conseq [OF good_follow [OF assms(1)]])
    (auto simp: quiet_def fixed_part_eq slot_part_eq)

lemma good_on_append:
  assumes good: "good n0 n" and out: "Some OutReplicate \<notin> set (n_outbox n)" and peer: "addressable peer n0"
    and val: "is_none_or (valid_next (hs_term (n_hard n)) previous) entry"
    and ok: "is_none_or (entry_ok (n_hooks n0) (Node_N n0)) entry"
  shows "returns (Node_on_append i peer previous entry commit n) (good n0)"
proof -
  obtain n1 where n1: "Node_follow (Some i) n = Some n1" "good n0 n1" "quiet n1" "n_state n1 = n_state n"
    using good_follow_quiet [OF good out] by (auto simp: returns_iff)
  have "n_hooks n1 = n_hooks n0" and "Node_N n1 = Node_N n0"
    using goodD(8) [OF n1(2)] by (simp_all add: evolves_def)
  then obtain r n2 where "Node_append previous entry commit n1 = Some (r, n2)" "good n0 n2"
    using good_append [OF n1(2,3), of previous entry commit] val ok n1(4) by (auto simp: returns_iff)
  then show ?thesis
    using n1(1) good_reply [OF _ peer] by (simp add: Node_on_append_def)
qed

lemma good_on_append_batch:
  assumes good: "good n0 n" and out: "Some OutReplicate \<notin> set (n_outbox n)" and peer: "addressable peer n0"
    and val: "valid_batch (hs_term (n_hard n)) previous False 0 entries"
    and ok: "list_all (entry_ok (n_hooks n0) (Node_N n0)) (flatten entries)"
  shows "returns (Node_on_append_batch i peer previous entries commit n) (good n0)"
proof -
  obtain n1 where n1: "Node_follow (Some i) n = Some n1" "good n0 n1" "quiet n1" "n_state n1 = n_state n"
    using good_follow_quiet [OF good out] by (auto simp: returns_iff)
  have "valid_chain (hs_term (n_hard n1)) previous (flatten entries)"
    using valid_batch_chain [OF val] n1(4) by simp
  then obtain r n2 where "Node_append_batch previous (flatten entries) commit False (li_index previous, None) n1
      = Some (r, n2)" "good n0 n2"
    using good_append_batch [OF n1(2,3) _ ok] by (fastforce simp: returns_iff)
  then show ?thesis
    using n1(1) good_reply [OF _ peer] by (simp add: Node_on_append_batch_def)
qed

lemma good_on_install:
  assumes good0: "good n0 n0'" and out: "Some OutReplicate \<notin> set (n_outbox n0')" and peer: "addressable peer n0"
    and pos: "li_index (sn_last s) \<noteq> 0" and val: "valid_id (hs_term (n_hard n0')) (sn_last s)"
    and ok: "snapshot_ok (n_hooks n0) (Node_N n0) s" and lf: "n_log_from n0' = None"
  shows "returns (Node_on_install i peer s n0') (good n0)"
proof -
  let ?i = "li_index (sn_last s)"
  obtain n where n: "Node_follow (Some i) n0' = Some n" "good n0 n" "quiet n" "n_state n = n_state n0'" "n_log_from n = None"
    using lf good_follow_quiet [OF good0 out] by (auto simp: returns_iff)
  note good = n(2) and log = goodD(1) [OF n(2)]
  have same: "n_hooks n = n_hooks n0" "Node_N n = Node_N n0"
    using goodD(8) [OF good] by (simp_all add: evolves_def)
  have tm: "li_term (sn_last s) \<noteq> 0" "li_term (sn_last s) \<le> hs_term (n_hard n)"
    using val pos n(4) by (auto simp: valid_id_def LogId_default_def u64)
  show ?thesis
  proof (cases "li_index (n_base n) < ?i
      \<and> (hs_commit (n_hard n) < ?i \<or> State_id_at ?i (n_state n) = Some (sn_last s))")
    case False
    then show ?thesis
      using n(1) good_reply [OF good peer] by (auto simp: Node_on_install_def Let_def)
  next
    case fwd: True
    let ?f = "if State_id_at ?i (n_state n) \<noteq> Some (sn_last s) then checked_add ?i 1 else n_log_from n"
    let ?st = "installed s (n_state n)"
    let ?n1 = "n\<lparr>n_log_from := ?f, n_state := ?st\<rparr>"
    note ins = installed_spec [OF log_okD(2,3) [OF log], of s]
    note eq_ins = State_install_installed [OF log_okD(2,3) [OF log], of s]
    note inv = State_inv_install [OF log_okD(1) [OF log] pos tm]
    have log1: "log_ok ?n1"
      using log inv(1) fwd ins ok same by (auto simp: log_ok_def payloads_ok_def list_all_iff)
    have slots1: "slots_ok ?n1" and next1: "next_ok ?n1" and role1: "role_ok ?n1" and pre1: "n_prevoting ?n1 = None"
      using goodD(2) [OF good] n(3) by (auto simp: quiet_def slots_ok_def next_ok_def role_ok_def)
    have "covers (n_state n0) ?st ?f True"
    proof -
      have cov: "covers (n_state n0) (n_state n) (n_log_from n) (n_snapshot_changed n)"
        using goodD(8) [OF good] by (simp add: evolves_def)
      show ?thesis
        using covers_install_matching [OF cov log_okD(2,3) [OF log], of s]
          covers_install_other [OF cov log_okD(2,3) [OF log], of s]
        by simp
    qed
    moreover have "State_base ?st = sn_last s"
      using ins by (simp add: State_base_def)
    then have "is_none_or (\<lambda>f. li_index (State_base ?st) < f) ?f"
      using n(5) by (auto simp: is_none_or_def u64 split: option.splits)
    ultimately have ev: "evolves n0 (?n1\<lparr>n_log_from := ?f, n_snapshot_changed := True\<rparr>)"
      using goodD(8) [OF good] inv(2) fwd by (auto simp: evolves_def intro: State_advances_trans)
    obtain n2 where n2: "Node_refresh_membership ?n1 = Some n2" "refreshed ?n1 n2"
      using refresh_returns [OF log1 slots1 next1] by (auto simp: returns_iff)
    have "n_log_from n2 = ?f"
      using n2(2) by (simp add: refreshed_def fixed_part_eq)
    then have eq: "n2\<lparr>n_dirty := True, n_log_from := ?f, n_snapshot_changed := True\<rparr>
        = n2\<lparr>n_snapshot_changed := True, n_dirty := True\<rparr>"
      by simp
    have good3: "good n0 (n2\<lparr>n_snapshot_changed := True, n_dirty := True\<rparr>)"
      using refreshed_good [OF n2(2) log1 role1 pre1 ev, unfolded eq] .
    have n1: "(if State_id_at ?i (n_state n) \<noteq> Some (sn_last s) then n\<lparr>n_log_from := checked_add ?i 1\<rparr> else n)
        \<lparr>n_state := ?st\<rparr> = ?n1"
      by simp
    have st: "n_state (if State_id_at ?i (n_state n) \<noteq> Some (sn_last s)
        then n\<lparr>n_log_from := checked_add ?i 1\<rparr> else n) = n_state n"
      by simp
    show ?thesis
      using fwd n(1) n2(1) good_reply [OF good3 peer] good_reply [OF good peer]
      unfolding Node_on_install_def Let_def
      by (simp add: st n1 eq_ins del: if_split_asm cong: if_cong)
  qed
qed

lemma good_on_stale:
  assumes "good n0 n" and "addressable peer n0"
  shows "returns (Node_on_stale peer m n) (good n0)"
  using assms good_reply [OF assms] good_send_other [OF assms] by (cases m) auto

text \<open>A message of the current term.\<close>

lemma good_dispatch:
  assumes good: "good n0 n" and out: "Some OutReplicate \<notin> set (n_outbox n)" and lf: "n_log_from n = None"
    and peer: "addressable peer n0" and slot: "\<not> is_request m \<Longrightarrow> peer < Node_N n0"
    and val: "Node_valid m" and tm: "hs_term (n_hard n) = Message_term m"
    and ok: "message_ok (n_hooks n0) (Node_N n0) m"
    and kind: "\<And>t l. m \<noteq> PreVote t l" "\<And>t c g. m \<noteq> PreVoted t c g"
  shows "returns (Node_dispatch i peer m n) (good n0)"
proof -
  have N: "Node_N n = Node_N n0"
    using goodD(8) [OF good] by (simp add: evolves_def)
  show ?thesis
  proof (cases m)
    case (Vote t lst)
    then show ?thesis
      using val tm good_on_vote [OF good _ peer] by (auto simp: Node_valid_def Let_def)
  next
    case (Voted t g)
    then show ?thesis
      using slot N good_on_voted [OF good lf] by simp
  next
    case (Append t p e c)
    then show ?thesis
      using val tm ok good_on_append [OF good out peer] by (simp add: Node_valid_def Let_def)
  next
    case (AppendBatch t p es c)
    then show ?thesis
      using val tm ok good_on_append_batch [OF good out peer] by (simp add: Node_valid_def Let_def)
  next
    case (Install t s)
    then show ?thesis
      using val tm ok lf good_on_install [OF good out peer] by (auto simp: Node_valid_def Let_def)
  next
    case (Replicated t j r)
    then show ?thesis
      using good slot peer good_replicated [OF good] by simp
  qed (use kind in auto)
qed

lemma valid_id_mono: "valid_id t i \<Longrightarrow> t \<le> u \<Longrightarrow> valid_id u i"
  by (auto simp: valid_id_def)

lemma good_accept:
  assumes good: "good n0 n" and out: "Some OutReplicate \<notin> set (n_outbox n)" and lf: "n_log_from n = None"
    and peer: "addressable peer n0" and slot: "\<not> is_request (env_message env) \<Longrightarrow> peer < Node_N n0"
    and val: "Node_valid (env_message env)"
    and ok: "message_ok (n_hooks n0) (Node_N n0) (env_message env)"
  shows "returns (Node_accept peer env n) (good n0)"
proof -
  let ?m = "env_message env" and ?t = "Message_term (env_message env)"
  obtain n1 where n1: "Node_observe_term ?t n = Some n1" "good n0 n1" "slot_part n1 = slot_part n"
    "n_log_from n1 = None" "?t \<le> hs_term (n_hard n1)"
    using good_observe_term [OF good, of ?t] lf by (auto simp: returns_iff)
  have out1: "Some OutReplicate \<notin> set (n_outbox n1)"
    using out n1(3) by (simp add: slot_part_eq)
  have N: "Node_N n1 = Node_N n0"
    using goodD(8) [OF n1(2)] by (simp add: evolves_def)
  have stale: "returns (Node_on_stale peer ?m n1) (good n0)"
    by (rule good_on_stale [OF n1(2) peer])
  have rest: "returns (if ?t < hs_term (n_hard n1) then Node_on_stale peer ?m n1
        else Node_dispatch (env_from env) peer ?m n1) (good n0)"
    if "\<And>t l. ?m \<noteq> PreVote t l" "\<And>t c g. ?m \<noteq> PreVoted t c g"
  proof (cases "?t < hs_term (n_hard n1)")
    case False
    with n1(5) have "hs_term (n_hard n1) = ?t"
      by simp
    then show ?thesis
      using good_dispatch [OF n1(2) out1 n1(4) peer slot val _ ok that] by simp
  qed (simp add: stale)
  show ?thesis
  proof (cases ?m)
    case (PreVote t lst)
    then show ?thesis
      using good_send_other [OF good peer] by (simp add: Node_accept_def Node_on_prevote_def Let_def)
  next
    case (PreVoted t c g)
    then show ?thesis
      using n1 slot N good_on_prevoted [OF n1(2,4), of peer c g] by (simp add: Node_accept_def)
  qed (use rest n1(1) good in \<open>simp_all add: Node_accept_def del: Node_on_stale.simps Node_dispatch.simps split: if_splits\<close>)
qed

lemma sender_addressable:
  assumes "Node_sender env n = Some peer"
  shows "addressable peer n" and "\<not> is_request (env_message env) \<Longrightarrow> peer < Node_N n"
  using assms
  by (auto simp: Node_sender_def addressable_def Node_peer_slot_def position_Some
      split: option.splits if_splits)

lemma good_step:
  assumes inv: "Node_inv n" and av: "Node_available n = Ok ()"
    and ok: "message_ok (n_hooks n) (Node_N n) (env_message env)"
  shows "returns (Node_step env n) (\<lambda>(_, n'). good n n')"
proof -
  note start = good_start [OF inv av]
  let ?n1 = "n\<lparr>n_request_from := Some (env_from env)\<rparr>"
  have good1: "good n ?n1"
    by (rule good_volatile [OF _ _ _ start(1)]) (simp_all add: fixed_part_eq slot_part_eq)
  have "returns (Node_accept peer env ?n1) (good n)"
    if p: "Node_sender env n = Some peer" and v: "Node_valid (env_message env)" for peer
    using good1 start sender_addressable [OF p] v ok by (intro good_accept) auto
  then show ?thesis
    using av start(1)
    by (auto simp: Node_step_def returns_iff split: option.splits)
qed

section \<open>Proposals\<close>

definition value_ok :: "('v, 's) MembershipHooks option \<Rightarrow> usize \<Rightarrow> 'v \<Rightarrow> bool" where
  "value_ok hooks mx v \<longleftrightarrow> is_none_or (\<lambda>h. is_none_or (Membership_ok mx) (hook_record h v)) hooks"

lemma entry_ok_batch:
  "list_all (value_ok hooks mx) vs \<Longrightarrow> list_all (entry_ok hooks mx) (batch_entries i t vs)"
  by (induction vs arbitrary: i) (auto simp: entry_ok_def value_ok_def is_none_or_def split: option.splits)

text \<open>What a proposal checks before it touches the log.\<close>

definition admissible :: "usize \<Rightarrow> ('v, 's) Node \<Rightarrow> bool" where
  "admissible count n \<longleftrightarrow>
     Node_available n = Ok () \<and> n_role n = Leader \<and> 0 < count
     \<and> length (State_entries (n_state n)) + count \<le> State_CAP (n_state n)
     \<and> unat (li_index (n_last n)) + count < 2 ^ 64"

lemma propose_refused:
  assumes "slots_wf (n_state n)" and "\<not> admissible count n"
  shows "\<exists>e. Node_propose_many count values n = Some (Returned (Err e), n)"
proof (cases "Node_available n")
  case (Err e)
  then show ?thesis by (simp add: Node_propose_many_def)
next
  case (Ok u)
  have "unat (of_nat count :: u64) = count" if "count < 2 ^ 64"
    using that by (simp add: unat_of_nat)
  then show ?thesis
    using assms Ok slots_wf_cap [OF assms(1)]
    by (auto simp: Node_propose_many_def admissible_def checked_add_def)
qed

lemma propose_many_admitted:
  assumes adm: "admissible count n"
  shows "Node_propose_many count values n = do {
      (end, st) \<leftarrow> push_values State_push \<lparr>li_index = li_index (n_last n) + 1, li_term = hs_term (n_hard n)\<rparr>
        0 values (n_state n);
      (case end of
         PushFailed e \<Rightarrow>
           Some (Returned (Err e), n\<lparr>n_state := State_truncate (li_index (n_last n) + 1) st\<rparr>)
       | PushUnwound \<Rightarrow> Some (Unwound, n\<lparr>n_state := State_truncate (li_index (n_last n) + 1) st\<rparr>)
       | PushDone \<Rightarrow> do {
           n2 \<leftarrow> Node_refresh_membership
             (n\<lparr>n_state := st, n_dirty := True, n_log_from := Some (li_index (n_last n) + 1)\<rparr>);
           (_, n3) \<leftarrow> Node_advance_commit (Node_set_local_matched (li_index (n_last n) + of_nat count) n2);
           n4 \<leftarrow> Node_broadcast n3;
           Some (Returned (Ok
             \<lparr>pr_first = \<lparr>li_index = li_index (n_last n) + 1, li_term = hs_term (n_hard n)\<rparr>,
              pr_last = \<lparr>li_index = li_index (n_last n) + of_nat count, li_term = hs_term (n_hard n)\<rparr>\<rparr>), n4)
         })
    }"
proof -
  have c: "count < 2 ^ 64"
    using adm by (simp add: admissible_def)
  then have cn: "unat (of_nat count :: u64) = count"
    by (simp add: unat_of_nat)
  then have "checked_add (li_index (n_last n)) (of_nat count) = Some (li_index (n_last n) + of_nat count)"
    and "checked_add (li_index (n_last n)) 1 = Some (li_index (n_last n) + 1)"
    using adm by (simp_all add: checked_add_def admissible_def)
  with adm c show ?thesis
    by (auto simp: Node_propose_many_def admissible_def BatchRollback_drop_def Let_def not_less
        split: PushEnd.splits intro!: Option.bind_cong)
qed

text \<open>A batch whose construction unwinds, or that does not fit, leaves the node as it was.\<close>

lemma propose_rolled_back:
  assumes inv: "Node_inv n" and adm: "admissible count n" and len: "length values \<le> count"
    and unw: "None \<in> set values"
  shows "Node_propose_many count values n = Some (Unwound, n)"
proof -
  let ?b = "n_last n" and ?t = "hs_term (n_hard n)"
  let ?first = "\<lparr>li_index = li_index (n_last n) + 1, li_term = hs_term (n_hard n)\<rparr>"
  have log: "log_ok n" and lead: "?t \<noteq> 0"
    using inv adm by (auto simp: Node_inv_def role_ok_def admissible_def)
  obtain us vs where vals: "values = map Some us @ None # vs"
  proof -
    from split_list_first [OF unw] obtain ys zs where v: "values = ys @ None # zs" "None \<notin> set ys"
      by blast
    then have "ys = map Some (flatten ys)"
      using flatten_all_Some [of ys] by (metis (mono_tags, lifting) list_all_iff)
    with v show ?thesis
      using that by metis
  qed
  have room: "length (State_entries (n_state n)) + length us \<le> State_CAP (n_state n)"
    and fits: "unat (li_index ?b) + length us < 2 ^ 64" "unat (li_index ?b) + 1 < 2 ^ 64"
    and idx: "unat (li_index ?first) + 0 + length us \<le> 2 ^ 64"
    using adm len vals by (auto simp: admissible_def unat_word_ariths)
  obtain st where st: "push_values State_push ?first 0 (map Some us) (n_state n) = Some (PushDone, st)"
      "slots_wf st" "State_CAP st = State_CAP (n_state n)"
      "(st_hard st, st_snapshot st) = (st_hard (n_state n), st_snapshot (n_state n))"
      "State_entries st = State_entries (n_state n) @ batch_entries (li_index ?first + of_nat 0) (li_term ?first) us"
    using slots.push_values_done [OF log_okD(2) [OF log] room idx] by blast
  have unwound: "push_values State_push ?first k (map Some us @ None # vs) u = Some (PushUnwound, w)"
    if "push_values State_push ?first k (map Some us) u = Some (PushDone, w)" for k u w
    using that
    by (induction us arbitrary: k u) (auto split: bind_splits prod.splits Result.splits)
  have "State_truncate (li_index ?b + 1) st = n_state n"
    using slots.truncate_batch [OF log_okD(2,3) [OF log] st(2,3,4), of ?t us] st(5) fits lead log_okD(6) [OF log]
    by (simp add: State_last_def)
  then show ?thesis
    using propose_many_admitted [OF adm, of "values"] unwound [OF st(1)] vals by simp
qed

lemma State_inv_batch:
  assumes inv: "State_inv st" and wf: "slots_wf st'" and hard: "st_hard st' = st_hard st"
    and snap: "st_snapshot st' = st_snapshot st"
    and es: "State_entries st' = State_entries st @ batch_entries (li_index (State_last st) + 1) (hs_term (st_hard st)) vs"
    and fits: "unat (li_index (State_last st)) + length vs < 2 ^ 64" and tm: "hs_term (st_hard st) \<noteq> 0"
    and ne: "vs \<noteq> []"
  shows "State_inv st'" and "State_advances st st'"
    and "State_last st' = \<lparr>li_index = li_index (State_last st) + of_nat (length vs), li_term = hs_term (st_hard st)\<rparr>"
proof -
  let ?b = "State_last st" and ?t = "hs_term (st_hard st)"
  let ?bs = "batch_entries (li_index ?b + 1) ?t vs"
  have base: "State_base st' = State_base st"
    using snap by (simp add: State_base_def)
  have ch: "log_chain ?b ?bs"
    using fits State_inv_D(3) [OF inv] tm by (rule batch_entries_chain)
  then have chain: "log_chain (State_base st') (State_entries st')"
    using State_inv_D(2) [OF inv] by (simp add: base es log_chain_append State_last_def)
  have "?bs \<noteq> []"
    using ne by (metis batch_entries_length length_0_conv)
  then have "State_last st' = en_id (last ?bs)"
    by (simp add: State_last_def log_last_def es)
  also have "\<dots> = \<lparr>li_index = li_index ?b + of_nat (length vs), li_term = ?t\<rparr>"
  proof -
    have "1 + of_nat (length vs - 1) = (of_nat (length vs) :: u64)"
      using ne by (cases vs) simp_all
    then show ?thesis
      using batch_entries_last [OF ne, of "li_index ?b + 1" ?t] by (simp add: add.assoc)
  qed
  finally show lst: "State_last st' = \<lparr>li_index = li_index ?b + of_nat (length vs), li_term = ?t\<rparr>" .
  have "li_index ?b \<le> li_index (State_last st')"
    using log_chain_last_index [OF chain] log_chain_last_index [OF State_inv_D(2) [OF inv]]
    by (simp add: State_last_def es base u64)
  then have "hs_commit (st_hard st) \<le> li_index (State_last st')"
    using State_inv_D(5) [OF inv] by simp
  then show "State_inv st'"
    using inv wf chain hard snap base lst by (simp add: State_inv_def)
  show "State_advances st st'"
    by (simp add: State_advances_def base es hard)
qed

lemma covers_append:
  assumes "covers d st None changed" and "State_entries st' = State_entries st @ bs"
    and "st_snapshot st' = st_snapshot st" and "State_CAP st' = State_CAP st"
    and "\<forall>e \<in> set (State_entries st). li_index (en_id e) < f"
    and "\<forall>e \<in> set bs. \<not> li_index (en_id e) < f"
  shows "covers d st' (Some f) changed"
proof -
  have k: "kept d st' changed = kept d st changed"
    using assms(3) by (rule kept_cong)
  have eq: "kept d st changed = State_entries st"
    using assms(1) by (simp add: covers_def)
  have "filter (\<lambda>e. li_index (en_id e) < f) (State_entries st') = State_entries st"
    using assms(2,5,6) by (simp add: filter_id_conv)
  moreover have "filter (\<lambda>e. li_index (en_id e) < f) (State_entries st) = State_entries st"
    using assms(5) by (simp add: filter_id_conv)
  ultimately show ?thesis
    using assms(1,3,4) k eq by (simp add: covers_def)
qed

lemma unat_next_index:
  fixes i :: u64
  assumes "unat i + length vs < 2 ^ 64" and "vs \<noteq> []"
  shows "unat (i + 1) = Suc (unat i)"
  using assms by (cases vs) (simp_all add: unat_word_ariths)

lemma push_batch_fits:
  assumes wf: "slots_wf st" and room: "length (State_entries st) + length vs \<le> State_CAP st"
    and fits: "unat i + length vs < 2 ^ 64" and ne: "vs \<noteq> []"
  obtains st' where "push_values State_push \<lparr>li_index = i + 1, li_term = t\<rparr> 0 (map Some vs) st = Some (PushDone, st')"
    and "slots_wf st'" and "State_CAP st' = State_CAP st" and "st_hard st' = st_hard st"
    and "st_snapshot st' = st_snapshot st"
    and "State_entries st' = State_entries st @ batch_entries (i + 1) t vs"
proof -
  have "unat (i + 1) = Suc (unat i)"
    using fits ne by (rule unat_next_index)
  then have idx: "unat (i + 1) + 0 + length vs \<le> 2 ^ 64"
    using fits by simp
  obtain u where u: "push_values State_push \<lparr>li_index = i + 1, li_term = t\<rparr> 0 (map Some vs) st = Some (PushDone, u)"
    "slots_wf u" "State_CAP u = State_CAP st" "(st_hard u, st_snapshot u) = (st_hard st, st_snapshot st)"
    "State_entries u = State_entries st @ batch_entries (i + 1 + of_nat 0) t vs"
    using slots.push_values_done [OF wf room, of "\<lparr>li_index = i + 1, li_term = t\<rparr>" 0] idx by auto
  then show ?thesis
    by (intro that) simp_all
qed

lemma batch_covers:
  assumes inv: "State_inv st" and cap: "State_CAP st' = State_CAP st"
    and snap: "st_snapshot st' = st_snapshot st"
    and es: "State_entries st' = State_entries st @ batch_entries (li_index (State_last st) + 1) (hs_term (st_hard st)) vs"
    and fits: "unat (li_index (State_last st)) + length vs < 2 ^ 64" and tm: "hs_term (st_hard st) \<noteq> 0"
    and ne: "vs \<noteq> []"
  shows "covers st st' (Some (li_index (State_last st) + 1)) False"
proof (rule covers_append [OF covers_refl es snap cap])
  let ?f = "li_index (State_last st) + 1"
  have f: "unat ?f = Suc (unat (li_index (State_last st)))"
    using fits ne by (rule unat_next_index)
  show "\<forall>e \<in> set (State_entries st). li_index (en_id e) < ?f"
    using log_chain_mem_index [OF State_inv_D(2) [OF inv]] log_chain_last_index [OF State_inv_D(2) [OF inv]] f
    by (auto simp: word_less_nat_alt State_last_def less_Suc_eq_le)
  have "log_chain (State_last st) (batch_entries ?f (hs_term (st_hard st)) vs)"
    using fits State_inv_D(3) [OF inv] tm by (rule batch_entries_chain)
  from log_chain_mem_index [OF this]
  show "\<forall>e \<in> set (batch_entries ?f (hs_term (st_hard st)) vs). \<not> li_index (en_id e) < ?f"
    using f by (auto simp: word_less_nat_alt not_less Suc_le_eq)
qed

text \<open>An admitted batch: the entries are appended in order, under the leader's term.\<close>

lemma good_propose_done:
  assumes inv: "Node_inv n" and adm: "admissible (length vs) n"
    and ok: "list_all (value_ok (n_hooks n) (Node_N n)) vs"
  shows "returns (Node_propose_many (length vs) (map Some vs) n) (\<lambda>(r, n').
    r = Returned (Ok
          \<lparr>pr_first = \<lparr>li_index = li_index (n_last n) + 1, li_term = hs_term (n_hard n)\<rparr>,
           pr_last = \<lparr>li_index = li_index (n_last n) + of_nat (length vs), li_term = hs_term (n_hard n)\<rparr>\<rparr>)
    \<and> good n n' \<and> n_dirty n'
    \<and> State_entries (n_state n') =
        State_entries (n_state n) @ batch_entries (li_index (n_last n) + 1) (hs_term (n_hard n)) vs)"
proof -
  let ?b = "n_last n" and ?t = "hs_term (n_hard n)"
  let ?first = "\<lparr>li_index = li_index (n_last n) + 1, li_term = hs_term (n_hard n)\<rparr>"
  have av: "Node_available n = Ok ()" and lead: "n_role n = Leader" and ne: "vs \<noteq> []"
    and fits: "unat (li_index ?b) + length vs < 2 ^ 64"
    and room: "length (State_entries (n_state n)) + length vs \<le> State_CAP (n_state n)"
    using adm by (auto simp: admissible_def)
  note start = good_start [OF inv av] and gd = goodD [OF good_start(1) [OF inv av]]
  note log = gd(1)
  have reach: "reach n" and tm: "?t \<noteq> 0" and pre: "n_prevoting n = None"
    using gd(3,4) lead by (auto simp: next_ok_def role_ok_def)
  obtain st where st: "push_values State_push ?first 0 (map Some vs) (n_state n) = Some (PushDone, st)"
      "slots_wf st" "State_CAP st = State_CAP (n_state n)" "st_hard st = n_hard n"
      "st_snapshot st = st_snapshot (n_state n)"
      "State_entries st = State_entries (n_state n) @ batch_entries (li_index ?b + 1) ?t vs"
    using push_batch_fits [OF log_okD(2) [OF log] room fits ne] by metis
  note batch = State_inv_batch [OF log_okD(1) [OF log] st(2,4,5,6) fits tm ne]
  have lt: "li_index ?b \<le> li_index (State_last st)"
    using log_chain_last_index [of "State_base st" "State_entries st"] State_inv_D(2) [OF batch(1)]
      log_chain_last_index [OF log_okD(3) [OF log]] st(5,6)
    by (simp add: State_last_def u64 State_base_def)
  let ?f = "Some (li_index ?b + 1)"
  let ?n1 = "n\<lparr>n_state := st, n_dirty := True, n_log_from := ?f\<rparr>"
  have log1: "log_ok ?n1"
    using log batch(1) st ok entry_ok_batch [of "n_hooks n" "Node_N n" vs]
    by (simp add: log_ok_def payloads_ok_def)
  have slots1: "slots_ok ?n1" and role1: "role_ok ?n1" and pre1: "n_prevoting ?n1 = None"
    using gd(2,4) pre st(4) by (simp_all add: slots_ok_def role_ok_def)
  have reach1: "reach ?n1"
    using reach lt by (fastforce simp: reach_def u64)
  have next1: "next_ok ?n1"
    using gd(3) reach1 lt lead by (fastforce simp: next_ok_def)
  have "covers (n_state n) st ?f False"
    using batch_covers [OF log_okD(1) [OF log] st(3,5,6) fits tm ne] .
  moreover have "li_index (State_base st) < li_index ?b + 1"
    using base_le_last [OF log] State_base_cong [OF st(5)] unat_next_index [OF fits ne] by (auto simp: u64)
  ultimately have ev: "evolves n (?n1\<lparr>n_log_from := ?f, n_snapshot_changed := n_snapshot_changed n\<rparr>)"
    using gd(7,8) av batch(2) by (simp add: evolves_def clean_ok_def available_iff)
  obtain n2 where n2: "Node_refresh_membership ?n1 = Some n2" "refreshed ?n1 n2"
    using refresh_returns [OF log1 slots1 next1] by (auto simp: returns_iff)
  have same2: "n_state n2 = st" "n_dirty n2" "n_log_from n2 = ?f" "n_snapshot_changed n2 = n_snapshot_changed n"
    "n_prevoting n2 = None" "reach n2"
    using n2(2) pre reach1 by (auto simp: refreshed_def fixed_part_eq)
  have "n2\<lparr>n_dirty := True, n_log_from := ?f, n_snapshot_changed := n_snapshot_changed n\<rparr> = n2"
    using same2 by simp
  then have good2: "good n n2"
    using refreshed_good [OF n2(2) log1 role1 pre1 ev] by simp
  let ?n2' = "Node_set_local_matched (li_index ?b + of_nat (length vs)) n2"
  have good2': "good n ?n2'"
    using good2 same2(1) batch(3) by (intro good_set_local_matched) simp_all
  have calm2: "calm n2 ?n2'"
    using same2(5) by (rule set_local_matched_calm)
  then obtain b n3 where n3: "Node_advance_commit ?n2' = Some (b, n3)" "good n n3" "calm ?n2' n3"
    using good_advance_commit [OF good2'] by (auto simp: returns_iff calm_def)
  have calm3: "calm n2 n3"
    using calm2 n3(3) by (rule calm_trans)
  obtain n4 where n4: "Node_broadcast n3 = Some n4" "good n n4" "sent n3 n4"
    using good_broadcast [OF n3(2)] calm3 same2(6) by (auto simp: returns_iff calm_def)
  have "n_state n4 = n_state n3" "n_dirty n4 = n_dirty n3"
    using sent_same(1) [OF n4(3)] by (simp_all add: fixed_part_eq)
  moreover have "State_entries (n_state n3) = State_entries st"
    using calm3 same2(1) by (simp add: calm_def)
  moreover have "n_dirty n3"
    using goodD(9) [OF n3(2)] calculation st(6) ne
    by (auto simp: saved_def dest: arg_cong [of _ _ length])
  ultimately show ?thesis
    using propose_many_admitted [OF adm, of "map Some vs"] st(1) n2(1) n3(1) n4(1,2) st(6)
    by simp
qed

end
