(* ===== verification/Jarl_Node_Life.thy ===== *)
theory Jarl_Node_Life
  imports Jarl_Node_Ops
begin

text \<open>
  The rest of the node's life: construction, compaction, the outbox, acknowledging a
  transaction and growing the log, and the relation \<open>node_step\<close> of every call a host can make.
  Every node reachable by such calls satisfies the invariant.
\<close>

section \<open>Compaction\<close>

lemma latest_configuration_snd:
  "snd r = snd r' \<Longrightarrow> snd (latest_configuration h es r) = snd (latest_configuration h es r')"
proof (induction es arbitrary: r r')
  case (Cons e es)
  show ?case
    using Cons.IH [OF Cons.prems] by (cases "Option.bind (en_value e) (hook_record h)") simp_all
qed simp

text \<open>The snapshot value carries the configuration in force at its index.\<close>

definition carries_configuration :: "u64 \<Rightarrow> 's \<Rightarrow> ('v, 's) Node \<Rightarrow> bool" where
  "carries_configuration index value n \<longleftrightarrow>
     is_none_or (\<lambda>h. hook_snapshot h value = snd (Node_membership_at index n)) (n_hooks n)"

text \<open>Replacing a prefix of the log by such a snapshot does not change the newest configuration.\<close>

lemma membership_compacted:
  assumes log: "log_ok n" and log': "log_ok n'" and at: "State_id_at index (n_state n) = Some lst"
    and st: "n_state n' = installed \<lparr>sn_last = lst, sn_value = value\<rparr> (n_state n)"
    and same: "n_hooks n' = n_hooks n" "n_bootstrap n' = n_bootstrap n"
    and c: "carries_configuration index value n"
  shows "snd (Node_membership_at (li_index (n_last n')) n') = snd (Node_membership_at (li_index (n_last n)) n)"
proof (cases "n_hooks n")
  case None
  then show ?thesis
    by (simp add: Node_membership_at_def same)
next
  case (Some h)
  let ?sn = "\<lparr>sn_last = lst, sn_value = value\<rparr>" and ?es = "State_entries (n_state n)"
  let ?k = "unat index - unat (li_index (n_base n))"
  note wf = log_okD(2,3) [OF log]
  have idx: "li_index lst = index"
    using State_id_at_index [OF wf at] .
  note ins = installed_spec [OF wf, of ?sn]
  have es': "State_entries (n_state n') = drop ?k ?es"
    using ins at idx st log_chain_filter_above [OF wf(2)] by simp
  have snap: "st_snapshot (n_state n') = Some ?sn"
    using ins st by simp
  have tw: "takeWhile (\<lambda>e. li_index (en_id e) \<le> index) ?es = take ?k ?es"
    by (rule log_chain_takeWhile_upto [OF wf(2)])
  let ?r = "case st_snapshot (n_state n) of None \<Rightarrow> (0, n_bootstrap n)
      | Some s \<Rightarrow> (li_index (sn_last s), hook_snapshot h (sn_value s))"
  have "hook_snapshot h value = snd (latest_configuration h (take ?k ?es) ?r)"
    using c Some tw unfolding carries_configuration_def Node_membership_at_def by simp
  then have "snd (latest_configuration h (drop ?k ?es) (index, hook_snapshot h value))
      = snd (latest_configuration h (drop ?k ?es) (latest_configuration h (take ?k ?es) ?r))"
    by (intro latest_configuration_snd) simp
  also have "\<dots> = snd (latest_configuration h ?es ?r)"
    by (metis append_take_drop_id latest_configuration_append)
  finally show ?thesis
    unfolding membership_at_last [OF log] membership_at_last [OF log']
    by (simp add: Some same es' snap idx)
qed

text \<open>Installing the snapshot of a committed index, the common part of compaction. It frees a slot.\<close>

lemma compact_install:
  assumes inv: "Node_inv n" and av: "Node_available n = Ok ()" and c: "carries_configuration index value n"
    and range: "li_index (n_base n) < index" "index \<le> hs_commit (n_hard n)"
  obtains lst st where "State_id_at index (n_state n) = Some lst" and "li_index lst = index"
    and "State_install \<lparr>sn_last = lst, sn_value = value\<rparr> (n_state n) = Some st"
    and "good n (n\<lparr>n_state := st, n_dirty := True, n_snapshot_changed := True\<rparr>)"
    and "State_last st = n_last n" and "st_hard st = n_hard n" and "\<not> State_full st"
    and "State_entries st = filter (\<lambda>e. index < li_index (en_id e)) (State_entries (n_state n))"
proof -
  note good = good_start [OF inv av]
  note log = goodD(1) [OF good(1)]
  note wf = log_okD(2,3) [OF log]
  have "index \<le> li_index (n_last n)"
    using range log_okD(7) [OF log] by (meson order.trans)
  then obtain lst where at: "State_id_at index (n_state n) = Some lst"
    using State_id_at_defined [OF wf, of index] range by auto
  have idx: "li_index lst = index"
    using State_id_at_index [OF wf at] .
  let ?sn = "\<lparr>sn_last = lst, sn_value = value\<rparr>"
  let ?st = "installed ?sn (n_state n)"
  let ?n1 = "n\<lparr>n_state := ?st, n_dirty := True, n_snapshot_changed := True\<rparr>"
  obtain e where e: "e \<in> set (State_entries (n_state n))" "en_id e = lst"
    using at State_id_at_cases [OF wf] range idx by auto
  then have tm: "li_term lst \<noteq> 0" "li_term lst \<le> hs_term (n_hard n)" "li_index lst \<noteq> 0"
    using log_chain_terms [OF wf(2)] log_okD(6) [OF log] range idx
    by (auto simp: State_last_def u64 intro: order.trans)
  note ins = installed_spec [OF wf, of ?sn]
  note inv1 = State_inv_install [OF log_okD(1) [OF log], of ?sn]
  have inst: "State_inv ?st" "State_advances (n_state n) ?st" "State_last ?st = n_last n"
    using inv1 tm range idx at by simp_all
  have snap: "snapshot_ok (n_hooks n) (Node_N n) ?sn"
    using c membership_at_ok [OF log, of index]
    by (auto simp: carries_configuration_def snapshot_ok_def is_none_or_def split: option.splits)
  have log1: "log_ok ?n1"
    using log inst(1) ins snap by (auto simp: log_ok_def payloads_ok_def list_all_iff)
  have "covers (n_state n) ?st (n_log_from n) True"
    using goodD(8) [OF good(1)] covers_install_matching [OF _ wf, of "n_state n" "n_log_from n" _ ?sn] at idx
    by (auto simp: evolves_def)
  then have "evolves n ?n1"
    using inst(2) good(2) by (simp add: evolves_def)
  moreover have "members_ok ?n1"
    using goodD(6) [OF good(1)] membership_compacted [OF log log1 at _ _ _ c]
    by (auto simp: members_ok_def)
  moreover have "slots_ok ?n1" and "next_ok ?n1" and "role_ok ?n1" and "prevote_ok ?n1" and "clean_ok ?n1"
    using goodD [OF good(1)] inst(3) ins
    by (simp_all add: slots_ok_def next_ok_def reach_def role_ok_def prevote_ok_def clean_ok_def)
  ultimately have good1: "good n ?n1"
    using log1 by (simp add: good_def Node_inv_def saved_def)
  have es: "State_entries ?st = filter (\<lambda>e. index < li_index (en_id e)) (State_entries (n_state n))"
    using ins at idx by simp
  then have "length (State_entries ?st) < length (State_entries (n_state n))"
    using e idx by (auto intro: length_filter_less)
  then have "\<not> State_full ?st"
    using State_full_iff [of ?st] ins slots_wf_cap [OF wf(1)] by auto
  moreover have "st_hard ?st = n_hard n"
    using ins range idx by (simp add: max_absorb1)
  ultimately show ?thesis
    using that [OF at idx State_install_installed [OF wf]] good1 inst(3) es by blast
qed

lemma good_compact:
  assumes inv: "Node_inv n" and av: "Node_available n = Ok ()" and c: "carries_configuration index value n"
  shows "returns (Node_compact index value n) (\<lambda>(_, n'). good n n')"
proof (cases "li_index (n_base n) < index \<and> index \<le> hs_commit (n_hard n)")
  case False
  then show ?thesis
    using av good_start(1) [OF inv av] by (auto simp: Node_compact_def not_le not_less)
next
  case range: True
  then obtain lst st where st: "State_id_at index (n_state n) = Some lst"
    "State_install \<lparr>sn_last = lst, sn_value = value\<rparr> (n_state n) = Some st"
    "good n (n\<lparr>n_state := st, n_dirty := True, n_snapshot_changed := True\<rparr>)" (is "good n ?n1")
    using compact_install [OF inv av c] by metis
  show ?thesis
  proof (cases "n_role n = Leader")
    case True
    from good_barrier [OF st(3)] obtain n2 where n2: "Node_barrier ?n1 = Some n2" "good n n2" "reach n2"
      using True good_start(2) [OF inv av] by (auto simp: returns_iff)
    from good_broadcast [OF n2(2,3)] obtain n3 where "Node_broadcast n2 = Some n3" "good n n3"
      by (auto simp: returns_iff)
    then show ?thesis
      using av range st(1,2) True n2(1) by (auto simp: Node_compact_def not_le not_less)
  next
    case False
    then show ?thesis
      using av range st by (auto simp: Node_compact_def not_le not_less)
  qed
qed

section \<open>Output\<close>

lemma Node_inv_outbox:
  assumes "Node_inv n" and "length out = Node_N n"
    and "\<forall>i < Node_N n. out ! i = None \<or> out ! i = n_outbox n ! i"
    and "ex = None \<or> ex = n_extra_reply n"
  shows "Node_inv (n\<lparr>n_outbox := out, n_extra_reply := ex\<rparr>)" (is "Node_inv ?m")
proof -
  have len: "length (n_outbox n) = Node_N n"
    using assms(1) by (simp add: Node_inv_def slots_ok_def)
  have "Some OutReplicate \<in> set (n_outbox n)" if "Some OutReplicate \<in> set out"
    using that assms(2,3) len by (fastforce simp: in_set_conv_nth)
  then have "next_ok ?m"
    using assms(1) by (auto simp: Node_inv_def next_ok_def reach_def)
  moreover have "slots_ok ?m"
    using assms by (auto simp: Node_inv_def slots_ok_def)
  moreover have "members_ok ?m"
    using assms(1) by (auto simp: Node_inv_def intro: members_ok_cong [of n])
  ultimately show ?thesis
    using assms(1) by (simp add: Node_inv_def log_ok_def role_ok_def prevote_ok_def clean_ok_def)
qed

text \<open>A replication descriptor always becomes a message.\<close>

lemma replicate_message_returns:
  assumes log: "log_ok n" and peer: "peer < length (n_next n)"
    and lo: "1 \<le> n_next n ! peer" and hi: "n_next n ! peer \<le> saturating_add (li_index (n_last n)) 1"
  shows "\<exists>m. Node_replicate_message peer n = Some (Some m)"
proof -
  let ?x = "n_next n ! peer"
  note wf = log_okD(2,3) [OF log]
  show ?thesis
  proof (cases "?x \<le> li_index (n_base n)")
    case True
    have "st_snapshot (n_state n) \<noteq> None"
    proof
      assume "st_snapshot (n_state n) = None"
      then have "li_index (n_base n) = 0"
        by (simp add: State_base_def LogId_default_def)
      with True lo show False by simp
    qed
    with True peer show ?thesis
      by (auto simp: Node_replicate_message_def Let_def index_read_def)
  next
    case False
    have sub: "checked_sub ?x 1 = Some (?x - 1)"
      using lo by (simp add: checked_sub_def)
    then have x: "unat ?x = Suc (unat (?x - 1))"
      by (simp add: checked_sub_eq_Some)
    have "li_index (n_base n) \<le> ?x - 1" and "?x - 1 \<le> li_index (n_last n)"
      using False hi x by (auto simp: u64)
    then obtain p where "State_id_at (?x - 1) (n_state n) = Some p"
      using State_id_at_defined [OF wf, of "?x - 1"] by auto
    then show ?thesis
      using False peer sub by (simp add: Node_replicate_message_def Let_def index_read_def)
  qed
qed

definition pending :: "('v, 's) Node \<Rightarrow> nat" where
  "pending n = status_messages_pending (Node_status n)"

lemma pending_eq:
  "pending n = length (flatten (n_outbox n)) + (if n_extra_reply n \<noteq> None then 1 else 0)"
  by (simp add: pending_def Node_status_def)

lemma length_flatten_clear:
  "k < length xs \<Longrightarrow> xs ! k \<noteq> None \<Longrightarrow> length (flatten xs) = Suc (length (flatten (xs[k := None])))"
proof (induction xs arbitrary: k rule: flatten.induct)
  case (2 xs)
  then show ?case by (cases k) auto
next
  case (3 x xs)
  then show ?case by (cases k) auto
qed simp

text \<open>While nothing is pending in storage, each call takes exactly one message out.\<close>

lemma next_message_takes:
  assumes inv: "Node_inv n" and clean: "\<not> n_dirty n" and pend: "pending n \<noteq> 0"
  shows "\<exists>env n'. Node_next_message n = Some (Some env, n') \<and> Node_inv n' \<and> sent n n'
    \<and> pending n = Suc (pending n') \<and> env_from env = cfg_id (n_config n)"
proof -
  have log: "log_ok n" and slots: "slots_ok n" and nxt: "next_ok n"
    using inv by (simp_all add: Node_inv_def)
  have len: "length (n_outbox n) = Node_N n" "length (n_next n) = Node_N n"
    and pos: "\<forall>i < Node_N n. 1 \<le> n_next n ! i"
    using slots by (simp_all add: slots_ok_def)
  show ?thesis
  proof (cases "position (\<lambda>x. x \<noteq> None) (n_outbox n)")
    case (Some k)
    then obtain out where k: "k < Node_N n" "n_outbox n ! k = Some out"
      using len by (auto simp: position_Some)
    have "n_peers n ! k \<noteq> None"
      using slots k by (auto simp: slots_ok_def)
    then obtain to where to: "n_peers n ! k = Some to"
      by blast
    let ?n' = "n\<lparr>n_outbox := (n_outbox n)[k := None]\<rparr>"
    have inv': "Node_inv ?n'"
      using Node_inv_outbox [OF inv, of "(n_outbox n)[k := None]" "n_extra_reply n"] len k
      by (simp add: nth_list_update)
    have "\<exists>m. Node_message k out ?n' = Some (Some m)"
    proof (cases "out = OutReplicate")
      case True
      have "Some OutReplicate \<in> set (n_outbox n)"
        using k True len by (metis nth_mem)
      then have "n_next n ! k \<le> saturating_add (li_index (n_last n)) 1"
        using nxt k by (simp add: next_ok_def reach_def)
      then have "\<exists>m. Node_replicate_message k ?n' = Some (Some m)"
        using inv' k pos len by (intro replicate_message_returns) (auto simp: Node_inv_def)
      with True show ?thesis
        by (simp add: Node_message_def)
    next
      case False
      then show ?thesis
        by (cases out) (simp_all add: Node_message_def)
    qed
    then obtain m where "Node_message k out ?n' = Some (Some m)" by blast
    moreover have "pending n = Suc (pending ?n')"
      using length_flatten_clear [of k "n_outbox n"] k len by (simp add: pending_eq)
    moreover have "sent n ?n'"
      by (simp add: sent_def)
    ultimately show ?thesis
      using clean Some to k inv' by (auto simp: Node_next_message_def Node_emit_def)
  next
    case None
    then have "flatten (n_outbox n) = []"
      by (intro flatten_all_None) (auto simp: position_None)
    with pend obtain to out where ex: "n_extra_reply n = Some (to, out)"
      by (cases "n_extra_reply n") (auto simp: pending_eq)
    then have "out \<noteq> OutReplicate"
      using slots by (auto simp: slots_ok_def)
    then obtain m where "Node_message (Node_N n) out (n\<lparr>n_extra_reply := None\<rparr>) = Some (Some m)"
      by (cases out) (auto simp: Node_message_def Let_def)
    moreover have "Node_inv (n\<lparr>n_extra_reply := None\<rparr>)"
      using Node_inv_outbox [OF inv, of "n_outbox n" None] len by simp
    moreover have "pending n = Suc (pending (n\<lparr>n_extra_reply := None\<rparr>))"
      using ex by (simp add: pending_eq)
    moreover have "sent n (n\<lparr>n_extra_reply := None\<rparr>)"
      by (simp add: sent_def)
    ultimately show ?thesis
      using clean None ex by (auto simp: Node_next_message_def Node_emit_def)
  qed
qed

lemma next_message_none:
  assumes "n_dirty n \<or> pending n = 0"
  shows "Node_next_message n = Some (None, n)"
proof (cases "n_dirty n")
  case False
  then have "flatten (n_outbox n) = []" and "n_extra_reply n = None"
    using assms by (cases "n_extra_reply n"; simp add: pending_eq)+
  moreover from this have "position (\<lambda>x. x \<noteq> None) (n_outbox n) = None"
    by (auto simp: position_None flatten_filter_Some filter_empty_conv)
  ultimately show ?thesis
    by (simp add: Node_next_message_def)
qed (simp add: Node_next_message_def)

section \<open>Persistence and growth\<close>

lemma Node_inv_persisted:
  assumes "Node_inv n"
  shows "Node_inv (Ready_persisted n)"
proof -
  have "members_ok (Ready_persisted n)"
    using assms by (auto simp: Node_inv_def Ready_persisted_def intro: members_ok_cong [of n])
  then show ?thesis
    using assms
    by (simp add: Node_inv_def Ready_persisted_def log_ok_def slots_ok_def next_ok_def reach_def
        role_ok_def prevote_ok_def clean_ok_def)
qed

lemma State_grow_advances:
  assumes "State_inv st" and "State_CAP st \<le> c"
  shows "State_inv (State_grow c st)" and "State_advances st (State_grow c st)"
    and "State_last (State_grow c st) = State_last st"
proof -
  note g = State_grow_spec [OF State_inv_D(1) [OF assms(1)] assms(2)]
  have base: "State_base (State_grow c st) = State_base st"
    using g by (simp add: State_base_def)
  show "State_last (State_grow c st) = State_last st"
    using g base by (simp add: State_last_def)
  then show "State_inv (State_grow c st)"
    using assms(1) g base by (simp add: State_inv_def)
  show "State_advances st (State_grow c st)"
    using g base by (simp add: State_advances_def)
qed

lemma State_grow_write:
  assumes "slots_wf st" and "State_CAP st \<le> c"
  shows "State_write (State_grow c st) from changed = State_write st from changed"
proof -
  note g = State_grow_spec [OF assms]
  have len: "st_len (State_grow c st) = st_len st"
    by (simp add: State_grow_def)
  have "take (st_len (State_grow c st)) (st_entries (State_grow c st)) = take (st_len st) (st_entries st)"
    using g slots_wf_take assms(1) len by metis
  moreover have "State_base (State_grow c st) = State_base st"
    using g by (simp add: State_base_def)
  ultimately show ?thesis
    using g len by (cases "from") (simp_all add: State_write_def usize_try_from_def)
qed

lemma Node_inv_grow:
  assumes inv: "Node_inv n" and c: "State_CAP (n_state n) \<le> c"
  shows "Node_inv (Node_grow c n)"
proof -
  have log: "log_ok n"
    using inv by (simp add: Node_inv_def)
  note g = State_grow_spec [OF log_okD(2) [OF log] c] and adv = State_grow_advances [OF log_okD(1) [OF log] c]
  have "0 < c"
    using log_okD(4) [OF log] c by linarith
  then have log': "log_ok (Node_grow c n)"
    using log g adv(1) by (simp add: log_ok_def Node_grow_def payloads_ok_def)
  have "Node_membership_at (li_index (n_last (Node_grow c n))) (Node_grow c n)
      = Node_membership_at (li_index (n_last n)) n"
    unfolding membership_at_last [OF log] membership_at_last [OF log']
    using g by (simp add: Node_grow_def split: option.splits)
  then have "members_ok (Node_grow c n)"
    using inv by (auto simp: Node_inv_def members_ok_def Node_grow_def)
  then show ?thesis
    using inv log' g adv(3)
    by (simp add: Node_inv_def Node_grow_def slots_ok_def next_ok_def reach_def role_ok_def
        prevote_ok_def clean_ok_def)
qed

section \<open>Construction\<close>

lemma Node_build_returns:
  assumes inv: "State_inv st" and cap: "0 < State_CAP st" and tm: "valid_timing config"
    and m: "Membership_ok (Membership_MAX m) m" and pay: "payloads_ok hooks (Membership_MAX m) st"
  shows "returns (Node_build config st m hooks) (\<lambda>r. \<exists>n. r = Ok n \<and> Node_inv n
    \<and> n_config n = config \<and> n_state n = st \<and> n_bootstrap n = m \<and> n_hooks n = hooks
    \<and> Node_N n = Membership_MAX m \<and> n_role n = Follower \<and> Node_available n = Ok ()
    \<and> cfg_election_ticks config \<le> n_election_deadline n
    \<and> unat (n_election_deadline n) < 2 * unat (cfg_election_ticks config))"
proof -
  let ?ps = "Membership_peers m"
  let ?nn = "length (Membership_peers m)"
  let ?node = "\<lparr>n_config = config, n_state = st, n_role = Follower, n_leader = None,
     n_local = (case position (\<lambda>p. p = Some (cfg_id config)) ?ps of None \<Rightarrow> ?nn | Some i \<Rightarrow> i),
     n_membership = m, n_bootstrap = m, n_hooks = hooks,
     n_peers = ?ps, n_votes = replicate ?nn False, n_next = replicate ?nn 1,
     n_matched = replicate ?nn 0, n_outbox = replicate ?nn None, n_dirty = False,
     n_log_from = None, n_snapshot_changed = False, n_elapsed = 0,
     n_election_deadline = 0, n_random = cfg_seed config, n_prevoting = None,
     n_leader_age = u64_MAX, n_quorum_elapsed = 0, n_active = replicate ?nn False,
     n_extra_reply = None, n_request_from = None\<rparr> :: ('a, 'b) Node"
  have nn: "?nn = Membership_MAX m"
    by (simp add: Membership_peers_def)
  have log: "log_ok ?node"
    using inv cap tm m pay by (simp add: log_ok_def nn)
  have slots: "slots_ok ?node"
    using m by (simp add: slots_ok_def flatten_peers Membership_ok_def Membership_wf_def)
  have nxt: "next_ok ?node"
    by (simp add: next_ok_def)
  obtain n1 where n1: "Node_refresh_membership ?node = Some n1" "refreshed ?node n1"
    using refresh_returns [OF log slots nxt] by (auto simp: returns_iff)
  have fp: "fixed_part n1 = fixed_part ?node"
    using n1(2) by (simp add: refreshed_def)
  have out: "\<forall>x \<in> set (n_outbox n1). x = None"
    using n1(2) by (auto simp: refreshed_def)
  have tm1: "valid_timing (n_config n1)"
    using fp tm by (simp add: fixed_part_eq)
  from reset_election_returns [OF tm1] obtain d
    where d: "Node_reset_election n1 = Some (n1\<lparr>n_random := n_random n1 + 0x9e3779b97f4a7c15,
        n_election_deadline := d, n_elapsed := 0\<rparr>)" (is "_ = Some ?n2")
      and db: "cfg_election_ticks (n_config n1) \<le> d" "unat d < 2 * unat (cfg_election_ticks (n_config n1))"
    by blast
  have members2: "members_ok ?n2"
    using n1(2) by (auto simp: refreshed_def intro: members_ok_cong [of n1])
  have role1: "n_role n1 = Follower" "n_prevoting n1 = None"
    using n1(2) by (auto simp: refreshed_def)
  have "Node_inv ?n2"
    using n1(2) members2 role1 fp log
    by (simp add: Node_inv_def refreshed_def slots_ok_def next_ok_def reach_def role_ok_def prevote_ok_def
        clean_ok_def log_ok_def fixed_part_eq)
  moreover have "n_extra_reply n1 = None"
    using n1(2) by (simp add: refreshed_def)
  then have "Node_available ?n2 = Ok ()"
    using fp out by (simp add: available_iff fixed_part_eq)
  ultimately show ?thesis
    using n1(1) d db fp role1 cap tm nn
    by (simp add: Node_build_def Let_def fixed_part_eq)
qed

section \<open>The storage transaction\<close>

text \<open>What an operation begun in a clean node leaves for storage: applying the write to the
  durable image of the node before the operation gives the image of the node after it.\<close>

lemma good_write:
  assumes "good n0 n"
  shows "Durable_apply (Ready_write n) (Durable_of (n_state n0)) = Durable_of (n_state n)"
  unfolding Ready_write_def
  using goodD(8) [OF assms] log_okD(2,3) [OF goodD(1) [OF assms]]
  by (intro covers_write) (simp_all add: evolves_def)

lemma good_unchanged: "good n0 n \<Longrightarrow> \<not> n_dirty n \<Longrightarrow> n_state n = n_state n0"
  using goodD(9) by (auto simp: saved_def)

text \<open>The documented shape of a write: a nonempty suffix starts at \<open>truncate_from\<close>.\<close>

lemma good_write_shape:
  assumes good: "good n0 n" and ne: "Write_entries (Ready_write n) \<noteq> []"
  shows "w_truncate_from (Ready_write n) = Some (li_index (en_id (hd (Write_entries (Ready_write n)))))"
proof -
  note log = goodD(1) [OF good]
  note wf = log_okD(2,3) [OF log]
  let ?es = "State_entries (n_state n)" and ?b = "n_base n"
  have we: "Write_entries (Ready_write n) =
      (case n_log_from n of None \<Rightarrow> [] | Some f \<Rightarrow> filter (\<lambda>e. f \<le> li_index (en_id e)) ?es)"
    unfolding Ready_write_def by (rule State_write_entries [OF wf])
  then obtain f where f: "n_log_from n = Some f" "Write_entries (Ready_write n) = filter (\<lambda>e. f \<le> li_index (en_id e)) ?es"
    using ne by (cases "n_log_from n") auto
  have base: "li_index ?b < f"
    using goodD(8) [OF good] f(1) by (simp add: evolves_def)
  define p where "p = f - 1"
  have p: "unat f = Suc (unat p)"
  proof -
    have "1 \<le> f"
      using base by (auto simp: u64)
    then have "checked_sub f 1 = Some p"
      by (simp add: checked_sub_def p_def)
    then show ?thesis
      by (simp add: checked_sub_eq_Some)
  qed
  then have "filter (\<lambda>e. f \<le> li_index (en_id e)) ?es = filter (\<lambda>e. p < li_index (en_id e)) ?es"
    by (auto simp: u64 intro!: filter_cong)
  also have "\<dots> = drop (unat p - unat (li_index ?b)) ?es"
    by (rule log_chain_filter_above [OF wf(2)])
  finally have d: "Write_entries (Ready_write n) = drop (unat p - unat (li_index ?b)) ?es"
    using f(2) by simp
  then have lt: "unat p - unat (li_index ?b) < length ?es"
    using ne by simp
  then have "hd (Write_entries (Ready_write n)) = ?es ! (unat p - unat (li_index ?b))"
    using d by (simp add: hd_drop_conv_nth)
  moreover have "unat (li_index (en_id (?es ! (unat p - unat (li_index ?b))))) = unat f"
    using log_chain_nth [OF wf(2) lt] p base by (auto simp: u64)
  ultimately have "li_index (en_id (hd (Write_entries (Ready_write n)))) = f"
    by (simp add: u64_eq_iff)
  then show ?thesis
    using f(1) by (simp add: Ready_write_def)
qed

text \<open>Applying a write of that shape twice is the same as applying it once.\<close>

lemma filter_twice:
  "filter P (filter P xs) = filter P xs"
  "filter P (filter Q (filter P (filter Q xs))) = filter P (filter Q xs)"
  by (auto intro!: filter_cong)

lemma Durable_apply_idem:
  assumes "\<forall>e \<in> set (Write_entries w). is_some_and (\<lambda>f. f \<le> li_index (en_id e)) (w_truncate_from w)"
    and "\<forall>e \<in> set (Write_entries w). is_none_or (\<lambda>s. li_index (sn_last s) < li_index (en_id e)) (w_snapshot w)"
  shows "Durable_apply w (Durable_apply w d) = Durable_apply w d"
proof -
  have new_f: "filter (\<lambda>e. li_index (en_id e) < f) (Write_entries w) = []" if "w_truncate_from w = Some f" for f
    using assms(1) that by (auto simp: filter_empty_conv not_less)
  have new_s: "filter (\<lambda>e. li_index (sn_last s) < li_index (en_id e)) (Write_entries w) = Write_entries w"
    if "w_snapshot w = Some s" for s
    using assms(2) that by (simp add: filter_id_conv)
  have none: "Write_entries w = []" if "w_truncate_from w = None"
    using assms(1) that by (cases "Write_entries w") auto
  have "du_entries (Durable_apply w (Durable_apply w d)) = du_entries (Durable_apply w d)"
    unfolding Durable_apply_entries [of w "Durable_apply w d"]
    unfolding Durable_apply_entries [of w d]
    using new_f new_s none
    by (cases "w_snapshot w"; cases "w_truncate_from w")
      (simp_all add: Let_def filter_twice del: filter_filter)
  moreover have "du_hard (Durable_apply w x) = w_hard w" for x
    by (simp add: Durable_apply_def Let_def)
  moreover have "du_snapshot (Durable_apply w x) = (case w_snapshot w of None \<Rightarrow> du_snapshot x | Some s \<Rightarrow> Some s)" for x
    by (simp add: Durable_apply_def Let_def split: option.splits)
  ultimately show ?thesis
    by (cases "w_snapshot w") simp_all
qed

lemma good_write_idem:
  assumes good: "good n0 n"
  shows "Durable_apply (Ready_write n) (Durable_apply (Ready_write n) d) = Durable_apply (Ready_write n) d"
proof (rule Durable_apply_idem)
  note wf = log_okD(2,3) [OF goodD(1) [OF good]]
  have we: "Write_entries (Ready_write n) =
      (case n_log_from n of None \<Rightarrow> [] | Some f \<Rightarrow> filter (\<lambda>e. f \<le> li_index (en_id e)) (State_entries (n_state n)))"
    unfolding Ready_write_def by (rule State_write_entries [OF wf])
  then show "\<forall>e \<in> set (Write_entries (Ready_write n)).
      is_some_and (\<lambda>f. f \<le> li_index (en_id e)) (w_truncate_from (Ready_write n))"
    by (auto simp: Ready_write_def split: option.splits)
  have "li_index (n_base n) < li_index (en_id e)" if "e \<in> set (State_entries (n_state n))" for e
    using log_chain_mem_index [OF wf(2) that] by (simp add: word_less_nat_alt)
  then show "\<forall>e \<in> set (Write_entries (Ready_write n)).
      is_none_or (\<lambda>s. li_index (sn_last s) < li_index (en_id e)) (w_snapshot (Ready_write n))"
    unfolding we
    by (auto simp: Ready_write_def State_base_def is_none_or_def split: option.splits if_splits)
qed

section \<open>The calls of a host\<close>

text \<open>The four operations that need an idle node.\<close>

inductive operation :: "('v, 's) Node \<Rightarrow> ('v, 's) Node \<Rightarrow> bool" where
  tick: "Node_tick n = Some (r, n') \<Longrightarrow> operation n n'"
| receive: "\<lbrakk>message_ok (n_hooks n) (Node_N n) (env_message env); Node_step env n = Some (r, n')\<rbrakk>
    \<Longrightarrow> operation n n'"
| propose: "\<lbrakk>list_all (value_ok (n_hooks n) (Node_N n)) (flatten vs);
    Node_propose_many (length vs) vs n = Some (r, n')\<rbrakk> \<Longrightarrow> operation n n'"
| compact: "\<lbrakk>carries_configuration index value n; Node_compact index value n = Some (r, n')\<rbrakk>
    \<Longrightarrow> operation n n'"

inductive node_step :: "('v, 's) Node \<Rightarrow> ('v, 's) Node \<Rightarrow> bool" where
  operate: "operation n n' \<Longrightarrow> node_step n n'"
| take_message: "Node_next_message n = Some (m, n') \<Longrightarrow> node_step n n'"
| persisted: "Node_ready n = Some t \<Longrightarrow> node_step n (Ready_persisted t)"
| grow: "State_CAP (n_state n) \<le> c \<Longrightarrow> node_step n (Node_grow c n)"

text \<open>A call that finds the node busy returns at once.\<close>

lemma busy_unchanged:
  assumes "Node_available n = Err e"
  shows "Node_tick n = Some (Err e, n)" and "Node_step env n = Some (Err e, n)"
    and "Node_propose_many c vs n = Some (Returned (Err e), n)" and "Node_compact i v n = Some (Err e, n)"
  using assms by (simp_all add: Node_tick_def Node_step_def Node_propose_many_def Node_compact_def)

lemma good_propose:
  assumes inv: "Node_inv n" and av: "Node_available n = Ok ()"
    and ok: "list_all (value_ok (n_hooks n) (Node_N n)) (flatten vs)"
  shows "returns (Node_propose_many (length vs) vs n) (\<lambda>(_, n'). good n n')"
proof -
  note start = good_start(1) [OF inv av]
  show ?thesis
  proof (cases "admissible (length vs) n")
    case False
    then obtain e where "Node_propose_many (length vs) vs n = Some (Returned (Err e), n)"
      using propose_refused [of n] inv by (auto simp: Node_inv_def dest: log_okD(2))
    then show ?thesis
      using start by simp
  next
    case adm: True
    show ?thesis
    proof (cases "None \<in> set vs")
      case True
      then show ?thesis
        using propose_rolled_back [OF inv adm] start by simp
    next
      case False
      then have vs: "vs = map Some (flatten vs)"
        using flatten_all_Some [of vs] by (metis (mono_tags, lifting) list_all_iff)
      then have len: "length vs = length (flatten vs)"
        by (metis length_map)
      have "returns (Node_propose_many (length (flatten vs)) (map Some (flatten vs)) n) (\<lambda>(_, n'). good n n')"
        using good_propose_done [OF inv _ ok] adm len by (auto intro: returns_conseq)
      then show ?thesis
        using vs len by metis
    qed
  qed
qed

text \<open>No call panics, and each keeps the invariant and moves the checkpoint forward.\<close>

lemma good_inv: "good n n' \<Longrightarrow> Node_inv n' \<and> State_advances (n_state n) (n_state n')"
  by (simp add: good_def evolves_def)

lemma call_safe:
  assumes "Node_inv n" and "Node_available n = Ok () \<Longrightarrow> returns m (\<lambda>(_, n'). good n n')"
    and "\<And>e. Node_available n = Err e \<Longrightarrow> \<exists>r. m = Some (r, n)"
  shows "returns m (\<lambda>(_, n'). Node_inv n' \<and> State_advances (n_state n) (n_state n'))"
proof (cases "Node_available n")
  case (Ok u)
  then have "returns m (\<lambda>(_, n'). good n n')"
    using assms(2) by simp
  then show ?thesis
    by (rule returns_conseq) (auto dest: good_inv)
next
  case (Err e)
  then obtain r where "m = Some (r, n)"
    using assms(3) by blast
  with assms(1) show ?thesis by simp
qed

lemma tick_safe:
  assumes "Node_inv n"
  shows "returns (Node_tick n) (\<lambda>(_, n'). Node_inv n' \<and> State_advances (n_state n) (n_state n'))"
  using assms good_tick [OF assms] busy_unchanged(1) by (blast intro: call_safe)

lemma step_safe:
  assumes "Node_inv n" and "message_ok (n_hooks n) (Node_N n) (env_message env)"
  shows "returns (Node_step env n) (\<lambda>(_, n'). Node_inv n' \<and> State_advances (n_state n) (n_state n'))"
  using assms good_step [OF assms(1) _ assms(2)] busy_unchanged(2) by (blast intro: call_safe)

lemma propose_safe:
  assumes "Node_inv n" and "list_all (value_ok (n_hooks n) (Node_N n)) (flatten vs)"
  shows "returns (Node_propose_many (length vs) vs n)
    (\<lambda>(_, n'). Node_inv n' \<and> State_advances (n_state n) (n_state n'))"
  using assms good_propose [OF assms(1) _ assms(2)] busy_unchanged(3) by (blast intro: call_safe)

lemma compact_safe:
  assumes "Node_inv n" and "carries_configuration index value n"
  shows "returns (Node_compact index value n)
    (\<lambda>(_, n'). Node_inv n' \<and> State_advances (n_state n) (n_state n'))"
  using assms(1) good_compact [OF assms(1) _ assms(2)] by (rule call_safe) (auto dest: busy_unchanged(4))

lemma next_message_safe:
  assumes "Node_inv n"
  shows "returns (Node_next_message n) (\<lambda>(_, n'). Node_inv n' \<and> sent n n')"
proof (cases "n_dirty n \<or> pending n = 0")
  case True
  then show ?thesis
    using next_message_none [OF True] assms by (simp add: sent_refl)
next
  case False
  then show ?thesis
    using next_message_takes [OF assms] by auto
qed

lemma operation_inv:
  assumes "operation n n'" and "Node_inv n"
  shows "Node_inv n' \<and> State_advances (n_state n) (n_state n')"
  using assms(1)
proof (cases rule: operation.cases)
  case (tick r)
  then show ?thesis
    using tick_safe [OF assms(2)] by simp
next
  case (receive env r)
  then show ?thesis
    using step_safe [OF assms(2) receive(1)] by simp
next
  case (propose vs r)
  then show ?thesis
    using propose_safe [OF assms(2) propose(1)] by simp
next
  case (compact index "value" r)
  then show ?thesis
    using compact_safe [OF assms(2) compact(1)] by simp
qed

lemma operation_good:
  assumes "operation n n'" and inv: "Node_inv n" and av: "Node_available n = Ok ()"
  shows "good n n'"
  using assms(1)
proof (cases rule: operation.cases)
  case (tick r)
  then show ?thesis
    using good_tick [OF inv av] by simp
next
  case (receive env r)
  then show ?thesis
    using good_step [OF inv av receive(1)] by simp
next
  case (propose vs r)
  then show ?thesis
    using good_propose [OF inv av propose(1)] by simp
next
  case (compact index "value" r)
  then show ?thesis
    using good_compact [OF inv av compact(1)] by simp
qed

lemma node_step_inv:
  assumes "node_step n n'" and "Node_inv n"
  shows "Node_inv n' \<and> State_advances (n_state n) (n_state n')"
  using assms(1)
proof (cases rule: node_step.cases)
  case operate
  then show ?thesis
    using operation_inv assms(2) by blast
next
  case (take_message m)
  then show ?thesis
    using next_message_safe [OF assms(2)] sent_same(1) [of n n'] by (simp add: fixed_part_eq)
next
  case (persisted t)
  then show ?thesis
    using Node_inv_persisted [OF assms(2)]
    by (auto simp: Node_ready_def Ready_persisted_def split: if_splits)
next
  case (grow c)
  then show ?thesis
    using Node_inv_grow [OF assms(2) grow(2)] State_grow_advances(2) [OF _ grow(2)] assms(2)
    by (simp add: Node_grow_def Node_inv_def log_ok_def)
qed

lemma node_steps_inv:
  assumes "node_step\<^sup>*\<^sup>* n n'" and "Node_inv n"
  shows "Node_inv n' \<and> State_advances (n_state n) (n_state n')"
  using assms(1)
proof (induction rule: rtranclp_induct)
  case base
  then show ?case using assms(2) by simp
next
  case (step y z)
  then show ?case
    using node_step_inv [OF step(2)] State_advances_trans by blast
qed

end
