(* ===== verification/Jarl_Cluster.thy ===== *)
theory Jarl_Cluster
  imports Jarl_Node_Life
begin

text \<open>
  The dynamic-membership engine of \<^verbatim>\<open>jarl/src/cluster.rs\<close>: a node whose log records are
  application commands or configurations, whose snapshots carry the configuration at their
  boundary, and whose administrative calls move between configurations through joint
  consensus. A \<^verbatim>\<open>Cluster\<close> is its node; the methods that only forward to the node are
  abbreviations.

  The lemmas show that the hooks make the node's generic obligations hold, that the calls
  never panic and keep the invariant, what each administrative call checks and appends, and
  that the configuration an administrative call proposes overlaps in its quorums with the
  one it replaces.
\<close>

section \<open>Data\<close>

datatype 'v Record = Command 'v | Configuration Membership

record 's Checkpoint =
  cp_application :: 's
  cp_membership :: Membership

record Settings =
  set_heartbeat_ticks :: u64
  set_election_ticks :: u64
  set_seed :: u64

definition Settings_default :: Settings where
  "Settings_default = \<lparr>set_heartbeat_ticks = 2, set_election_ticks = 10, set_seed = 1\<rparr>"

record ('v, 's) ClusterState =
  cs_id :: Id
  cs_genesis :: Membership
  cs_state :: "('v Record, 's Checkpoint) State"

type_synonym ('v, 's) Cluster = "('v Record, 's Checkpoint) Node"

definition ClusterState_restore ::
    "Id \<Rightarrow> Membership \<Rightarrow> ('v Record, 's Checkpoint) State \<Rightarrow> ('v, 's) ClusterState Result" where
  "ClusterState_restore i genesis state =
     (if Membership_is_joint genesis then Err ErrConfig
      else Ok \<lparr>cs_id = i, cs_genesis = genesis, cs_state = state\<rparr>)"

definition ClusterState_new :: "usize \<Rightarrow> Id \<Rightarrow> Membership \<Rightarrow> ('v, 's) ClusterState Result" where
  "ClusterState_new cap i genesis = ClusterState_restore i genesis (State_new cap)"

section \<open>Operations\<close>

text \<open>The closures of \<^verbatim>\<open>Cluster::new\<close>.\<close>

fun record_configuration :: "'v Record \<Rightarrow> Membership option" where
  "record_configuration (Configuration m) = Some m"
| "record_configuration (Command _) = None"

definition cluster_hooks :: "('v Record, 's Checkpoint) MembershipHooks" where
  "cluster_hooks = \<lparr>hook_record = record_configuration, hook_snapshot = cp_membership\<rparr>"

definition Cluster_new :: "Settings \<Rightarrow> ('v, 's) ClusterState \<Rightarrow> ('v, 's) Cluster Result option" where
  "Cluster_new settings stored =
     (if State_CAP (cs_state stored) < 4 then Some (Err ErrConfig)
      else (let config =
              \<lparr>cfg_id = cs_id stored,
               cfg_members = replicate (Membership_MAX (cs_genesis stored)) (cs_id stored),
               cfg_heartbeat_ticks = set_heartbeat_ticks settings,
               cfg_election_ticks = set_election_ticks settings,
               cfg_seed = set_seed settings\<rparr>
            in Node_build config (cs_state stored) (cs_genesis stored) (Some cluster_hooks)))"

abbreviation Cluster_tick :: "('v, 's) Cluster \<Rightarrow> (unit Result \<times> ('v, 's) Cluster) option" where
  "Cluster_tick c \<equiv> Node_tick c"

abbreviation Cluster_step ::
    "('v Record, 's Checkpoint) Envelope \<Rightarrow> ('v, 's) Cluster \<Rightarrow> (unit Result \<times> ('v, 's) Cluster) option" where
  "Cluster_step env c \<equiv> Node_step env c"

definition Cluster_membership :: "('v, 's) Cluster \<Rightarrow> Membership" where
  "Cluster_membership c = n_membership c"

definition Cluster_committed_membership :: "('v, 's) Cluster \<Rightarrow> Membership" where
  "Cluster_committed_membership c = snd (Node_membership_at (hs_commit (n_hard c)) c)"

text \<open>\<^verbatim>\<open>CAP - entries().count()\<close>; the count never exceeds \<open>CAP\<close>, being a count of slots.\<close>

definition Cluster_remaining :: "('v, 's) Cluster \<Rightarrow> usize" where
  "Cluster_remaining c = State_CAP (n_state c) - length (State_entries (n_state c))"

text \<open>The first guards of every administrative call.\<close>

definition Cluster_leading :: "('v, 's) Cluster \<Rightarrow> unit Result" where
  "Cluster_leading c =
     (case Node_available c of
        Err e \<Rightarrow> Err e
      | Ok _ \<Rightarrow> if n_role c \<noteq> Leader then Err (ErrNotLeader (n_leader c)) else Ok ())"

definition Cluster_propose ::
    "'v \<Rightarrow> ('v, 's) Cluster \<Rightarrow> (LogId Result \<times> ('v, 's) Cluster) option" where
  "Cluster_propose command c =
     (case Cluster_leading c of
        Err e \<Rightarrow> Some (Err e, c)
      | Ok _ \<Rightarrow>
          if Cluster_remaining c \<le> 3 then Some (Err ErrFull, c)
          else Node_propose (Command command) c)"

definition Cluster_propose_batch ::
    "'v list \<Rightarrow> ('v, 's) Cluster \<Rightarrow> (ProposalRange Result \<times> ('v, 's) Cluster) option" where
  "Cluster_propose_batch commands c =
     (case Cluster_leading c of
        Err e \<Rightarrow> Some (Err e, c)
      | Ok _ \<Rightarrow>
          if Cluster_remaining c - 3 < length commands then Some (Err ErrFull, c)
          else Node_propose_batch (map Command commands) c)"

text \<open>The term of the committed entry: in the retained log, else at the snapshot boundary.\<close>

definition committed_term :: "('v, 's) State \<Rightarrow> u64 option" where
  "committed_term st =
     (case List.find (\<lambda>e. li_index (en_id e) = hs_commit (st_hard st)) (State_entries st) of
        Some e \<Rightarrow> Some (li_term (en_id e))
      | None \<Rightarrow>
          (case st_snapshot st of
             None \<Rightarrow> None
           | Some s \<Rightarrow>
               if li_index (sn_last s) = hs_commit (st_hard st) then Some (li_term (sn_last s)) else None))"

definition Cluster_change_available :: "('v, 's) Cluster \<Rightarrow> unit Result" where
  "Cluster_change_available c =
     (case Cluster_leading c of
        Err e \<Rightarrow> Err e
      | Ok _ \<Rightarrow>
          (let (index, membership) = Node_membership_at (li_index (n_last c)) c
           in if Membership_is_joint membership \<or> hs_commit (n_hard c) < index then Err ErrReconfiguring
              else if committed_term (n_state c) \<noteq> Some (hs_term (n_hard c)) then Err ErrReconfiguring
              else Ok ()))"

definition Cluster_set_learners ::
    "Id list \<Rightarrow> ('v, 's) Cluster \<Rightarrow> (LogId Result \<times> ('v, 's) Cluster) option" where
  "Cluster_set_learners learners c =
     (case Cluster_change_available c of
        Err e \<Rightarrow> Some (Err e, c)
      | Ok _ \<Rightarrow>
          if Node_N c < length (Membership_voters (Cluster_membership c)) + length learners
          then Some (Err ErrFull, c)
          else (case Membership_with_learners learners (Cluster_membership c) of
              Err e \<Rightarrow> Some (Err e, c)
            | Ok next \<Rightarrow>
                if Cluster_remaining c \<le> 2 then Some (Err ErrFull, c)
                else Node_propose (Configuration next) c))"

text \<open>A new voter is a learner that has acknowledged the leader's whole log.\<close>

definition caught_up :: "('v, 's) Cluster \<Rightarrow> Id \<Rightarrow> bool" where
  "caught_up c i \<longleftrightarrow>
     list_ex (\<lambda>l. l = i) (Membership_learners (Cluster_membership c))
     \<and> li_index (n_last c) \<le> Node_matched i c"

definition Cluster_reconfigure ::
    "Membership \<Rightarrow> ('v, 's) Cluster \<Rightarrow> (LogId Result \<times> ('v, 's) Cluster) option" where
  "Cluster_reconfigure target c =
     (case Cluster_change_available c of
        Err e \<Rightarrow> Some (Err e, c)
      | Ok _ \<Rightarrow>
          if Membership_is_joint target then Some (Err ErrConfig, c)
          else if \<not> list_all (caught_up c)
                     (filter (\<lambda>i. \<not> Membership_is_voter i (Cluster_membership c)) (Membership_voters target))
          then Some (Err ErrNotCaughtUp, c)
          else if Cluster_remaining c < 3 then Some (Err ErrFull, c)
          else (case Membership_joint (Cluster_membership c) target of
                  Err e \<Rightarrow> Some (Err e, c)
                | Ok next \<Rightarrow> Node_propose (Configuration next) c))"

definition Cluster_finish_reconfiguration ::
    "('v, 's) Cluster \<Rightarrow> (LogId Result \<times> ('v, 's) Cluster) option" where
  "Cluster_finish_reconfiguration c =
     (case Cluster_leading c of
        Err e \<Rightarrow> Some (Err e, c)
      | Ok _ \<Rightarrow>
          (let (index, membership) = Node_membership_at (li_index (n_last c)) c
           in if \<not> Membership_is_joint membership \<or> hs_commit (n_hard c) < index
              then Some (Err ErrReconfiguring, c)
              else Node_propose (Configuration (Membership_finalized membership)) c))"

definition Cluster_compact ::
    "u64 \<Rightarrow> 's \<Rightarrow> ('v, 's) Cluster \<Rightarrow> (unit Result \<times> ('v, 's) Cluster) option" where
  "Cluster_compact index application c =
     Node_compact index
       \<lparr>cp_application = application, cp_membership = snd (Node_membership_at index c)\<rparr> c"

abbreviation Cluster_grow :: "usize \<Rightarrow> ('v, 's) Cluster \<Rightarrow> ('v, 's) Cluster" where
  "Cluster_grow new_cap c \<equiv> Node_grow new_cap c"

section \<open>The invariant\<close>

text \<open>A cluster is a node with these hooks; its records are well-formed configurations.\<close>

definition Cluster_inv :: "('v, 's) Cluster \<Rightarrow> bool" where
  "Cluster_inv c \<longleftrightarrow> Node_inv c \<and> n_hooks c = Some cluster_hooks"

lemma value_ok_Command [simp]: "value_ok (Some cluster_hooks) mx (Command v)"
  by (simp add: value_ok_def cluster_hooks_def)

lemma value_ok_Configuration [simp]:
  "value_ok (Some cluster_hooks) mx (Configuration m) \<longleftrightarrow> Membership_ok mx m"
  by (simp add: value_ok_def cluster_hooks_def)

lemma cluster_carries:
  assumes "Cluster_inv c"
  shows "carries_configuration index \<lparr>cp_application = a, cp_membership = snd (Node_membership_at index c)\<rparr> c"
  using assms by (simp add: carries_configuration_def Cluster_inv_def cluster_hooks_def)

lemma Cluster_leading_Ok: "Cluster_leading c = Ok u \<longleftrightarrow> Node_available c = Ok () \<and> n_role c = Leader"
  by (cases "Node_available c") (auto simp: Cluster_leading_def)

text \<open>A single proposal of a node: what it returns and when.\<close>

lemma Node_propose_one:
  assumes inv: "Node_inv n" and ok: "value_ok (n_hooks n) (Node_N n) v"
  shows "returns (Node_propose v n) (\<lambda>(r, n').
    if admissible 1 n
    then r = Ok \<lparr>li_index = li_index (n_last n) + 1, li_term = hs_term (n_hard n)\<rparr> \<and> good n n'
      \<and> State_entries (n_state n') = State_entries (n_state n) @
          [\<lparr>en_id = \<lparr>li_index = li_index (n_last n) + 1, li_term = hs_term (n_hard n)\<rparr>, en_value = Some v\<rparr>]
    else (\<exists>e. r = Err e) \<and> n' = n)"
proof (cases "admissible 1 n")
  case True
  then show ?thesis
    using good_propose_done [OF inv, of "[v]"] ok
    by (auto simp: Node_propose_def returns_iff split: prod.splits)
next
  case False
  have "slots_wf (n_state n)"
    using inv by (simp add: Node_inv_def log_okD(2))
  from propose_refused [OF this False, of "[Some v]"] False show ?thesis
    by (auto simp: Node_propose_def)
qed

text \<open>How an administrative call ends: refused without a change, or with one record appended.\<close>

definition refused :: "'a Result \<Rightarrow> ('v, 's) Cluster \<Rightarrow> ('v, 's) Cluster \<Rightarrow> bool" where
  "refused r c c' \<longleftrightarrow> (\<exists>e. r = Err e) \<and> c' = c"

definition appended :: "'v Record \<Rightarrow> LogId Result \<Rightarrow> ('v, 's) Cluster \<Rightarrow> ('v, 's) Cluster \<Rightarrow> bool" where
  "appended v r c c' \<longleftrightarrow>
     r = Ok \<lparr>li_index = li_index (n_last c) + 1, li_term = hs_term (n_hard c)\<rparr> \<and> good c c'
     \<and> State_entries (n_state c') = State_entries (n_state c) @
         [\<lparr>en_id = \<lparr>li_index = li_index (n_last c) + 1, li_term = hs_term (n_hard c)\<rparr>, en_value = Some v\<rparr>]"

lemma Cluster_invD:
  assumes "Cluster_inv c"
  shows "Node_inv c" and "n_hooks c = Some cluster_hooks" and "log_ok c"
    and "Membership_ok (Node_N c) (Cluster_membership c)"
    and "snd (Node_membership_at (li_index (n_last c)) c) = Cluster_membership c"
  using assms members_ok_wf [of c]
  by (auto simp: Cluster_inv_def Node_inv_def members_ok_def Cluster_membership_def)

lemma propose_record:
  assumes inv: "Cluster_inv c" and ok: "value_ok (n_hooks c) (Node_N c) v"
  shows "returns (Node_propose v c) (\<lambda>(r, c'). refused r c c' \<or> appended v r c c')"
  using ok
  by (intro returns_conseq [OF Node_propose_one [OF Cluster_invD(1) [OF inv]]])
    (auto simp: refused_def appended_def split: if_splits)

text \<open>An appended record leaves a well-formed cluster; a configuration takes effect at once.\<close>

lemma appended_inv:
  assumes "Cluster_inv c" and "appended v r c c'"
  shows "Cluster_inv c'"
  using assms by (auto simp: Cluster_inv_def appended_def good_def evolves_def)

lemma appended_configuration:
  assumes inv: "Cluster_inv c" and app: "appended (Configuration m) r c c'"
  shows "Cluster_membership c' = m"
proof -
  have inv': "Cluster_inv c'"
    using appended_inv [OF inv app] .
  have es: "\<exists>e. en_value e = Some (Configuration m) \<and> State_entries (n_state c') = State_entries (n_state c) @ [e]"
    using app by (auto simp: appended_def)
  have "snd (Node_membership_at (li_index (n_last c')) c') = m"
    unfolding membership_at_last [OF Cluster_invD(3) [OF inv']] Cluster_invD(2) [OF inv']
    using es by (auto simp: latest_configuration_append cluster_hooks_def)
  then show ?thesis
    using Cluster_invD(5) [OF inv'] by simp
qed

lemma propose_configuration:
  assumes inv: "Cluster_inv c" and ok: "Membership_ok (Node_N c) m"
  shows "returns (Node_propose (Configuration m) c)
    (\<lambda>(r, c'). Cluster_inv c' \<and> (refused r c c' \<or> appended (Configuration m) r c c' \<and> Cluster_membership c' = m))"
  using propose_record [OF inv, of "Configuration m"] Cluster_invD(2) [OF inv] ok inv
    appended_inv [OF inv] appended_configuration [OF inv]
  by (auto simp: returns_iff refused_def)

section \<open>Administrative calls\<close>

lemma set_learners_returns:
  assumes inv: "Cluster_inv c"
  shows "returns (Cluster_set_learners ls c) (\<lambda>(r, c'). Cluster_inv c' \<and> (refused r c c'
    \<or> shares_majority (Cluster_membership c) (Cluster_membership c')
      \<and> \<not> Membership_is_joint (Cluster_membership c')
      \<and> set (Membership_learners (Cluster_membership c')) = set ls))"
proof (cases "Membership_with_learners ls (Cluster_membership c)")
  case (Err e)
  then show ?thesis
    using inv by (auto simp: Cluster_set_learners_def refused_def split: Result.splits)
next
  case (Ok m)
  have wf: "Membership_wf (Cluster_membership c)" and mx: "Membership_MAX (Cluster_membership c) = Node_N c"
    using Cluster_invD(4) [OF inv] by (simp_all add: Membership_ok_def)
  note m = Membership_with_learners_Ok [OF wf Ok]
  have share: "shares_majority (Cluster_membership c) m" and ok: "Membership_ok (Node_N c) m"
    using wf mx m(1-3) by (simp_all add: shares_majority_def Membership_ok_def)
  show ?thesis
    using propose_configuration [OF inv ok] Ok m(4,5) share inv
    by (auto simp: Cluster_set_learners_def refused_def returns_iff split: Result.splits)
qed

lemma reconfigure_returns:
  assumes inv: "Cluster_inv c" and target: "Membership_ok (Node_N c) target"
  shows "returns (Cluster_reconfigure target c) (\<lambda>(r, c'). Cluster_inv c' \<and> (refused r c c'
    \<or> appended (Configuration (Cluster_membership c')) r c c'
      \<and> shares_majority (Cluster_membership c) (Cluster_membership c')
      \<and> Membership_is_joint (Cluster_membership c')
      \<and> set (Membership_voters (Cluster_membership c')) = set (Membership_voters target)
      \<and> set (Membership_old_voters (Cluster_membership c')) = set (Membership_voters (Cluster_membership c))
      \<and> (\<forall>i \<in> set (Membership_voters target). Membership_is_voter i (Cluster_membership c) \<or> caught_up c i)))"
proof (cases "Membership_joint (Cluster_membership c) target")
  case (Err e)
  then show ?thesis
    using inv by (auto simp: Cluster_reconfigure_def refused_def split: Result.splits)
next
  case (Ok m)
  have wf: "Membership_wf (Cluster_membership c)" "Membership_wf target" "Membership_MAX target = Node_N c"
    using Cluster_invD(4) [OF inv] target by (simp_all add: Membership_ok_def)
  note m = Membership_joint_Ok [OF wf(1,2) Ok]
  have share: "shares_majority (Cluster_membership c) m" and ok: "Membership_ok (Node_N c) m"
    using wf m by (simp_all add: shares_majority_def Membership_ok_def)
  show ?thesis
    using propose_configuration [OF inv ok] Ok m(3,4,6) share inv
    by (auto simp: Cluster_reconfigure_def refused_def returns_iff list_all_iff split: Result.splits)
qed

text \<open>When \<^verbatim>\<open>reconfigure\<close> accepts a target.\<close>

lemma propose_accepts:
  assumes "Cluster_inv c" and "value_ok (n_hooks c) (Node_N c) v"
  shows "(\<exists>i c'. Node_propose v c = Some (Ok i, c')) \<longleftrightarrow> admissible 1 c"
  using Node_propose_one [OF Cluster_invD(1) [OF assms(1)] assms(2)]
  by (cases "admissible 1 c") (auto simp: returns_iff)

lemma change_available_admissible:
  assumes inv: "Cluster_inv c" and av: "Cluster_change_available c = Ok u" and room: "3 \<le> Cluster_remaining c"
  shows "\<not> Membership_is_joint (Cluster_membership c)"
    and "admissible 1 c \<longleftrightarrow> li_index (n_last c) \<noteq> u64_MAX"
proof -
  show "\<not> Membership_is_joint (Cluster_membership c)"
    using av Cluster_invD(5) [OF inv]
    by (auto simp: Cluster_change_available_def Let_def split_def split: Result.splits if_splits)
  have "Cluster_leading c = Ok ()"
    using av by (auto simp: Cluster_change_available_def split: Result.splits)
  moreover have "unat (li_index (n_last c)) + 1 < 2 ^ 64 \<longleftrightarrow> li_index (n_last c) \<noteq> u64_MAX"
  proof -
    have "k + 1 < 2 ^ 64 \<longleftrightarrow> k \<noteq> 18446744073709551615" if "k < 18446744073709551616" for k :: nat
      using that by auto
    then show ?thesis
      by (simp add: u64_eq_iff)
  qed
  ultimately show "admissible 1 c \<longleftrightarrow> li_index (n_last c) \<noteq> u64_MAX"
    using room by (auto simp: admissible_def Cluster_leading_Ok Cluster_remaining_def)
qed

lemma reconfigure_accepts:
  assumes inv: "Cluster_inv c" and target: "Membership_ok (Node_N c) target"
  shows "(\<exists>i c'. Cluster_reconfigure target c = Some (Ok i, c')) \<longleftrightarrow>
    Cluster_change_available c = Ok () \<and> \<not> Membership_is_joint target
    \<and> (\<forall>i \<in> set (Membership_voters target). Membership_is_voter i (Cluster_membership c) \<or> caught_up c i)
    \<and> 3 \<le> Cluster_remaining c \<and> li_index (n_last c) \<noteq> u64_MAX
    \<and> card (set (Membership_voters (Cluster_membership c)) \<union> Membership_ids target) \<le> Node_N c"
proof (cases "Cluster_change_available c = Ok () \<and> \<not> Membership_is_joint target
    \<and> (\<forall>i \<in> set (Membership_voters target). Membership_is_voter i (Cluster_membership c) \<or> caught_up c i)
    \<and> 3 \<le> Cluster_remaining c")
  case False
  then show ?thesis
    by (auto simp: Cluster_reconfigure_def list_all_iff split: Result.splits)
next
  case True
  then have eq: "Cluster_reconfigure target c = (case Membership_joint (Cluster_membership c) target of
      Err e \<Rightarrow> Some (Err e, c) | Ok next \<Rightarrow> Node_propose (Configuration next) c)"
    by (auto simp: Cluster_reconfigure_def list_all_iff)
  have wf: "Membership_wf target" "Membership_MAX target = Node_N c" "Membership_wf (Cluster_membership c)"
    using target Cluster_invD(4) [OF inv] by (simp_all add: Membership_ok_def)
  note adm = change_available_admissible [OF inv] and def = Membership_joint_defined [OF wf(1), of "Cluster_membership c"]
  show ?thesis
  proof (cases "Membership_joint (Cluster_membership c) target")
    case (Err e)
    then show ?thesis
      using eq def adm True wf(2) by auto
  next
    case (Ok m)
    then have "Membership_ok (Node_N c) m"
      using Membership_joint_Ok(1,2) [OF wf(3,1) Ok] wf(2) by (simp add: Membership_ok_def)
    then have "(\<exists>i c'. Node_propose (Configuration m) c = Some (Ok i, c')) \<longleftrightarrow> admissible 1 c"
      using propose_accepts [OF inv, of "Configuration m"] Cluster_invD(2) [OF inv] by simp
    then show ?thesis
      using eq Ok def adm True wf(2) by auto
  qed
qed

lemma finish_returns:
  assumes inv: "Cluster_inv c"
  shows "returns (Cluster_finish_reconfiguration c) (\<lambda>(r, c'). Cluster_inv c' \<and> (refused r c c'
    \<or> shares_majority (Cluster_membership c) (Cluster_membership c')
      \<and> Membership_is_joint (Cluster_membership c) \<and> \<not> Membership_is_joint (Cluster_membership c')
      \<and> set (Membership_voters (Cluster_membership c')) = set (Membership_voters (Cluster_membership c))))"
proof -
  have wf: "Membership_wf (Cluster_membership c)" "Membership_MAX (Cluster_membership c) = Node_N c"
    using Cluster_invD(4) [OF inv] by (simp_all add: Membership_ok_def)
  let ?m = "Membership_finalized (Cluster_membership c)"
  note m = Membership_finalized_Ok [OF wf(1)]
  have share: "shares_majority (Cluster_membership c) ?m" and ok: "Membership_ok (Node_N c) ?m"
    using wf m by (simp_all add: shares_majority_def Membership_ok_def)
  obtain i where "Node_membership_at (li_index (n_last c)) c = (i, Cluster_membership c)"
    using Cluster_invD(5) [OF inv] by (metis prod.collapse)
  then show ?thesis
    using propose_configuration [OF inv ok] m(3,5) share inv
    by (auto simp: Cluster_finish_reconfiguration_def refused_def returns_iff split: Result.splits)
qed

text \<open>Application proposals keep three slots free for protocol work.\<close>

lemma cluster_propose_returns:
  assumes inv: "Cluster_inv c"
  shows "returns (Cluster_propose v c) (\<lambda>(r, c'). refused r c c'
    \<or> appended (Command v) r c c' \<and> 3 \<le> Cluster_remaining c')"
proof -
  have "returns (Node_propose (Command v) c) (\<lambda>(r, c'). refused r c c' \<or> appended (Command v) r c c')"
    by (rule propose_record [OF inv]) (simp add: Cluster_invD(2) [OF inv])
  moreover have "3 \<le> Cluster_remaining c'" if "appended (Command v) r c c'" "3 < Cluster_remaining c" for r c'
  proof -
    have "State_CAP (n_state c') = State_CAP (n_state c)"
      using that(1) by (simp add: appended_def good_def evolves_def covers_def)
    then show ?thesis
      using that by (simp add: appended_def Cluster_remaining_def)
  qed
  ultimately show ?thesis
    by (auto simp: Cluster_propose_def refused_def returns_iff not_le split: Result.splits)
qed

lemma cluster_compact_safe:
  assumes inv: "Cluster_inv c"
  shows "returns (Cluster_compact i a c) (\<lambda>(_, c'). Node_inv c' \<and> State_advances (n_state c) (n_state c'))"
  unfolding Cluster_compact_def
  using Cluster_invD(1) [OF inv] cluster_carries [OF inv] by (rule compact_safe)

lemma Cluster_new_returns:
  assumes "State_inv (cs_state stored)" and "4 \<le> State_CAP (cs_state stored)"
    and "Membership_wf (cs_genesis stored)"
    and "payloads_ok (Some cluster_hooks) (Membership_MAX (cs_genesis stored)) (cs_state stored)"
    and "0 < set_heartbeat_ticks settings" and "set_heartbeat_ticks settings < set_election_ticks settings"
    and "set_election_ticks settings \<le> u64_MAX div 2"
  shows "returns (Cluster_new settings stored) (\<lambda>r. \<exists>c. r = Ok c \<and> Cluster_inv c
    \<and> n_state c = cs_state stored \<and> Node_available c = Ok ())"
proof -
  let ?config = "\<lparr>cfg_id = cs_id stored,
      cfg_members = replicate (Membership_MAX (cs_genesis stored)) (cs_id stored),
      cfg_heartbeat_ticks = set_heartbeat_ticks settings, cfg_election_ticks = set_election_ticks settings,
      cfg_seed = set_seed settings\<rparr>"
  have "valid_timing ?config"
    using assms(5-7) by (auto simp: valid_timing_def)
  moreover have "0 < State_CAP (cs_state stored)"
    using assms(2) by linarith
  ultimately have "returns (Node_build ?config (cs_state stored) (cs_genesis stored) (Some cluster_hooks))
      (\<lambda>r. \<exists>c. r = Ok c \<and> Cluster_inv c \<and> n_state c = cs_state stored \<and> Node_available c = Ok ())"
    using assms(1,3,4)
    by (intro returns_conseq [OF Node_build_returns]) (auto simp: Membership_ok_def Cluster_inv_def)
  then show ?thesis
    using assms(2) by (simp add: Cluster_new_def)
qed

end
