(* ===== verification/Jarl_Host.thy ===== *)
theory Jarl_Host
  imports Jarl_Node_Life
begin

text \<open>
  The host adapters of \<^verbatim>\<open>jarl/src/host.rs\<close>. The trait \<^verbatim>\<open>Storage\<close> is the locale \<open>storage\<close>: its
  \<open>save\<close> is the trait's method, with the outcome of the input and output it performs as an
  argument, and its laws are the trait's documented contract. Inside the locale the node and
  its storage are followed together: what storage holds is always one acknowledged
  transaction behind the node at most, and nothing leaves the node before it is durable.

  \<^verbatim>\<open>persist_async\<close> awaits the same save and then acknowledges it; the token it holds excludes
  every other call, so its completed runs are those of \<open>host_persist\<close>.
\<close>

definition host_persist ::
    "(('v, 's) Write \<Rightarrow> 'b \<Rightarrow> ('e + unit) \<times> 'b) \<Rightarrow> ('v, 's) Node \<Rightarrow> 'b \<Rightarrow> ('e + unit) \<times> ('v, 's) Node \<times> 'b" where
  "host_persist save ready storage =
     (case save (Ready_write ready) storage of
        (Inl e, storage') \<Rightarrow> (Inl e, ready, storage')
      | (Inr _, storage') \<Rightarrow> (Inr (), Ready_persisted ready, storage'))"

text \<open>
  A backend: \<open>image\<close> is what it holds, \<open>recovered\<close> what reopening it yields, and \<open>usable\<close> says
  that no failed save is outstanding. A backend may store a value in another representation that
  the program cannot tell apart; \<open>same\<close> is the equivalence up to which content is kept.
\<close>

locale storage =
  fixes save :: "'io \<Rightarrow> ('v, 's) Write \<Rightarrow> 'b \<Rightarrow> ('e + unit) \<times> 'b"
    and same :: "('v, 's) Durable \<Rightarrow> ('v, 's) Durable \<Rightarrow> bool"
    and image :: "'b \<Rightarrow> ('v, 's) Durable"
    and recovered :: "'b \<Rightarrow> ('v, 's) Durable option"
    and usable :: "'b \<Rightarrow> bool"
    and storable :: "('v, 's) Write \<Rightarrow> 'b \<Rightarrow> bool"
  assumes same_equiv: "equivp same"
    and same_apply: "same d d' \<Longrightarrow> same (Durable_apply w d) (Durable_apply w d')"
    and save_done: "\<lbrakk>usable b; storable w b; save io w b = (Inr u, b')\<rbrakk>
      \<Longrightarrow> usable b' \<and> same (image b') (Durable_apply w (image b))"
    and save_failed: "\<lbrakk>usable b; storable w b; save io w b = (Inl e, b')\<rbrakk>
      \<Longrightarrow> recovered b' = Some (image b) \<or> (\<exists>d. recovered b' = Some d \<and> same d (Durable_apply w (image b)))"
    and reopen: "usable b \<Longrightarrow> recovered b = Some (image b)"
begin

lemmas same_trans = equivp_transp [OF same_equiv]
lemmas same_sym = equivp_symp [OF same_equiv]

text \<open>Storage and node agree: the pending write turns what is stored into the checkpoint.\<close>

definition synced :: "'b \<Rightarrow> ('v, 's) Node \<Rightarrow> bool" where
  "synced b n \<longleftrightarrow>
     usable b \<and> Node_inv n
     \<and> same (Durable_apply (Ready_write n) (image b)) (Durable_of (n_state n))
     \<and> (\<not> n_dirty n \<longrightarrow> same (image b) (Durable_of (n_state n)))"

lemma synced_operation:
  assumes "synced b n" and "\<not> n_dirty n" and "good n n'"
  shows "synced b n'"
proof -
  have im: "same (image b) (Durable_of (n_state n))"
    using assms(1,2) by (simp add: synced_def)
  have "same (Durable_apply (Ready_write n') (image b)) (Durable_of (n_state n'))"
    using same_apply [OF im, of "Ready_write n'"] good_write [OF assms(3)] by simp
  then show ?thesis
    using assms im good_unchanged [OF assms(3)] by (auto simp: synced_def good_def)
qed

lemma synced_start:
  assumes "usable b" and "Node_inv n" and "\<not> n_dirty n" and "same (image b) (Durable_of (n_state n))"
  shows "synced b n"
proof -
  have "clean_ok n" "log_ok n"
    using assms(2) by (simp_all add: Node_inv_def)
  then have "Durable_apply (Ready_write n) (Durable_of (n_state n)) = Durable_of (n_state n)"
    using covers_write [OF covers_refl log_okD(2,3), of n] assms(3) by (simp add: Ready_write_def clean_ok_def)
  then show ?thesis
    using assms same_apply [OF assms(4), of "Ready_write n"] by (simp add: synced_def)
qed

lemma synced_persist:
  assumes "synced b n" and "storable (Ready_write n) b" and "host_persist (save io) n b = (Inr u, n', b')"
  shows "synced b' n'" and "same (image b') (Durable_of (n_state n'))"
    and "\<exists>d. recovered b' = Some d \<and> same d (Durable_of (n_state n))"
proof -
  from assms(3) obtain v where v: "save io (Ready_write n) b = (Inr v, b')" "n' = Ready_persisted n"
    by (auto simp: host_persist_def split: prod.splits sum.splits)
  have "usable b'" "same (image b') (Durable_apply (Ready_write n) (image b))"
    using save_done [OF _ assms(2) v(1)] assms(1) by (auto simp: synced_def)
  then have b': "usable b'" "same (image b') (Durable_of (n_state n))"
    using assms(1) same_trans by (auto simp: synced_def)
  have st: "n_state n' = n_state n" "\<not> n_dirty n'"
    by (simp_all add: v(2) Ready_persisted_def)
  show im: "same (image b') (Durable_of (n_state n'))"
    using b' st by simp
  show "\<exists>d. recovered b' = Some d \<and> same d (Durable_of (n_state n))"
    using reopen [OF b'(1)] b'(2) by simp
  have inv: "Node_inv n'"
    using assms(1) by (simp add: v(2) synced_def Node_inv_persisted)
  show "synced b' n'"
    by (rule synced_start [OF b'(1) inv st(2) im])
qed

lemma synced_failed:
  assumes "synced b n" and "storable (Ready_write n) b" and "host_persist (save io) n b = (Inl e, n', b')"
  shows "n' = n"
    and "recovered b' = Some (image b) \<or> (\<exists>d. recovered b' = Some d \<and> same d (Durable_of (n_state n)))"
proof -
  from assms(3) have v: "save io (Ready_write n) b = (Inl e, b')" "n' = n"
    by (auto simp: host_persist_def split: prod.splits sum.splits)
  then show "n' = n" by simp
  show "recovered b' = Some (image b) \<or> (\<exists>d. recovered b' = Some d \<and> same d (Durable_of (n_state n)))"
    using save_failed [OF _ assms(2) v(1)] assms(1) same_trans by (auto simp: synced_def)
qed

text \<open>What the node lets out is durable.\<close>

lemma published_durable:
  assumes "synced b n"
    and "Node_next_message n = Some (Some env, n') \<or> Node_committed n \<noteq> [] \<or> Node_snapshot n \<noteq> None"
  shows "\<exists>d. recovered b = Some d \<and> same d (Durable_of (n_state n))"
proof -
  have "\<not> n_dirty n"
  proof
    assume "n_dirty n"
    then have "Node_next_message n = Some (None, n)" "Node_committed n = []" "Node_snapshot n = None"
      using next_message_none [of n] by (auto simp: Node_committed_def Node_snapshot_def takeWhile_eq_Nil_iff)
    with assms(2) show False by simp
  qed
  then show ?thesis
    using assms(1) reopen [of b] by (simp add: synced_def)
qed

end

end
