(* ===== verification/Jarl_Frames.thy ===== *)
theory Jarl_Frames
  imports Jarl_Prelude
begin

text \<open>
  What the journals of \<^verbatim>\<open>jarl/examples/support/\<close> share: words as little-endian bytes, the checksum,
  the frame around a payload, and the loop that replays frames. Each journal has its own loop,
  over its own decoder; the locale \<open>frames\<close> states the recursion the loops have in common and
  holds what follows from it: complete frames are applied in order, and an unfinished frame at
  the end is left alone.
\<close>

section \<open>Bytes\<close>

type_synonym bytes = "u8 list"

fun le_bytes :: "nat \<Rightarrow> nat \<Rightarrow> bytes" where
  "le_bytes 0 x = []"
| "le_bytes (Suc k) x = of_nat (x mod 256) # le_bytes k (x div 256)"

fun le_value :: "bytes \<Rightarrow> nat" where
  "le_value [] = 0"
| "le_value (b # bs) = unat b + 256 * le_value bs"

definition u64_to_le_bytes :: "u64 \<Rightarrow> bytes" where
  "u64_to_le_bytes x = le_bytes 8 (unat x)"

definition u64_from_le_bytes :: "bytes \<Rightarrow> u64" where
  "u64_from_le_bytes bs = of_nat (le_value bs)"

text \<open>FNV-1a.\<close>

definition checksum :: "bytes \<Rightarrow> u64" where
  "checksum bs = foldl (\<lambda>hash byte. (hash XOR ucast byte) * 0x100000001b3) 0xcbf29ce484222325 bs"

lemma le_bytes_length [simp]: "length (le_bytes k x) = k"
  by (induction k arbitrary: x) auto

lemma le_value_bytes: "le_value (le_bytes k x) = x mod 256 ^ k"
proof (induction k arbitrary: x)
  case (Suc k)
  have "unat (of_nat (x mod 256) :: u8) = x mod 256"
    by (simp add: unat_of_nat)
  then show ?case
    by (simp add: Suc mod_mult2_eq)
qed simp

lemma u64_bytes_length [simp]: "length (u64_to_le_bytes x) = 8"
  by (simp add: u64_to_le_bytes_def)

lemma u64_bytes_inverse [simp]: "u64_from_le_bytes (u64_to_le_bytes x) = x"
proof -
  have "unat x mod 256 ^ 8 = unat x"
    by simp
  then show ?thesis
    by (simp add: u64_from_le_bytes_def u64_to_le_bytes_def le_value_bytes)
qed

definition read_word :: "bytes \<Rightarrow> (u64 \<times> bytes) option" where
  "read_word bs = (if length bs < 8 then None else Some (u64_from_le_bytes (take 8 bs), drop 8 bs))"

definition read_flag :: "bytes \<Rightarrow> (bool \<times> bytes) option" where
  "read_flag bs = do {
     (w, rest) \<leftarrow> read_word bs;
     if w = 0 then Some (False, rest) else if w = 1 then Some (True, rest) else None
   }"

definition u64_of_bool :: "bool \<Rightarrow> u64" where
  "u64_of_bool b = (if b then 1 else 0)"

lemma read_word_bytes [simp]: "read_word (u64_to_le_bytes x @ bs) = Some (x, bs)"
  by (simp add: read_word_def)

lemma read_flag_bytes [simp]: "read_flag (u64_to_le_bytes (u64_of_bool b) @ bs) = Some (b, bs)"
  by (simp add: read_flag_def u64_of_bool_def)

section \<open>Frames\<close>

definition frame :: "bytes \<Rightarrow> bytes" where
  "frame payload = le_bytes 4 (length payload) @ payload @ u64_to_le_bytes (checksum payload)"

lemma frame_length: "length (frame p) = length p + 12"
  by (simp add: frame_def)

lemma frame_prefix:
  assumes "length p < 2 ^ 32"
  shows "take 4 (frame p @ tail) = le_bytes 4 (length p)" and "le_value (le_bytes 4 (length p)) = length p"
    and "take (length p) (drop 4 (frame p @ tail)) = p"
    and "take 8 (drop (4 + length p) (frame p @ tail)) = u64_to_le_bytes (checksum p)"
    and "drop (4 + length p + 8) (frame p @ tail) = tail"
  using assms by (simp_all add: frame_def le_value_bytes)

locale frames =
  fixes limit :: nat
    and apply_payload :: "'st \<Rightarrow> bytes \<Rightarrow> 'st option"
    and start :: 'st
    and replay_frames :: "bytes \<Rightarrow> 'st \<Rightarrow> ('st \<times> bytes) option"
  assumes limit: "limit < 2 ^ 32"
    and loop: "replay_frames rest st =
     (if length rest < 4 then Some (st, rest)
      else (let len = le_value (take 4 rest)
            in if len = 0 \<or> limit < len then None
               else if length rest < 4 + len + 8 then Some (st, rest)
               else (let payload = take len (drop 4 rest);
                         stored = u64_from_le_bytes (take 8 (drop (4 + len) rest))
                     in if checksum payload \<noteq> stored then None
                        else (case apply_payload st payload of
                                None \<Rightarrow> None
                              | Some st' \<Rightarrow> replay_frames (drop (4 + len + 8) rest) st'))))"
begin

definition framed :: "bytes \<Rightarrow> bool" where
  "framed p \<longleftrightarrow> 0 < length p \<and> length p \<le> limit"

lemma framed_small: "framed p \<Longrightarrow> length p < 2 ^ 32"
  using limit by (simp add: framed_def)

lemma replay_frame:
  assumes "framed p" and "apply_payload st p = Some st'"
  shows "replay_frames (frame p @ tail) st = replay_frames tail st'"
  using assms frame_prefix(1,3,4,5) [OF framed_small [OF assms(1)], of tail]
    frame_prefix(2) [OF framed_small [OF assms(1)]]
  by (subst loop) (simp add: Let_def frame_length framed_def)

text \<open>An unfinished frame is left alone, whatever part of it reached the file.\<close>

lemma replay_torn:
  assumes p: "framed p" and k: "k < length (frame p)"
  shows "replay_frames (take k (frame p)) st = Some (st, take k (frame p))"
proof (cases "k < 4")
  case True
  then have "length (take k (frame p)) < 4"
    by simp
  then show ?thesis
    by (subst loop) (simp only: if_True)
next
  case False
  note small = framed_small [OF p]
  from False have "take 4 (take k (frame p)) = le_bytes 4 (length p)"
    using frame_prefix(1) [OF small, of "[]"] by (simp add: min_def)
  then have v: "le_value (take 4 (take k (frame p))) = length p"
    using frame_prefix(2) [OF small] by simp
  have "length (take k (frame p)) = k"
    using k by simp
  then show ?thesis
    using p v False k by (subst loop) (simp add: Let_def frame_length framed_def)
qed

lemma replay_nil: "replay_frames [] st = Some (st, [])"
  by (subst loop) simp

text \<open>The bytes \<open>rest\<close> are frames that replay to \<open>st\<close>, whatever follows them.\<close>

definition replays :: "bytes \<Rightarrow> 'st \<Rightarrow> bool" where
  "replays rest st \<longleftrightarrow> (\<forall>tail. replay_frames (rest @ tail) start = replay_frames tail st)"

lemma replays_start: "replays [] start"
  by (simp add: replays_def)

lemma replays_all: "replays rest st \<Longrightarrow> replay_frames rest start = Some (st, [])"
  using replay_nil by (auto simp: replays_def dest: spec [of _ "[]"])

lemma replays_frame:
  assumes "replays rest st" and "framed p" and "apply_payload st p = Some st'"
  shows "replays (rest @ frame p) st'"
  using assms(1) replay_frame [OF assms(2,3)] by (simp add: replays_def)

lemma replays_torn:
  assumes "replays rest st" and "framed p" and "apply_payload st p = Some st'"
  shows "\<exists>st'' tail. replay_frames (rest @ take k (frame p)) start = Some (st'', tail) \<and> (st'' = st \<or> st'' = st')"
proof (cases "k < length (frame p)")
  case True
  then show ?thesis
    using assms(1) replay_torn [OF assms(2) True] by (simp add: replays_def)
next
  case False
  then show ?thesis
    using replays_all [OF replays_frame [OF assms]] by simp
qed

text \<open>What replay has read is frames, and the state it returns is one that a payload produced.\<close>

lemma replay_splits:
  assumes "replay_frames rest st = Some (st', tail)" and "P st" and "\<And>st p st'. apply_payload st p = Some st' \<Longrightarrow> P st \<Longrightarrow> P st'"
  shows "P st' \<and> (\<exists>used. rest = used @ tail \<and> (\<forall>more. replay_frames (used @ more) st = replay_frames more st'))"
  using assms(1,2)
proof (induction "length rest" arbitrary: rest st rule: less_induct)
  case less
  let ?len = "le_value (take 4 rest)"
  let ?n = "4 + ?len + 8" and ?p = "take ?len (drop 4 rest)"
  show ?case
  proof (cases "length rest < 4 \<or> length rest < ?n \<and> \<not> (?len = 0 \<or> limit < ?len)")
    case True
    then have "replay_frames rest st = Some (st, rest)"
      using less.prems by (subst loop) (auto simp: Let_def)
    then show ?thesis
      using less.prems by simp
  next
    case False
    then have long: "4 \<le> length rest" "?n \<le> length rest" "?len \<noteq> 0" "\<not> limit < ?len"
      and sum: "checksum ?p = u64_from_le_bytes (take 8 (drop (4 + ?len) rest))"
      using less.prems loop [of rest st] by (auto simp: Let_def split: if_splits)
    then obtain st1 where st1: "apply_payload st ?p = Some st1" "replay_frames (drop ?n rest) st1 = Some (st', tail)"
      using less.prems loop [of rest st] by (auto simp: Let_def split: option.splits)
    have "length (drop ?n rest) < length rest"
      using long(2) by simp
    then obtain used where used: "P st'" "drop ?n rest = used @ tail" "\<forall>more. replay_frames (used @ more) st1 = replay_frames more st'"
      using less.hyps [OF _ st1(2)] assms(3) [OF st1(1) less.prems(2)] by blast
    have "replay_frames (take ?n rest @ more) st = replay_frames more st1" for more
    proof -
      define l where "l = ?len"
      define a where "a = take (4 + l + 8) rest"
      have len: "length a = 4 + l + 8" and rest: "rest = a @ drop (4 + l + 8) rest"
        using long(2) by (simp_all add: a_def l_def)
      have same: "take 4 rest = take 4 a" "take l (drop 4 rest) = take l (drop 4 a)"
        "take 8 (drop (4 + l) rest) = take 8 (drop (4 + l) a)"
        by (subst rest, simp add: len)+
      have "le_value (take 4 a) = l"
        unfolding l_def same(1) ..
      then have "le_value (take 4 (a @ more)) = l" "take l (drop 4 (a @ more)) = take l (drop 4 a)"
        "take 8 (drop (4 + l) (a @ more)) = take 8 (drop (4 + l) a)" "drop (4 + l + 8) (a @ more) = more"
        by (simp_all add: len)
      then show ?thesis
        using long(3,4) sum st1(1) same(2,3)
        unfolding l_def [symmetric] a_def [symmetric]
        by (subst loop) (simp add: Let_def len)
    qed
    then have "replay_frames ((take ?n rest @ used) @ more) st = replay_frames more st'" for more
      using used(3) by simp
    moreover have "rest = (take ?n rest @ used) @ tail"
      using used(2) append_take_drop_id [of ?n rest] by simp
    ultimately show ?thesis
      using used(1) by blast
  qed
qed

end

end
