(* ===== verification/Jarl_Journal.thy ===== *)
theory Jarl_Journal
  imports Jarl_Host Jarl_Frames
begin

text \<open>
  The reference journal of \<^verbatim>\<open>jarl/examples/support/journal.rs\<close>: a header, then one frame per
  storage transaction (length, payload, checksum). Parsing functions return an \<open>option\<close>, \<open>None\<close>
  being the error \<^verbatim>\<open>invalid()\<close>. The file is its content, a list of bytes; a write may stop
  after any number of bytes of the frame. Locking, directory synchronisation and the other
  operating-system calls of \<open>open\<close> are outside the model.

  The lemmas show that decoding inverts encoding, that applying an encoded transaction is the
  documented meaning of a \<^verbatim>\<open>Write\<close>, and that replay of the frames followed by any part of an
  unfinished one recovers the last completed transaction. The journal then satisfies the
  contract of the locale \<open>storage\<close>.
\<close>

section \<open>Transactions as bytes\<close>

type_synonym JState = "(u64, u64) State"
type_synonym JWrite = "(u64, u64) Write"

definition CAP :: usize where
  "CAP = 8"

definition MAX_FRAME :: usize where
  "MAX_FRAME = 80 + 32 * CAP"

definition entry_words :: "u64 Entry \<Rightarrow> u64 list" where
  "entry_words e =
     [li_index (en_id e), li_term (en_id e), u64_of_bool (en_value e \<noteq> None),
      (case en_value e of None \<Rightarrow> 0 | Some v \<Rightarrow> v)]"

definition write_words :: "JWrite \<Rightarrow> u64 list" where
  "write_words w =
     [hs_term (w_hard w), (case hs_voted_for (w_hard w) of None \<Rightarrow> u64_MAX | Some (Id i) \<Rightarrow> i),
      hs_commit (w_hard w), u64_of_bool (w_snapshot w \<noteq> None)]
     @ (case w_snapshot w of None \<Rightarrow> [] | Some s \<Rightarrow> [li_index (sn_last s), li_term (sn_last s), sn_value s])
     @ [u64_of_bool (w_truncate_from w \<noteq> None)]
     @ (case w_truncate_from w of None \<Rightarrow> [] | Some f \<Rightarrow> [f])
     @ [of_nat (length (Write_entries w))]
     @ concat (map entry_words (Write_entries w))"

definition encode :: "JWrite \<Rightarrow> bytes" where
  "encode w = concat (map u64_to_le_bytes (write_words w))"

fun read_entries :: "nat \<Rightarrow> bytes \<Rightarrow> (u64 Entry list \<times> bytes) option" where
  "read_entries 0 bs = Some ([], bs)"
| "read_entries (Suc k) bs = do {
     (index, b1) \<leftarrow> read_word bs;
     (term, b2) \<leftarrow> read_word b1;
     (present, b3) \<leftarrow> read_flag b2;
     (v, b4) \<leftarrow> read_word b3;
     (es, rest) \<leftarrow> read_entries k b4;
     Some (\<lparr>en_id = \<lparr>li_index = index, li_term = term\<rparr>, en_value = (if present then Some v else None)\<rparr> # es, rest)
   }"

definition apply_frame :: "JState \<Rightarrow> bytes \<Rightarrow> JState option" where
  "apply_frame st bs = do {
     (term, b1) \<leftarrow> read_word bs;
     (vote, b2) \<leftarrow> read_word b1;
     if vote \<noteq> u64_MAX \<and> 3 \<le> vote then None
     else do {
       (commit, b3) \<leftarrow> read_word b2;
       (has_snapshot, b4) \<leftarrow> read_flag b3;
       (snapshot, b5) \<leftarrow>
         (if has_snapshot then do {
            (index, c1) \<leftarrow> read_word b4;
            (sterm, c2) \<leftarrow> read_word c1;
            (v, c3) \<leftarrow> read_word c2;
            Some (Some \<lparr>sn_last = \<lparr>li_index = index, li_term = sterm\<rparr>, sn_value = v\<rparr>, c3)
          } else Some (st_snapshot st, b4));
       (has_truncate, b6) \<leftarrow> read_flag b5;
       (trunc, b7) \<leftarrow>
         (if has_truncate then do { (f, c1) \<leftarrow> read_word b6; Some (Some f, c1) } else Some (None, b6));
       (count, b8) \<leftarrow> read_word b7;
       if of_nat CAP < count then None
       else do {
         (es, b9) \<leftarrow> read_entries (unat count) b8;
         if b9 \<noteq> [] then None
         else (case State_restore CAP
                      \<lparr>hs_term = term, hs_voted_for = (if vote \<noteq> u64_MAX then Some (Id vote) else None),
                       hs_commit = commit\<rparr>
                      snapshot
                      (filter (\<lambda>e. (case snapshot of None \<Rightarrow> 0 | Some s \<Rightarrow> li_index (sn_last s)) < li_index (en_id e)
                                 \<and> is_none_or (\<lambda>f. li_index (en_id e) < f) trunc) (State_entries st) @ es) of
                 Err _ \<Rightarrow> None
               | Ok st' \<Rightarrow> Some st')
       }
     }
   }"

section \<open>The journal\<close>

datatype JournalError = Invalid | Reopen | Io

record Journal =
  jr_file :: bytes
  jr_state :: JState
  jr_failed :: bool

text \<open>\<^verbatim>\<open>b"Jarl example v1; voters=0,1,2; id="\<close> followed by the identity.\<close>

definition header_text :: bytes where
  "header_text =
     [0x4A, 0x61, 0x72, 0x6C, 0x20, 0x65, 0x78, 0x61, 0x6D, 0x70, 0x6C, 0x65, 0x20, 0x76, 0x31, 0x3B,
      0x20, 0x76, 0x6F, 0x74, 0x65, 0x72, 0x73, 0x3D, 0x30, 0x2C, 0x31, 0x2C, 0x32, 0x3B, 0x20, 0x69,
      0x64, 0x3D]"

fun journal_header :: "Id \<Rightarrow> bytes" where
  "journal_header (Id i) = header_text @ u64_to_le_bytes i"

text \<open>The loop of \<^verbatim>\<open>open\<close> over the bytes after \<open>offset\<close>; the second result is the unread tail.\<close>

function replay :: "bytes \<Rightarrow> JState \<Rightarrow> (JState \<times> bytes) option" where
  "replay rest st =
     (if length rest < 4 then Some (st, rest)
      else (let len = le_value (take 4 rest)
            in if len = 0 \<or> MAX_FRAME < len then None
               else if length rest < 4 + len + 8 then Some (st, rest)
               else (let payload = take len (drop 4 rest);
                         stored = u64_from_le_bytes (take 8 (drop (4 + len) rest))
                     in if checksum payload \<noteq> stored then None
                        else (case apply_frame st payload of
                                None \<Rightarrow> None
                              | Some st' \<Rightarrow> replay (drop (4 + len + 8) rest) st'))))"
  by pat_completeness auto
termination
  by (relation "measure (\<lambda>(rest, st). length rest)") auto

declare replay.simps [simp del]

definition Journal_open :: "Id \<Rightarrow> bytes \<Rightarrow> JournalError + Journal" where
  "Journal_open i content =
     (let header = journal_header i;
          bs = (if content = [] then header else content)
      in if take (length header) bs \<noteq> header then Inl Invalid
         else (case replay (drop (length header) bs) (State_new CAP) of
                 None \<Rightarrow> Inl Invalid
               | Some (st, tail) \<Rightarrow>
                   Inr \<lparr>jr_file = take (length bs - length tail) bs, jr_state = st, jr_failed = False\<rparr>))"

text \<open>What the operating system does with the frame: everything is written and synchronised, or
  the call fails after some of its bytes.\<close>

datatype WriteOutcome = Written | Torn nat

definition Journal_save :: "WriteOutcome \<Rightarrow> JWrite \<Rightarrow> Journal \<Rightarrow> (JournalError + unit) \<times> Journal" where
  "Journal_save outcome w j =
     (if jr_failed j then (Inl Reopen, j)
      else (let payload = encode w
            in case apply_frame (jr_state j) payload of
                 None \<Rightarrow> (Inl Invalid, j)
               | Some st \<Rightarrow>
                   (case outcome of
                      Torn k \<Rightarrow> (Inl Io, j\<lparr>jr_failed := True, jr_file := jr_file j @ take k (frame payload)\<rparr>)
                    | Written \<Rightarrow>
                        (Inr (), j\<lparr>jr_file := jr_file j @ frame payload, jr_state := st, jr_failed := False\<rparr>))))"

section \<open>Decoding inverts encoding\<close>

lemma read_entries_bytes:
  "read_entries (length es) (concat (map u64_to_le_bytes (concat (map entry_words es))) @ bs) = Some (es, bs)"
proof (induction es)
  case (Cons e es)
  have e: "\<lparr>en_id = \<lparr>li_index = li_index (en_id e), li_term = li_term (en_id e)\<rparr>, en_value = v\<rparr> = e"
    if "en_value e = v" for v
    using that by simp
  show ?case
    by (cases "en_value e") (simp_all add: entry_words_def [of e] Cons e)
qed simp

text \<open>What the format can carry: votes for the three voters, at most a full log of entries.\<close>

definition journal_write_ok :: "JWrite \<Rightarrow> bool" where
  "journal_write_ok w \<longleftrightarrow>
     is_none_or (\<lambda>i. case i of Id x \<Rightarrow> x < 3) (hs_voted_for (w_hard w)) \<and> length (Write_entries w) \<le> CAP"

definition merged :: "('v, 's) Write \<Rightarrow> ('v, 's) State \<Rightarrow> 's Snapshot option \<times> 'v Entry list" where
  "merged w st =
     (let snapshot = (case w_snapshot w of None \<Rightarrow> st_snapshot st | Some s \<Rightarrow> Some s)
      in (snapshot,
          filter (\<lambda>e. (case snapshot of None \<Rightarrow> 0 | Some s \<Rightarrow> li_index (sn_last s)) < li_index (en_id e)
                    \<and> is_none_or (\<lambda>f. li_index (en_id e) < f) (w_truncate_from w)) (State_entries st)
          @ Write_entries w))"

lemma apply_encode:
  assumes ok: "journal_write_ok w"
  shows "apply_frame st (encode w) =
    (case State_restore CAP (w_hard w) (fst (merged w st)) (snd (merged w st)) of Err _ \<Rightarrow> None | Ok st' \<Rightarrow> Some st')"
proof -
  let ?h = "w_hard w"
  define vote where "vote = (case hs_voted_for ?h of None \<Rightarrow> u64_MAX | Some (Id i) \<Rightarrow> i)"
  have vote: "\<not> (vote \<noteq> u64_MAX \<and> 3 \<le> vote)"
    "(if vote \<noteq> u64_MAX then Some (Id vote) else None) = hs_voted_for ?h"
    using ok by (auto simp: vote_def journal_write_ok_def u64 split: option.splits Id.splits)
  have cnt: "unat (of_nat (length (Write_entries w)) :: u64) = length (Write_entries w)"
    "\<not> of_nat CAP < (of_nat (length (Write_entries w)) :: u64)"
    using ok by (simp_all add: journal_write_ok_def CAP_def unat_of_nat word_less_nat_alt)
  have hard: "\<lparr>hs_term = hs_term ?h, hs_voted_for = hs_voted_for ?h, hs_commit = hs_commit ?h\<rparr> = ?h"
    by simp
  have snap: "\<lparr>sn_last = \<lparr>li_index = li_index (sn_last s), li_term = li_term (sn_last s)\<rparr>, sn_value = sn_value s\<rparr> = s"
    for s :: "u64 Snapshot"
    by simp
  show ?thesis
    using vote cnt read_entries_bytes [of "Write_entries w" "[]"]
    by (cases "w_snapshot w"; cases "w_truncate_from w")
      (auto simp: apply_frame_def encode_def write_words_def merged_def hard snap Let_def
        vote_def [symmetric] simp del: read_entries.simps)
qed

lemma encode_length:
  assumes "journal_write_ok w"
  shows "0 < length (encode w)" and "length (encode w) \<le> MAX_FRAME"
proof -
  have "length (concat (map u64_to_le_bytes ws)) = 8 * length ws" for ws
    by (induction ws) auto
  moreover have "length (concat (map entry_words es)) = 4 * length es" for es
    by (induction es) (auto simp: entry_words_def)
  ultimately have "length (encode w) = 8 * (6 + (if w_snapshot w = None then 0 else 3)
      + (if w_truncate_from w = None then 0 else 1) + 4 * length (Write_entries w))"
    by (auto simp: encode_def write_words_def split: option.splits)
  then show "0 < length (encode w)" and "length (encode w) \<le> MAX_FRAME"
    using assms by (auto simp: journal_write_ok_def MAX_FRAME_def CAP_def)
qed

text \<open>Applying a frame is the documented effect of the write.\<close>

lemma merged_durable:
  assumes "State_inv st"
  shows "fst (merged w st) = du_snapshot (Durable_apply w (Durable_of st))"
    and "snd (merged w st) = du_entries (Durable_apply w (Durable_of st))"
proof -
  show "fst (merged w st) = du_snapshot (Durable_apply w (Durable_of st))"
    by (cases "w_snapshot w") (auto simp: merged_def Durable_apply_def Durable_of_def Let_def split: option.splits)
  have "li_index (State_base st) < li_index (en_id e)" if "e \<in> set (State_entries st)" for e
    using log_chain_mem_index [OF State_inv_D(2) [OF assms] that] by (simp add: word_less_nat_alt)
  then have base: "(case st_snapshot st of None \<Rightarrow> 0 | Some s \<Rightarrow> li_index (sn_last s)) < li_index (en_id e)"
    if "e \<in> set (State_entries st)" for e
    using that by (auto simp: State_base_def LogId_default_def split: option.splits)
  show "snd (merged w st) = du_entries (Durable_apply w (Durable_of st))"
    unfolding Durable_apply_entries
    using base
    by (cases "w_snapshot w"; cases "w_truncate_from w")
      (auto simp: merged_def Durable_of_def Let_def filter_id_conv intro!: filter_cong)
qed

lemma Durable_of_eq:
  "Durable_of st = d \<longleftrightarrow> st_hard st = du_hard d \<and> st_snapshot st = du_snapshot d \<and> State_entries st = du_entries d"
  by (cases d) (auto simp: Durable_of_def)

lemma restore_merged:
  assumes inv: "State_inv st"
  shows "State_restore cap (w_hard w) (fst (merged w st)) (snd (merged w st)) = Ok st' \<longleftrightarrow>
    State_inv st' \<and> State_CAP st' = cap \<and> Durable_of st' = Durable_apply w (Durable_of st)"
  unfolding State_restore_Ok merged_durable [OF inv] Durable_of_eq [of st']
  by (auto simp: Durable_apply_def Let_def)

lemma apply_durable:
  assumes inv: "State_inv st" and ok: "journal_write_ok w"
  shows "apply_frame st (encode w) = Some st' \<longleftrightarrow>
    State_inv st' \<and> State_CAP st' = CAP \<and> Durable_of st' = Durable_apply w (Durable_of st)"
  unfolding apply_encode [OF ok] restore_merged [OF inv, symmetric] by (auto split: Result.splits)

text \<open>A vote for an identity that is not a voter of the example is refused. The identity \<open>u64_MAX\<close> has the
  code of no vote.\<close>

lemma apply_other_vote:
  assumes "hs_voted_for (w_hard w) = Some (Id x)" and "3 \<le> x" and "x \<noteq> u64_MAX"
  shows "apply_frame st (encode w) = None"
  using assms by (simp add: apply_frame_def encode_def write_words_def)

section \<open>Recovery\<close>

interpretation journal_frames: frames MAX_FRAME apply_frame "State_new CAP" replay
  by unfold_locales (simp add: MAX_FRAME_def CAP_def, rule replay.simps)

lemma encode_framed: "journal_write_ok w \<Longrightarrow> journal_frames.framed (encode w)"
  unfolding journal_frames.framed_def using encode_length by blast

text \<open>A journal in use: its frames replay to its state.\<close>

definition journal_usable :: "Id \<Rightarrow> Journal \<Rightarrow> bool" where
  "journal_usable i j \<longleftrightarrow>
     \<not> jr_failed j \<and> State_inv (jr_state j) \<and> State_CAP (jr_state j) = CAP
     \<and> (\<exists>rest. jr_file j = journal_header i @ rest \<and> journal_frames.replays rest (jr_state j))"

definition journal_recovered :: "Id \<Rightarrow> Journal \<Rightarrow> (u64, u64) Durable option" where
  "journal_recovered i j =
     (case Journal_open i (jr_file j) of Inl _ \<Rightarrow> None | Inr j' \<Rightarrow> Some (Durable_of (jr_state j')))"

lemma journal_header_ne: "journal_header i \<noteq> []"
  by (cases i) (simp add: header_text_def)

lemma journal_open_replay:
  "Journal_open i (journal_header i @ rest) =
     (case replay rest (State_new CAP) of
        None \<Rightarrow> Inl Invalid
      | Some (st, tail) \<Rightarrow>
          Inr \<lparr>jr_file = take (length (journal_header i @ rest) - length tail) (journal_header i @ rest),
               jr_state = st, jr_failed = False\<rparr>)"
  using journal_header_ne [of i] by (simp add: Journal_open_def Let_def)

lemma journal_reopen:
  assumes "journal_usable i j"
  shows "Journal_open i (jr_file j) = Inr j"
proof -
  obtain rest where rest: "jr_file j = journal_header i @ rest" "journal_frames.replays rest (jr_state j)"
    using assms by (auto simp: journal_usable_def)
  then show ?thesis
    using journal_open_replay [of i rest] journal_frames.replays_all [OF rest(2)] assms
    by (simp add: journal_usable_def)
qed

text \<open>A new file.\<close>

lemma journal_fresh:
  "\<exists>j. Journal_open i [] = Inr j \<and> journal_usable i j \<and> jr_state j = State_new CAP"
  using journal_open_replay [of i "[]"] journal_header_ne [of i]
  by (auto simp: Journal_open_def Let_def journal_frames.replay_nil journal_frames.replays_start journal_usable_def)

text \<open>A save that writes the whole frame.\<close>

lemma journal_save_frame:
  assumes us: "journal_usable i j" and ok: "journal_write_ok w" and st: "apply_frame (jr_state j) (encode w) = Some st"
  shows "journal_usable i (j\<lparr>jr_file := jr_file j @ frame (encode w), jr_state := st, jr_failed := False\<rparr>)"
    and "Durable_of st = Durable_apply w (Durable_of (jr_state j))"
proof -
  have st': "State_inv st" "State_CAP st = CAP" "Durable_of st = Durable_apply w (Durable_of (jr_state j))"
    using apply_durable [OF _ ok, of "jr_state j" st] st us by (auto simp: journal_usable_def)
  then show "Durable_of st = Durable_apply w (Durable_of (jr_state j))"
    by simp
  obtain rest where rest: "jr_file j = journal_header i @ rest" "journal_frames.replays rest (jr_state j)"
    using us by (auto simp: journal_usable_def)
  then show "journal_usable i (j\<lparr>jr_file := jr_file j @ frame (encode w), jr_state := st, jr_failed := False\<rparr>)"
    using journal_frames.replays_frame [OF rest(2) encode_framed [OF ok] st] st'
    by (auto simp: journal_usable_def)
qed

text \<open>A save that is cut short leaves a file that opens with the state before or after it.\<close>

lemma journal_torn:
  assumes us: "journal_usable i j" and ok: "journal_write_ok w" and st: "apply_frame (jr_state j) (encode w) = Some st"
  shows "\<exists>j'. Journal_open i (jr_file j @ take k (frame (encode w))) = Inr j'
    \<and> (jr_state j' = jr_state j \<or> jr_state j' = st)"
proof -
  obtain rest where rest: "jr_file j = journal_header i @ rest" "journal_frames.replays rest (jr_state j)"
    using us by (auto simp: journal_usable_def)
  from journal_frames.replays_torn [OF rest(2) encode_framed [OF ok] st, of k] show ?thesis
    using journal_open_replay [of i "rest @ take k (frame (encode w))"] rest(1) by auto
qed

interpretation journal: storage Journal_save "(=)" "\<lambda>j. Durable_of (jr_state j)" "journal_recovered i"
  "journal_usable i" "\<lambda>w j. journal_write_ok w" for i
proof (unfold_locales, goal_cases)
  case (3 b w io u b')
  then show ?case
    using journal_save_frame [OF 3(1,2)]
    by (auto simp: Journal_save_def Let_def split: if_splits option.splits WriteOutcome.splits)
next
  case (4 b w io e b')
  show ?case
  proof (cases "apply_frame (jr_state b) (encode w)")
    case None
    then show ?thesis
      using 4 journal_reopen [OF 4(1)]
      by (auto simp: Journal_save_def journal_usable_def journal_recovered_def Let_def)
  next
    case (Some st)
    then obtain k where k: "b' = b\<lparr>jr_failed := True, jr_file := jr_file b @ take k (frame (encode w))\<rparr>"
      using 4 by (auto simp: Journal_save_def journal_usable_def Let_def split: WriteOutcome.splits)
    show ?thesis
      using journal_torn [OF 4(1,2) Some, of k] journal_save_frame(2) [OF 4(1,2) Some] k
      by (auto simp: journal_recovered_def)
  qed
next
  case (5 b)
  then show ?case
    by (simp add: journal_recovered_def journal_reopen)
qed (simp_all add: identity_equivp)

section \<open>A node on a journal\<close>

lemma Write_entries_le:
  assumes "log_ok n"
  shows "length (Write_entries (Ready_write n)) \<le> State_CAP (n_state n)"
proof -
  have "length (Write_entries (Ready_write n)) \<le> length (State_entries (n_state n))"
    unfolding Ready_write_def State_write_entries [OF log_okD(2,3) [OF assms]]
    by (simp split: option.splits)
  also have "\<dots> \<le> State_CAP (n_state n)"
    by (rule slots_wf_cap [OF log_okD(2) [OF assms]])
  finally show ?thesis .
qed

text \<open>The voters this journal's format knows.\<close>

definition example_voter :: "Id \<Rightarrow> bool" where
  "example_voter i \<longleftrightarrow> (case i of Id x \<Rightarrow> x < 3)"

lemma node_write_ok:
  assumes "log_ok n" and "State_CAP (n_state n) = CAP"
    and "is_none_or example_voter (hs_voted_for (n_hard n))"
  shows "journal_write_ok (Ready_write n)"
  using assms Write_entries_le [OF assms(1)]
  by (auto simp: journal_write_ok_def Ready_write_def example_voter_def is_none_or_def split: option.splits)

text \<open>The node's write is never refused, and saving it makes the journal hold the node's state.\<close>

lemma journal_saves_node:
  assumes sy: "journal.synced i j n" and cap: "State_CAP (n_state n) = CAP"
    and vote: "is_none_or example_voter (hs_voted_for (n_hard n))"
  obtains j' where "host_persist (Journal_save Written) n j = (Inr (), Ready_persisted n, j')"
    and "journal.synced i j' (Ready_persisted n)" and "jr_state j' = n_state n"
    and "Journal_open i (jr_file j') = Inr j'"
proof -
  have us: "journal_usable i j" and inv: "Node_inv n"
    and d: "Durable_apply (Ready_write n) (Durable_of (jr_state j)) = Durable_of (n_state n)"
    using sy by (simp_all add: journal.synced_def)
  have log: "log_ok n"
    using inv by (simp add: Node_inv_def)
  have ok: "journal_write_ok (Ready_write n)"
    using log cap vote by (rule node_write_ok)
  have "apply_frame (jr_state j) (encode (Ready_write n)) = Some (n_state n)"
    using apply_durable [OF _ ok, of "jr_state j"] us log_okD(1) [OF log] cap d
    by (simp add: journal_usable_def)
  then have "Journal_save Written (Ready_write n) j = (Inr (),
      j\<lparr>jr_file := jr_file j @ frame (encode (Ready_write n)), jr_state := n_state n, jr_failed := False\<rparr>)"
    (is "_ = (_, ?j')") using us by (simp add: Journal_save_def journal_usable_def)
  then have hp: "host_persist (Journal_save Written) n j = (Inr (), Ready_persisted n, ?j')"
    by (simp add: host_persist_def)
  note sy' = journal.synced_persist [OF sy ok hp]
  have "journal_usable i ?j'"
    using sy'(1) unfolding journal.synced_def by blast
  from journal_reopen [OF this] show ?thesis
    using that [OF hp sy'(1)] by simp
qed

text \<open>A write that is cut short leaves a journal that reopens with the old state or the new.\<close>

lemma journal_torn_save:
  assumes sy: "journal.synced i j n" and cap: "State_CAP (n_state n) = CAP"
    and vote: "is_none_or example_voter (hs_voted_for (n_hard n))"
  shows "\<exists>j' j''. Journal_save (Torn k) (Ready_write n) j = (Inl Io, j')
    \<and> Journal_open i (jr_file j') = Inr j'' \<and> (jr_state j'' = jr_state j \<or> jr_state j'' = n_state n)"
proof -
  have us: "journal_usable i j" and inv: "Node_inv n"
    and d: "Durable_apply (Ready_write n) (Durable_of (jr_state j)) = Durable_of (n_state n)"
    using sy by (simp_all add: journal.synced_def)
  have log: "log_ok n"
    using inv by (simp add: Node_inv_def)
  have ok: "journal_write_ok (Ready_write n)"
    using log cap vote by (rule node_write_ok)
  let ?p = "encode (Ready_write n)"
  have ap: "apply_frame (jr_state j) ?p = Some (n_state n)"
    using apply_durable [OF _ ok, of "jr_state j"] us log_okD(1) [OF log] cap d
    by (simp add: journal_usable_def)
  then have sv: "Journal_save (Torn k) (Ready_write n) j =
      (Inl Io, j\<lparr>jr_failed := True, jr_file := jr_file j @ take k (frame ?p)\<rparr>)"
    using us by (simp add: Journal_save_def journal_usable_def)
  show ?thesis
    using sv journal_torn [OF us ok ap, of k] by auto
qed

end
