(* ===== verification/Jarl_Dynamic_Journal.thy ===== *)
theory Jarl_Dynamic_Journal
  imports Jarl_Cluster Jarl_Journal
begin

text \<open>
  The journal of the runtime-membership host, \<^verbatim>\<open>jarl/examples/support/dynamic_journal.rs\<close>: the
  frame discipline of the reference journal around transactions whose entries may be
  configurations and whose snapshots carry one. As there, \<open>None\<close> is the error \<^verbatim>\<open>invalid()\<close> of a
  parsing function and the file is its content.

  A configuration is stored as its three sets of identities and rebuilt by \<^verbatim>\<open>Membership::restore\<close>,
  which may place the members in other slots. What is recovered is therefore the checkpoint up to
  the slot layout of its configurations (\<open>Durable_like\<close>), the equality of \<^verbatim>\<open>Membership\<close>. Up to it
  the journal satisfies the contract of the locale \<open>storage\<close>.
\<close>

section \<open>Transactions as bytes\<close>

type_synonym DValue = "u64 Record"
type_synonym DSnap = "u64 Checkpoint"
type_synonym Disk = "(DValue, DSnap) State"
type_synonym DWrite = "(DValue, DSnap) Write"

definition DYNAMIC_MAX :: usize where
  "DYNAMIC_MAX = 6"

definition DYNAMIC_CAP :: usize where
  "DYNAMIC_CAP = 64"

definition DYNAMIC_MAX_FRAME :: usize where
  "DYNAMIC_MAX_FRAME = 65536"

definition membership_words :: "Membership \<Rightarrow> u64 list" where
  "membership_words m =
     concat (map (\<lambda>set. of_nat (length set) # map id_num set)
       [Membership_voters m, Membership_old_voters m, Membership_learners m])"

fun read_ids :: "nat \<Rightarrow> bytes \<Rightarrow> (Id list \<times> bytes) option" where
  "read_ids 0 bs = Some ([], bs)"
| "read_ids (Suc k) bs = do {
     (i, b1) \<leftarrow> read_word bs;
     (is, rest) \<leftarrow> read_ids k b1;
     Some (Id i # is, rest)
   }"

definition read_set :: "bytes \<Rightarrow> (Id list \<times> bytes) option" where
  "read_set bs = do {
     (count, b1) \<leftarrow> read_word bs;
     if of_nat DYNAMIC_MAX < count then None else read_ids (unat count) b1
   }"

definition read_membership :: "bytes \<Rightarrow> (Membership \<times> bytes) option" where
  "read_membership bs = do {
     (vs, b1) \<leftarrow> read_set bs;
     (old_vs, b2) \<leftarrow> read_set b1;
     (ls, b3) \<leftarrow> read_set b2;
     (case Membership_restore DYNAMIC_MAX vs old_vs ls of
        Err _ \<Rightarrow> None
      | Ok m \<Rightarrow> Some (m, b3))
   }"

definition dynamic_entry_words :: "DValue Entry \<Rightarrow> u64 list" where
  "dynamic_entry_words e =
     [li_index (en_id e), li_term (en_id e)]
     @ (case en_value e of
          None \<Rightarrow> [0]
        | Some (Command v) \<Rightarrow> [1, v]
        | Some (Configuration m) \<Rightarrow> 2 # membership_words m)"

definition dynamic_write_words :: "DWrite \<Rightarrow> u64 list" where
  "dynamic_write_words w =
     [hs_term (w_hard w), u64_of_bool (hs_voted_for (w_hard w) \<noteq> None),
      (case hs_voted_for (w_hard w) of None \<Rightarrow> 0 | Some i \<Rightarrow> id_num i),
      hs_commit (w_hard w), u64_of_bool (w_snapshot w \<noteq> None)]
     @ (case w_snapshot w of
          None \<Rightarrow> []
        | Some s \<Rightarrow> [li_index (sn_last s), li_term (sn_last s), cp_application (sn_value s)]
            @ membership_words (cp_membership (sn_value s)))
     @ [u64_of_bool (w_truncate_from w \<noteq> None)]
     @ (case w_truncate_from w of None \<Rightarrow> [] | Some f \<Rightarrow> [f])
     @ [of_nat (length (Write_entries w))]
     @ concat (map dynamic_entry_words (Write_entries w))"

definition dynamic_encode :: "DWrite \<Rightarrow> bytes" where
  "dynamic_encode w = concat (map u64_to_le_bytes (dynamic_write_words w))"

definition read_value :: "bytes \<Rightarrow> (DValue option \<times> bytes) option" where
  "read_value bs = do {
     (tag, b1) \<leftarrow> read_word bs;
     if tag = 0 then Some (None, b1)
     else if tag = 1 then do { (v, b2) \<leftarrow> read_word b1; Some (Some (Command v), b2) }
     else if tag = 2 then do { (m, b2) \<leftarrow> read_membership b1; Some (Some (Configuration m), b2) }
     else None
   }"

fun read_records :: "nat \<Rightarrow> bytes \<Rightarrow> (DValue Entry list \<times> bytes) option" where
  "read_records 0 bs = Some ([], bs)"
| "read_records (Suc k) bs = do {
     (index, b1) \<leftarrow> read_word bs;
     (term, b2) \<leftarrow> read_word b1;
     (v, b3) \<leftarrow> read_value b2;
     (es, rest) \<leftarrow> read_records k b3;
     Some (\<lparr>en_id = \<lparr>li_index = index, li_term = term\<rparr>, en_value = v\<rparr> # es, rest)
   }"

definition read_snapshot :: "bytes \<Rightarrow> (DSnap Snapshot \<times> bytes) option" where
  "read_snapshot bs = do {
     (index, b1) \<leftarrow> read_word bs;
     (term, b2) \<leftarrow> read_word b1;
     (application, b3) \<leftarrow> read_word b2;
     (m, b4) \<leftarrow> read_membership b3;
     Some (\<lparr>sn_last = \<lparr>li_index = index, li_term = term\<rparr>,
            sn_value = \<lparr>cp_application = application, cp_membership = m\<rparr>\<rparr>, b4)
   }"

definition dynamic_apply :: "Disk \<Rightarrow> bytes \<Rightarrow> Disk option" where
  "dynamic_apply disk bs = do {
     (term, b1) \<leftarrow> read_word bs;
     (voted, b2) \<leftarrow> read_flag b1;
     (vote, b3) \<leftarrow> read_word b2;
     (commit, b4) \<leftarrow> read_word b3;
     (has_snapshot, b5) \<leftarrow> read_flag b4;
     (snapshot, b6) \<leftarrow>
       (if has_snapshot then do { (s, c) \<leftarrow> read_snapshot b5; Some (Some s, c) }
        else Some (st_snapshot disk, b5));
     (has_truncate, b7) \<leftarrow> read_flag b6;
     (trunc, b8) \<leftarrow>
       (if has_truncate then do { (f, c) \<leftarrow> read_word b7; Some (Some f, c) } else Some (None, b7));
     (count, b9) \<leftarrow> read_word b8;
     if of_nat DYNAMIC_CAP < count then None
     else do {
       (es, b10) \<leftarrow> read_records (unat count) b9;
       if b10 \<noteq> [] then None
       else (case State_restore DYNAMIC_CAP
                    \<lparr>hs_term = term, hs_voted_for = (if voted then Some (Id vote) else None), hs_commit = commit\<rparr>
                    snapshot
                    (filter (\<lambda>e. (case snapshot of None \<Rightarrow> 0 | Some s \<Rightarrow> li_index (sn_last s)) < li_index (en_id e)
                               \<and> is_none_or (\<lambda>f. li_index (en_id e) < f) trunc) (State_entries disk) @ es) of
               Err _ \<Rightarrow> None
             | Ok st \<Rightarrow> Some st)
     }
   }"

section \<open>The journal\<close>

record DynamicJournal =
  dj_file :: bytes
  dj_state :: Disk
  dj_failed :: bool

text \<open>\<^verbatim>\<open>b"Jarl dynamic journal v1\0"\<close> followed by the namespace, the identity and the genesis.\<close>

definition dynamic_header_text :: bytes where
  "dynamic_header_text =
     [0x4A, 0x61, 0x72, 0x6C, 0x20, 0x64, 0x79, 0x6E, 0x61, 0x6D, 0x69, 0x63, 0x20, 0x6A, 0x6F, 0x75,
      0x72, 0x6E, 0x61, 0x6C, 0x20, 0x76, 0x31, 0x00]"

definition dynamic_header :: "u64 \<Rightarrow> Id \<Rightarrow> Membership \<Rightarrow> bytes" where
  "dynamic_header namespace i genesis =
     dynamic_header_text @ concat (map u64_to_le_bytes ([namespace, id_num i] @ membership_words genesis))"

function dynamic_replay :: "bytes \<Rightarrow> Disk \<Rightarrow> (Disk \<times> bytes) option" where
  "dynamic_replay rest st =
     (if length rest < 4 then Some (st, rest)
      else (let len = le_value (take 4 rest)
            in if len = 0 \<or> DYNAMIC_MAX_FRAME < len then None
               else if length rest < 4 + len + 8 then Some (st, rest)
               else (let payload = take len (drop 4 rest);
                         stored = u64_from_le_bytes (take 8 (drop (4 + len) rest))
                     in if checksum payload \<noteq> stored then None
                        else (case dynamic_apply st payload of
                                None \<Rightarrow> None
                              | Some st' \<Rightarrow> dynamic_replay (drop (4 + len + 8) rest) st'))))"
  by pat_completeness auto
termination
  by (relation "measure (\<lambda>(rest, st). length rest)") auto

declare dynamic_replay.simps [simp del]

definition DynamicJournal_open ::
    "u64 \<Rightarrow> Id \<Rightarrow> Membership \<Rightarrow> bytes \<Rightarrow> JournalError + DynamicJournal" where
  "DynamicJournal_open namespace i genesis content =
     (let header = dynamic_header namespace i genesis;
          bs = (if content = [] then header else content)
      in if take (length header) bs \<noteq> header then Inl Invalid
         else (case dynamic_replay (drop (length header) bs) (State_new DYNAMIC_CAP) of
                 None \<Rightarrow> Inl Invalid
               | Some (st, tail) \<Rightarrow>
                   Inr \<lparr>dj_file = take (length bs - length tail) bs, dj_state = st, dj_failed = False\<rparr>))"

definition DynamicJournal_save_encoded ::
    "WriteOutcome \<Rightarrow> bytes \<Rightarrow> DynamicJournal \<Rightarrow> (JournalError + unit) \<times> DynamicJournal" where
  "DynamicJournal_save_encoded outcome bs j =
     (if dj_failed j then (Inl Reopen, j)
      else (case dynamic_apply (dj_state j) bs of
              None \<Rightarrow> (Inl Invalid, j)
            | Some st \<Rightarrow>
                if DYNAMIC_MAX_FRAME < length bs then (Inl Invalid, j)
                else (case outcome of
                        Torn k \<Rightarrow> (Inl Io, j\<lparr>dj_failed := True, dj_file := dj_file j @ take k (frame bs)\<rparr>)
                      | Written \<Rightarrow>
                          (Inr (), j\<lparr>dj_file := dj_file j @ frame bs, dj_state := st, dj_failed := False\<rparr>))))"

definition DynamicJournal_save ::
    "WriteOutcome \<Rightarrow> DWrite \<Rightarrow> DynamicJournal \<Rightarrow> (JournalError + unit) \<times> DynamicJournal" where
  "DynamicJournal_save outcome w j = DynamicJournal_save_encoded outcome (dynamic_encode w) j"

section \<open>What is stored of a configuration\<close>

abbreviation word_bytes :: "u64 list \<Rightarrow> bytes" where
  "word_bytes ws \<equiv> concat (map u64_to_le_bytes ws)"

lemma read_ids_bytes: "read_ids (length is) (word_bytes (map id_num is) @ bs) = Some (is, bs)"
  by (induction "is") auto

lemma read_set_bytes:
  assumes "length is \<le> DYNAMIC_MAX"
  shows "read_set (u64_to_le_bytes (of_nat (length is)) @ word_bytes (map id_num is) @ bs) = Some (is, bs)"
proof -
  have "unat (of_nat (length is) :: u64) = length is" "\<not> of_nat DYNAMIC_MAX < (of_nat (length is) :: u64)"
    using assms by (simp_all add: DYNAMIC_MAX_def unat_of_nat word_less_nat_alt)
  then show ?thesis
    using read_ids_bytes [of "is" bs] by (simp add: read_set_def)
qed

text \<open>The configuration that comes back: the same members in the slots \<^verbatim>\<open>restore\<close> gives them.\<close>

definition Membership_stored :: "Membership \<Rightarrow> Membership" where
  "Membership_stored m =
     (case Membership_restore DYNAMIC_MAX (Membership_voters m) (Membership_old_voters m) (Membership_learners m) of
        Err _ \<Rightarrow> m
      | Ok m' \<Rightarrow> m')"

lemma distinct_learners: "distinct_ids m \<Longrightarrow> distinct (Membership_learners m)"
  by (simp add: distinct_ids_def Membership_learners_def distinct_map_filter)

lemma member_list_length:
  "length (Membership_voters m) \<le> Membership_MAX m" "length (Membership_old_voters m) \<le> Membership_MAX m"
  "length (Membership_learners m) \<le> Membership_MAX m"
  unfolding Membership_voters_def Membership_old_voters_def Membership_learners_def length_map
  using length_filter_le [of _ "flatten (mb_members m)"] length_flatten_le [of "mb_members m"]
  by (blast intro: le_trans)+

lemma Membership_stored_restore:
  assumes "Membership_ok DYNAMIC_MAX m"
  shows "Membership_restore DYNAMIC_MAX (Membership_voters m) (Membership_old_voters m) (Membership_learners m)
    = Ok (Membership_stored m)"
proof -
  have wf: "Membership_wf m" and mx: "Membership_MAX m = DYNAMIC_MAX"
    using assms by (simp_all add: Membership_ok_def)
  have "card (Membership_ids m) \<le> DYNAMIC_MAX"
    using card_ids_le [OF Membership_wf_distinct [OF wf]] mx by simp
  then obtain m' where
    "Membership_restore DYNAMIC_MAX (Membership_voters m) (Membership_old_voters m) (Membership_learners m) = Ok m'"
    using wf Membership_restore_defined [of DYNAMIC_MAX "Membership_voters m" "Membership_old_voters m" "Membership_learners m"]
      distinct_voters distinct_old_voters distinct_learners
    by (auto simp: Membership_wf_iff Un_ac)
  then show ?thesis
    by (simp add: Membership_stored_def)
qed

lemma Membership_stored_set:
  assumes "Membership_ok DYNAMIC_MAX m"
  shows "Membership_set (Membership_stored m) = Membership_set m" "Membership_ok DYNAMIC_MAX (Membership_stored m)"
proof -
  note r = Membership_restore_Ok [OF Membership_stored_restore [OF assms]]
  show "Membership_set (Membership_stored m) = Membership_set m"
    using assms r by (intro Membership_set_eqI) (simp_all add: Membership_ok_def)
  show "Membership_ok DYNAMIC_MAX (Membership_stored m)"
    using r by (simp add: Membership_ok_def)
qed

lemma read_membership_bytes:
  assumes "Membership_ok DYNAMIC_MAX m"
  shows "read_membership (word_bytes (membership_words m) @ bs) = Some (Membership_stored m, bs)"
  using read_set_bytes [of "Membership_voters m"] read_set_bytes [of "Membership_old_voters m"]
    read_set_bytes [of "Membership_learners m"] member_list_length [of m] assms
    Membership_stored_restore [OF assms]
  by (simp add: read_membership_def membership_words_def Membership_ok_def)

section \<open>Decoding inverts encoding, up to the slots\<close>

fun Record_stored :: "DValue \<Rightarrow> DValue" where
  "Record_stored (Command v) = Command v"
| "Record_stored (Configuration m) = Configuration (Membership_stored m)"

definition Entry_stored :: "DValue Entry \<Rightarrow> DValue Entry" where
  "Entry_stored e = e\<lparr>en_value := map_option Record_stored (en_value e)\<rparr>"

definition Snapshot_stored :: "DSnap Snapshot \<Rightarrow> DSnap Snapshot" where
  "Snapshot_stored s =
     s\<lparr>sn_value := (sn_value s)\<lparr>cp_membership := Membership_stored (cp_membership (sn_value s))\<rparr>\<rparr>"

definition Write_stored :: "DWrite \<Rightarrow> DWrite" where
  "Write_stored w =
     w\<lparr>w_snapshot := map_option Snapshot_stored (w_snapshot w),
       w_entries := map (map_option Entry_stored) (w_entries w)\<rparr>"

text \<open>What the types of the host guarantee: configurations of six slots, built by the constructors
  of \<^verbatim>\<open>Membership\<close>, and a log of 64.\<close>

abbreviation dynamic_entry_ok :: "DValue Entry \<Rightarrow> bool" where
  "dynamic_entry_ok \<equiv> entry_ok (Some cluster_hooks :: (DValue, DSnap) MembershipHooks option) DYNAMIC_MAX"

abbreviation dynamic_snapshot_ok :: "DSnap Snapshot \<Rightarrow> bool" where
  "dynamic_snapshot_ok \<equiv> snapshot_ok (Some cluster_hooks :: (DValue, DSnap) MembershipHooks option) DYNAMIC_MAX"

definition dynamic_write_ok :: "DWrite \<Rightarrow> bool" where
  "dynamic_write_ok w \<longleftrightarrow>
     list_all dynamic_entry_ok (Write_entries w) \<and> is_none_or dynamic_snapshot_ok (w_snapshot w)
     \<and> length (Write_entries w) \<le> DYNAMIC_CAP"

lemma entry_ok_cases:
  assumes "dynamic_entry_ok e"
  obtains "en_value e = None" | v where "en_value e = Some (Command v)"
  | m where "en_value e = Some (Configuration m)" "Membership_ok DYNAMIC_MAX m"
  using assms
  by (cases "en_value e"; cases "the (en_value e)") (auto simp: entry_ok_def cluster_hooks_def is_none_or_def)

lemma read_value_bytes:
  assumes "dynamic_entry_ok e"
  shows "read_value (word_bytes (drop 2 (dynamic_entry_words e)) @ bs) = Some (en_value (Entry_stored e), bs)"
  using assms
  by (cases rule: entry_ok_cases)
    (simp_all add: read_value_def dynamic_entry_words_def Entry_stored_def read_membership_bytes)

lemma read_records_bytes:
  assumes "list_all dynamic_entry_ok es"
  shows "read_records (length es) (word_bytes (concat (map dynamic_entry_words es)) @ bs)
    = Some (map Entry_stored es, bs)"
  using assms
proof (induction es)
  case (Cons e es)
  have "dynamic_entry_words e = li_index (en_id e) # li_term (en_id e) # drop 2 (dynamic_entry_words e)"
    by (simp add: dynamic_entry_words_def)
  then have words: "word_bytes (dynamic_entry_words e) =
      u64_to_le_bytes (li_index (en_id e)) @ u64_to_le_bytes (li_term (en_id e)) @ word_bytes (drop 2 (dynamic_entry_words e))"
    by (metis (no_types, lifting) concat.simps(2) list.simps(9))
  have "\<lparr>en_id = \<lparr>li_index = li_index (en_id e), li_term = li_term (en_id e)\<rparr>, en_value = en_value (Entry_stored e)\<rparr>
      = Entry_stored e"
    by (simp add: Entry_stored_def)
  then show ?case
    using Cons read_value_bytes [of e] by (simp add: words)
qed simp

lemma read_snapshot_bytes:
  assumes "dynamic_snapshot_ok s"
  shows "read_snapshot (word_bytes ([li_index (sn_last s), li_term (sn_last s), cp_application (sn_value s)]
      @ membership_words (cp_membership (sn_value s))) @ bs) = Some (Snapshot_stored s, bs)"
proof -
  have "Membership_ok DYNAMIC_MAX (cp_membership (sn_value s))"
    using assms by (simp add: snapshot_ok_def cluster_hooks_def)
  from read_membership_bytes [OF this] show ?thesis
    by (simp add: read_snapshot_def Snapshot_stored_def)
qed

lemma Write_stored_simps [simp]:
  "Write_entries (Write_stored w) = map Entry_stored (Write_entries w)"
  "w_hard (Write_stored w) = w_hard w" "w_truncate_from (Write_stored w) = w_truncate_from w"
  "w_snapshot (Write_stored w) = map_option Snapshot_stored (w_snapshot w)"
proof -
  have "flatten (map (map_option f) xs) = map f (flatten xs)" for f :: "DValue Entry \<Rightarrow> DValue Entry" and xs
    by (induction xs rule: flatten.induct) auto
  then show "Write_entries (Write_stored w) = map Entry_stored (Write_entries w)"
    by (simp add: Write_entries_def Write_stored_def)
qed (simp_all add: Write_stored_def)

lemma dynamic_apply_encode:
  assumes ok: "dynamic_write_ok w"
  shows "dynamic_apply st (dynamic_encode w) =
    (case State_restore DYNAMIC_CAP (w_hard w) (fst (merged (Write_stored w) st)) (snd (merged (Write_stored w) st)) of
       Err _ \<Rightarrow> None | Ok st' \<Rightarrow> Some st')"
proof -
  let ?h = "w_hard w"
  have es: "read_records (length (Write_entries w)) (word_bytes (concat (map dynamic_entry_words (Write_entries w))))
      = Some (map Entry_stored (Write_entries w), [])"
    using read_records_bytes [of "Write_entries w" "[]"] ok by (simp add: dynamic_write_ok_def)
  have cnt: "unat (of_nat (length (Write_entries w)) :: u64) = length (Write_entries w)"
    "\<not> of_nat DYNAMIC_CAP < (of_nat (length (Write_entries w)) :: u64)"
    using ok by (simp_all add: dynamic_write_ok_def DYNAMIC_CAP_def unat_of_nat word_less_nat_alt)
  have hard: "\<lparr>hs_term = hs_term ?h, hs_voted_for = (if hs_voted_for ?h \<noteq> None
        then Some (Id (case hs_voted_for ?h of None \<Rightarrow> 0 | Some i \<Rightarrow> id_num i)) else None), hs_commit = hs_commit ?h\<rparr> = ?h"
    by (cases "hs_voted_for ?h") simp_all
  have snap: "read_snapshot (u64_to_le_bytes (li_index (sn_last s)) @ u64_to_le_bytes (li_term (sn_last s))
      @ u64_to_le_bytes (cp_application (sn_value s)) @ word_bytes (membership_words (cp_membership (sn_value s))) @ bs)
      = Some (Snapshot_stored s, bs)" if "w_snapshot w = Some s" for s bs
    using read_snapshot_bytes [of s bs] ok that by (simp add: dynamic_write_ok_def is_none_or_def)
  show ?thesis
    using cnt es hard
    by (cases "w_snapshot w"; cases "w_truncate_from w")
      (auto simp: dynamic_apply_def dynamic_encode_def dynamic_write_words_def merged_def Let_def snap
        simp del: read_records.simps)
qed

lemma dynamic_apply_durable:
  assumes inv: "State_inv st" and ok: "dynamic_write_ok w"
  shows "dynamic_apply st (dynamic_encode w) = Some st' \<longleftrightarrow>
    State_inv st' \<and> State_CAP st' = DYNAMIC_CAP \<and> Durable_of st' = Durable_apply (Write_stored w) (Durable_of st)"
  unfolding dynamic_apply_encode [OF ok]
  using restore_merged [OF inv, of DYNAMIC_CAP "Write_stored w" st'] by (auto split: Result.splits)

section \<open>Content up to the slots\<close>

fun Record_view :: "'v Record \<Rightarrow> 'v + (Member set \<times> usize)" where
  "Record_view (Command v) = Inl v"
| "Record_view (Configuration m) = Inr (Membership_set m, Membership_MAX m)"

definition Entry_view :: "'v Record Entry \<Rightarrow> LogId \<times> ('v + (Member set \<times> usize)) option" where
  "Entry_view e = (en_id e, map_option Record_view (en_value e))"

definition Snapshot_view :: "'s Checkpoint Snapshot \<Rightarrow> LogId \<times> 's \<times> Member set \<times> usize" where
  "Snapshot_view s =
     (sn_last s, cp_application (sn_value s), Membership_set (cp_membership (sn_value s)),
      Membership_MAX (cp_membership (sn_value s)))"

text \<open>Equal hard state, snapshots and entries, where two configurations with the same members are
  equal. By \<open>Membership_eq_iff\<close> this is how the program compares them.\<close>

definition Durable_like :: "('v Record, 's Checkpoint) Durable \<Rightarrow> ('v Record, 's Checkpoint) Durable \<Rightarrow> bool" where
  "Durable_like d d' \<longleftrightarrow>
     du_hard d = du_hard d' \<and> map_option Snapshot_view (du_snapshot d) = map_option Snapshot_view (du_snapshot d')
     \<and> map Entry_view (du_entries d) = map Entry_view (du_entries d')"

lemma Durable_like_equiv: "equivp Durable_like"
  by (rule equivpI) (auto simp: Durable_like_def intro!: reflpI sympI transpI)

lemma view_filter:
  assumes "map Entry_view es = map Entry_view es'"
  shows "map Entry_view (filter (\<lambda>e. P (en_id e)) es) = map Entry_view (filter (\<lambda>e. P (en_id e)) es')"
proof -
  have "map Entry_view (filter (\<lambda>e. P (en_id e)) xs) = filter (\<lambda>v. P (fst v)) (map Entry_view xs)" for xs :: "'a Record Entry list"
    by (induction xs) (auto simp: Entry_view_def)
  with assms show ?thesis
    by presburger
qed

text \<open>The effect of a transaction respects the views of the transaction and of the content.\<close>

definition Write_like :: "('v Record, 's Checkpoint) Write \<Rightarrow> ('v Record, 's Checkpoint) Write \<Rightarrow> bool" where
  "Write_like w w' \<longleftrightarrow>
     w_hard w = w_hard w' \<and> map_option Snapshot_view (w_snapshot w) = map_option Snapshot_view (w_snapshot w')
     \<and> w_truncate_from w = w_truncate_from w'
     \<and> map Entry_view (Write_entries w) = map Entry_view (Write_entries w')"

lemma Durable_like_snapshot:
  assumes "Durable_like d d'" and "Snapshot_view s = Snapshot_view s'"
  shows "Durable_like
    (d\<lparr>du_snapshot := Some s, du_entries := filter (\<lambda>e. li_index (sn_last s) < li_index (en_id e)) (du_entries d)\<rparr>)
    (d'\<lparr>du_snapshot := Some s', du_entries := filter (\<lambda>e. li_index (sn_last s') < li_index (en_id e)) (du_entries d')\<rparr>)"
proof -
  have "sn_last s = sn_last s'"
    using assms(2) by (simp add: Snapshot_view_def)
  then show ?thesis
    using assms view_filter [of "du_entries d" "du_entries d'" "\<lambda>i. li_index (sn_last s') < li_index i"]
    by (simp add: Durable_like_def)
qed

lemma Durable_like_truncate:
  assumes "Durable_like d d'"
  shows "Durable_like (d\<lparr>du_entries := filter (\<lambda>e. li_index (en_id e) < f) (du_entries d)\<rparr>)
    (d'\<lparr>du_entries := filter (\<lambda>e. li_index (en_id e) < f) (du_entries d')\<rparr>)"
  using assms view_filter [of "du_entries d" "du_entries d'" "\<lambda>i. li_index i < f"]
  by (simp add: Durable_like_def)

lemma Durable_like_apply:
  assumes d: "Durable_like d d'" and w: "Write_like w w'"
  shows "Durable_like (Durable_apply w d) (Durable_apply w' d')"
proof -
  define d1 where "d1 = (case w_snapshot w of None \<Rightarrow> d | Some s \<Rightarrow>
      d\<lparr>du_snapshot := Some s, du_entries := filter (\<lambda>e. li_index (sn_last s) < li_index (en_id e)) (du_entries d)\<rparr>)"
  define d1' where "d1' = (case w_snapshot w' of None \<Rightarrow> d' | Some s \<Rightarrow>
      d'\<lparr>du_snapshot := Some s, du_entries := filter (\<lambda>e. li_index (sn_last s) < li_index (en_id e)) (du_entries d')\<rparr>)"
  have d1: "Durable_like d1 d1'"
    using d w Durable_like_snapshot [OF d]
    by (cases "w_snapshot w"; cases "w_snapshot w'") (auto simp: d1_def d1'_def Write_like_def)
  define cut where "cut = (\<lambda>x :: ('a Record, 'b Checkpoint) Durable. case w_truncate_from w' of None \<Rightarrow> x
      | Some f \<Rightarrow> x\<lparr>du_entries := filter (\<lambda>e. li_index (en_id e) < f) (du_entries x)\<rparr>)"
  have "Durable_like (cut d1) (cut d1')"
    using d1 Durable_like_truncate [OF d1] by (simp add: cut_def split: option.split)
  then show ?thesis
    using w unfolding Durable_apply_def d1_def [symmetric] d1'_def [symmetric] Let_def
    by (simp add: Durable_like_def Write_like_def cut_def)
qed

lemma Membership_stored_view:
  assumes "Membership_ok DYNAMIC_MAX m"
  shows "Membership_set (Membership_stored m) = Membership_set m" "Membership_MAX (Membership_stored m) = Membership_MAX m"
  using Membership_stored_set [OF assms] assms by (simp_all add: Membership_ok_def)

lemma Entry_stored_view: "dynamic_entry_ok e \<Longrightarrow> Entry_view (Entry_stored e) = Entry_view e"
  by (erule entry_ok_cases) (simp_all add: Entry_view_def Entry_stored_def Membership_stored_view)

lemma Snapshot_stored_view: "dynamic_snapshot_ok s \<Longrightarrow> Snapshot_view (Snapshot_stored s) = Snapshot_view s"
  using Membership_stored_view [of "cp_membership (sn_value s)"]
  by (simp add: Snapshot_view_def Snapshot_stored_def snapshot_ok_def cluster_hooks_def)

lemma Write_stored_like: "dynamic_write_ok w \<Longrightarrow> Write_like (Write_stored w) w"
  using Entry_stored_view Snapshot_stored_view
  by (cases "w_snapshot w") (simp_all add: dynamic_write_ok_def Write_like_def list_all_iff)

lemma Durable_like_refl: "Durable_like d d"
  by (simp add: Durable_like_def)

lemma Write_like_refl: "Write_like w w"
  by (simp add: Write_like_def)

lemmas stored_like = Durable_like_apply [OF Durable_like_refl Write_stored_like]

text \<open>Whether content is that of a checkpoint depends on its view only.\<close>

lemma log_chain_view:
  assumes "map en_id es = map en_id es'"
  shows "log_chain b es = log_chain b es'" and "log_last b es = log_last b es'"
proof -
  show "log_chain b es = log_chain b es'"
    using assms
  proof (induction es arbitrary: es' b)
    case (Cons e es)
    then obtain f fs where "es' = f # fs" "en_id f = en_id e" "map en_id es = map en_id fs"
      by (cases es') auto
    with Cons.IH [of fs] show ?case
      by simp
  qed simp
  show "log_last b es = log_last b es'"
    using assms by (cases es rule: rev_cases; cases es' rule: rev_cases) auto
qed

lemma State_of_view:
  assumes inv: "State_inv st" and like: "Durable_like (Durable_of st) d"
  obtains st' where "State_inv st'" "State_CAP st' = State_CAP st" "Durable_of st' = d"
proof -
  define es where "es = du_entries d"
  have view: "map Entry_view (State_entries st) = map Entry_view es"
    using like by (simp add: Durable_like_def Durable_of_def es_def)
  have ids: "map en_id (State_entries st) = map en_id es"
    using arg_cong [OF view, of "map fst"] by (simp add: Entry_view_def comp_def)
  then have len: "length es = length (State_entries st)"
    by (metis length_map)
  let ?st' = "\<lparr>st_hard = du_hard d, st_snapshot = du_snapshot d,
      st_entries = map Some es @ replicate (State_CAP st - length es) None, st_len = length es\<rparr>"
  have cap: "length es \<le> State_CAP st"
    using slots_wf_cap [of st] State_inv_D(1) [OF inv] len by simp
  have entries: "State_entries ?st' = es"
    by (simp add: State_entries_def flatten_map_Some)
  have base: "State_base ?st' = State_base st" "st_hard st = du_hard d" "(du_snapshot d = None) = (st_snapshot st = None)"
    using like by (auto simp: Durable_like_def Durable_of_def State_base_def Snapshot_view_def split: option.splits)
  have "State_inv ?st'"
    using inv cap log_chain_view [OF ids] base
    by (auto simp: State_inv_def slots_wf_def entries State_last_def list_all_iff)
  moreover have "Durable_of ?st' = d"
    using entries by (simp add: Durable_of_eq es_def)
  ultimately show ?thesis
    using cap by (intro that [of ?st']) simp_all
qed

section \<open>Size of a transaction\<close>

lemma membership_words_length:
  "Membership_MAX m = DYNAMIC_MAX \<Longrightarrow> length (membership_words m) \<le> 21"
  using member_list_length [of m] by (simp add: membership_words_def DYNAMIC_MAX_def)

lemma entry_words_length: "dynamic_entry_ok e \<Longrightarrow> length (dynamic_entry_words e) \<le> 24"
  using membership_words_length
  by (erule_tac entry_ok_cases) (auto simp: dynamic_entry_words_def Membership_ok_def)

lemma dynamic_encode_length:
  assumes ok: "dynamic_write_ok w"
  shows "0 < length (dynamic_encode w)" and "length (dynamic_encode w) \<le> DYNAMIC_MAX_FRAME"
proof -
  have bytes: "length (word_bytes ws) = 8 * length ws" for ws
    by (induction ws) auto
  have "length (concat (map dynamic_entry_words es)) \<le> 24 * length es" if "list_all dynamic_entry_ok es" for es
    using that entry_words_length by (induction es) fastforce+
  from this [of "Write_entries w"] have "length (concat (map dynamic_entry_words (Write_entries w))) \<le> 24 * 64"
    using ok by (simp add: dynamic_write_ok_def DYNAMIC_CAP_def)
  moreover have "length (membership_words (cp_membership (sn_value s))) \<le> 21" if "w_snapshot w = Some s" for s
    using ok that membership_words_length
    by (auto simp: dynamic_write_ok_def snapshot_ok_def cluster_hooks_def Membership_ok_def)
  ultimately have "length (dynamic_write_words w) \<le> 32 + 24 * 64"
    by (auto simp: dynamic_write_words_def split: option.split)
  then show "0 < length (dynamic_encode w)" and "length (dynamic_encode w) \<le> DYNAMIC_MAX_FRAME"
    unfolding dynamic_encode_def bytes by (simp_all add: DYNAMIC_MAX_FRAME_def, simp add: dynamic_write_words_def)
qed

section \<open>Recovery\<close>

interpretation dynamic_frames: frames DYNAMIC_MAX_FRAME dynamic_apply "State_new DYNAMIC_CAP" dynamic_replay
  by unfold_locales (simp add: DYNAMIC_MAX_FRAME_def, rule dynamic_replay.simps)

lemma dynamic_framed: "dynamic_write_ok w \<Longrightarrow> dynamic_frames.framed (dynamic_encode w)"
  unfolding dynamic_frames.framed_def using dynamic_encode_length by blast

definition dynamic_usable :: "bytes \<Rightarrow> DynamicJournal \<Rightarrow> bool" where
  "dynamic_usable header j \<longleftrightarrow>
     \<not> dj_failed j \<and> State_inv (dj_state j) \<and> State_CAP (dj_state j) = DYNAMIC_CAP
     \<and> (\<exists>rest. dj_file j = header @ rest \<and> dynamic_frames.replays rest (dj_state j))"

definition dynamic_recovered ::
    "u64 \<Rightarrow> Id \<Rightarrow> Membership \<Rightarrow> DynamicJournal \<Rightarrow> (DValue, DSnap) Durable option" where
  "dynamic_recovered ns i g j =
     (case DynamicJournal_open ns i g (dj_file j) of Inl _ \<Rightarrow> None | Inr j' \<Rightarrow> Some (Durable_of (dj_state j')))"

lemma dynamic_header_ne: "dynamic_header ns i g \<noteq> []"
  by (simp add: dynamic_header_def dynamic_header_text_def)

lemma dynamic_open_replay:
  "DynamicJournal_open ns i g (dynamic_header ns i g @ rest) =
     (case dynamic_replay rest (State_new DYNAMIC_CAP) of
        None \<Rightarrow> Inl Invalid
      | Some (st, tail) \<Rightarrow>
          Inr \<lparr>dj_file = take (length (dynamic_header ns i g @ rest) - length tail) (dynamic_header ns i g @ rest),
               dj_state = st, dj_failed = False\<rparr>)"
  using dynamic_header_ne [of ns i g] by (simp add: DynamicJournal_open_def Let_def)

lemma dynamic_reopen:
  assumes "dynamic_usable (dynamic_header ns i g) j"
  shows "DynamicJournal_open ns i g (dj_file j) = Inr j"
proof -
  obtain rest where rest: "dj_file j = dynamic_header ns i g @ rest" "dynamic_frames.replays rest (dj_state j)"
    using assms by (auto simp: dynamic_usable_def)
  then show ?thesis
    using dynamic_open_replay [of ns i g rest] dynamic_frames.replays_all [OF rest(2)] assms
    by (simp add: dynamic_usable_def)
qed

lemma dynamic_fresh:
  "\<exists>j. DynamicJournal_open ns i g [] = Inr j \<and> dynamic_usable (dynamic_header ns i g) j
    \<and> dj_state j = State_new DYNAMIC_CAP"
proof -
  have "DynamicJournal_open ns i g [] = DynamicJournal_open ns i g (dynamic_header ns i g @ [])"
    using dynamic_header_ne [of ns i g] by (simp add: DynamicJournal_open_def Let_def)
  then show ?thesis
    unfolding dynamic_open_replay
    by (auto simp: dynamic_frames.replay_nil dynamic_frames.replays_start dynamic_usable_def)
qed

text \<open>A save on a usable journal, by what reaches the file.\<close>

lemma dynamic_save_written:
  assumes us: "dynamic_usable header j" and ok: "dynamic_write_ok w"
    and st: "dynamic_apply (dj_state j) (dynamic_encode w) = Some st"
  shows "DynamicJournal_save Written w j =
      (Inr (), j\<lparr>dj_file := dj_file j @ frame (dynamic_encode w), dj_state := st, dj_failed := False\<rparr>)"
    and "dynamic_usable header
      (j\<lparr>dj_file := dj_file j @ frame (dynamic_encode w), dj_state := st, dj_failed := False\<rparr>)"
    and "Durable_like (Durable_of st) (Durable_apply w (Durable_of (dj_state j)))"
proof -
  let ?j' = "j\<lparr>dj_file := dj_file j @ frame (dynamic_encode w), dj_state := st, dj_failed := False\<rparr>"
  show "DynamicJournal_save Written w j = (Inr (), ?j')"
    using us st dynamic_encode_length(2) [OF ok]
    by (simp add: DynamicJournal_save_def DynamicJournal_save_encoded_def dynamic_usable_def)
  have st': "State_inv st" "State_CAP st = DYNAMIC_CAP"
    "Durable_of st = Durable_apply (Write_stored w) (Durable_of (dj_state j))"
    using dynamic_apply_durable [OF _ ok, of "dj_state j" st] st us by (auto simp: dynamic_usable_def)
  show "Durable_like (Durable_of st) (Durable_apply w (Durable_of (dj_state j)))"
    unfolding st'(3) by (rule stored_like [OF ok])
  obtain rest where rest: "dj_file j = header @ rest" "dynamic_frames.replays rest (dj_state j)"
    using us by (auto simp: dynamic_usable_def)
  then show "dynamic_usable header ?j'"
    using dynamic_frames.replays_frame [OF rest(2) dynamic_framed [OF ok] st] st'
    by (auto simp: dynamic_usable_def)
qed

lemma dynamic_save_torn:
  assumes us: "dynamic_usable (dynamic_header ns i g) j" and ok: "dynamic_write_ok w"
    and st: "dynamic_apply (dj_state j) (dynamic_encode w) = Some st"
  shows "\<exists>j' j''. DynamicJournal_save (Torn k) w j = (Inl Io, j')
    \<and> DynamicJournal_open ns i g (dj_file j') = Inr j'' \<and> (dj_state j'' = dj_state j \<or> dj_state j'' = st)"
proof -
  have sv: "DynamicJournal_save (Torn k) w j =
      (Inl Io, j\<lparr>dj_failed := True, dj_file := dj_file j @ take k (frame (dynamic_encode w))\<rparr>)"
    using us st dynamic_encode_length(2) [OF ok]
    by (simp add: DynamicJournal_save_def DynamicJournal_save_encoded_def dynamic_usable_def)
  obtain rest where rest: "dj_file j = dynamic_header ns i g @ rest" "dynamic_frames.replays rest (dj_state j)"
    using us by (auto simp: dynamic_usable_def)
  from dynamic_frames.replays_torn [OF rest(2) dynamic_framed [OF ok] st, of k] show ?thesis
    using sv dynamic_open_replay [of ns i g "rest @ take k (frame (dynamic_encode w))"] rest(1) by auto
qed

lemma dynamic_save_refused:
  assumes "dynamic_apply (dj_state j) (dynamic_encode w) = None" and "\<not> dj_failed j"
  shows "DynamicJournal_save io w j = (Inl Invalid, j)"
  using assms by (simp add: DynamicJournal_save_def DynamicJournal_save_encoded_def)

interpretation dynamic: storage DynamicJournal_save Durable_like "\<lambda>j. Durable_of (dj_state j)"
  "dynamic_recovered ns i g" "dynamic_usable (dynamic_header ns i g)" "\<lambda>w j. dynamic_write_ok w" for ns i g
proof (unfold_locales, goal_cases)
  case 1
  show ?case by (rule Durable_like_equiv)
next
  case (2 d d' w)
  then show ?case by (rule Durable_like_apply [OF _ Write_like_refl])
next
  case (3 b w io u b')
  show ?case
  proof (cases "dynamic_apply (dj_state b) (dynamic_encode w)")
    case None
    then show ?thesis
      using 3 dynamic_save_refused [OF None] by (simp add: dynamic_usable_def)
  next
    case (Some st)
    have "io \<noteq> Torn k" for k
      using 3(3) dynamic_save_torn [OF 3(1,2) Some, of k] by auto
    then have "io = Written"
      by (cases io) auto
    then show ?thesis
      using 3(3) dynamic_save_written [OF 3(1,2) Some] by auto
  qed
next
  case (4 b w io e b')
  show ?case
  proof (cases "dynamic_apply (dj_state b) (dynamic_encode w)")
    case None
    then show ?thesis
      using 4 dynamic_save_refused [OF None] dynamic_reopen [OF 4(1)]
      by (simp add: dynamic_usable_def dynamic_recovered_def)
  next
    case (Some st)
    then obtain k where "io = Torn k"
      using 4 dynamic_save_written(1) [OF 4(1,2) Some] by (cases io) simp_all
    then show ?thesis
      using 4(3) dynamic_save_torn [OF 4(1,2) Some, of k] dynamic_save_written(3) [OF 4(1,2) Some]
      by (auto simp: dynamic_recovered_def)
  qed
next
  case (5 b)
  then show ?case
    by (simp add: dynamic_recovered_def dynamic_reopen)
qed

section \<open>A cluster on its journal\<close>

lemma cluster_write_ok:
  assumes inv: "Cluster_inv c" and n: "Node_N c = DYNAMIC_MAX" and cap: "State_CAP (n_state c) = DYNAMIC_CAP"
  shows "dynamic_write_ok (Ready_write c)"
proof -
  note log = Cluster_invD(3) [OF inv] and hooks = Cluster_invD(2) [OF inv]
  have pay: "payloads_ok (Some cluster_hooks) DYNAMIC_MAX (n_state c)"
    using log hooks n by (simp add: log_ok_def)
  have "set (Write_entries (Ready_write c)) \<subseteq> set (State_entries (n_state c))"
    unfolding Ready_write_def State_write_entries [OF log_okD(2,3) [OF log]] by (auto split: option.splits)
  then show ?thesis
    using pay Write_entries_le [OF log] cap
    by (auto simp: dynamic_write_ok_def payloads_ok_def list_all_iff Ready_write_def State_write_def Let_def)
qed

lemma cluster_apply:
  assumes sy: "dynamic.synced ns i g j c" and inv: "Cluster_inv c"
    and n: "Node_N c = DYNAMIC_MAX" and cap: "State_CAP (n_state c) = DYNAMIC_CAP"
  obtains st where "dynamic_apply (dj_state j) (dynamic_encode (Ready_write c)) = Some st"
    and "Durable_like (Durable_of st) (Durable_of (n_state c))"
proof -
  note ok = cluster_write_ok [OF inv n cap]
  let ?d = "Durable_of (dj_state j)" and ?w = "Ready_write c"
  have us: "dynamic_usable (dynamic_header ns i g) j"
    and like: "Durable_like (Durable_apply ?w ?d) (Durable_of (n_state c))"
    using sy by (simp_all add: dynamic.synced_def)
  have stored: "Durable_like (Durable_apply (Write_stored ?w) ?d) (Durable_of (n_state c))"
    using dynamic.same_trans [OF stored_like [OF ok] like] .
  have "State_inv (n_state c)"
    using Cluster_invD(3) [OF inv] by (rule log_okD(1))
  from State_of_view [OF this dynamic.same_sym [OF stored]] obtain st where st: "State_inv st"
    "State_CAP st = State_CAP (n_state c)" "Durable_of st = Durable_apply (Write_stored ?w) ?d" .
  have "dynamic_apply (dj_state j) (dynamic_encode ?w) = Some st"
    using dynamic_apply_durable [OF _ ok, of "dj_state j" st] us st cap by (simp add: dynamic_usable_def)
  moreover have "Durable_like (Durable_of st) (Durable_of (n_state c))"
    unfolding st(3) by (rule stored)
  ultimately show ?thesis
    by (rule that)
qed

text \<open>The write of a cluster is never refused; saving it makes the journal hold the cluster's
  checkpoint, and cutting the save short leaves the old content or the new.\<close>

lemma dynamic_saves_cluster:
  assumes sy: "dynamic.synced ns i g j c" and inv: "Cluster_inv c"
    and n: "Node_N c = DYNAMIC_MAX" and cap: "State_CAP (n_state c) = DYNAMIC_CAP"
  obtains j' where "host_persist (DynamicJournal_save Written) c j = (Inr (), Ready_persisted c, j')"
    and "dynamic.synced ns i g j' (Ready_persisted c)" and "DynamicJournal_open ns i g (dj_file j') = Inr j'"
    and "Durable_like (Durable_of (dj_state j')) (Durable_of (n_state c))"
proof -
  note ok = cluster_write_ok [OF inv n cap]
  have us: "dynamic_usable (dynamic_header ns i g) j"
    using sy by (simp add: dynamic.synced_def)
  obtain st where st: "dynamic_apply (dj_state j) (dynamic_encode (Ready_write c)) = Some st"
    "Durable_like (Durable_of st) (Durable_of (n_state c))"
    by (rule cluster_apply [OF assms])
  note sv = dynamic_save_written [OF us ok st(1)]
  let ?j' = "j\<lparr>dj_file := dj_file j @ frame (dynamic_encode (Ready_write c)), dj_state := st, dj_failed := False\<rparr>"
  have hp: "host_persist (DynamicJournal_save Written) c j = (Inr (), Ready_persisted c, ?j')"
    using sv(1) by (simp add: host_persist_def)
  show ?thesis
    using that [OF hp dynamic.synced_persist(1) [OF sy ok hp] dynamic_reopen [OF sv(2)]] st(2) by simp
qed

lemma dynamic_torn_cluster:
  assumes sy: "dynamic.synced ns i g j c" and inv: "Cluster_inv c"
    and n: "Node_N c = DYNAMIC_MAX" and cap: "State_CAP (n_state c) = DYNAMIC_CAP"
  shows "\<exists>j' j''. DynamicJournal_save (Torn k) (Ready_write c) j = (Inl Io, j')
    \<and> DynamicJournal_open ns i g (dj_file j') = Inr j''
    \<and> (dj_state j'' = dj_state j \<or> Durable_like (Durable_of (dj_state j'')) (Durable_of (n_state c)))"
proof -
  have us: "dynamic_usable (dynamic_header ns i g) j"
    using sy by (simp add: dynamic.synced_def)
  obtain st where st: "dynamic_apply (dj_state j) (dynamic_encode (Ready_write c)) = Some st"
    "Durable_like (Durable_of st) (Durable_of (n_state c))"
    by (rule cluster_apply [OF assms])
  from dynamic_save_torn [OF us cluster_write_ok [OF inv n cap] st(1), of k] st(2) show ?thesis
    by fastforce
qed

end
