(* ===== verification/Jarl_Examples.thy ===== *)
theory Jarl_Examples
  imports Jarl_Dynamic_Journal "HOL-Library.Code_Target_Nat"
begin

text \<open>
  Concrete nodes, clusters and journals at which the properties of the development are applied:
  a follower and a leader of the three-voter configuration of the examples, and a leader of a
  dynamic cluster, and a leader of the runtime-membership host with a configuration to save. The
  invariants are evaluated on them.
\<close>

definition demo_config :: Config where
  "demo_config = Config_new (Id 0) [Id 0, Id 1, Id 2]"

definition voter :: "Id \<Rightarrow> Member" where
  "voter i = \<lparr>m_id = i, m_voter = True, m_old = False, m_learner = False\<rparr>"

definition demo_membership :: Membership where
  "demo_membership = \<lparr>mb_members = [Some (voter (Id 0)), Some (voter (Id 1)), Some (voter (Id 2))]\<rparr>"

definition demo_node :: "(u64, u64) Node" where
  "demo_node =
     \<lparr>n_config = demo_config, n_state = State_new 8, n_role = Follower, n_leader = None, n_local = 0,
      n_membership = demo_membership, n_bootstrap = demo_membership, n_hooks = None,
      n_peers = [Some (Id 0), Some (Id 1), Some (Id 2)], n_votes = [False, False, False],
      n_next = [1, 1, 1], n_matched = [0, 0, 0], n_outbox = [None, None, None], n_dirty = False,
      n_log_from = None, n_snapshot_changed = False, n_elapsed = 0, n_election_deadline = 12,
      n_random = 0, n_prevoting = None, n_leader_age = u64_MAX, n_quorum_elapsed = 0,
      n_active = [False, False, False], n_extra_reply = None, n_request_from = None\<rparr>"

text \<open>A leader of term 1 whose barrier is committed.\<close>

definition demo_state :: "('v, 's) State" where
  "demo_state =
     \<lparr>st_hard = \<lparr>hs_term = 1, hs_voted_for = Some (Id 0), hs_commit = 1\<rparr>, st_snapshot = None,
      st_entries = Some \<lparr>en_id = \<lparr>li_index = 1, li_term = 1\<rparr>, en_value = None\<rparr> # replicate 7 None,
      st_len = 1\<rparr>"

definition demo_checkpoint :: "(u64, u64) State" where
  "demo_checkpoint = demo_state"

definition demo_leader :: "(u64, u64) Node" where
  "demo_leader =
     demo_node\<lparr>n_role := Leader, n_leader := Some (Id 0), n_state := demo_state,
       n_next := [2, 2, 2], n_matched := [1, 1, 1]\<rparr>"

text \<open>The same leader of a dynamic cluster.\<close>

definition demo_cluster :: "(u64, u64) Cluster" where
  "demo_cluster =
     \<lparr>n_config = demo_config, n_state = demo_state, n_role = Leader, n_leader = Some (Id 0), n_local = 0,
      n_membership = demo_membership, n_bootstrap = demo_membership, n_hooks = Some cluster_hooks,
      n_peers = [Some (Id 0), Some (Id 1), Some (Id 2)], n_votes = [True, True, False],
      n_next = [2, 2, 2], n_matched = [1, 1, 1], n_outbox = [None, None, None], n_dirty = False,
      n_log_from = None, n_snapshot_changed = False, n_elapsed = 0, n_election_deadline = 12,
      n_random = 0, n_prevoting = None, n_leader_age = u64_MAX, n_quorum_elapsed = 0,
      n_active = [False, False, False], n_extra_reply = None, n_request_from = None\<rparr>"

text \<open>The cluster after its joint configuration, of the same voters, is committed.\<close>

definition demo_joint_membership :: Membership where
  "demo_joint_membership =
     \<lparr>mb_members = map (\<lambda>i. Some ((voter i)\<lparr>m_old := True\<rparr>)) [Id 0, Id 1, Id 2]\<rparr>"

definition demo_joint :: "(u64, u64) Cluster" where
  "demo_joint =
     demo_cluster\<lparr>n_membership := demo_joint_membership,
       n_state :=
         \<lparr>st_hard = \<lparr>hs_term = 1, hs_voted_for = Some (Id 0), hs_commit = 2\<rparr>, st_snapshot = None,
          st_entries = [Some \<lparr>en_id = \<lparr>li_index = 1, li_term = 1\<rparr>, en_value = None\<rparr>,
            Some \<lparr>en_id = \<lparr>li_index = 2, li_term = 1\<rparr>, en_value = Some (Configuration demo_joint_membership)\<rparr>]
            @ replicate 6 None,
          st_len = 2\<rparr>,
       n_next := [3, 3, 3], n_matched := [2, 2, 2]\<rparr>"

text \<open>A leader with six slots and 64 entries that has a configuration to save. Its members are not
  in the first slots.\<close>

definition sparse_membership :: Membership where
  "sparse_membership = \<lparr>mb_members = [None, Some (voter (Id 1)), None, Some (voter (Id 0)), None, None]\<rparr>"

definition demo_dynamic :: "(u64, u64) Cluster" where
  "demo_dynamic =
     \<lparr>n_config = demo_config,
      n_state =
        \<lparr>st_hard = \<lparr>hs_term = 1, hs_voted_for = Some (Id 0), hs_commit = 0\<rparr>, st_snapshot = None,
         st_entries = [Some \<lparr>en_id = \<lparr>li_index = 1, li_term = 1\<rparr>, en_value = None\<rparr>,
           Some \<lparr>en_id = \<lparr>li_index = 2, li_term = 1\<rparr>, en_value = Some (Configuration sparse_membership)\<rparr>]
           @ replicate 62 None,
         st_len = 2\<rparr>,
      n_role = Leader, n_leader = Some (Id 0), n_local = 3,
      n_membership = sparse_membership, n_bootstrap = sparse_membership, n_hooks = Some cluster_hooks,
      n_peers = [None, Some (Id 1), None, Some (Id 0), None, None], n_votes = replicate 6 False,
      n_next = replicate 6 1, n_matched = replicate 6 0, n_outbox = replicate 6 None, n_dirty = True,
      n_log_from = Some 1, n_snapshot_changed = False, n_elapsed = 0, n_election_deadline = 12,
      n_random = 0, n_prevoting = None, n_leader_age = u64_MAX, n_quorum_elapsed = 0,
      n_active = replicate 6 False, n_extra_reply = None, n_request_from = None\<rparr>"

text \<open>A request the follower can receive.\<close>

definition demo_append :: "(u64, u64) Envelope" where
  "demo_append =
     \<lparr>env_from = Id 1, env_to = Id 0,
      env_message = Append 1 LogId_default
        (Some \<lparr>en_id = \<lparr>li_index = 1, li_term = 1\<rparr>, en_value = Some 7\<rparr>) 0\<rparr>"

lemma demo_node_inv: "Node_inv demo_node"
  by code_simp

lemma demo_node_available: "Node_available demo_node = Ok ()"
  by code_simp

lemma demo_leader_inv: "Node_inv demo_leader"
  by code_simp

lemma demo_leader_available: "Node_available demo_leader = Ok ()"
  by code_simp

lemma demo_leader_admissible: "admissible 2 demo_leader"
  by code_simp

lemma demo_cluster_inv: "Node_inv demo_cluster"
  by code_simp

lemma demo_cluster_hooks: "n_hooks demo_cluster = Some cluster_hooks"
  by (simp add: demo_cluster_def)

lemma demo_joint_inv: "Cluster_inv demo_joint"
proof -
  have "Node_inv demo_joint"
    by code_simp
  then show ?thesis
    by (simp add: Cluster_inv_def demo_joint_def demo_cluster_def)
qed

lemma demo_append_ok: "message_ok (n_hooks demo_node) (Node_N demo_node) (env_message demo_append)"
  by code_simp

lemma demo_dynamic_inv: "Cluster_inv demo_dynamic"
proof -
  have "Node_inv demo_dynamic"
    by code_simp
  then show ?thesis
    by (simp add: Cluster_inv_def demo_dynamic_def)
qed

lemma demo_dynamic_sizes: "Node_N demo_dynamic = DYNAMIC_MAX" "State_CAP (n_state demo_dynamic) = DYNAMIC_CAP"
  by code_simp+

lemma demo_dynamic_write:
  "Durable_apply (Ready_write demo_dynamic) (Durable_of (State_new DYNAMIC_CAP)) = Durable_of (n_state demo_dynamic)"
  by code_simp

end
