(* ===== verification/Provium_IR.thy ===== *)
theory Provium_IR
  imports Jarl_Prelude
begin

text \<open>
  The scalar intermediate representation of \<^verbatim>\<open>provium/src/ir.rs\<close> and its evaluator. Variables are
  de Bruijn indices into the environment. The evaluator computes in \<^verbatim>\<open>u128\<close>: such a value is a
  natural number here, and an operation that would leave the range of \<^verbatim>\<open>u128\<close> panics, so the
  evaluator returns \<open>None\<close> for a panic and otherwise a value or a fault.

  The lemmas show that the evaluator never panics, that on well-typed expressions it yields a
  value of the expression's type or one of the faults a checked Rust program can have, that
  its operators are those of machine words, and that renaming variables by \<open>map_free\<close>
  commutes with evaluation.
\<close>

section \<open>Data\<close>

datatype Ty = TyBool | TyU8 | TyU16 | TyU32 | TyU64 | TyUsize

fun Ty_bits :: "u32 \<Rightarrow> Ty \<Rightarrow> u32 option" where
  "Ty_bits usize_bits TyBool = None"
| "Ty_bits usize_bits TyU8 = Some 8"
| "Ty_bits usize_bits TyU16 = Some 16"
| "Ty_bits usize_bits TyU32 = Some 32"
| "Ty_bits usize_bits TyU64 = Some 64"
| "Ty_bits usize_bits TyUsize = Some usize_bits"

datatype Op =
    OpAdd | OpSub | OpMul | OpDiv | OpRem | OpEq | OpNe | OpLt | OpLe | OpGt | OpGe | OpMin | OpMax
  | OpSaturatingAdd | OpSaturatingSub | OpWrappingAdd | OpWrappingSub | OpWrappingMul
  | OpBitAnd | OpBitOr | OpBitXor | OpShl | OpShr

fun Op_lean :: "Op \<Rightarrow> string" where
  "Op_lean OpAdd = ''add''"
| "Op_lean OpSub = ''sub''"
| "Op_lean OpMul = ''mul''"
| "Op_lean OpDiv = ''div''"
| "Op_lean OpRem = ''rem''"
| "Op_lean OpEq = ''eq''"
| "Op_lean OpNe = ''ne''"
| "Op_lean OpLt = ''lt''"
| "Op_lean OpLe = ''le''"
| "Op_lean OpGt = ''gt''"
| "Op_lean OpGe = ''ge''"
| "Op_lean OpMin = ''min''"
| "Op_lean OpMax = ''max''"
| "Op_lean OpSaturatingAdd = ''saturatingAdd''"
| "Op_lean OpSaturatingSub = ''saturatingSub''"
| "Op_lean OpWrappingAdd = ''wrappingAdd''"
| "Op_lean OpWrappingSub = ''wrappingSub''"
| "Op_lean OpWrappingMul = ''wrappingMul''"
| "Op_lean OpBitAnd = ''bitAnd''"
| "Op_lean OpBitOr = ''bitOr''"
| "Op_lean OpBitXor = ''bitXor''"
| "Op_lean OpShl = ''shl''"
| "Op_lean OpShr = ''shr''"

definition Op_comparison :: "Op \<Rightarrow> bool" where
  "Op_comparison op \<longleftrightarrow> op \<in> {OpEq, OpNe, OpLt, OpLe, OpGt, OpGe}"

datatype Expr = Expr (ex_ty: Ty) (ex_kind: Kind)
and Kind =
    KBool bool
  | KUInt u32 u64
  | KVar usize
  | KNot Expr
  | KBinary Op Expr Expr
  | KIf Expr Expr Expr
  | KLet Expr Expr
  | KAssert Expr Expr

text \<open>The number of nodes of a tree that is in memory fits a \<^verbatim>\<open>usize\<close>.\<close>

fun Expr_size :: "Expr \<Rightarrow> usize" and Kind_size :: "Kind \<Rightarrow> usize" where
  "Expr_size (Expr ty kind) = 1 + Kind_size kind"
| "Kind_size (KNot x) = Expr_size x"
| "Kind_size (KBinary op left right) = Expr_size left + Expr_size right"
| "Kind_size (KIf condition yes no) = Expr_size condition + Expr_size yes + Expr_size no"
| "Kind_size (KLet v body) = Expr_size v + Expr_size body"
| "Kind_size (KAssert condition body) = Expr_size condition + Expr_size body"
| "Kind_size _ = 0"

text \<open>The renaming may panic: the closures passed to it subtract.\<close>

fun map_free :: "Expr \<Rightarrow> usize \<Rightarrow> (usize \<Rightarrow> usize option) \<Rightarrow> Expr option"
and map_free_kind :: "Kind \<Rightarrow> usize \<Rightarrow> (usize \<Rightarrow> usize option) \<Rightarrow> Kind option" where
  "map_free (Expr ty kind) depth f = map_option (Expr ty) (map_free_kind kind depth f)"
| "map_free_kind (KVar i) depth f =
     (if depth \<le> i then map_option (\<lambda>j. KVar (j + depth)) (f (i - depth)) else Some (KVar i))"
| "map_free_kind (KNot x) depth f = map_option KNot (map_free x depth f)"
| "map_free_kind (KBinary op left right) depth f = do {
     l \<leftarrow> map_free left depth f;
     r \<leftarrow> map_free right depth f;
     Some (KBinary op l r)
   }"
| "map_free_kind (KIf condition yes no) depth f = do {
     c \<leftarrow> map_free condition depth f;
     y \<leftarrow> map_free yes depth f;
     n \<leftarrow> map_free no depth f;
     Some (KIf c y n)
   }"
| "map_free_kind (KLet v body) depth f = do {
     v' \<leftarrow> map_free v depth f;
     b \<leftarrow> map_free body (depth + 1) f;
     Some (KLet v' b)
   }"
| "map_free_kind (KAssert condition body) depth f = do {
     c \<leftarrow> map_free condition depth f;
     b \<leftarrow> map_free body depth f;
     Some (KAssert c b)
   }"
| "map_free_kind other depth f = Some other"

record Parameter =
  pa_name :: string
  pa_ty :: Ty

record Function =
  fn_name :: string
  fn_parameters :: "Parameter list"
  fn_result :: Ty
  fn_body :: Expr
  fn_start_line :: usize
  fn_end_line :: usize
  fn_rust :: string

datatype Value = VBool bool | VUInt u32 u64

datatype Fault = TypeFault | Overflow | DivisionByZero | Assertion | InputFault

type_synonym Outcome = "Fault + Value"

section \<open>Evaluation\<close>

text \<open>Arithmetic of \<^verbatim>\<open>u128\<close> with overflow checks.\<close>

definition u128_add :: "nat \<Rightarrow> nat \<Rightarrow> nat option" where
  "u128_add a b = (if a + b < 2 ^ 128 then Some (a + b) else None)"

definition u128_sub :: "nat \<Rightarrow> nat \<Rightarrow> nat option" where
  "u128_sub a b = (if b \<le> a then Some (a - b) else None)"

definition u128_mul :: "nat \<Rightarrow> nat \<Rightarrow> nat option" where
  "u128_mul a b = (if a * b < 2 ^ 128 then Some (a * b) else None)"

definition u128_shl :: "nat \<Rightarrow> nat \<Rightarrow> nat option" where
  "u128_shl a k = (if k < 128 then Some (a * 2 ^ k mod 2 ^ 128) else None)"

definition u128_shr :: "nat \<Rightarrow> nat \<Rightarrow> nat option" where
  "u128_shr a k = (if k < 128 then Some (a div 2 ^ k) else None)"

definition u128_rem :: "nat \<Rightarrow> nat \<Rightarrow> nat option" where
  "u128_rem a b = (if b = 0 then None else Some (a mod b))"

definition ir_word :: "u32 \<Rightarrow> nat \<Rightarrow> Outcome option" where
  "ir_word bits v =
     (if bits \<notin> {8, 16, 32, 64} then Some (Inl TypeFault)
      else do {
        bound \<leftarrow> u128_shl 1 (unat bits);
        Some (if bound \<le> v then Inl Overflow else Inr (VUInt bits (of_nat v)))
      })"

text \<open>The question mark operator.\<close>

definition try_bind :: "('e + 'a) option \<Rightarrow> ('a \<Rightarrow> ('e + 'b) option) \<Rightarrow> ('e + 'b) option" where
  "try_bind m f = (case m of None \<Rightarrow> None | Some (Inl e) \<Rightarrow> Some (Inl e) | Some (Inr x) \<Rightarrow> f x)"

definition binary_words :: "Op \<Rightarrow> u32 \<Rightarrow> nat \<Rightarrow> nat \<Rightarrow> Outcome option" where
  "binary_words op bits a b = do {
     bound \<leftarrow> u128_shl 1 (unat bits);
     case op of
       OpEq \<Rightarrow> Some (Inr (VBool (a = b)))
     | OpNe \<Rightarrow> Some (Inr (VBool (a \<noteq> b)))
     | OpLt \<Rightarrow> Some (Inr (VBool (a < b)))
     | OpLe \<Rightarrow> Some (Inr (VBool (a \<le> b)))
     | OpGt \<Rightarrow> Some (Inr (VBool (a > b)))
     | OpGe \<Rightarrow> Some (Inr (VBool (a \<ge> b)))
     | OpAdd \<Rightarrow> u128_add a b \<bind> ir_word bits
     | OpMul \<Rightarrow> u128_mul a b \<bind> ir_word bits
     | OpSub \<Rightarrow> if a < b then Some (Inl Overflow) else u128_sub a b \<bind> ir_word bits
     | OpDiv \<Rightarrow> if b = 0 then Some (Inl DivisionByZero) else ir_word bits (a div b)
     | OpRem \<Rightarrow> if b = 0 then Some (Inl DivisionByZero) else ir_word bits (a mod b)
     | OpMin \<Rightarrow> ir_word bits (min a b)
     | OpMax \<Rightarrow> ir_word bits (max a b)
     | OpSaturatingAdd \<Rightarrow> do { s \<leftarrow> u128_add a b; t \<leftarrow> u128_sub bound 1; ir_word bits (min s t) }
     | OpSaturatingSub \<Rightarrow> ir_word bits (a - b)
     | OpWrappingAdd \<Rightarrow> do { s \<leftarrow> u128_add a b; r \<leftarrow> u128_rem s bound; ir_word bits r }
     | OpWrappingSub \<Rightarrow> do {
         s \<leftarrow> u128_add a bound;
         d \<leftarrow> u128_sub s b;
         r \<leftarrow> u128_rem d bound;
         ir_word bits r
       }
     | OpWrappingMul \<Rightarrow> do { s \<leftarrow> u128_mul a b; r \<leftarrow> u128_rem s bound; ir_word bits r }
     | OpBitAnd \<Rightarrow> ir_word bits (a AND b)
     | OpBitOr \<Rightarrow> ir_word bits (a OR b)
     | OpBitXor \<Rightarrow> ir_word bits (a XOR b)
     | OpShl \<Rightarrow> if unat bits \<le> b then Some (Inl Overflow)
              else do { s \<leftarrow> u128_shl a b; r \<leftarrow> u128_rem s bound; ir_word bits r }
     | OpShr \<Rightarrow> if unat bits \<le> b then Some (Inl Overflow) else u128_shr a b \<bind> ir_word bits
   }"

fun binary :: "Op \<Rightarrow> Value \<Rightarrow> Value \<Rightarrow> Outcome option" where
  "binary op (VBool a) (VBool b) =
     (case op of
        OpEq \<Rightarrow> Some (Inr (VBool (a = b)))
      | OpNe \<Rightarrow> Some (Inr (VBool (a \<noteq> b)))
      | _ \<Rightarrow> Some (Inl TypeFault))"
| "binary op (VUInt bits a) (VUInt other b) =
     (if bits \<noteq> other then Some (Inl TypeFault)
      else try_bind (ir_word bits (unat a)) (\<lambda>_.
           try_bind (ir_word bits (unat b)) (\<lambda>_.
           binary_words op bits (unat a) (unat b))))"
| "binary op _ _ = Some (Inl TypeFault)"

fun evaluate :: "Expr \<Rightarrow> Value list \<Rightarrow> Outcome option"
and evaluate_kind :: "Kind \<Rightarrow> Value list \<Rightarrow> Outcome option" where
  "evaluate (Expr ty kind) env = evaluate_kind kind env"
| "evaluate_kind (KBool b) env = Some (Inr (VBool b))"
| "evaluate_kind (KUInt bits v) env = ir_word bits (unat v)"
| "evaluate_kind (KVar i) env = Some (if i < length env then Inr (env ! i) else Inl InputFault)"
| "evaluate_kind (KNot x) env =
     try_bind (evaluate x env) (\<lambda>v. case v of
       VBool b \<Rightarrow> Some (Inr (VBool (\<not> b))) | _ \<Rightarrow> Some (Inl TypeFault))"
| "evaluate_kind (KBinary op left right) env =
     try_bind (evaluate left env) (\<lambda>a. try_bind (evaluate right env) (\<lambda>b. binary op a b))"
| "evaluate_kind (KIf condition yes no) env =
     try_bind (evaluate condition env) (\<lambda>v. case v of
       VBool True \<Rightarrow> evaluate yes env
     | VBool False \<Rightarrow> evaluate no env
     | _ \<Rightarrow> Some (Inl TypeFault))"
| "evaluate_kind (KLet v body) env =
     try_bind (evaluate v env) (\<lambda>x. evaluate body (x # env))"
| "evaluate_kind (KAssert condition body) env =
     try_bind (evaluate condition env) (\<lambda>v. case v of
       VBool True \<Rightarrow> evaluate body env
     | VBool False \<Rightarrow> Some (Inl Assertion)
     | _ \<Rightarrow> Some (Inl TypeFault))"

text \<open>The check of one argument of \<open>run\<close>; the shift panics for widths of 128 and more.\<close>

fun valid_argument :: "u32 \<Rightarrow> Ty \<Rightarrow> Value \<Rightarrow> bool option" where
  "valid_argument usize_bits ty arg =
     (case (Ty_bits usize_bits ty, arg) of
        (None, VBool _) \<Rightarrow> Some True
      | (Some w, VUInt bits v) \<Rightarrow>
          if w = bits then map_option (\<lambda>bound. unat v < bound) (u128_shl 1 (unat w)) else Some False
      | _ \<Rightarrow> Some False)"

fun valid_arguments :: "u32 \<Rightarrow> Parameter list \<Rightarrow> Value list \<Rightarrow> bool option" where
  "valid_arguments usize_bits (p # ps) (arg # args) = do {
     ok \<leftarrow> valid_argument usize_bits (pa_ty p) arg;
     if ok then valid_arguments usize_bits ps args else Some False
   }"
| "valid_arguments usize_bits _ _ = Some True"

definition run :: "Function \<Rightarrow> Value list \<Rightarrow> u32 \<Rightarrow> Outcome option" where
  "run f args usize_bits =
     (if length (fn_parameters f) \<noteq> length args then Some (Inl InputFault)
      else do {
        ok \<leftarrow> valid_arguments usize_bits (fn_parameters f) args;
        if ok then evaluate (fn_body f) args else Some (Inl InputFault)
      })"

section \<open>The evaluator does not panic\<close>

lemma try_bind_simps [simp]:
  "try_bind (Some (Inr x)) f = f x"
  "try_bind (Some (Inl e)) f = Some (Inl e)"
  "try_bind None f = None"
  by (simp_all add: try_bind_def)

lemma try_bind_cong [fundef_cong]:
  "m = m' \<Longrightarrow> (\<And>x. m' = Some (Inr x) \<Longrightarrow> f x = g x) \<Longrightarrow> try_bind m f = try_bind m' g"
  by (auto simp: try_bind_def split: option.splits sum.splits)

lemma try_bind_assoc: "try_bind (try_bind m f) g = try_bind m (\<lambda>x. try_bind (f x) g)"
  by (auto simp: try_bind_def split: option.splits sum.splits)

lemma returns_try_bind [wp]:
  "returns (try_bind m f) P
   \<longleftrightarrow> returns m (\<lambda>r. case r of Inl e \<Rightarrow> P (Inl e) | Inr x \<Rightarrow> returns (f x) P)"
  by (auto simp: try_bind_def returns_def split: option.splits sum.splits)

abbreviation widths :: "u32 set" where
  "widths \<equiv> {8, 16, 32, 64}"

lemma unat_widths: "w \<in> widths \<Longrightarrow> unat w \<in> {8, 16, 32, 64}"
  by auto

text \<open>Numbers below the bound of a supported width.\<close>

definition fits :: "u32 \<Rightarrow> nat \<Rightarrow> bool" where
  "fits w a \<longleftrightarrow> w \<in> widths \<and> a < 2 ^ unat w"

lemma bound_le: "w \<in> widths \<Longrightarrow> (2 :: nat) ^ unat w \<le> 2 ^ 64"
  by (auto dest!: unat_widths)

lemma fits_u64: "fits w a \<Longrightarrow> a < 2 ^ 64"
  using bound_le [of w] by (auto simp: fits_def)

lemma fits_sum: "fits w a \<Longrightarrow> fits w b \<Longrightarrow> a + b < 2 ^ 128"
  by (drule fits_u64, drule fits_u64) simp

lemma fits_product: "fits w a \<Longrightarrow> fits w b \<Longrightarrow> a * b < 2 ^ 128"
  using mult_strict_mono [of a "2 ^ 64" b "2 ^ 64"]
  by (drule_tac fits_u64, drule_tac fits_u64) (simp flip: power_add)

lemma bound_shl:
  assumes "w \<in> widths"
  shows "u128_shl 1 (unat w) = Some (2 ^ unat w)" and "u128_shl (Suc 0) (unat w) = Some (2 ^ unat w)"
  using assms by (auto dest!: unat_widths simp: u128_shl_def)

lemma ir_word_eq:
  "w \<in> widths \<Longrightarrow> ir_word w a = Some (if a < 2 ^ unat w then Inr (VUInt w (of_nat a)) else Inl Overflow)"
  by (simp add: ir_word_def bound_shl del: insert_iff)

lemma ir_word_fits: "fits w a \<Longrightarrow> ir_word w a = Some (Inr (VUInt w (of_nat a)))"
  by (simp add: ir_word_eq fits_def del: insert_iff)

text \<open>What an operator does on numbers, without reference to \<^verbatim>\<open>u128\<close>.\<close>

fun op_result :: "Op \<Rightarrow> nat \<Rightarrow> nat \<Rightarrow> nat \<Rightarrow> Fault + (bool + nat)" where
  "op_result OpEq w a b = Inr (Inl (a = b))"
| "op_result OpNe w a b = Inr (Inl (a \<noteq> b))"
| "op_result OpLt w a b = Inr (Inl (a < b))"
| "op_result OpLe w a b = Inr (Inl (a \<le> b))"
| "op_result OpGt w a b = Inr (Inl (b < a))"
| "op_result OpGe w a b = Inr (Inl (b \<le> a))"
| "op_result OpAdd w a b = (if a + b < 2 ^ w then Inr (Inr (a + b)) else Inl Overflow)"
| "op_result OpMul w a b = (if a * b < 2 ^ w then Inr (Inr (a * b)) else Inl Overflow)"
| "op_result OpSub w a b = (if b \<le> a then Inr (Inr (a - b)) else Inl Overflow)"
| "op_result OpDiv w a b = (if b = 0 then Inl DivisionByZero else Inr (Inr (a div b)))"
| "op_result OpRem w a b = (if b = 0 then Inl DivisionByZero else Inr (Inr (a mod b)))"
| "op_result OpMin w a b = Inr (Inr (min a b))"
| "op_result OpMax w a b = Inr (Inr (max a b))"
| "op_result OpSaturatingAdd w a b = Inr (Inr (min (a + b) (2 ^ w - 1)))"
| "op_result OpSaturatingSub w a b = Inr (Inr (a - b))"
| "op_result OpWrappingAdd w a b = Inr (Inr ((a + b) mod 2 ^ w))"
| "op_result OpWrappingSub w a b = Inr (Inr ((a + 2 ^ w - b) mod 2 ^ w))"
| "op_result OpWrappingMul w a b = Inr (Inr (a * b mod 2 ^ w))"
| "op_result OpBitAnd w a b = Inr (Inr (a AND b))"
| "op_result OpBitOr w a b = Inr (Inr (a OR b))"
| "op_result OpBitXor w a b = Inr (Inr (a XOR b))"
| "op_result OpShl w a b = (if w \<le> b then Inl Overflow else Inr (Inr (a * 2 ^ b mod 2 ^ w)))"
| "op_result OpShr w a b = (if w \<le> b then Inl Overflow else Inr (Inr (a div 2 ^ b)))"

definition op_value :: "u32 \<Rightarrow> Fault + (bool + nat) \<Rightarrow> Outcome" where
  "op_value w r = (case r of Inl f \<Rightarrow> Inl f | Inr (Inl b) \<Rightarrow> Inr (VBool b) | Inr (Inr n) \<Rightarrow> Inr (VUInt w (of_nat n)))"

lemma nat_and_le: "(a :: nat) AND b \<le> a"
  by (metis AND_upper1' of_nat_0_le_iff of_nat_and_eq of_nat_le_iff order_refl)

lemma nat_or_xor_less:
  assumes "a < 2 ^ w" and "b < (2 :: nat) ^ w"
  shows "a OR b < 2 ^ w" and "a XOR b < 2 ^ w"
  using assms by (simp_all add: take_bit_nat_eq_self_iff [symmetric])

lemma op_result_fits:
  assumes "fits w a" and "fits w b" and "op_result op (unat w) a b = Inr (Inr n)"
  shows "fits w n"
proof -
  have "a < 2 ^ unat w" and "b < 2 ^ unat w" and "w \<in> widths"
    using assms(1,2) by (simp_all add: fits_def)
  moreover have "a div b < 2 ^ unat w" and "a div 2 ^ b < 2 ^ unat w" and "a mod b < 2 ^ unat w"
    by (meson calculation(1) div_le_dividend mod_less_eq_dividend order_le_less_trans)+
  moreover have "n < 2 ^ unat w"
    using assms(3) calculation nat_and_le [of a b] nat_or_xor_less [of a "unat w" b]
    by (cases op) (auto simp: min_def split: if_splits)
  ultimately show ?thesis
    by (simp add: fits_def)
qed

lemma binary_words_eq:
  assumes "fits w a" and "fits w b"
  shows "binary_words op w a b = Some (op_value w (op_result op (unat w) a b))"
proof -
  have ok: "ir_word w n = Some (Inr (VUInt w (of_nat n)))"
    if "op_result op (unat w) a b = Inr (Inr n)" for n
    by (rule ir_word_fits) (rule op_result_fits [OF assms that])
  have w: "w \<in> widths" and a: "a < 2 ^ unat w" and b: "b < 2 ^ unat w"
    using assms by (simp_all add: fits_def)
  note defs = binary_words_def bound_shl [OF w] op_value_def u128_add_def u128_mul_def u128_sub_def
    u128_rem_def u128_shr_def
  have "u128_shl a b = Some (a * 2 ^ b)" if "b < unat w"
  proof -
    have "b < 64"
      using that w by (auto dest!: unat_widths)
    then have "a * 2 ^ b < 2 ^ 64 * 2 ^ 64"
      using fits_u64 [OF assms(1)] power_strict_increasing [of b 64 "2 :: nat"]
      by (intro mult_strict_mono) simp_all
    with \<open>b < 64\<close> show ?thesis
      by (simp add: u128_shl_def flip: power_add)
  qed
  moreover have "unat w \<le> 64"
    using w by (auto dest!: unat_widths)
  moreover have "a + 2 ^ unat w < 2 ^ 128"
    using a bound_le [OF w] by simp
  ultimately show ?thesis
    using ok fits_sum [OF assms] fits_product [OF assms] b
    by (cases op) (simp_all add: defs ir_word_eq [OF w] del: insert_iff)
qed

lemma binary_uint:
  assumes "fits w (unat a)" and "fits w (unat b)"
  shows "binary op (VUInt w a) (VUInt w b) = Some (op_value w (op_result op (unat w) (unat a) (unat b)))"
  using assms by (simp add: ir_word_fits binary_words_eq)

lemma ir_word_unsupported: "w \<notin> widths \<Longrightarrow> ir_word w a = Some (Inl TypeFault)"
  by (simp only: ir_word_def if_True not_False_eq_True)

lemma ir_word_returns: "\<exists>r. ir_word w a = Some r"
  by (meson ir_word_eq ir_word_unsupported)

lemma ir_word_Inr: "ir_word w a = Some (Inr v) \<Longrightarrow> fits w a \<and> v = VUInt w (of_nat a)"
  using ir_word_eq [of w a] ir_word_unsupported [of w a]
  by (cases "w \<in> widths") (simp_all add: fits_def del: insert_iff split: if_splits)

lemma binary_returns: "\<exists>r. binary op x y = Some r"
proof (cases "(op, x, y)" rule: binary.cases)
  case (2 op bits a other b)
  obtain ra rb where "ir_word bits (unat a) = Some ra" "ir_word bits (unat b) = Some rb"
    using ir_word_returns by meson
  with 2 show ?thesis
    using ir_word_Inr [of bits "unat a"] ir_word_Inr [of bits "unat b"]
    by (cases ra; cases rb) (auto simp: binary_words_eq)
qed (auto split: Op.splits)

text \<open>Whatever the expression and the environment, evaluation ends without a panic.\<close>

lemma try_bind_returns:
  "\<exists>r. m = Some r \<Longrightarrow> (\<And>x. \<exists>r. f x = Some r) \<Longrightarrow> \<exists>r. try_bind m f = Some r"
  by (cases "the m") auto

lemma evaluate_returns:
  "\<exists>r. evaluate e env = Some r"
  "\<exists>r. evaluate_kind k env = Some r"
proof (induction e env and k env rule: evaluate_evaluate_kind.induct)
  case (3 bits v env)
  show ?case
    using ir_word_returns by simp
qed (auto intro!: try_bind_returns binary_returns split: Value.split bool.split)

section \<open>Typing\<close>

fun has_ty :: "u32 \<Rightarrow> Value \<Rightarrow> Ty \<Rightarrow> bool" where
  "has_ty ub (VBool b) ty \<longleftrightarrow> ty = TyBool"
| "has_ty ub (VUInt w v) ty \<longleftrightarrow> Ty_bits ub ty = Some w \<and> unat v < 2 ^ unat w"

fun typed :: "u32 \<Rightarrow> Ty list \<Rightarrow> Expr \<Rightarrow> bool" and typed_kind :: "u32 \<Rightarrow> Ty list \<Rightarrow> Ty \<Rightarrow> Kind \<Rightarrow> bool" where
  "typed ub G (Expr ty kind) \<longleftrightarrow> typed_kind ub G ty kind"
| "typed_kind ub G ty (KBool b) \<longleftrightarrow> ty = TyBool"
| "typed_kind ub G ty (KUInt bits v) \<longleftrightarrow> Ty_bits ub ty = Some bits \<and> unat v < 2 ^ unat bits"
| "typed_kind ub G ty (KVar i) \<longleftrightarrow> i < length G \<and> G ! i = ty"
| "typed_kind ub G ty (KNot x) \<longleftrightarrow> ty = TyBool \<and> ex_ty x = TyBool \<and> typed ub G x"
| "typed_kind ub G ty (KBinary op left right) \<longleftrightarrow>
     typed ub G left \<and> typed ub G right \<and> ex_ty left = ex_ty right
     \<and> (ex_ty left = TyBool \<longrightarrow> op \<in> {OpEq, OpNe})
     \<and> ty = (if Op_comparison op then TyBool else ex_ty left)"
| "typed_kind ub G ty (KIf condition yes no) \<longleftrightarrow>
     typed ub G condition \<and> ex_ty condition = TyBool
     \<and> typed ub G yes \<and> ex_ty yes = ty \<and> typed ub G no \<and> ex_ty no = ty"
| "typed_kind ub G ty (KLet v body) \<longleftrightarrow>
     typed ub G v \<and> typed ub (ex_ty v # G) body \<and> ex_ty body = ty"
| "typed_kind ub G ty (KAssert condition body) \<longleftrightarrow>
     typed ub G condition \<and> ex_ty condition = TyBool \<and> typed ub G body \<and> ex_ty body = ty"

text \<open>An outcome a checked Rust program of that type can have.\<close>

definition good_outcome :: "u32 \<Rightarrow> Ty \<Rightarrow> Outcome \<Rightarrow> bool" where
  "good_outcome ub ty r = (case r of Inl f \<Rightarrow> f \<in> {Overflow, DivisionByZero, Assertion} | Inr v \<Rightarrow> has_ty ub v ty)"

lemma good_outcome_simps [simp]:
  "good_outcome ub ty (Inr v) = has_ty ub v ty"
  "good_outcome ub ty (Inl f) = (f \<in> {Overflow, DivisionByZero, Assertion})"
  by (simp_all add: good_outcome_def)

lemma has_ty_bool: "has_ty ub v TyBool \<longleftrightarrow> (\<exists>b. v = VBool b)"
  by (cases v) auto

lemma Ty_bits_widths: "ub \<in> {32, 64} \<Longrightarrow> Ty_bits ub ty = Some w \<Longrightarrow> w \<in> widths"
  by (cases ty) auto

lemma has_ty_uint:
  assumes "ub \<in> {32, 64}" and "has_ty ub v ty" and "ty \<noteq> TyBool"
  obtains w a where "v = VUInt w a" and "Ty_bits ub ty = Some w" and "fits w (unat a)"
  using assms Ty_bits_widths [of ub ty] by (cases v) (auto simp: fits_def simp del: insert_iff)

lemma has_ty_fits: "Ty_bits ub ty = Some w \<Longrightarrow> fits w n \<Longrightarrow> has_ty ub (VUInt w (of_nat n)) ty"
  using fits_u64 [of w n] by (simp add: fits_def unat_of_nat)

lemma op_result_kind:
  "Op_comparison op \<Longrightarrow> \<exists>b. op_result op w x y = Inr (Inl b)"
  "\<not> Op_comparison op \<Longrightarrow> op_result op w x y \<noteq> Inr (Inl b)"
  by (cases op; simp add: Op_comparison_def)+

lemma op_result_faults: "op_result op w x y = Inl f \<Longrightarrow> f \<in> {Overflow, DivisionByZero}"
  by (cases op) (auto split: if_splits)

lemma binary_typed:
  assumes ub: "ub \<in> {32, 64}" and x: "has_ty ub x ty" and y: "has_ty ub y ty"
    and ops: "ty = TyBool \<longrightarrow> op \<in> {OpEq, OpNe}"
  shows "returns (binary op x y) (good_outcome ub (if Op_comparison op then TyBool else ty))"
proof (cases "ty = TyBool")
  case True
  then show ?thesis
    using x y ops by (auto simp: has_ty_bool Op_comparison_def)
next
  case False
  obtain w a where a: "x = VUInt w a" "Ty_bits ub ty = Some w" "fits w (unat a)"
    using has_ty_uint [OF ub x False] .
  obtain b where b: "y = VUInt w b" "fits w (unat b)"
    using has_ty_uint [OF ub y False] a by (metis option.inject)
  have "good_outcome ub (if Op_comparison op then TyBool else ty)
     (op_value w (op_result op (unat w) (unat a) (unat b)))"
  proof (cases "op_result op (unat w) (unat a) (unat b)")
    case (Inl f)
    then show ?thesis
      using op_result_faults [OF Inl] by (auto simp: op_value_def)
  next
    case (Inr r)
    show ?thesis
    proof (cases r)
      case (Inl c)
      with Inr show ?thesis
        using op_result_kind(2) [of op] by (auto simp: op_value_def)
    next
      case res: (Inr n)
      then have "fits w n"
        using op_result_fits [OF a(3) b(2)] Inr by simp
      then show ?thesis
        using Inr res a(2) op_result_kind(1) [of op "unat w" "unat a" "unat b"]
        by (auto simp: op_value_def simp del: has_ty.simps intro: has_ty_fits)
    qed
  qed
  then show ?thesis
    using a b by (simp add: binary_uint del: binary.simps)
qed

lemma returns_try_bindI:
  assumes "returns m (good_outcome ub ty)"
    and "\<And>v. has_ty ub v ty \<Longrightarrow> returns (f v) (good_outcome ub ty')"
  shows "returns (try_bind m f) (good_outcome ub ty')"
  using assms by (cases "the m") (auto simp: returns_iff)

lemma evaluate_typed:
  "ub \<in> {32, 64} \<Longrightarrow> typed ub G e \<Longrightarrow> list_all2 (has_ty ub) env G
   \<Longrightarrow> returns (evaluate e env) (good_outcome ub (ex_ty e))"
  "ub \<in> {32, 64} \<Longrightarrow> typed_kind ub G ty k \<Longrightarrow> list_all2 (has_ty ub) env G
   \<Longrightarrow> returns (evaluate_kind k env) (good_outcome ub ty)"
proof (induction ub G e and ub G ty k arbitrary: env and env rule: typed_typed_kind.induct)
  case (3 ub G ty bits v)
  then have "bits \<in> widths"
    using Ty_bits_widths by (meson typed_kind.simps(2))
  with 3 show ?case
    by (simp add: ir_word_eq del: insert_iff)
next
  case (4 ub G ty i)
  then show ?case
    by (auto simp: list_all2_conv_all_nth)
next
  case (5 ub G ty x)
  then show ?case
    by (auto simp: has_ty_bool intro!: returns_try_bindI)
next
  case (6 ub G ty op left right)
  then have "returns (binary op a b) (good_outcome ub ty)"
    if "has_ty ub a (ex_ty left)" "has_ty ub b (ex_ty left)" for a b
    using binary_typed [OF 6(3) that, of op] 6(4) by simp
  with 6 show ?case
    by (auto intro!: returns_try_bindI)
next
  case (7 ub G ty condition yes no)
  then show ?case
    by (auto simp: has_ty_bool intro!: returns_try_bindI split: bool.split)
next
  case (8 ub G ty v body)
  then show ?case
    by (auto intro!: returns_try_bindI)
next
  case (9 ub G ty condition body)
  then show ?case
    by (auto simp: has_ty_bool intro!: returns_try_bindI split: bool.split)
qed simp_all

text \<open>The checks of \<open>run\<close> are exactly the typing of the arguments.\<close>

lemma valid_argument_iff:
  assumes "ub \<in> {32, 64}"
  shows "valid_argument ub ty arg = Some (has_ty ub arg ty)"
proof -
  have "u128_shl 1 (unat w) = Some (2 ^ unat w)" if "Ty_bits ub ty = Some w" for w
    using bound_shl(1) Ty_bits_widths [OF assms that] .
  moreover have "Ty_bits ub ty = None \<longleftrightarrow> ty = TyBool"
    by (cases ty) simp_all
  ultimately show ?thesis
    by (cases arg; cases "Ty_bits ub ty") (auto simp del: One_nat_def)
qed

lemma valid_arguments_iff:
  assumes "ub \<in> {32, 64}" and "length ps = length args"
  shows "valid_arguments ub ps args = Some (list_all2 (has_ty ub) args (map pa_ty ps))"
  using assms(2)
proof (induction ps args rule: list_induct2)
  case (Cons p ps arg args)
  then show ?case
    by (simp add: valid_argument_iff [OF assms(1)] del: valid_argument.simps)
qed simp

section \<open>Renaming\<close>

text \<open>A renaming that sends every position of one environment to a position of another holding
  the same value. \<open>map_free\<close> with such a renaming changes neither the outcome nor the type.\<close>

definition renames :: "(usize \<Rightarrow> usize option) \<Rightarrow> usize \<Rightarrow> 'a list \<Rightarrow> 'a list \<Rightarrow> bool" where
  "renames f depth env env' \<longleftrightarrow>
     depth \<le> length env \<and> depth \<le> length env' \<and> take depth env = take depth env'
     \<and> (\<forall>i < length env - depth. \<exists>j. f i = Some j \<and> j + depth < length env' \<and> env' ! (j + depth) = env ! (i + depth))"

lemma renames_Cons: "renames f depth env env' \<Longrightarrow> renames f (Suc depth) (v # env) (v # env')"
  by (simp add: renames_def)

lemma renames_free:
  assumes "renames f depth env env'" and "i < length env" and "depth \<le> i"
  shows "\<exists>j. f (i - depth) = Some j \<and> j + depth < length env' \<and> env' ! (j + depth) = env ! i"
  using assms by (force simp: renames_def dest: spec [of _ "i - depth"])

lemma renames_bound:
  assumes "renames f depth env env'" and "\<not> depth \<le> i"
  shows "i < length env'" and "env' ! i = env ! i"
  using assms unfolding renames_def by (auto intro: less_le_trans) (metis not_le nth_take)

text \<open>All variables of an expression lie below a bound.\<close>

fun scoped :: "usize \<Rightarrow> Expr \<Rightarrow> bool" and scoped_kind :: "usize \<Rightarrow> Kind \<Rightarrow> bool" where
  "scoped n (Expr ty kind) \<longleftrightarrow> scoped_kind n kind"
| "scoped_kind n (KVar i) \<longleftrightarrow> i < n"
| "scoped_kind n (KNot x) \<longleftrightarrow> scoped n x"
| "scoped_kind n (KBinary op left right) \<longleftrightarrow> scoped n left \<and> scoped n right"
| "scoped_kind n (KIf condition yes no) \<longleftrightarrow> scoped n condition \<and> scoped n yes \<and> scoped n no"
| "scoped_kind n (KLet v body) \<longleftrightarrow> scoped n v \<and> scoped (Suc n) body"
| "scoped_kind n (KAssert condition body) \<longleftrightarrow> scoped n condition \<and> scoped n body"
| "scoped_kind n _ \<longleftrightarrow> True"

lemma typed_scoped:
  "typed ub G e \<Longrightarrow> scoped (length G) e"
  "typed_kind ub G ty k \<Longrightarrow> scoped_kind (length G) k"
  by (induction ub G e and ub G ty k rule: typed_typed_kind.induct) auto

lemma map_free_evaluate:
  "scoped (length env) e \<Longrightarrow> renames f depth env env'
   \<Longrightarrow> \<exists>e'. map_free e depth f = Some e' \<and> ex_ty e' = ex_ty e \<and> evaluate e' env' = evaluate e env"
  "scoped_kind (length env) k \<Longrightarrow> renames f depth env env'
   \<Longrightarrow> \<exists>k'. map_free_kind k depth f = Some k' \<and> evaluate_kind k' env' = evaluate_kind k env"
proof (induction e depth f and k depth f arbitrary: env env' and env env' rule: map_free_map_free_kind.induct)
  case (1 ty kind depth f)
  then obtain k' where "map_free_kind kind depth f = Some k'" "evaluate_kind k' env' = evaluate_kind kind env"
    by (metis scoped.simps)
  then show ?case
    by simp
next
  case (2 i depth f)
  then show ?case
    by (auto dest: renames_free renames_bound)
next
  case (6 v body depth f)
  obtain v' where v': "map_free v depth f = Some v'" "evaluate v' env' = evaluate v env"
    using 6 by (metis scoped_kind.simps(5))
  have "\<exists>b. map_free body (depth + 1) f = Some b \<and> evaluate b (x # env') = evaluate body (x # env)" for x
    using 6 by (metis Suc_eq_plus1 length_Cons renames_Cons scoped_kind.simps(5))
  then obtain b where "map_free body (depth + 1) f = Some b" "\<And>x. evaluate b (x # env') = evaluate body (x # env)"
    by (metis option.inject)
  with v' show ?case
    by simp
qed (fastforce simp: Option.bind_eq_Some_conv split: Option.bind_split)+

lemma map_free_typed:
  "typed ub G e \<Longrightarrow> renames f depth G G'
   \<Longrightarrow> \<exists>e'. map_free e depth f = Some e' \<and> ex_ty e' = ex_ty e \<and> typed ub G' e'"
  "typed_kind ub G t k \<Longrightarrow> renames f depth G G'
   \<Longrightarrow> \<exists>k'. map_free_kind k depth f = Some k' \<and> typed_kind ub G' t k'"
proof (induction e depth f and k depth f arbitrary: G G' and G G' t rule: map_free_map_free_kind.induct)
  case (2 i depth f)
  then show ?case
    by (auto dest: renames_free renames_bound)
next
  case (6 v body depth f)
  obtain v' where "map_free v depth f = Some v'" "ex_ty v' = ex_ty v" "typed ub G' v'"
    using 6 by (metis typed_kind.simps(7))
  moreover obtain b where "map_free body (depth + 1) f = Some b" "ex_ty b = ex_ty body" "typed ub (ex_ty v # G') b"
    using 6 renames_Cons [OF 6(4), of "ex_ty v"] by (metis Suc_eq_plus1 typed_kind.simps(7))
  ultimately show ?case
    using 6(3) by simp
qed fastforce+

section \<open>Machine words\<close>

definition of_word :: "'a::len word \<Rightarrow> Value" where
  "of_word x = VUInt (of_nat LENGTH('a)) (ucast x)"

lemma of_word_fits:
  fixes x :: "'a::len word"
  assumes "LENGTH('a) \<in> {8, 16, 32, 64}"
  shows "fits (of_nat LENGTH('a)) (unat (ucast x :: u64))" and "unat (ucast x :: u64) = unat x"
    and "unat (of_nat LENGTH('a) :: u32) = LENGTH('a)"
proof -
  have "unat x < 2 ^ LENGTH('a)"
    by (rule unsigned_less)
  then have "unat x < 2 ^ 64"
    using assms by (elim insertE order_less_le_trans) simp_all
  then show un: "unat (ucast x :: u64) = unat x"
    by (simp add: unsigned_ucast_eq take_bit_nat_eq_self)
  show "unat (of_nat LENGTH('a) :: u32) = LENGTH('a)"
    using assms by auto
  then show "fits (of_nat LENGTH('a)) (unat (ucast x :: u64))"
    using un \<open>unat x < 2 ^ LENGTH('a)\<close> assms by (auto simp: fits_def)
qed

lemma op_value_of_word:
  fixes x y z :: "'a::len word"
  assumes "LENGTH('a) \<in> {8, 16, 32, 64}" and "op_result op LENGTH('a) (unat x) (unat y) = Inr (Inr (unat z))"
  shows "binary op (of_word x) (of_word y) = Some (Inr (of_word z))"
proof -
  have "of_nat (unat z) = (ucast z :: u64)"
    by (metis of_nat_unat)
  then show ?thesis
    using of_word_fits [OF assms(1)] assms(2)
    by (simp add: of_word_def binary_uint op_value_def del: binary.simps)
qed

lemma op_value_fault:
  fixes x y :: "'a::len word"
  assumes "LENGTH('a) \<in> {8, 16, 32, 64}" and "op_result op LENGTH('a) (unat x) (unat y) = Inl f"
  shows "binary op (of_word x) (of_word y) = Some (Inl f)"
  using of_word_fits [OF assms(1)] assms(2)
  by (simp add: of_word_def binary_uint op_value_def del: binary.simps)

text \<open>The checked operators: the result of the machine operation when it is exact.\<close>

lemma binary_checked_words:
  fixes x y :: "'a::len word"
  assumes "LENGTH('a) \<in> {8, 16, 32, 64}"
  shows "binary OpAdd (of_word x) (of_word y)
      = Some (if unat x + unat y < 2 ^ LENGTH('a) then Inr (of_word (x + y)) else Inl Overflow)"
    and "binary OpSub (of_word x) (of_word y) = Some (if y \<le> x then Inr (of_word (x - y)) else Inl Overflow)"
    and "binary OpMul (of_word x) (of_word y)
      = Some (if unat x * unat y < 2 ^ LENGTH('a) then Inr (of_word (x * y)) else Inl Overflow)"
    and "binary OpDiv (of_word x) (of_word y) = Some (if y = 0 then Inl DivisionByZero else Inr (of_word (x div y)))"
    and "binary OpRem (of_word x) (of_word y) = Some (if y = 0 then Inl DivisionByZero else Inr (of_word (x mod y)))"
proof -
  note ok = op_value_of_word [OF assms] and bad = op_value_fault [OF assms]
  show "binary OpAdd (of_word x) (of_word y)
      = Some (if unat x + unat y < 2 ^ LENGTH('a) then Inr (of_word (x + y)) else Inl Overflow)"
    by (auto intro!: ok bad simp: unat_word_ariths)
  show "binary OpSub (of_word x) (of_word y) = Some (if y \<le> x then Inr (of_word (x - y)) else Inl Overflow)"
    by (auto intro!: ok bad simp: unat_sub word_le_nat_alt)
  show "binary OpMul (of_word x) (of_word y)
      = Some (if unat x * unat y < 2 ^ LENGTH('a) then Inr (of_word (x * y)) else Inl Overflow)"
    by (auto intro!: ok bad simp: unat_word_ariths)
  show "binary OpDiv (of_word x) (of_word y) = Some (if y = 0 then Inl DivisionByZero else Inr (of_word (x div y)))"
    by (auto intro!: ok bad simp: unat_div unat_eq_zero)
  show "binary OpRem (of_word x) (of_word y) = Some (if y = 0 then Inl DivisionByZero else Inr (of_word (x mod y)))"
    by (auto intro!: ok bad simp: unat_mod unat_eq_zero)
qed

text \<open>The wrapping and bitwise operators are total.\<close>

lemma binary_wrapping_words:
  fixes x y :: "'a::len word"
  assumes "LENGTH('a) \<in> {8, 16, 32, 64}"
  shows "binary OpWrappingAdd (of_word x) (of_word y) = Some (Inr (of_word (x + y)))"
    and "binary OpWrappingSub (of_word x) (of_word y) = Some (Inr (of_word (x - y)))"
    and "binary OpWrappingMul (of_word x) (of_word y) = Some (Inr (of_word (x * y)))"
    and "binary OpBitAnd (of_word x) (of_word y) = Some (Inr (of_word (x AND y)))"
    and "binary OpBitOr (of_word x) (of_word y) = Some (Inr (of_word (x OR y)))"
    and "binary OpBitXor (of_word x) (of_word y) = Some (Inr (of_word (x XOR y)))"
    and "unat y < LENGTH('a) \<Longrightarrow> binary OpShl (of_word x) (of_word y) = Some (Inr (of_word (push_bit (unat y) x)))"
    and "unat y < LENGTH('a) \<Longrightarrow> binary OpShr (of_word x) (of_word y) = Some (Inr (of_word (drop_bit (unat y) x)))"
proof -
  note ok = op_value_of_word [OF assms]
  have sub: "unat (x - y) = (unat x + 2 ^ LENGTH('a) - unat y) mod 2 ^ LENGTH('a)"
  proof (cases "unat y \<le> unat x")
    case True
    then have "unat x + 2 ^ LENGTH('a) - unat y = (unat x - unat y) + 2 ^ LENGTH('a)"
      by simp
    moreover have "unat x - unat y < 2 ^ LENGTH('a)"
      using unsigned_less [of x] by (rule less_imp_diff_less)
    ultimately show ?thesis
      using True by (simp only: unat_sub word_le_nat_alt mod_add_self2 mod_less)
  next
    case False
    moreover have "(0 :: nat) < 2 ^ LENGTH('a)"
      by simp
    ultimately have "unat x + 2 ^ LENGTH('a) - unat y < 2 ^ LENGTH('a)"
      by linarith
    then show ?thesis
      using False by (simp only: unat_sub_if_size word_size mod_less if_False)
  qed
  show "binary OpWrappingAdd (of_word x) (of_word y) = Some (Inr (of_word (x + y)))"
    by (rule ok) (simp add: unat_word_ariths)
  show "binary OpWrappingSub (of_word x) (of_word y) = Some (Inr (of_word (x - y)))"
    by (rule ok) (simp add: sub)
  show "binary OpWrappingMul (of_word x) (of_word y) = Some (Inr (of_word (x * y)))"
    by (rule ok) (simp add: unat_word_ariths)
  show "binary OpBitAnd (of_word x) (of_word y) = Some (Inr (of_word (x AND y)))"
    by (rule ok) (simp add: unsigned_and_eq)
  show "binary OpBitOr (of_word x) (of_word y) = Some (Inr (of_word (x OR y)))"
    by (rule ok) (simp add: unsigned_or_eq)
  show "binary OpBitXor (of_word x) (of_word y) = Some (Inr (of_word (x XOR y)))"
    by (rule ok) (simp add: unsigned_xor_eq)
  have "unat (push_bit (unat y) x) = unat x * 2 ^ unat y mod 2 ^ LENGTH('a)"
    unfolding unsigned_push_bit_eq by (simp only: push_bit_eq_mult take_bit_eq_mod)
  then show "binary OpShl (of_word x) (of_word y) = Some (Inr (of_word (push_bit (unat y) x)))" if "unat y < LENGTH('a)"
    using that by (intro ok) simp
  have "unat (drop_bit (unat y) x) = unat x div 2 ^ unat y"
    by (rule unat_drop_bit_eq [THEN trans]) (simp only: drop_bit_eq_div)
  then show "binary OpShr (of_word x) (of_word y) = Some (Inr (of_word (drop_bit (unat y) x)))" if "unat y < LENGTH('a)"
    using that by (intro ok) simp
qed

end
