(* ===== verification/Provium_Frontend.thy ===== *)
theory Provium_Frontend
  imports Provium_IR "HOL-Library.Char_ord" "HOL-Library.List_Lexorder"
begin

text \<open>
  The compiler of \<^verbatim>\<open>provium/src/frontend.rs\<close> from a scalar subset of Rust to the intermediate
  representation. Its input is the syntax tree of the crate \<^verbatim>\<open>syn\<close>; the datatypes below have
  one constructor per form of Rust syntax the compiler distinguishes, with the parts it looks
  at, and one for all other forms. Source positions are not part of the model, so an error is
  its message without the position, a constructor of \<open>CompileError\<close>.

  A compilation step returns \<open>None\<close> for a panic, \<open>Inl\<close> for an error, and otherwise the compiled
  term together with the cache of compiled functions; the list \<open>active\<close> of functions being
  compiled is an argument, since every push is undone on return. Termination follows from
  the bound on that list and the size of the syntax.

  The lemmas show that the compiler does not panic, that what it returns is well typed, and
  that expanding a call into nested bindings is calling the function.
\<close>

section \<open>Rust syntax\<close>

text \<open>An attribute is known by its path when that is a single identifier.\<close>

type_synonym Attribute = "string option"

text \<open>A path: a qualified self type, a leading colon, and segments, each an identifier and
  whether it has no arguments.\<close>

datatype RPath = RPath (qself: bool) (leading_colon: bool) (segments: "(string \<times> bool) list")

datatype RType = TypePath RPath | TypeOther

text \<open>An identifier pattern has a \<^verbatim>\<open>ref\<close>, a \<^verbatim>\<open>mut\<close>, a subpattern or not, and its name.\<close>

datatype RPat =
    PatIdent "Attribute list" bool bool bool string
  | PatType "Attribute list" RPat RType
  | PatOther

datatype RBinOp =
    BAdd | BSub | BMul | BDiv | BRem | BAnd | BOr | BBitXor | BBitAnd | BBitOr | BShl | BShr
  | BEq | BLt | BLe | BNe | BGe | BGt | BBitXorAssign | BOtherAssign

text \<open>The suffix of an integer literal, parsed as a type.\<close>

datatype RSuffix = NoSuffix | Suffix "RType option"

datatype RLit = LitBool bool | LitInt nat RSuffix | LitOther

datatype RExpr =
    EPath "Attribute list" RPath
  | ELit "Attribute list" RLit
  | EParen "Attribute list" RExpr
  | EGroup "Attribute list" RExpr
  | EBlock "Attribute list" bool "RStmt list"
  | EUnary "Attribute list" bool RExpr
  | EBinary "Attribute list" RExpr RBinOp RExpr
  | EIf "Attribute list" RExpr "RStmt list" "RExpr option"
  | EMethodCall "Attribute list" RExpr string bool "RExpr list"
  | ECall "Attribute list" RExpr "RExpr list"
  | EAssign "Attribute list" RExpr RExpr
  | EOther
and RStmt =
    SLocal "Attribute list" RPat "(RExpr \<times> bool) option"
  | SExpr RExpr bool
  | SMacro "Attribute list" "string option" "RExpr option"
  | SOther

datatype RArg = Receiver | Typed "Attribute list" RPat RType

record ItemFn =
  it_attrs :: "Attribute list"
  it_async :: bool
  it_unsafe :: bool
  it_abi :: bool
  it_variadic :: bool
  it_generics :: bool
  it_where :: bool
  it_ident :: string
  it_inputs :: "RArg list"
  it_output :: "RType option"
  it_stmts :: "RStmt list"
  it_start_line :: usize
  it_end_line :: usize
  it_rust :: string

datatype RItem = ItemFunction ItemFn | ItemOther

section \<open>Names, types and patterns\<close>

text \<open>One constructor per error message, in the order of the source, with the name it prints.\<close>

datatype CompileError =
    UnsupportedAttributes | UnsupportedScalar | UnsupportedType | UnsupportedPattern
   | UnsupportedItem | UnsupportedSignature | DuplicateFunction | UsizeWidth | NoFunctions
   | ReceiverUnsupported | DuplicateParameter | ReturnTypeRequired | InvalidSuffix
   | IntegerNotInferred | IntegerAsBool | LiteralRange | LiteralOverflow | EmptyBlock
   | UninitializedLocal | LetElse | CompoundTarget | NestedAssignment | AssignmentTarget
   | ImmutableAssignment | UnsupportedMacro | AssertArguments | UnsupportedStatement
   | TypeMismatch | QualifiedPath | UnsupportedLiteral | BlockType | UnsupportedBinary
   | ShiftTypes | UnsignedOperands | IfType | IfElse | UnsupportedMethod | IntrinsicOnBool
   | MethodShape | IndirectCall | ShadowedFunction | ArgumentCount | UnsupportedExpression
   | CallDepth | ProgramTooLarge | ParseError string | RecursiveCall string
   | UnresolvedFunction string | UnresolvedValue string | UnboundTarget string

record Binding =
  bi_name :: string
  bi_ty :: Ty
  bi_mutable :: bool

type_synonym Env = "Binding list"

definition attributes :: "Attribute list \<Rightarrow> CompileError + unit" where
  "attributes attrs =
     (if list_all (\<lambda>a. a = Some ''doc'') attrs then Inr ()
      else Inl UnsupportedAttributes)"

definition plain_path :: "RPath \<Rightarrow> string option" where
  "plain_path p =
     (if \<not> qself p \<and> \<not> leading_colon p
      then (case segments p of [(ident, True)] \<Rightarrow> Some ident | _ \<Rightarrow> None)
      else None)"

fun ty :: "RType \<Rightarrow> CompileError + Ty" where
  "ty (TypePath path) =
     (case plain_path path of
        Some ident \<Rightarrow>
          if ident = ''bool'' then Inr TyBool
          else if ident = ''u8'' then Inr TyU8
          else if ident = ''u16'' then Inr TyU16
          else if ident = ''u32'' then Inr TyU32
          else if ident = ''u64'' then Inr TyU64
          else if ident = ''usize'' then Inr TyUsize
          else Inl UnsupportedScalar
      | None \<Rightarrow> Inl UnsupportedType)"
| "ty TypeOther = Inl UnsupportedType"

fun pattern :: "RPat \<Rightarrow> CompileError + (string \<times> bool \<times> Ty option)" where
  "pattern (PatIdent attrs by_ref mutable subpat ident) =
     (if \<not> by_ref \<and> \<not> subpat
      then (case attributes attrs of Inl e \<Rightarrow> Inl e | Inr _ \<Rightarrow> Inr (ident, mutable, None))
      else Inl UnsupportedPattern)"
| "pattern (PatType attrs pat t) =
     (case attributes attrs of
        Inl e \<Rightarrow> Inl e
      | Inr _ \<Rightarrow>
          (case pattern pat of
             Inl e \<Rightarrow> Inl e
           | Inr (name, mutable, _) \<Rightarrow>
               (case ty t of Inl e \<Rightarrow> Inl e | Inr t' \<Rightarrow> Inr (name, mutable, Some t'))))"
| "pattern PatOther = Inl UnsupportedPattern"

fun path_name :: "RExpr \<Rightarrow> string option" where
  "path_name (EPath attrs p) = plain_path p"
| "path_name _ = None"

text \<open>The innermost binding is the last one; its index is 0.\<close>

definition lookup :: "Env \<Rightarrow> string \<Rightarrow> (usize \<times> Binding) option" where
  "lookup env name = map_option (\<lambda>i. (i, rev env ! i)) (position (\<lambda>b. bi_name b = name) (rev env))"

section \<open>The compiler\<close>

text \<open>A \<^verbatim>\<open>BTreeMap\<close> is an association list with ascending keys.\<close>

fun btree_insert :: "'k::linorder \<Rightarrow> 'v \<Rightarrow> ('k \<times> 'v) list \<Rightarrow> ('k \<times> 'v) list" where
  "btree_insert k v [] = [(k, v)]"
| "btree_insert k v ((k', v') # m) =
     (if k < k' then (k, v) # (k', v') # m
      else if k = k' then (k, v) # m
      else (k', v') # btree_insert k v m)"

type_synonym Functions = "(string \<times> ItemFn) list"
type_synonym Cache = "(string \<times> Function) list"

record Compiler =
  co_functions :: Functions
  co_usize_bits :: u32

fun Compiler_items :: "RItem list \<Rightarrow> Functions \<Rightarrow> CompileError + Functions" where
  "Compiler_items [] functions = Inr functions"
| "Compiler_items (ItemOther # items) functions =
     Inl UnsupportedItem"
| "Compiler_items (ItemFunction function # items) functions =
     (case attributes (it_attrs function) of
        Inl e \<Rightarrow> Inl e
      | Inr _ \<Rightarrow>
          if it_async function \<or> it_unsafe function \<or> it_abi function \<or> it_variadic function
             \<or> it_generics function \<or> it_where function
          then Inl UnsupportedSignature
          else if map_of functions (it_ident function) \<noteq> None then Inl DuplicateFunction
          else Compiler_items items (btree_insert (it_ident function) function functions))"

text \<open>The source is given by the result of parsing it.\<close>

definition Compiler_parse ::
    "string + Attribute list \<times> RItem list \<Rightarrow> u32 \<Rightarrow> CompileError + Compiler" where
  "Compiler_parse file usize_bits =
     (if usize_bits \<notin> {32, 64} then Inl UsizeWidth
      else (case file of
          Inl e \<Rightarrow> Inl (ParseError e)
        | Inr (attrs, items) \<Rightarrow>
            (case attributes attrs of
               Inl e \<Rightarrow> Inl e
             | Inr _ \<Rightarrow>
                 (case Compiler_items items [] of
                    Inl e \<Rightarrow> Inl e
                  | Inr functions \<Rightarrow>
                      if functions = [] then Inl NoFunctions
                      else Inr \<lparr>co_functions = functions, co_usize_bits = usize_bits\<rparr>))))"

fun signature_inputs ::
    "RArg list \<Rightarrow> Parameter list \<Rightarrow> Env \<Rightarrow> CompileError + Parameter list \<times> Env" where
  "signature_inputs [] parameters env = Inr (parameters, env)"
| "signature_inputs (Receiver # inputs) parameters env = Inl ReceiverUnsupported"
| "signature_inputs (Typed attrs pat t # inputs) parameters env =
     (case attributes attrs of
        Inl e \<Rightarrow> Inl e
      | Inr _ \<Rightarrow>
          (case pattern pat of
             Inl e \<Rightarrow> Inl e
           | Inr (name, mutable, _) \<Rightarrow>
               if list_ex (\<lambda>p. pa_name p = name) parameters then Inl DuplicateParameter
               else (case ty t of
                   Inl e \<Rightarrow> Inl e
                 | Inr t' \<Rightarrow>
                     signature_inputs inputs
                       (parameters @ [\<lparr>pa_name = name, pa_ty = t'\<rparr>])
                       (env @ [\<lparr>bi_name = name, bi_ty = t', bi_mutable = mutable\<rparr>]))))"

definition Compiler_signature :: "ItemFn \<Rightarrow> CompileError + Parameter list \<times> Env \<times> Ty" where
  "Compiler_signature item =
     (case signature_inputs (it_inputs item) [] [] of
        Inl e \<Rightarrow> Inl e
      | Inr (parameters, env) \<Rightarrow>
          (case it_output item of
             None \<Rightarrow> Inl ReturnTypeRequired
           | Some result \<Rightarrow>
               (case ty result of Inl e \<Rightarrow> Inl e | Inr t \<Rightarrow> Inr (parameters, rev env, t))))"

fun hint :: "Compiler \<Rightarrow> RExpr \<Rightarrow> Env \<Rightarrow> Ty option" where
  "hint c (EPath attrs p) env =
     Option.bind (plain_path p) (\<lambda>name. map_option (\<lambda>(_, b). bi_ty b) (lookup env name))"
| "hint c (ELit attrs (LitBool b)) env = Some TyBool"
| "hint c (ELit attrs (LitInt n (Suffix (Some t)))) env =
     (case ty t of Inl _ \<Rightarrow> None | Inr t' \<Rightarrow> Some t')"
| "hint c (EParen attrs e) env = hint c e env"
| "hint c (EGroup attrs e) env = hint c e env"
| "hint c (EMethodCall attrs receiver name turbofish args) env = hint c receiver env"
| "hint c (ECall attrs func args) env =
     Option.bind (path_name func) (\<lambda>name.
     Option.bind (map_of (co_functions c) name) (\<lambda>f.
     Option.bind (it_output f) (\<lambda>t. case ty t of Inl _ \<Rightarrow> None | Inr t' \<Rightarrow> Some t')))"
| "hint c (EBinary attrs left op right) env =
     (if op \<in> {BEq, BNe, BLt, BLe, BGt, BGe, BAnd, BOr} then Some TyBool
      else if op \<in> {BShl, BShr} then hint c left env
      else (case hint c left env of None \<Rightarrow> hint c right env | Some t \<Rightarrow> Some t))"
| "hint c _ env = None"

fun binop :: "RBinOp \<Rightarrow> Op option" where
  "binop BAdd = Some OpAdd"
| "binop BSub = Some OpSub"
| "binop BMul = Some OpMul"
| "binop BDiv = Some OpDiv"
| "binop BRem = Some OpRem"
| "binop BBitAnd = Some OpBitAnd"
| "binop BBitOr = Some OpBitOr"
| "binop BBitXor = Some OpBitXor"
| "binop BShl = Some OpShl"
| "binop BShr = Some OpShr"
| "binop BEq = Some OpEq"
| "binop BNe = Some OpNe"
| "binop BLt = Some OpLt"
| "binop BLe = Some OpLe"
| "binop BGt = Some OpGt"
| "binop BGe = Some OpGe"
| "binop _ = None"

definition method_op :: "string \<Rightarrow> Op option" where
  "method_op name =
     (if name = ''min'' then Some OpMin
      else if name = ''max'' then Some OpMax
      else if name = ''saturating_add'' then Some OpSaturatingAdd
      else if name = ''saturating_sub'' then Some OpSaturatingSub
      else if name = ''wrapping_add'' then Some OpWrappingAdd
      else if name = ''wrapping_sub'' then Some OpWrappingSub
      else if name = ''wrapping_mul'' then Some OpWrappingMul
      else None)"

text \<open>A call becomes one binding per argument, the first outermost, around the body of the
  function with its parameters renamed to the positions of these bindings. Indices of a tree
  in memory do not overflow when they are shifted by the number of arguments.\<close>

fun bind_arguments :: "Ty \<Rightarrow> usize \<Rightarrow> Expr list \<Rightarrow> Expr \<Rightarrow> Expr option" where
  "bind_arguments result i [] body = Some body"
| "bind_arguments result i (arg # args) body = do {
     v \<leftarrow> map_free arg 0 (\<lambda>v. Some (v + i));
     b \<leftarrow> bind_arguments result (Suc i) args body;
     Some (Expr result (KLet v b))
   }"

definition expand_call :: "Function \<Rightarrow> Expr list \<Rightarrow> Expr option" where
  "expand_call function args = do {
     body \<leftarrow> map_free (fn_body function) 0
               (\<lambda>i. if i < length args then Some (length args - 1 - i) else None);
     bind_arguments (fn_result function) 0 args body
   }"

definition compile_int :: "Compiler \<Rightarrow> nat \<Rightarrow> RSuffix \<Rightarrow> Ty option \<Rightarrow> (CompileError + Expr) option" where
  "compile_int c digits suffix expected =
     try_bind (Some (case suffix of
         NoSuffix \<Rightarrow> Inr None
       | Suffix None \<Rightarrow> Inl InvalidSuffix
       | Suffix (Some t) \<Rightarrow> map_sum id Some (ty t))) (\<lambda>annotation.
     case (case annotation of None \<Rightarrow> expected | Some t \<Rightarrow> Some t) of
       None \<Rightarrow> Some (Inl IntegerNotInferred)
     | Some t \<Rightarrow>
         (case Ty_bits (co_usize_bits c) t of
            None \<Rightarrow> Some (Inl IntegerAsBool)
          | Some bits \<Rightarrow>
              if 2 ^ 64 \<le> digits then Some (Inl LiteralRange)
              else do {
                bound \<leftarrow> u128_shl 1 (unat bits);
                Some (if bound \<le> digits then Inl LiteralOverflow
                      else Inr (Expr t (KUInt bits (of_nat digits))))
              }))"

text \<open>The size that decreases: a compound assignment is rewritten to a larger statement.\<close>

fun wexpr :: "RExpr \<Rightarrow> nat" and wstmt :: "RStmt \<Rightarrow> nat" and wstmts :: "RStmt list \<Rightarrow> nat"
and wargs :: "RExpr list \<Rightarrow> nat" where
  "wexpr (EParen attrs e) = Suc (wexpr e)"
| "wexpr (EGroup attrs e) = Suc (wexpr e)"
| "wexpr (EBlock attrs label stmts) = Suc (wstmts stmts)"
| "wexpr (EUnary attrs not_op e) = Suc (wexpr e)"
| "wexpr (EBinary attrs left op right) =
     (if op = BBitXorAssign then 2 * wexpr left + wexpr right + 10 else wexpr left + wexpr right + 1)"
| "wexpr (EIf attrs condition yes no) =
     wexpr condition + wstmts yes + (case no of None \<Rightarrow> 0 | Some e \<Rightarrow> wexpr e) + 1"
| "wexpr (EMethodCall attrs receiver name turbofish args) = wexpr receiver + wargs args + 1"
| "wexpr (ECall attrs func args) = wargs args + 1"
| "wexpr (EAssign attrs left right) = wexpr left + wexpr right + 1"
| "wexpr _ = 1"
| "wstmt (SLocal attrs pat (Some (e, diverge))) = Suc (wexpr e)"
| "wstmt (SExpr e semi) = Suc (wexpr e)"
| "wstmt (SMacro attrs path (Some e)) = Suc (wexpr e)"
| "wstmt _ = 1"
| "wstmts [] = 0"
| "wstmts (s # ss) = Suc (wstmt s + wstmts ss)"
| "wargs [] = 0"
| "wargs (e # es) = Suc (wexpr e + wargs es)"

lemma wargs_single: "length es = Suc 0 \<Longrightarrow> wargs es = Suc (wexpr (hd es))"
  by (cases es) simp_all

definition or_else :: "'a option \<Rightarrow> 'a option \<Rightarrow> 'a option" where
  "or_else a b = (case a of None \<Rightarrow> b | Some x \<Rightarrow> Some x)"

text \<open>The type expected of the left operand.\<close>

definition binary_operand ::
    "Compiler \<Rightarrow> RExpr \<Rightarrow> RExpr \<Rightarrow> Env \<Rightarrow> Ty option \<Rightarrow> Op \<Rightarrow> Ty option" where
  "binary_operand c left right env expected op =
     (if op = OpShl \<or> op = OpShr then or_else (hint c left env) expected
      else or_else (hint c left env)
             (or_else (hint c right env) (if Op_comparison op then None else expected)))"

function Compiler_stmts ::
    "Compiler \<Rightarrow> string list \<Rightarrow> RStmt list \<Rightarrow> Env \<Rightarrow> Ty \<Rightarrow> bool \<Rightarrow> Cache \<Rightarrow> (CompileError + Expr \<times> Cache) option"
and Compiler_expr ::
    "Compiler \<Rightarrow> string list \<Rightarrow> RExpr \<Rightarrow> Env \<Rightarrow> Ty option \<Rightarrow> Cache \<Rightarrow> (CompileError + Expr \<times> Cache) option"
and Compiler_form ::
    "Compiler \<Rightarrow> string list \<Rightarrow> RExpr \<Rightarrow> Env \<Rightarrow> Ty option \<Rightarrow> Cache \<Rightarrow> (CompileError + Expr \<times> Cache) option"
and Compiler_args ::
    "Compiler \<Rightarrow> string list \<Rightarrow> RExpr list \<Rightarrow> Parameter list \<Rightarrow> Env \<Rightarrow> Cache
     \<Rightarrow> (CompileError + Expr list \<times> Cache) option"
and Compiler_function ::
    "Compiler \<Rightarrow> string list \<Rightarrow> string \<Rightarrow> Cache \<Rightarrow> (CompileError + Function \<times> Cache) option" where
  "Compiler_stmts c active stmts env result assignments cache =
     (case stmts of
        [] \<Rightarrow> Some (Inl EmptyBlock)
      | SLocal attrs pat init # rest \<Rightarrow>
          try_bind (Some (attributes attrs)) (\<lambda>_.
          try_bind (Some (pattern pat)) (\<lambda>(name, mutable, annotation).
          case init of
            None \<Rightarrow> Some (Inl UninitializedLocal)
          | Some (e, diverge) \<Rightarrow>
              if diverge then Some (Inl LetElse)
              else try_bind (Compiler_expr c active e env annotation cache) (\<lambda>(v, cache1).
                   try_bind (Compiler_stmts c active rest
                        (env @ [\<lparr>bi_name = name, bi_ty = ex_ty v, bi_mutable = mutable\<rparr>])
                        result assignments cache1) (\<lambda>(body, cache2).
                   Some (Inr (Expr result (KLet v body), cache2))))))
      | SExpr e semi # rest \<Rightarrow>
          if semi
          then (case e of
              EBinary attrs left op right \<Rightarrow>
                if op \<noteq> BBitXorAssign then Some (Inl UnsupportedStatement)
                else try_bind (Some (attributes attrs)) (\<lambda>_.
                     if path_name left = None then Some (Inl CompoundTarget)
                     else Compiler_stmts c active
                            (SExpr (EAssign [] left (EBinary [] left BBitXor (EParen [] right))) True # rest)
                            env result assignments cache)
            | EAssign attrs left right \<Rightarrow>
                try_bind (Some (attributes attrs)) (\<lambda>_.
                if \<not> assignments then Some (Inl NestedAssignment)
                else try_bind (Some (case left of EPath attrs' p \<Rightarrow> attributes attrs' | _ \<Rightarrow> Inr ())) (\<lambda>_.
                case path_name left of
                  None \<Rightarrow> Some (Inl AssignmentTarget)
                | Some name \<Rightarrow>
                    (case lookup env name of
                       None \<Rightarrow> Some (Inl (UnboundTarget name))
                     | Some (_, binding) \<Rightarrow>
                         if \<not> bi_mutable binding then Some (Inl ImmutableAssignment)
                         else try_bind (Compiler_expr c active right env (Some (bi_ty binding)) cache) (\<lambda>(v, cache1).
                              try_bind (Compiler_stmts c active rest
                                   (env @ [\<lparr>bi_name = name, bi_ty = bi_ty binding, bi_mutable = True\<rparr>])
                                   result assignments cache1) (\<lambda>(body, cache2).
                              Some (Inr (Expr result (KLet v body), cache2)))))))
            | _ \<Rightarrow> Some (Inl UnsupportedStatement))
          else if rest = [] then Compiler_expr c active e env (Some result) cache
          else Some (Inl UnsupportedStatement)
      | SMacro attrs path tokens # rest \<Rightarrow>
          try_bind (Some (attributes attrs)) (\<lambda>_.
          if path \<noteq> Some ''assert'' then Some (Inl UnsupportedMacro)
          else (case tokens of
              None \<Rightarrow> Some (Inl AssertArguments)
            | Some e \<Rightarrow>
                try_bind (Compiler_expr c active e env (Some TyBool) cache) (\<lambda>(condition, cache1).
                try_bind (Compiler_stmts c active rest env result assignments cache1) (\<lambda>(body, cache2).
                Some (Inr (Expr result (KAssert condition body), cache2))))))
      | SOther # rest \<Rightarrow> Some (Inl UnsupportedStatement))"
| "Compiler_expr c active e env expected cache =
     try_bind (Compiler_form c active e env expected cache) (\<lambda>(output, cache1).
     if is_some_and (\<lambda>t. t \<noteq> ex_ty output) expected then Some (Inl TypeMismatch)
     else Some (Inr (output, cache1)))"
| "Compiler_form c active expr env expected cache =
     (case expr of
        EPath attrs p \<Rightarrow>
          try_bind (Some (attributes attrs)) (\<lambda>_.
          case plain_path p of
            None \<Rightarrow> Some (Inl QualifiedPath)
          | Some name \<Rightarrow>
              (case lookup env name of
                 None \<Rightarrow> Some (Inl (UnresolvedValue name))
               | Some (index, binding) \<Rightarrow> Some (Inr (Expr (bi_ty binding) (KVar index), cache))))
      | ELit attrs lit \<Rightarrow>
          try_bind (Some (attributes attrs)) (\<lambda>_.
          case lit of
            LitBool b \<Rightarrow> Some (Inr (Expr TyBool (KBool b), cache))
          | LitInt digits suffix \<Rightarrow>
              try_bind (compile_int c digits suffix expected) (\<lambda>e. Some (Inr (e, cache)))
          | LitOther \<Rightarrow> Some (Inl UnsupportedLiteral))
      | EParen attrs e \<Rightarrow>
          try_bind (Some (attributes attrs)) (\<lambda>_. Compiler_expr c active e env expected cache)
      | EGroup attrs e \<Rightarrow>
          try_bind (Some (attributes attrs)) (\<lambda>_. Compiler_expr c active e env expected cache)
      | EBlock attrs label stmts \<Rightarrow>
          if label then Some (Inl UnsupportedExpression)
          else try_bind (Some (attributes attrs)) (\<lambda>_.
               case expected of
                 None \<Rightarrow> Some (Inl BlockType)
               | Some t \<Rightarrow> Compiler_stmts c active stmts env t False cache)
      | EUnary attrs is_not e \<Rightarrow>
          if \<not> is_not then Some (Inl UnsupportedExpression)
          else try_bind (Some (attributes attrs)) (\<lambda>_.
               try_bind (Compiler_expr c active e env (Some TyBool) cache) (\<lambda>(arg, cache1).
               Some (Inr (Expr TyBool (KNot arg), cache1))))
      | EBinary attrs left op right \<Rightarrow>
          try_bind (Some (attributes attrs)) (\<lambda>_.
          if op = BAnd \<or> op = BOr
          then try_bind (Compiler_expr c active left env (Some TyBool) cache) (\<lambda>(l, cache1).
               try_bind (Compiler_expr c active right env (Some TyBool) cache1) (\<lambda>(r, cache2).
               let lit = Expr TyBool (KBool (op = BOr));
                   (yes, no) = (if op = BAnd then (r, lit) else (lit, r))
               in Some (Inr (Expr TyBool (KIf l yes no), cache2))))
          else (case binop op of
              None \<Rightarrow> Some (Inl UnsupportedBinary)
            | Some ir_op \<Rightarrow>
                (let shift = (ir_op = OpShl \<or> ir_op = OpShr)
                 in try_bind (Compiler_expr c active left env
                        (binary_operand c left right env expected ir_op) cache) (\<lambda>(l, cache1).
                    try_bind (Compiler_expr c active right env
                         (if shift then or_else (hint c right env) (Some (ex_ty l)) else Some (ex_ty l))
                         cache1) (\<lambda>(r, cache2).
                    if shift \<and> ex_ty r \<noteq> ex_ty l then Some (Inl ShiftTypes)
                    else if ex_ty l = TyBool \<and> ir_op \<noteq> OpEq \<and> ir_op \<noteq> OpNe
                    then Some (Inl UnsignedOperands)
                    else Some (Inr (Expr (if Op_comparison ir_op then TyBool else ex_ty l)
                           (KBinary ir_op l r), cache2)))))))
      | EIf attrs condition yes no \<Rightarrow>
          try_bind (Some (attributes attrs)) (\<lambda>_.
          try_bind (Compiler_expr c active condition env (Some TyBool) cache) (\<lambda>(cond, cache1).
          case expected of
            None \<Rightarrow> Some (Inl IfType)
          | Some result \<Rightarrow>
              try_bind (Compiler_stmts c active yes env result False cache1) (\<lambda>(y, cache2).
              case no of
                None \<Rightarrow> Some (Inl IfElse)
              | Some e \<Rightarrow>
                  try_bind (Compiler_expr c active e env (Some result) cache2) (\<lambda>(n, cache3).
                  Some (Inr (Expr result (KIf cond y n), cache3))))))
      | EMethodCall attrs receiver name turbofish args \<Rightarrow>
          try_bind (Some (attributes attrs)) (\<lambda>_.
          if length args \<noteq> 1 \<or> turbofish then Some (Inl MethodShape)
          else (case method_op name of
              None \<Rightarrow> Some (Inl UnsupportedMethod)
            | Some ir_op \<Rightarrow>
                try_bind (Compiler_expr c active receiver env
                     (or_else (hint c receiver env) expected) cache) (\<lambda>(l, cache1).
                if ex_ty l = TyBool then Some (Inl IntrinsicOnBool)
                else try_bind (Compiler_expr c active (hd args) env (Some (ex_ty l)) cache1) (\<lambda>(r, cache2).
                     Some (Inr (Expr (ex_ty l) (KBinary ir_op l r), cache2))))))
      | ECall attrs func args \<Rightarrow>
          try_bind (Some (attributes attrs)) (\<lambda>_.
          case path_name func of
            None \<Rightarrow> Some (Inl IndirectCall)
          | Some name \<Rightarrow>
              if lookup env name \<noteq> None then Some (Inl ShadowedFunction)
              else try_bind (Some (case func of EPath attrs' p \<Rightarrow> attributes attrs' | _ \<Rightarrow> Inr ())) (\<lambda>_.
                   try_bind (Compiler_function c active name cache) (\<lambda>(function, cache1).
                   if length args \<noteq> length (fn_parameters function) then Some (Inl ArgumentCount)
                   else try_bind (Compiler_args c active args (fn_parameters function) env cache1) (\<lambda>(es, cache2).
                        map_option (\<lambda>body. Inr (body, cache2)) (expand_call function es)))))
      | _ \<Rightarrow> Some (Inl UnsupportedExpression))"
| "Compiler_args c active args parameters env cache =
     (case (args, parameters) of
        (e # es, p # ps) \<Rightarrow>
          try_bind (Compiler_expr c active e env (Some (pa_ty p)) cache) (\<lambda>(v, cache1).
          try_bind (Compiler_args c active es ps env cache1) (\<lambda>(vs, cache2).
          Some (Inr (v # vs, cache2))))
      | _ \<Rightarrow> Some (Inr ([], cache)))"
| "Compiler_function c active name cache =
     (case map_of cache name of
        Some function \<Rightarrow> Some (Inr (function, cache))
      | None \<Rightarrow>
          if list_ex (\<lambda>n. n = name) active then Some (Inl (RecursiveCall name))
          else if 32 \<le> length active then Some (Inl CallDepth)
          else (case map_of (co_functions c) name of
              None \<Rightarrow> Some (Inl (UnresolvedFunction name))
            | Some item \<Rightarrow>
                try_bind (Some (Compiler_signature item)) (\<lambda>(parameters, env, result).
                try_bind (Compiler_stmts c (active @ [name]) (it_stmts item) env result True cache) (\<lambda>(body, cache1).
                if 100000 < Expr_size body then Some (Inl ProgramTooLarge)
                else (let function =
                        \<lparr>fn_name = name, fn_parameters = parameters, fn_result = result, fn_body = body,
                         fn_start_line = it_start_line item, fn_end_line = it_end_line item,
                         fn_rust = it_rust item\<rparr>
                      in Some (Inr (function, btree_insert name function cache1)))))))"
  by pat_completeness auto

termination
  by (relation "measures [
        \<lambda>x. case x of
            Inl (Inl (c, active, stmts, env, result, assignments, cache)) \<Rightarrow> 33 - length active
          | Inl (Inr (c, active, e, env, expected, cache)) \<Rightarrow> 33 - length active
          | Inr (Inl (c, active, e, env, expected, cache)) \<Rightarrow> 33 - length active
          | Inr (Inr (Inl (c, active, es, ps, env, cache))) \<Rightarrow> 33 - length active
          | Inr (Inr (Inr (c, active, name, cache))) \<Rightarrow> 33 - length active,
        \<lambda>x. case x of
            Inl (Inl (c, active, stmts, env, result, assignments, cache)) \<Rightarrow> 2 * wstmts stmts
          | Inl (Inr (c, active, e, env, expected, cache)) \<Rightarrow> 2 * wexpr e + 1
          | Inr (Inl (c, active, e, env, expected, cache)) \<Rightarrow> 2 * wexpr e
          | Inr (Inr (Inl (c, active, es, ps, env, cache))) \<Rightarrow> 2 * wargs es
          | Inr (Inr (Inr (c, active, name, cache))) \<Rightarrow> 0]")
    (auto simp: wargs_single)

declare Compiler_stmts.simps [simp del] Compiler_expr.simps [simp del] Compiler_form.simps [simp del]
  Compiler_args.simps [simp del] Compiler_function.simps [simp del]

fun Compiler_compile_all :: "Compiler \<Rightarrow> string list \<Rightarrow> Cache \<Rightarrow> (CompileError + Cache) option" where
  "Compiler_compile_all c [] cache = Some (Inr cache)"
| "Compiler_compile_all c (name # names) cache =
     try_bind (Compiler_function c [] name cache) (\<lambda>(_, cache1). Compiler_compile_all c names cache1)"

definition Compiler_compile :: "Compiler \<Rightarrow> (CompileError + Function list) option" where
  "Compiler_compile c =
     try_bind (Compiler_compile_all c (map fst (co_functions c)) []) (\<lambda>cache.
     Some (Inr (map snd cache)))"

section \<open>Expanding calls\<close>

text \<open>Evaluation of the arguments from left to right.\<close>

fun evaluate_all :: "Expr list \<Rightarrow> Value list \<Rightarrow> (Fault + Value list) option" where
  "evaluate_all [] env = Some (Inr [])"
| "evaluate_all (e # es) env =
     try_bind (evaluate e env) (\<lambda>v. try_bind (evaluate_all es env) (\<lambda>vs. Some (Inr (v # vs))))"

lemma evaluate_all_length: "evaluate_all es env = Some (Inr vs) \<Longrightarrow> length vs = length es"
  by (induction es arbitrary: vs) (auto simp: try_bind_def split: option.splits sum.splits)

lemma shift_renames: "renames (\<lambda>v. Some (v + length bound)) 0 env (bound @ env)"
  by (auto simp: renames_def nth_append add.commute)

lemma bind_arguments_evaluate:
  assumes "\<forall>arg \<in> set args. scoped (length env) arg"
    and "ex_ty body = result"
  shows "\<exists>e. bind_arguments result (length bound) args body = Some e \<and> ex_ty e = result
     \<and> evaluate e (bound @ env)
       = try_bind (evaluate_all args env) (\<lambda>vs. evaluate body (rev vs @ bound @ env))"
  using assms
proof (induction args arbitrary: bound)
  case (Cons arg args)
  obtain v where v: "map_free arg 0 (\<lambda>v. Some (v + length bound)) = Some v"
    "evaluate v (bound @ env) = evaluate arg env"
    using map_free_evaluate(1) [OF _ shift_renames, of env arg bound] Cons.prems by auto
  have ex: "\<exists>e. bind_arguments result (Suc (length bound)) args body = Some e
      \<and> evaluate e (x # bound @ env)
        = try_bind (evaluate_all args env) (\<lambda>vs. evaluate body (rev vs @ x # bound @ env))" for x
    using Cons.IH [of "x # bound"] Cons.prems by auto
  obtain e where e: "bind_arguments result (Suc (length bound)) args body = Some e"
    using ex by blast
  have "evaluate e (x # bound @ env)
       = try_bind (evaluate_all args env) (\<lambda>vs. evaluate body (rev vs @ x # bound @ env))" for x
    using ex [of x] e by auto
  with v e show ?case
    by (simp add: try_bind_assoc)
qed simp

lemma parameter_renames:
  "renames (\<lambda>i. if i < length vs then Some (length vs - 1 - i) else None) 0 vs (rev vs @ env)"
  by (auto simp: renames_def nth_append rev_nth)

text \<open>Expanding a call is evaluating its arguments in order and then the function's body on them.\<close>

lemma expand_call_evaluate:
  assumes "\<forall>arg \<in> set args. scoped (length env) arg"
    and "scoped (length args) (fn_body f)" and "ex_ty (fn_body f) = fn_result f"
  shows "\<exists>e. expand_call f args = Some e \<and> ex_ty e = fn_result f
     \<and> evaluate e env = try_bind (evaluate_all args env) (evaluate (fn_body f))"
proof -
  let ?f = "\<lambda>i. if i < length args then Some (length args - 1 - i) else None"
  have ex: "\<exists>body. map_free (fn_body f) 0 ?f = Some body \<and> ex_ty body = fn_result f
      \<and> evaluate body (rev vs @ env) = evaluate (fn_body f) vs" if "length vs = length args" for vs
    using map_free_evaluate(1) [OF _ parameter_renames [of vs env, unfolded that], of "fn_body f"] assms(2,3) that by simp
  obtain body where body: "map_free (fn_body f) 0 ?f = Some body" "ex_ty body = fn_result f"
    using ex [of "replicate (length args) (VBool True)"] by auto
  have ev: "evaluate body (rev vs @ env) = evaluate (fn_body f) vs" if "length vs = length args" for vs
    using ex [OF that] body by auto
  obtain e where e: "bind_arguments (fn_result f) 0 args body = Some e" "ex_ty e = fn_result f"
    "evaluate e env = try_bind (evaluate_all args env) (\<lambda>vs. evaluate body (rev vs @ env))"
    using bind_arguments_evaluate [OF assms(1) body(2), of "[]"] by auto
  have "evaluate e env = try_bind (evaluate_all args env) (evaluate (fn_body f))"
    unfolding e(3) by (rule try_bind_cong) (auto dest: evaluate_all_length simp: ev)
  with e body show ?thesis
    by (simp add: expand_call_def)
qed

end
