(* ===== verification/Provium_Compile.thy ===== *)
theory Provium_Compile
  imports Provium_Frontend
begin

text \<open>
  The compiler of \<^verbatim>\<open>provium/src/frontend.rs\<close> does not panic, and the functions it returns are
  well typed: their body has the declared result type under the declared parameter types.
\<close>

section \<open>A calculus for compilation steps\<close>

text \<open>The step does not panic, and what it returns when there is no error satisfies \<open>P\<close>.\<close>

definition okay :: "('e + 'a) option \<Rightarrow> ('a \<Rightarrow> bool) \<Rightarrow> bool" where
  "okay m P \<longleftrightarrow> returns m (\<lambda>r. case r of Inl _ \<Rightarrow> True | Inr x \<Rightarrow> P x)"

lemma okay_simps [simp]: "okay (Some (Inr x)) P = P x" "okay (Some (Inl e)) P" "\<not> okay None P"
  by (simp_all add: okay_def)

lemma okay_try_bind:
  assumes "okay m Q" and "\<And>x. m = Some (Inr x) \<Longrightarrow> Q x \<Longrightarrow> okay (f x) P"
  shows "okay (try_bind m f) P"
  using assms by (auto simp: okay_def try_bind_def returns_def split: option.splits sum.splits)

lemma okay_try_bind_pair:
  assumes "okay m Q" and "\<And>x y. m = Some (Inr (x, y)) \<Longrightarrow> Q (x, y) \<Longrightarrow> okay (f x y) P"
  shows "okay (try_bind m (\<lambda>(x, y). f x y)) P"
  using assms by (auto intro: okay_try_bind)

lemma okay_lift: "(\<And>x. r = Inr x \<Longrightarrow> okay (f x) P) \<Longrightarrow> okay (try_bind (Some r) f) P"
  by (cases r) simp_all

lemma okayD: "okay m P \<Longrightarrow> m = Some (Inr x) \<Longrightarrow> P x"
  by simp

lemma okay_returns: "okay m P \<Longrightarrow> \<exists>r. m = Some r"
  by (auto simp: okay_def returns_iff)

lemma okay_mono: "okay m P \<Longrightarrow> (\<And>x. m = Some (Inr x) \<Longrightarrow> P x \<Longrightarrow> Q x) \<Longrightarrow> okay m Q"
  by (auto simp: okay_def returns_iff split: sum.splits)

section \<open>Well-typed results\<close>

definition env_types :: "Env \<Rightarrow> Ty list" where
  "env_types env = map bi_ty (rev env)"

definition function_typed :: "u32 \<Rightarrow> Function \<Rightarrow> bool" where
  "function_typed ub f \<longleftrightarrow>
     typed ub (map pa_ty (fn_parameters f)) (fn_body f) \<and> ex_ty (fn_body f) = fn_result f"

definition cache_typed :: "u32 \<Rightarrow> Cache \<Rightarrow> bool" where
  "cache_typed ub cache \<longleftrightarrow> (\<forall>(name, f) \<in> set cache. function_typed ub f)"

lemma set_btree_insert: "set (btree_insert k v m) \<subseteq> insert (k, v) (set m)"
  by (induction m) (auto split: if_splits)

lemma cache_typed_insert:
  "cache_typed ub cache \<Longrightarrow> function_typed ub f \<Longrightarrow> cache_typed ub (btree_insert name f cache)"
  using set_btree_insert [of name f cache] by (auto simp: cache_typed_def)

lemma cache_typed_lookup: "cache_typed ub cache \<Longrightarrow> map_of cache name = Some f \<Longrightarrow> function_typed ub f"
  by (auto simp: cache_typed_def dest: map_of_SomeD)

lemma env_types_push: "env_types (env @ [b]) = bi_ty b # env_types env"
  by (simp add: env_types_def)

lemma lookup_typed:
  "lookup env name = Some (i, b) \<Longrightarrow> i < length (env_types env) \<and> env_types env ! i = bi_ty b"
  by (auto simp: lookup_def env_types_def position_Some)

lemma compile_int_typed:
  assumes "co_usize_bits c \<in> {32, 64}"
  shows "okay (compile_int c digits suffix expected) (typed (co_usize_bits c) G)"
proof -
  have lit: "okay (do {
          bound \<leftarrow> u128_shl 1 (unat bits);
          Some (if bound \<le> digits then Inl LiteralOverflow
                else Inr (Expr t (KUInt bits (of_nat digits))))
        }) (typed (co_usize_bits c) G)"
    if "Ty_bits (co_usize_bits c) t = Some bits" and "digits < 2 ^ 64" for t bits
    using that bound_shl(1) [OF Ty_bits_widths [OF assms that(1)]] by (simp add: unat_of_nat)
  show ?thesis
    unfolding compile_int_def
    by (intro okay_lift) (auto simp: lit simp del: One_nat_def split: option.split)
qed

lemma bind_arguments_typed:
  assumes "list_all2 (\<lambda>e t. typed ub G e \<and> ex_ty e = t) args ts"
    and "typed ub (rev ts @ bound @ G) body" and "ex_ty body = result"
  shows "\<exists>e. bind_arguments result (length bound) args body = Some e \<and> typed ub (bound @ G) e \<and> ex_ty e = result"
  using assms
proof (induction args ts arbitrary: bound rule: list_all2_induct)
  case (Cons arg args t ts)
  obtain v where v: "map_free arg 0 (\<lambda>v. Some (v + length bound)) = Some v" "ex_ty v = t" "typed ub (bound @ G) v"
    using map_free_typed(1) [OF _ shift_renames] Cons.hyps(1) by metis
  obtain e where "bind_arguments result (Suc (length bound)) args body = Some e"
    "typed ub (t # bound @ G) e" "ex_ty e = result"
    using Cons.IH [of "t # bound"] Cons.prems by auto
  with v show ?case
    by simp
qed simp

lemma expand_call_typed:
  assumes "function_typed ub f"
    and "list_all2 (\<lambda>e p. typed ub G e \<and> ex_ty e = pa_ty p) args (fn_parameters f)"
  shows "\<exists>e. expand_call f args = Some e \<and> typed ub G e"
proof -
  let ?ts = "map pa_ty (fn_parameters f)"
  have len: "length args = length ?ts"
    using list_all2_lengthD [OF assms(2)] by simp
  obtain body where "map_free (fn_body f) 0 (\<lambda>i. if i < length args then Some (length args - 1 - i) else None) = Some body"
    "ex_ty body = fn_result f" "typed ub (rev ?ts @ G) body"
    using map_free_typed(1) [OF _ parameter_renames [of ?ts G, folded len], of ub "fn_body f"] assms(1)
    by (auto simp: function_typed_def)
  moreover have "list_all2 (\<lambda>e t. typed ub G e \<and> ex_ty e = t) args ?ts"
    using assms(2) by (simp add: list_all2_map2)
  ultimately show ?thesis
    using bind_arguments_typed [of ub G args ?ts "[]" body "fn_result f"] by (auto simp: expand_call_def)
qed

lemma method_op_comparison: "method_op name = Some op \<Longrightarrow> \<not> Op_comparison op"
  by (auto simp: method_op_def Op_comparison_def split: if_splits)

lemma signature_inputs_typed:
  "signature_inputs inputs ps env = Inr (ps', env') \<Longrightarrow> map pa_ty ps = map bi_ty env
   \<Longrightarrow> map pa_ty ps' = map bi_ty env'"
proof (induction inputs ps env rule: signature_inputs.induct)
  case (3 attrs pat t inputs ps env)
  then show ?case
    by (auto split: sum.splits prod.splits if_splits)
qed simp_all

lemma Compiler_signature_typed:
  "Compiler_signature item = Inr (ps, env, t) \<Longrightarrow> env_types env = map pa_ty ps"
  using signature_inputs_typed [of "it_inputs item" "[]" "[]"]
  by (auto simp: Compiler_signature_def env_types_def split: sum.splits option.splits prod.splits)

definition sized :: "Compiler \<Rightarrow> bool" where
  "sized c \<longleftrightarrow> co_usize_bits c \<in> {32, 64}"

text \<open>A compiled expression: well typed, of the expected type if there is one, and the cache
  stays well typed.\<close>

definition typed_as :: "Compiler \<Rightarrow> Env \<Rightarrow> Ty option \<Rightarrow> Expr \<times> Cache \<Rightarrow> bool" where
  "typed_as c env expected = (\<lambda>(e, cache).
     typed (co_usize_bits c) (env_types env) e \<and> is_none_or (\<lambda>t. ex_ty e = t) expected
     \<and> cache_typed (co_usize_bits c) cache)"

definition args_typed_as :: "Compiler \<Rightarrow> Env \<Rightarrow> Parameter list \<Rightarrow> Expr list \<times> Cache \<Rightarrow> bool" where
  "args_typed_as c env ps = (\<lambda>(es, cache).
     list_all2 (\<lambda>e p. typed (co_usize_bits c) (env_types env) e \<and> ex_ty e = pa_ty p) es ps
     \<and> cache_typed (co_usize_bits c) cache)"

lemma typed_as_iff [simp]:
  "typed_as c env expected (e, cache) \<longleftrightarrow>
     typed (co_usize_bits c) (env_types env) e \<and> is_none_or (\<lambda>t. ex_ty e = t) expected
     \<and> cache_typed (co_usize_bits c) cache"
  by (simp add: typed_as_def)

lemma okay_expand_call:
  assumes "function_typed (co_usize_bits c) f" and "args_typed_as c env (fn_parameters f) (es, cache)"
  shows "okay (map_option (\<lambda>body. Inr (body, cache)) (expand_call f es)) (typed_as c env None)"
  using expand_call_typed [OF assms(1), of "env_types env" es] assms(2) by (auto simp: args_typed_as_def)

section \<open>Soundness of one step\<close>

text \<open>Compiling a form under the functions \<open>active\<close> does not panic and gives well-typed results.\<close>

definition expr_sound :: "Compiler \<Rightarrow> string list \<Rightarrow> RExpr \<Rightarrow> bool" where
  "expr_sound c active e \<longleftrightarrow>
     (\<forall>env expected cache. cache_typed (co_usize_bits c) cache
        \<longrightarrow> okay (Compiler_expr c active e env expected cache) (typed_as c env expected))"

definition form_sound :: "Compiler \<Rightarrow> string list \<Rightarrow> RExpr \<Rightarrow> bool" where
  "form_sound c active e \<longleftrightarrow>
     (\<forall>env expected cache. cache_typed (co_usize_bits c) cache
        \<longrightarrow> okay (Compiler_form c active e env expected cache) (typed_as c env None))"

definition stmts_sound :: "Compiler \<Rightarrow> string list \<Rightarrow> RStmt list \<Rightarrow> bool" where
  "stmts_sound c active stmts \<longleftrightarrow>
     (\<forall>env result assignments cache. cache_typed (co_usize_bits c) cache
        \<longrightarrow> okay (Compiler_stmts c active stmts env result assignments cache) (typed_as c env (Some result)))"

definition args_sound :: "Compiler \<Rightarrow> string list \<Rightarrow> RExpr list \<Rightarrow> bool" where
  "args_sound c active es \<longleftrightarrow>
     (\<forall>env ps cache. cache_typed (co_usize_bits c) cache \<longrightarrow> length es = length ps
        \<longrightarrow> okay (Compiler_args c active es ps env cache) (args_typed_as c env ps))"

definition function_sound :: "Compiler \<Rightarrow> string list \<Rightarrow> bool" where
  "function_sound c active \<longleftrightarrow>
     (\<forall>name cache. cache_typed (co_usize_bits c) cache
        \<longrightarrow> okay (Compiler_function c active name cache)
             (\<lambda>(f, cache). function_typed (co_usize_bits c) f \<and> cache_typed (co_usize_bits c) cache))"

lemma expr_soundD:
  "expr_sound c active e \<Longrightarrow> cache_typed (co_usize_bits c) cache
   \<Longrightarrow> okay (Compiler_expr c active e env expected cache) (typed_as c env expected)"
  by (simp add: expr_sound_def)

lemma stmts_soundD:
  "stmts_sound c active stmts \<Longrightarrow> cache_typed (co_usize_bits c) cache
   \<Longrightarrow> okay (Compiler_stmts c active stmts env result assignments cache) (typed_as c env (Some result))"
  by (simp add: stmts_sound_def)

lemma args_soundD:
  "args_sound c active es \<Longrightarrow> cache_typed (co_usize_bits c) cache \<Longrightarrow> length es = length ps
   \<Longrightarrow> okay (Compiler_args c active es ps env cache) (args_typed_as c env ps)"
  by (simp add: args_sound_def)

lemma function_soundD:
  "function_sound c active \<Longrightarrow> cache_typed (co_usize_bits c) cache
   \<Longrightarrow> okay (Compiler_function c active name cache)
        (\<lambda>(f, cache). function_typed (co_usize_bits c) f \<and> cache_typed (co_usize_bits c) cache)"
  by (simp add: function_sound_def)

lemmas compiling [intro!] = okay_lift
  okay_try_bind_pair [OF expr_soundD] okay_try_bind_pair [OF stmts_soundD]

lemma form_expr_sound: "form_sound c active e \<Longrightarrow> expr_sound c active e"
  unfolding expr_sound_def form_sound_def Compiler_expr.simps
  by (fastforce intro!: okay_try_bind_pair simp: is_none_or_def is_some_and_def split: option.splits)

subsection \<open>Expressions\<close>

lemma form_sound_leaves:
  "form_sound c active (EPath attrs p)"
  "sized c \<Longrightarrow> form_sound c active (ELit attrs lit)"
  "form_sound c active (EAssign attrs left right)"
  "form_sound c active EOther"
  unfolding form_sound_def sized_def
  by (auto simp: Compiler_form.simps intro!: okay_try_bind [OF compile_int_typed [of c]]
      split: option.split RLit.split dest: lookup_typed)

lemma form_sound_nested:
  "expr_sound c active e \<Longrightarrow> form_sound c active (EParen attrs e)"
  "expr_sound c active e \<Longrightarrow> form_sound c active (EGroup attrs e)"
  "stmts_sound c active stmts \<Longrightarrow> form_sound c active (EBlock attrs label stmts)"
  "expr_sound c active e \<Longrightarrow> form_sound c active (EUnary attrs is_not e)"
  unfolding form_sound_def
  by (auto simp: Compiler_form.simps intro!: okay_mono [OF expr_soundD] okay_mono [OF stmts_soundD]
      split: option.split)

lemma form_sound_binary:
  assumes "expr_sound c active left" and "expr_sound c active right"
  shows "form_sound c active (EBinary attrs left op right)"
  using assms unfolding form_sound_def
  by (auto simp: Compiler_form.simps Let_def split: option.split if_splits)

lemma form_sound_if:
  assumes "expr_sound c active condition" and "stmts_sound c active yes"
    and "\<And>e. no = Some e \<Longrightarrow> expr_sound c active e"
  shows "form_sound c active (EIf attrs condition yes no)"
  using assms unfolding form_sound_def
  by (auto simp: Compiler_form.simps split: option.split)

lemma form_sound_method:
  assumes "expr_sound c active receiver" and "\<And>e. e \<in> set args \<Longrightarrow> expr_sound c active e"
  shows "form_sound c active (EMethodCall attrs receiver name turbofish args)"
proof -
  have "expr_sound c active (hd args)" if "length args = Suc 0"
    using that assms(2) by (cases args) auto
  then show ?thesis
    using assms(1) method_op_comparison [of name] unfolding form_sound_def
    by (auto simp: Compiler_form.simps split: option.split)
qed

lemma form_sound_call:
  assumes "function_sound c active" and "args_sound c active args"
  shows "form_sound c active (ECall attrs func args)"
  using assms unfolding form_sound_def
  by (auto simp: Compiler_form.simps intro!: okay_try_bind_pair [OF function_soundD]
      okay_try_bind_pair [OF args_soundD] okay_expand_call split: option.split)

lemma args_sound_all:
  assumes "\<And>e. e \<in> set es \<Longrightarrow> expr_sound c active e"
  shows "args_sound c active es"
  using assms
proof (induction es)
  case Nil
  then show ?case
    by (simp add: args_sound_def Compiler_args.simps args_typed_as_def)
next
  case (Cons e es)
  then have "expr_sound c active e" and "args_sound c active es"
    by simp_all
  then have "okay (Compiler_args c active (e # es) (p # ps) env cache) (args_typed_as c env (p # ps))"
    if "cache_typed (co_usize_bits c) cache" and "length es = length ps" for p ps env cache
    using that unfolding Compiler_args.simps [of c active "e # es"]
    by (auto intro!: okay_try_bind_pair [OF args_soundD] simp: args_typed_as_def)
  then show ?case
    unfolding args_sound_def by (auto simp: Suc_length_conv)
qed

lemmas expr_sound_forms =
  form_sound_leaves [THEN form_expr_sound] form_sound_nested [THEN form_expr_sound]
  form_sound_binary [THEN form_expr_sound] form_sound_if [THEN form_expr_sound]
  form_sound_method [THEN form_expr_sound] form_sound_call [OF _ args_sound_all, THEN form_expr_sound]

subsection \<open>Statements\<close>

lemma stmts_sound_nil: "stmts_sound c active []"
  by (simp add: stmts_sound_def Compiler_stmts.simps)

lemma stmts_sound_local:
  assumes "\<And>e diverge. init = Some (e, diverge) \<Longrightarrow> expr_sound c active e" and "stmts_sound c active rest"
  shows "stmts_sound c active (SLocal attrs pat init # rest)"
  using assms unfolding stmts_sound_def [of c active "SLocal attrs pat init # rest"]
  by (subst Compiler_stmts.simps) (auto simp: env_types_push split: option.split)

lemma stmts_sound_macro:
  assumes "\<And>e. tokens = Some e \<Longrightarrow> expr_sound c active e" and "stmts_sound c active rest"
  shows "stmts_sound c active (SMacro attrs path tokens # rest)"
  using assms unfolding stmts_sound_def [of c active "SMacro attrs path tokens # rest"]
  by (subst Compiler_stmts.simps) (auto split: option.split)

lemma stmts_sound_assign:
  assumes "expr_sound c active right" and "stmts_sound c active rest"
  shows "stmts_sound c active (SExpr (EAssign attrs left right) True # rest)"
  using assms unfolding stmts_sound_def [of c active "SExpr (EAssign attrs left right) True # rest"]
  by (subst Compiler_stmts.simps) (auto simp: env_types_push split: option.split)

lemma stmts_sound_xor_assign:
  assumes "expr_sound c active left" and "expr_sound c active right" and "stmts_sound c active rest"
  shows "stmts_sound c active (SExpr (EBinary attrs left op right) True # rest)"
proof -
  have "expr_sound c active (EBinary [] left BBitXor (EParen [] right))"
    using assms by (intro expr_sound_forms)
  then have "stmts_sound c active
      (SExpr (EAssign [] left (EBinary [] left BBitXor (EParen [] right))) True # rest)"
    using assms(3) by (rule stmts_sound_assign)
  then show ?thesis
    unfolding stmts_sound_def [of c active "SExpr (EBinary attrs left op right) True # rest"]
    by (subst Compiler_stmts.simps) (auto intro: stmts_soundD)
qed

text \<open>The operands an expression statement compiles itself.\<close>

definition operands_sound :: "Compiler \<Rightarrow> string list \<Rightarrow> RExpr \<Rightarrow> bool" where
  "operands_sound c active e \<longleftrightarrow>
     (case e of
        EBinary attrs left op right \<Rightarrow> expr_sound c active left \<and> expr_sound c active right
      | EAssign attrs left right \<Rightarrow> expr_sound c active right
      | _ \<Rightarrow> True)"

lemma stmts_sound_expr:
  assumes "expr_sound c active e" and "operands_sound c active e" and "stmts_sound c active rest"
  shows "stmts_sound c active (SExpr e semi # rest)"
proof (cases semi)
  case False
  then show ?thesis
    using assms(1) unfolding stmts_sound_def [of c active "SExpr e semi # rest"]
    by (subst Compiler_stmts.simps) (auto intro: expr_soundD)
next
  case True
  show ?thesis
    using assms(2,3) True stmts_sound_assign [of c active _ rest] stmts_sound_xor_assign [of c active _ _ rest]
    by (cases e) (simp_all add: operands_sound_def stmts_sound_def [of c active "SExpr _ _ # rest"] Compiler_stmts.simps [of c active "SExpr _ _ # rest"])
qed

lemma stmts_sound_other: "stmts_sound c active (SOther # rest)"
  by (simp add: stmts_sound_def Compiler_stmts.simps)

section \<open>Soundness of the compiler\<close>

lemma syntax_sound:
  assumes "sized c" and "function_sound c active"
  shows "expr_sound c active e \<and> operands_sound c active e"
    and "stmts_sound c active rest \<Longrightarrow> stmts_sound c active (stmt # rest)"
    and "stmts_sound c active stmts"
    and "\<And>e. e \<in> set es \<Longrightarrow> expr_sound c active e"
proof (induction e and stmt and stmts and es arbitrary: and rest rule: wexpr_wstmt_wstmts_wargs.induct)
  case (5 attrs left op right)
  then show ?case
    by (cases "op = BBitXorAssign") (auto intro!: expr_sound_forms simp: operands_sound_def)
qed (auto intro!: expr_sound_forms stmts_sound_nil stmts_sound_local stmts_sound_macro stmts_sound_expr stmts_sound_other
    assms simp: operands_sound_def)

lemma function_sound_step:
  assumes "\<And>name stmts. length active < 32 \<Longrightarrow> stmts_sound c (active @ [name]) stmts"
  shows "function_sound c active"
proof -
  have "okay (Compiler_function c active name cache)
     (\<lambda>(f, cache). function_typed (co_usize_bits c) f \<and> cache_typed (co_usize_bits c) cache)"
    if "cache_typed (co_usize_bits c) cache" for name cache
    using that assms unfolding Compiler_function.simps
    by (auto simp: Let_def function_typed_def simp flip: Compiler_signature_typed
        intro!: cache_typed_insert split: option.split dest: cache_typed_lookup)
  then show ?thesis
    by (simp add: function_sound_def)
qed

lemma functions_sound: "sized c \<Longrightarrow> function_sound c active"
proof (induction "32 - length active" arbitrary: active rule: less_induct)
  case less
  have "stmts_sound c (active @ [name]) stmts" if "length active < 32" for name stmts
    using that by (intro syntax_sound(3) less) simp
  then show ?case
    by (intro function_sound_step)
qed

lemma compile_all_sound:
  "sized c \<Longrightarrow> cache_typed (co_usize_bits c) cache
   \<Longrightarrow> okay (Compiler_compile_all c names cache) (cache_typed (co_usize_bits c))"
proof (induction names arbitrary: cache)
  case (Cons name names)
  then show ?case
    by (auto intro!: okay_try_bind_pair [OF function_soundD [OF functions_sound]])
qed simp

lemma compile_sound:
  assumes "sized c"
  shows "okay (Compiler_compile c) (\<lambda>fs. \<forall>f \<in> set fs. function_typed (co_usize_bits c) f)"
  unfolding Compiler_compile_def
  by (rule okay_try_bind [OF compile_all_sound [OF assms]]) (auto simp: cache_typed_def)

lemma Compiler_parse_sized: "Compiler_parse file ub = Inr c \<Longrightarrow> sized c \<and> co_usize_bits c = ub"
  by (auto simp: Compiler_parse_def sized_def split: if_splits sum.splits prod.splits)

text \<open>A well-typed function is safe to run: on any arguments the evaluator answers without a
  panic, rejects exactly those that do not fit the parameters, and otherwise gives a value of
  the result type or one of the faults of checked Rust.\<close>

lemma run_sound:
  assumes "ub \<in> {32, 64}" and "function_typed ub f"
  shows "\<exists>r. run f args ub = Some r
     \<and> (if list_all2 (has_ty ub) args (map pa_ty (fn_parameters f))
        then good_outcome ub (fn_result f) r else r = Inl InputFault)"
proof (cases "length (fn_parameters f) = length args")
  case True
  have "returns (evaluate (fn_body f) args) (good_outcome ub (fn_result f))"
    if "list_all2 (has_ty ub) args (map pa_ty (fn_parameters f))"
    using evaluate_typed(1) [OF assms(1) _ that, of "fn_body f"] assms(2) by (auto simp: function_typed_def)
  then show ?thesis
    using True by (auto simp: run_def valid_arguments_iff [OF assms(1) True] returns_iff)
next
  case False
  then show ?thesis
    by (auto simp: run_def dest: list_all2_lengthD)
qed

end
