(* ===== verification/Provium_Examples.thy ===== *)
theory Provium_Examples
  imports Provium_Compile "HOL-Library.Code_Target_Nat"
begin

text \<open>
  A small program at which the properties of the compiler are applied:

  \<^verbatim>\<open>fn next(x: u8) -> u8 { x + 1 }\<close> and \<^verbatim>\<open>fn twice(y: u8) -> u8 { let z = next(y); next(z) }\<close>.
\<close>

definition plain :: "string \<Rightarrow> RPath" where
  "plain name = RPath False False [(name, True)]"

definition demo_function :: "string \<Rightarrow> string \<Rightarrow> RStmt list \<Rightarrow> ItemFn" where
  "demo_function name parameter stmts =
     \<lparr>it_attrs = [], it_async = False, it_unsafe = False, it_abi = False, it_variadic = False,
      it_generics = False, it_where = False, it_ident = name,
      it_inputs = [Typed [] (PatIdent [] False False False parameter) (TypePath (plain ''u8''))],
      it_output = Some (TypePath (plain ''u8'')), it_stmts = stmts,
      it_start_line = 1, it_end_line = 1, it_rust = []\<rparr>"

definition demo_next :: ItemFn where
  "demo_next = demo_function ''next'' ''x''
     [SExpr (EBinary [] (EPath [] (plain ''x'')) BAdd (ELit [] (LitInt 1 NoSuffix))) False]"

definition demo_call :: "string \<Rightarrow> RExpr" where
  "demo_call name = ECall [] (EPath [] (plain ''next'')) [EPath [] (plain name)]"

definition demo_twice :: ItemFn where
  "demo_twice = demo_function ''twice'' ''y''
     [SLocal [] (PatType [] (PatIdent [] False False False ''z'') (TypePath (plain ''u8'')))
        (Some (demo_call ''y'', False)),
      SExpr (demo_call ''z'') False]"

definition demo_file :: "string + Attribute list \<times> RItem list" where
  "demo_file = Inr ([], [ItemFunction demo_next, ItemFunction demo_twice])"

definition demo_compiler :: Compiler where
  "demo_compiler = \<lparr>co_functions = [(''next'', demo_next), (''twice'', demo_twice)], co_usize_bits = 64\<rparr>"

definition demo_add :: Expr where
  "demo_add = Expr TyU8 (KBinary OpAdd (Expr TyU8 (KVar 0)) (Expr TyU8 (KUInt 8 1)))"

definition demo_next_compiled :: Function where
  "demo_next_compiled =
     \<lparr>fn_name = ''next'', fn_parameters = [\<lparr>pa_name = ''x'', pa_ty = TyU8\<rparr>], fn_result = TyU8,
      fn_body = demo_add, fn_start_line = 1, fn_end_line = 1, fn_rust = []\<rparr>"

definition demo_twice_compiled :: Function where
  "demo_twice_compiled =
     \<lparr>fn_name = ''twice'', fn_parameters = [\<lparr>pa_name = ''y'', pa_ty = TyU8\<rparr>], fn_result = TyU8,
      fn_body = Expr TyU8 (KLet
        (Expr TyU8 (KLet (Expr TyU8 (KVar 0)) demo_add))
        (Expr TyU8 (KLet (Expr TyU8 (KVar 0)) demo_add))),
      fn_start_line = 1, fn_end_line = 1, fn_rust = []\<rparr>"

lemma demo_parse: "Compiler_parse demo_file 64 = Inr demo_compiler"
  by code_simp

lemma demo_compile: "Compiler_compile demo_compiler = Some (Inr [demo_next_compiled, demo_twice_compiled])"
  by code_simp

end
