(* ===== verification/Jarl_Ballot.thy ===== *)
theory Jarl_Ballot
  imports Jarl_Node_Life
begin

text \<open>
  Votes of a node of the fixed engine (\<^verbatim>\<open>Node::new\<close>: no membership hooks). \<open>ballot n\<close> is what
  elections depend on: the configuration, the role, the votes collected, the term and the vote
  given. The lemmas follow the call graph of \<^verbatim>\<open>jarl/src/node.rs\<close> and say what each method does
  to the ballot and to the votes in the outbox; \<open>ballot_step\<close> sums up a whole call.
\<close>

section \<open>What a computation yields\<close>

text \<open>\<open>yields m P\<close>: if \<open>m\<close> does not panic, its value satisfies \<open>P\<close>. That the calls do not panic is
  theory \<open>Jarl_Node_Ops\<close>.\<close>

definition yields :: "'a option \<Rightarrow> ('a \<Rightarrow> bool) \<Rightarrow> bool" where
  "yields m P = (case m of None \<Rightarrow> True | Some x \<Rightarrow> P x)"

named_theorems yield \<open>rules that compute \<open>yields\<close> through the structure of a computation\<close>

lemma yields_Some [simp, yield]: "yields (Some x) P = P x"
  by (simp add: yields_def)

lemma yields_None [simp, yield]: "yields None P"
  by (simp add: yields_def)

lemma yields_bind [yield]: "yields (m \<bind> f) P \<longleftrightarrow> yields m (\<lambda>x. yields (f x) P)"
  by (cases m) auto

lemma yields_index_write [yield]: "yields (index_write xs i v) P \<longleftrightarrow> (i < length xs \<longrightarrow> P (xs[i := v]))"
  by (simp add: index_write_def)

lemma yields_index_read [yield]: "yields (index_read xs i) P \<longleftrightarrow> (i < length xs \<longrightarrow> P (xs ! i))"
  by (simp add: index_read_def)

lemma yields_conseq: "yields m P \<Longrightarrow> (\<And>x. m = Some x \<Longrightarrow> P x \<Longrightarrow> Q x) \<Longrightarrow> yields m Q"
  by (cases m) auto

lemma yieldsD: "yields m P \<Longrightarrow> m = Some x \<Longrightarrow> P x"
  by simp

lemma yieldsI: "(\<And>x. m = Some x \<Longrightarrow> P x) \<Longrightarrow> yields m P"
  by (cases m) auto

lemma yields_triv: "(\<And>x. P x) \<Longrightarrow> yields m P"
  by (cases m) auto

lemma for_each_yields:
  assumes "I s" and "\<And>i s. i \<in> set is \<Longrightarrow> I s \<Longrightarrow> yields (f i s) I"
  shows "yields (for_each f is s) I"
  using assms
proof (induction "is" arbitrary: s)
  case (Cons i "is")
  have "yields (f i s) I"
    using Cons.prems by simp
  then show ?case
    unfolding for_each.simps yields_bind
    by (rule yields_conseq) (use Cons in auto)
qed simp

section \<open>The fixed engine\<close>

definition fixed_engine :: "('v, 's) Node \<Rightarrow> bool" where
  "fixed_engine n \<longleftrightarrow>
     n_hooks n = None \<and> n_membership n = n_bootstrap n
     \<and> Some ` Membership_ids (n_membership n) \<subseteq> set (n_peers n)
     \<and> n_local n = slot_of (cfg_id (n_config n)) (n_peers n)
     \<and> Membership_is_voter (cfg_id (n_config n)) (n_membership n)
     \<and> n_prevoting n = None \<and> n_extra_reply n = None"

text \<open>What the fixed engine never changes, and what elections change.\<close>

definition static :: "('v, 's) Node \<Rightarrow> Config \<times> ('v, 's) MembershipHooks option \<times> Membership \<times> Membership
    \<times> Id option list \<times> usize \<times> u64 option \<times> (Id \<times> Outbound) option \<times> usize" where
  "static n = (n_config n, n_hooks n, n_membership n, n_bootstrap n, n_peers n, n_local n,
     n_prevoting n, n_extra_reply n, State_CAP (n_state n))"

definition ballot :: "('v, 's) Node \<Rightarrow> Role \<times> bool list \<times> u64 \<times> Id option" where
  "ballot n = (n_role n, n_votes n, hs_term (n_hard n), hs_voted_for (n_hard n))"

lemma fixed_engine_static: "static n' = static n \<Longrightarrow> fixed_engine n' = fixed_engine n"
  by (simp add: static_def fixed_engine_def)

lemma election_quorum_static:
  "static n' = static n \<Longrightarrow> n_votes n' = n_votes n \<Longrightarrow> Node_election_quorum n' = Node_election_quorum n"
  by (simp add: static_def Node_election_quorum_def Node_peer_slot_def)

text \<open>Descriptors other than a granted vote that are valid on the wire.\<close>

fun plain_out :: "Outbound \<Rightarrow> bool" where
  "plain_out (OutPreVote _) = False"
| "plain_out (OutPreVoted _ _) = False"
| "plain_out (OutVoted granted) = (\<not> granted)"
| "plain_out (OutReplicated _ (Some (Conflict next))) = (0 < next)"
| "plain_out _ = True"

definition plain_sends :: "('v, 's) Node \<Rightarrow> ('v, 's) Node \<Rightarrow> bool" where
  "plain_sends n n' \<longleftrightarrow>
     length (n_outbox n') = length (n_outbox n)
     \<and> (\<forall>k < length (n_outbox n). n_outbox n' ! k = n_outbox n ! k \<or> is_none_or plain_out (n_outbox n' ! k))"

definition keeps :: "('v, 's) Node \<Rightarrow> ('v, 's) Node \<Rightarrow> bool" where
  "keeps n n' \<longleftrightarrow> static n' = static n \<and> ballot n' = ballot n \<and> plain_sends n n'
     \<and> n_outbox n' ! n_local n = n_outbox n ! n_local n"

text \<open>A slot other than the node's own.\<close>

definition remote :: "usize \<Rightarrow> ('v, 's) Node \<Rightarrow> bool" where
  "remote peer n \<longleftrightarrow> peer \<noteq> Node_N n \<and> peer \<noteq> n_local n"

lemma remote_static: "static n' = static n \<Longrightarrow> remote peer n' = remote peer n"
  by (simp add: remote_def static_def)

lemma plain_sends_refl [simp]: "plain_sends n n"
  by (simp add: plain_sends_def)

lemma plain_sends_trans: "plain_sends a b \<Longrightarrow> plain_sends b c \<Longrightarrow> plain_sends a c"
  unfolding plain_sends_def by metis

lemma plain_sends_same: "n_outbox n' = n_outbox n \<Longrightarrow> plain_sends n n'"
  by (simp add: plain_sends_def)

lemma keeps_refl [simp]: "keeps n n"
  by (simp add: keeps_def)

lemma keeps_trans: "keeps a b \<Longrightarrow> keeps b c \<Longrightarrow> keeps a c"
  unfolding keeps_def
  by (elim conjE, intro conjI) (simp, simp, rule plain_sends_trans, simp_all add: static_def)

lemma keeps_fixed: "keeps n n' \<Longrightarrow> fixed_engine n' = fixed_engine n"
  by (rule fixed_engine_static) (simp add: keeps_def)

text \<open>Updates of the remaining fields.\<close>

lemma keepsI:
  "static n' = static n \<Longrightarrow> ballot n' = ballot n \<Longrightarrow> n_outbox n' = n_outbox n \<Longrightarrow> keeps n n'"
  by (simp add: keeps_def plain_sends_same)

lemma keeps_from:
  assumes "keeps n n1" and "yields m (keeps n1)"
  shows "yields m (keeps n)"
  using assms(2) by (rule yields_conseq) (rule keeps_trans [OF assms(1)])

lemma keeps_step:
  assumes "yields m (keeps n)" and "\<And>n'. keeps n n' \<Longrightarrow> yields (f n') (keeps n')"
  shows "yields (m \<bind> f) (keeps n)"
  unfolding yields_bind
  by (rule yields_conseq [OF assms(1)]) (use assms(2) keeps_from in blast)

lemma fixed_refresh:
  assumes "fixed_engine n"
  shows "Node_refresh_membership n = Some n"
proof -
  have at: "snd (Node_membership_at i n) = n_membership n" for i
    using assms by (simp add: Node_membership_at_def fixed_engine_def)
  have "Node_place_peer i n = Some n" if "i \<in> Membership_ids (n_membership n)" for i
    using that assms image_subset_iff [of Some "Membership_ids (n_membership n)" "set (n_peers n)"]
    by (simp add: Node_place_peer_def fixed_engine_def)
  then have "for_each Node_place_peer is n = Some n" if "set is \<subseteq> Membership_ids (n_membership n)" for "is"
    using that by (induction "is") auto
  then have place: "for_each Node_place_peer (flatten (Membership_peers (n_membership n))) n = Some n"
    by (simp add: set_peers del: set_flatten)
  have "Node_locate n = n"
    using assms by (simp add: Node_locate_def fixed_engine_def slot_of_def Node_peer_slot_def)
  moreover have "Membership_is_voter (cfg_id (n_config n)) (n_membership n)"
    using assms unfolding fixed_engine_def by blast
  ultimately show ?thesis
    by (simp add: Node_refresh_membership_def at Let_def place)
qed

section \<open>Methods that keep the ballot\<close>

lemma keeps_reset_election: "yields (Node_reset_election n) (keeps n)"
  by (auto simp: Node_reset_election_def Let_def yield static_def ballot_def intro!: keepsI yields_triv)

lemma keeps_follow: "fixed_engine n \<Longrightarrow> yields (Node_follow leader n) (keeps (n\<lparr>n_role := Follower\<rparr>))"
  unfolding Node_follow_def Let_def
  by (rule keeps_from [OF keepsI keeps_reset_election]) (auto simp: static_def ballot_def fixed_engine_def)

lemma keeps_send:
  assumes "plain_out out" and "remote peer n"
  shows "yields (Node_send peer out n) (keeps n)"
  using assms
  by (auto simp: Node_send_def yield keeps_def static_def ballot_def plain_sends_def remote_def nth_list_update)

lemma keeps_broadcast: "yields (Node_broadcast n) (keeps n)"
  unfolding Node_broadcast_def
proof (rule for_each_yields)
  fix peer m assume "peer \<in> set [0..<Node_N n]" and m: "keeps n m"
  then have "remote peer m" if "peer \<noteq> n_local m"
    using that by (auto simp: keeps_def static_def remote_def)
  then show "yields (if peer \<noteq> n_local m \<and> is_some_and (\<lambda>i. Membership_contains i (n_membership m)) (n_peers m ! peer)
       then Node_replicate peer m else Some m) (keeps n)"
    using m by (auto simp: Node_replicate_def intro: keeps_from [OF m keeps_send])
qed simp

lemma keeps_ask_voters:
  assumes "plain_out out"
  shows "yields (Node_ask_voters out n) (keeps n)"
  unfolding Node_ask_voters_def
proof (rule for_each_yields)
  fix peer m assume "peer \<in> set [0..<Node_N n]" and m: "keeps n m"
  then have "remote peer m" if "peer \<noteq> n_local m"
    using that by (auto simp: keeps_def static_def remote_def)
  then show "yields (if peer \<noteq> n_local m \<and> is_some_and (\<lambda>i. Membership_is_voter i (n_membership m)) (n_peers m ! peer)
       then Node_send peer out m else Some m) (keeps n)"
    using m assms by (auto intro: keeps_from [OF m keeps_send])
qed simp

lemma keeps_commit_to:
  assumes "fixed_engine n"
  shows "yields (Node_commit_to index n) (keeps n)"
proof -
  let ?m = "(set_hard (\<lambda>h. h\<lparr>hs_commit := index\<rparr>) n)\<lparr>n_dirty := True\<rparr>"
  have "keeps n ?m"
    by (rule keepsI) (simp_all add: static_def ballot_def set_hard_def)
  moreover from this have "Node_refresh_membership ?m = Some ?m"
    using assms keeps_fixed by (blast intro: fixed_refresh)
  ultimately show ?thesis
    by (simp add: Node_commit_to_def)
qed

lemma keeps_advance_commit:
  assumes "fixed_engine n"
  shows "yields (Node_advance_commit n) (\<lambda>x. keeps n (snd x))"
  using keeps_commit_to [OF assms]
  by (auto simp: Node_advance_commit_def yield intro!: yields_triv elim!: yields_conseq)

lemma keeps_set_local_matched: "keeps n (Node_set_local_matched index n)"
  by (auto simp: Node_set_local_matched_def static_def ballot_def intro: keepsI)

lemma State_push_hard: "State_push e st = (r, st') \<Longrightarrow> st_hard st' = st_hard st \<and> State_CAP st' = State_CAP st"
  by (auto simp: State_push_def split: if_splits)

lemma keeps_state:
  assumes "hs_term (st_hard st) = hs_term (n_hard n)" and "hs_voted_for (st_hard st) = hs_voted_for (n_hard n)"
    and "State_CAP st = State_CAP (n_state n)"
  shows "keeps n (n\<lparr>n_state := st, n_dirty := d, n_log_from := f\<rparr>)" and "keeps n (n\<lparr>n_state := st\<rparr>)"
  using assms by (auto simp: static_def ballot_def intro: keepsI)

lemma keeps_advance_from:
  assumes "fixed_engine n" and "keeps n n1"
  shows "yields (Node_advance_commit n1) (\<lambda>x. keeps n (snd x))"
  using assms keeps_advance_commit [of n1]
  by (auto simp: keeps_fixed intro: keeps_trans elim!: yields_conseq)

lemma keeps_barrier:
  assumes "fixed_engine n"
  shows "yields (Node_barrier n) (keeps n)"
proof -
  have "yields (Node_advance_commit (Node_set_local_matched index (n\<lparr>n_state := st, n_dirty := d, n_log_from := f\<rparr>)))
      (\<lambda>x. keeps n (snd x))" if "State_push e (n_state n) = (r, st)" for e r st d f index
    using assms State_push_hard [OF that]
    by (intro keeps_advance_from keeps_trans [OF keeps_state(1) keeps_set_local_matched]) auto
  then show ?thesis
    by (auto simp: Node_barrier_def yield split: option.split prod.split Result.split
        dest: State_push_hard intro!: keeps_state)
qed

section \<open>Replication keeps the ballot\<close>

lemma State_truncate_hard [simp]:
  "st_hard (State_truncate i st) = st_hard st \<and> State_CAP (State_truncate i st) = State_CAP st"
proof (induction i st rule: State_truncate.induct)
  case (1 i st)
  then show ?case
    by (simp add: State_truncate.simps [of i st])
qed

lemma State_install_hard:
  assumes "State_install s st = Some st'"
  shows "hs_term (st_hard st') = hs_term (st_hard st)" and "hs_voted_for (st_hard st') = hs_voted_for (st_hard st)"
    and "State_CAP st' = State_CAP st"
  using State_install_keeps [OF assms] by simp_all

lemma keeps_refresh:
  assumes "fixed_engine n" and "keeps n n1"
  shows "Node_refresh_membership n1 = Some n1"
  using assms keeps_fixed by (blast intro: fixed_refresh)

lemma keeps_commit_from:
  assumes "fixed_engine n" and "keeps n n1"
  shows "yields (Node_commit_to index n1) (keeps n)"
  using assms by (intro keeps_from [OF assms(2) keeps_commit_to]) (simp add: keeps_fixed)

definition valid_answer :: "u64 \<times> Rejection option \<Rightarrow> bool" where
  "valid_answer r \<longleftrightarrow> snd r \<noteq> Some (Conflict 0)"

lemma valid_answer_plain: "valid_answer r \<Longrightarrow> plain_out (OutReplicated (fst r) (snd r))"
proof (cases "snd r")
  case (Some rejection)
  then show "valid_answer r \<Longrightarrow> plain_out (OutReplicated (fst r) (snd r))"
    by (cases rejection) (auto simp: valid_answer_def word_gt_0)
qed simp

lemma keeps_append:
  assumes fixed: "fixed_engine n" and entry: "\<forall>e. entry = Some e \<longrightarrow> li_index (en_id e) \<noteq> 0"
  shows "yields (Node_append previous entry commit n) (\<lambda>(r, n'). keeps n n' \<and> valid_answer r)"
proof -
  have commit: "yields (Node_commit_to i n1) (\<lambda>n'. keeps n n')" if "keeps n n1" for i n1
    using keeps_commit_from [OF fixed that] .
  have pos: "max x 1 \<noteq> (0 :: u64)" "saturating_add x 1 \<noteq> 0" for x :: u64
    using saturating_add_one_pos [of x] by (auto simp: max_def word_gt_0)
  have pushed: "keeps n (n\<lparr>n_state := st'\<rparr>)"
    and refreshed: "Node_refresh_membership (n\<lparr>n_state := st'\<rparr>) = Some (n\<lparr>n_state := st'\<rparr>)"
    and marked: "keeps n (n\<lparr>n_state := st', n_dirty := True, n_log_from := f\<rparr>)"
    if "State_push e (State_truncate i (n_state n)) = (r, st')" for e i r st' f
  proof -
    show "keeps n (n\<lparr>n_state := st'\<rparr>)" and "keeps n (n\<lparr>n_state := st', n_dirty := True, n_log_from := f\<rparr>)"
      using State_push_hard [OF that] by (auto intro: keeps_state)
    then show "Node_refresh_membership (n\<lparr>n_state := st'\<rparr>) = Some (n\<lparr>n_state := st'\<rparr>)"
      by (blast intro: keeps_refresh [OF fixed])
  qed
  show ?thesis
    using entry
    by (auto simp: Node_append_def Let_def yield valid_answer_def pos refreshed pushed
        split: option.split prod.split Result.split
        intro!: commit marked elim!: yields_conseq [OF commit])
qed

lemma keeps_append_batch:
  assumes "fixed_engine n" and "\<forall>e \<in> set es. li_index (en_id e) \<noteq> 0" and "valid_answer response"
  shows "yields (Node_append_batch previous es commit accepted response n) (\<lambda>(r, n'). keeps n n' \<and> valid_answer r)"
  using assms
proof (induction previous es commit accepted response n rule: Node_append_batch.induct)
  case (2 previous e es commit accepted response n)
  have "yields (Node_append previous (Some e) commit n) (\<lambda>(r, n'). keeps n n' \<and> valid_answer r)"
    using 2 by (intro keeps_append) auto
  then show ?case
    unfolding Node_append_batch.simps yields_bind
  proof (rule yields_conseq)
    fix x assume app: "Node_append previous (Some e) commit n = Some x"
      and "case x of (r, n') \<Rightarrow> keeps n n' \<and> valid_answer r"
    then obtain a b n' where x: "x = ((a, b), n')" and k: "keeps n n'" and v: "valid_answer (a, b)"
      by (cases x) auto
    have "fixed_engine n'"
      using k 2(2) by (simp add: keeps_fixed)
    moreover have "valid_answer (a, None)"
      by (simp add: valid_answer_def)
    ultimately have "yields (Node_append_batch (en_id e) es commit True (a, None) n')
        (\<lambda>(r, m). keeps n' m \<and> valid_answer r)" if "b = None"
      using 2(1) [OF app x [symmetric]] 2(3) that by simp
    then have "yields (Node_append_batch (en_id e) es commit True (a, None) n')
        (\<lambda>(r, m). keeps n m \<and> valid_answer r)" if "b = None"
      using that by (auto intro: keeps_trans [OF k] elim!: yields_conseq)
    then show "yields (case x of (r, n') \<Rightarrow> if snd r \<noteq> None then Some (if accepted then response else r, n')
        else Node_append_batch (en_id e) es commit True (fst r, None) n') (\<lambda>(r, n'). keeps n n' \<and> valid_answer r)"
      using k v 2(4) by (auto simp: x)
  qed
qed simp

lemma keeps_replicated:
  assumes fixed: "fixed_engine n" and peer: "remote peer n"
  shows "yields (Node_replicated peer index rejection n) (keeps n)"
proof -
  have rep: "yields (Node_replicate peer n1) (keeps n)" if "keeps n n1" for n1
  proof -
    have "remote peer n1"
      using that peer by (simp add: keeps_def static_def remote_def)
    then show ?thesis
      unfolding Node_replicate_def by (intro keeps_from [OF that keeps_send]) simp_all
  qed
  have cast: "yields (Node_broadcast n1) (keeps n)" if "keeps n n1" for n1
    using that keeps_broadcast by (blast intro: keeps_from)
  have other: "keeps n (n\<lparr>n_active := a, n_matched := m, n_next := x\<rparr>)" "keeps n (n\<lparr>n_active := a, n_next := x\<rparr>)"
    "keeps n (n\<lparr>n_active := a\<rparr>)" for a m x
    by (auto simp: static_def ballot_def intro: keepsI)
  have clamped: "yields (clamp x lo hi) P" if "\<And>y. P y" for x lo hi and P :: "u64 \<Rightarrow> bool"
    using that by (rule yields_triv)
  show ?thesis
    by (auto simp: Node_replicated_def Let_def yield other case_prod_beta
        split: option.split Rejection.split
        intro!: rep cast clamped yields_conseq [OF keeps_advance_from [OF fixed other(1)]])
qed

section \<open>Elections\<close>

text \<open>A vote of its own does not elect a node unless it is the only voter.\<close>

definition alone :: "('v, 's) Node \<Rightarrow> bool" where
  "alone n \<longleftrightarrow> Membership_quorum (\<lambda>i. i = cfg_id (n_config n)) (n_membership n)"

definition own_vote :: "('v, 's) Node \<Rightarrow> bool list" where
  "own_vote n = (map (\<lambda>_. False) (n_votes n))[n_local n := True]"

lemma fixed_local:
  assumes "fixed_engine n"
  shows "n_local n < Node_N n" and "n_peers n ! n_local n = Some (cfg_id (n_config n))"
    and "Node_peer_slot (cfg_id (n_config n)) n = Some (n_local n)"
proof -
  have "cfg_id (n_config n) \<in> Membership_ids (n_membership n)"
    using assms is_voter_iff contains_iff voter_contained unfolding fixed_engine_def by blast
  then have "Some (cfg_id (n_config n)) \<in> set (n_peers n)"
    using assms unfolding fixed_engine_def by auto
  then obtain k where k: "position (\<lambda>p. p = Some (cfg_id (n_config n))) (n_peers n) = Some k"
    using position_exists [of "Some (cfg_id (n_config n))" "n_peers n" "\<lambda>p. p = Some (cfg_id (n_config n))"] by auto
  moreover have "n_local n = slot_of (cfg_id (n_config n)) (n_peers n)"
    using assms unfolding fixed_engine_def by blast
  ultimately have l: "n_local n = k"
    by (simp add: slot_of_def)
  with k show "Node_peer_slot (cfg_id (n_config n)) n = Some (n_local n)"
    by (simp add: Node_peer_slot_def)
  show "n_local n < Node_N n" and "n_peers n ! n_local n = Some (cfg_id (n_config n))"
    using k l unfolding position_Some by blast+
qed

lemma own_vote_quorum:
  assumes fixed: "fixed_engine n" and len: "length (n_votes n) = Node_N n" and votes: "n_votes m = own_vote n"
    and static: "static m = static n"
  shows "Node_election_quorum m \<longleftrightarrow> alone n"
proof -
  have "is_some_and (\<lambda>k. n_votes m ! k) (Node_peer_slot i m) \<longleftrightarrow> i = cfg_id (n_config n)" for i
  proof -
    have slot: "Node_peer_slot i m = Node_peer_slot i n"
      using static by (simp add: Node_peer_slot_def static_def)
    show ?thesis
    proof (cases "Node_peer_slot i n")
      case None
      then show ?thesis
        using slot fixed_local(3) [OF fixed] by auto
    next
      case (Some k)
      then have k: "k < Node_N n" "n_peers n ! k = Some i"
        by (auto simp: Node_peer_slot_def position_Some)
      have "n_votes m ! k \<longleftrightarrow> k = n_local n"
        using k len fixed_local(1) [OF fixed] by (simp add: votes own_vote_def nth_list_update)
      moreover have "k = n_local n \<longleftrightarrow> i = cfg_id (n_config n)"
        using k fixed_local [OF fixed] Some by auto
      ultimately show ?thesis
        using Some slot by simp
    qed
  qed
  moreover have "n_membership m = n_membership n"
    using static by (simp add: static_def)
  ultimately show ?thesis
    by (simp add: Node_election_quorum_def alone_def)
qed

lemma keeps_become_leader:
  assumes "fixed_engine n"
  shows "yields (Node_become_leader n) (keeps (n\<lparr>n_role := Leader\<rparr>))"
proof -
  let ?l = "n\<lparr>n_role := Leader\<rparr>"
  have "static ?l = static n"
    by (simp add: static_def)
  then have l: "fixed_engine ?l"
    using assms by (simp add: fixed_engine_static [of ?l n])
  have "yields (Node_barrier m) (keeps ?l)" if "keeps ?l m" for m
    using that l by (intro keeps_from [OF that keeps_barrier]) (simp add: keeps_fixed)
  then have "yields (Node_barrier m \<bind> Node_broadcast) (keeps ?l)" if "keeps ?l m" for m
    using that keeps_broadcast by (blast intro: keeps_step)
  moreover have "keeps ?l (Node_set_local_matched index (n\<lparr>n_quorum_elapsed := q, n_active := a, n_role := Leader,
      n_leader := x, n_elapsed := e, n_next := y, n_matched := z\<rparr>))" for index q a x e y z
    by (rule keeps_trans [OF keepsI keeps_set_local_matched]) (simp_all add: static_def ballot_def)
  ultimately show ?thesis
    by (simp add: Node_become_leader_def Let_def)
qed

definition candidate :: "u64 \<Rightarrow> ('v, 's) Node \<Rightarrow> ('v, 's) Node" where
  "candidate term n =
     set_hard (\<lambda>h. h\<lparr>hs_term := term, hs_voted_for := Some (cfg_id (n_config n))\<rparr>)
       (n\<lparr>n_role := Candidate, n_votes := own_vote n\<rparr>)"

lemma keeps_campaign:
  assumes fixed: "fixed_engine n" and len: "length (n_votes n) = Node_N n" and others: "\<not> alone n"
  shows "yields (Node_campaign term n) (keeps (candidate term n))"
proof -
  let ?n1 = "(set_hard (\<lambda>h. h\<lparr>hs_term := term, hs_voted_for := Some (cfg_id (n_config n))\<rparr>)
                 (n\<lparr>n_prevoting := None\<rparr>))\<lparr>n_dirty := True, n_role := Candidate, n_leader := None\<rparr>"
  let ?n2 = "?n1\<lparr>n_votes := own_vote n\<rparr>"
  have self: "Node_vote_for_self ?n1 = Some ?n2"
    using fixed_local(1) [OF fixed] len
    by (simp add: Node_vote_for_self_def own_vote_def set_hard_def index_write_def)
  have k2: "keeps (candidate term n) ?n2"
    using fixed by (intro keepsI) (simp_all add: candidate_def static_def ballot_def set_hard_def fixed_engine_def)
  have "yields (if Node_election_quorum m then Node_become_leader m else Node_ask_voters OutVote m)
      (keeps (candidate term n))" if m: "keeps ?n2 m" for m
  proof -
    have "static m = static n" and "n_votes m = own_vote n"
      using m fixed by (auto simp: keeps_def static_def ballot_def set_hard_def fixed_engine_def)
    then have "\<not> Node_election_quorum m"
      using own_vote_quorum [OF fixed len] others by simp
    then show ?thesis
      using keeps_from [OF keeps_trans [OF k2 m] keeps_ask_voters [of OutVote]] by simp
  qed
  then show ?thesis
    unfolding Node_campaign_def Let_def self Option.bind.simps yields_bind
    by (rule yields_conseq [OF keeps_reset_election])
qed

section \<open>Calls\<close>

text \<open>Time: a leader stays leader, and another node may become a candidate of the next term.\<close>

lemma ballot_tick:
  assumes fixed: "fixed_engine n" and len: "length (n_votes n) = Node_N n" and others: "\<not> alone n"
  shows "yields (Node_tick n) (\<lambda>(_, n').
       keeps n n' \<and> (n_role n = Leader \<or> n_outbox n' = n_outbox n)
     \<or> (\<exists>t. checked_add (hs_term (n_hard n)) 1 = Some t \<and> n_role n \<noteq> Leader \<and> keeps (candidate t n) n'))"
proof (cases "Node_available n")
  case (Ok u)
  let ?m = "n\<lparr>n_elapsed := saturating_add (n_elapsed n) 1, n_leader_age := saturating_add (n_leader_age n) 1\<rparr>"
  have k: "keeps n ?m" "keeps n (?m\<lparr>n_elapsed := 0\<rparr>)"
    by (auto simp: static_def ballot_def intro: keepsI)
  have hooks: "n_hooks n = None"
    using fixed unfolding fixed_engine_def by blast
  have lead: "yields (Node_barrier (?m\<lparr>n_elapsed := 0\<rparr>) \<bind> Node_broadcast) (keeps n)"
    using fixed k(2) by (intro keeps_step keeps_from [OF k(2) keeps_barrier] keeps_broadcast) (simp add: keeps_fixed)
  have camp: "yields (Node_campaign t ?m) (keeps (candidate t n))" for t
  proof -
    have "alone ?m = alone n" and "length (n_votes ?m) = Node_N ?m"
      using len by (simp_all add: alone_def)
    then have "yields (Node_campaign t ?m) (keeps (candidate t ?m))"
      using fixed others keeps_fixed [OF k(1)] by (intro keeps_campaign) simp_all
    moreover have "keeps (candidate t n) (candidate t ?m)"
      by (rule keepsI) (simp_all add: candidate_def static_def ballot_def set_hard_def own_vote_def)
    ultimately show ?thesis
      by (blast intro: keeps_from)
  qed
  have "yields (Node_timers ?m) (\<lambda>(_, n').
       keeps n n' \<and> (n_role n = Leader \<or> n_outbox n' = n_outbox n)
     \<or> (\<exists>t. checked_add (hs_term (n_hard n)) 1 = Some t \<and> n_role n \<noteq> Leader \<and> keeps (candidate t n) n'))"
    using lead k(1)
    by (auto simp: Node_timers_def hooks yields_bind split: option.split
        intro!: yields_conseq [OF camp] elim!: yields_conseq)
  then show ?thesis
    using Ok by (simp add: Node_tick_def Node_check_quorum_def Let_def hooks)
qed (simp add: Node_tick_def)

text \<open>A proposal does not touch the ballot.\<close>

lemma push_values_hard:
  "yields (push_values State_push first offset vs st) (\<lambda>(_, st'). st_hard st' = st_hard st \<and> State_CAP st' = State_CAP st)"
proof (induction "State_push :: 'a Entry \<Rightarrow> ('a, 'b) State \<Rightarrow> _" first offset vs st rule: push_values.induct)
  case (3 first offset v vs st)
  show ?case
    unfolding push_values.simps yields_bind
  proof (rule yieldsI)
    fix index assume i: "checked_add (li_index first) (of_nat offset) = Some index"
    let ?p = "State_push \<lparr>en_id = \<lparr>li_index = index, li_term = li_term first\<rparr>, en_value = Some v\<rparr> st"
    obtain r st' where p: "?p = (r, st')"
      by fastforce
    show "yields (case ?p of (Ok _, st') \<Rightarrow> push_values State_push first (Suc offset) vs st'
        | (Err e, st') \<Rightarrow> Some (PushFailed e, st')) (\<lambda>(_, st'). st_hard st' = st_hard st \<and> State_CAP st' = State_CAP st)"
      using 3 [OF i p [symmetric]] State_push_hard [OF p] p by (cases r) auto
  qed
qed simp_all

lemma ballot_propose:
  assumes fixed: "fixed_engine n"
  shows "yields (Node_propose_many count vs n) (\<lambda>(_, n'). keeps n n' \<and> (n_role n = Leader \<or> n' = n))"
proof -
  have rolled: "keeps n (n\<lparr>n_state := BatchRollback_drop i b st\<rparr>)" if "st_hard st = n_hard n \<and> State_CAP st = State_CAP (n_state n)" for i b st
    using that by (intro keeps_state) (simp_all add: BatchRollback_drop_def)
  have tail: "yields (Node_refresh_membership m \<bind> (\<lambda>n2. Node_advance_commit (Node_set_local_matched l n2) \<bind> (\<lambda>(_, n3).
        Node_broadcast n3 \<bind> (\<lambda>n4. Some (Returned (Ok x), n4)))))
      (\<lambda>(_, n'). keeps n n')" if "keeps n m" for m l x
    using that fixed
    by (auto simp: keeps_refresh yields_bind case_prod_beta
        intro!: yields_conseq [OF keeps_advance_from [OF fixed]] keeps_trans [OF that keeps_set_local_matched]
          yields_conseq [OF keeps_broadcast] intro: keeps_trans)
  have marked: "keeps n (n\<lparr>n_state := BatchRollback_drop i b st, n_dirty := d, n_log_from := f\<rparr>)"
    if "st_hard st = n_hard n \<and> State_CAP st = State_CAP (n_state n)" for i b st d f
    using that by (intro keeps_state) (simp_all add: BatchRollback_drop_def)
  show ?thesis
    by (auto simp: Node_propose_many_def Let_def yields_bind split: Result.split option.split PushEnd.split
        intro!: yields_conseq [OF push_values_hard] tail [unfolded yields_bind] rolled marked
          yields_triv [where m = "checked_add a b" for a b])
qed

text \<open>Receiving a message: a newer term is observed first, then the arm of the message acts.\<close>

definition observe :: "u64 \<Rightarrow> ('v, 's) Node \<Rightarrow> ('v, 's) Node" where
  "observe term n =
     (if hs_term (n_hard n) < term
      then set_hard (\<lambda>h. h\<lparr>hs_term := term, hs_voted_for := None\<rparr>) (n\<lparr>n_role := Follower\<rparr>)
      else n)"

lemma observe_static [simp]: "static (observe term n) = static n"
  and observe_votes [simp]: "n_votes (observe term n) = n_votes n"
  and observe_outbox [simp]: "n_outbox (observe term n) = n_outbox n"
  by (simp_all add: observe_def static_def set_hard_def)

lemma observe_fixed: "fixed_engine n \<Longrightarrow> fixed_engine (observe term n)"
  using fixed_engine_static [OF observe_static] by blast

lemma keeps_observe_term:
  assumes "fixed_engine n"
  shows "yields (Node_observe_term term n) (keeps (observe term n))"
proof (cases "hs_term (n_hard n) < term")
  case True
  let ?m = "(set_hard (\<lambda>h. h\<lparr>hs_term := term, hs_voted_for := None\<rparr>) n)\<lparr>n_dirty := True\<rparr>"
  have "static ?m = static n"
    by (simp add: static_def set_hard_def)
  then have "fixed_engine ?m"
    using assms fixed_engine_static by blast
  then have "yields (Node_follow None ?m) (keeps (?m\<lparr>n_role := Follower\<rparr>))"
    by (rule keeps_follow)
  moreover have "keeps (observe term n) (?m\<lparr>n_role := Follower\<rparr>)"
    using True by (intro keepsI) (simp_all add: observe_def static_def ballot_def set_hard_def)
  ultimately show ?thesis
    using True by (auto simp: Node_observe_term_def intro: keeps_from)
qed (simp add: Node_observe_term_def observe_def)

definition granting :: "usize \<Rightarrow> Id \<Rightarrow> ('v, 's) Node \<Rightarrow> ('v, 's) Node" where
  "granting k candidate_id n =
     set_hard (\<lambda>h. h\<lparr>hs_voted_for := Some candidate_id\<rparr>)
       (n\<lparr>n_outbox := (n_outbox n)[k := Some (OutVoted True)]\<rparr>)"

definition counting :: "usize \<Rightarrow> ('v, 's) Node \<Rightarrow> ('v, 's) Node" where
  "counting k n = n\<lparr>n_votes := (n_votes n)[k := True]\<rparr>"

text \<open>What the arm for a message of the current term does: \<open>k\<close> is the sender's slot.\<close>

inductive received :: "usize \<Rightarrow> ('v, 's) Envelope \<Rightarrow> ('v, 's) Node \<Rightarrow> ('v, 's) Node \<Rightarrow> bool"
  for k env n where
  kept: "keeps n n' \<Longrightarrow> received k env n n'"
| followed: "keeps (n\<lparr>n_role := Follower\<rparr>) n' \<Longrightarrow> received k env n n'"
| granted: "\<lbrakk>is_none_or (\<lambda>i. i = env_from env) (hs_voted_for (n_hard n));
     keeps (granting k (env_from env) n) n'\<rbrakk> \<Longrightarrow> received k env n n'"
| counted: "\<lbrakk>env_message env = Voted (hs_term (n_hard n)) True; n_role n = Candidate;
     keeps (counting k n) n'\<rbrakk> \<Longrightarrow> received k env n n'"
| elected: "\<lbrakk>env_message env = Voted (hs_term (n_hard n)) True; n_role n = Candidate;
     Node_election_quorum (counting k n); keeps ((counting k n)\<lparr>n_role := Leader\<rparr>) n'\<rbrakk>
     \<Longrightarrow> received k env n n'"

lemma received_vote:
  assumes "peer < length (n_outbox n)" and "remote peer n"
  shows "yields (Node_on_vote (env_from env) peer lst n) (received peer env n)"
proof -
  let ?n1 = "if hs_voted_for (n_hard n) \<noteq> Some (env_from env)
    then (set_hard (\<lambda>h. h\<lparr>hs_voted_for := Some (env_from env)\<rparr>) n)\<lparr>n_dirty := True\<rparr> else n"
  have sent: "yields (Node_send peer (OutVoted True) m) (keeps (granting peer (env_from env) n))"
    if "keeps ?n1 m" for m
  proof -
    have "m' = m\<lparr>n_outbox := (n_outbox m)[peer := Some (OutVoted True)]\<rparr>"
      if "Node_send peer (OutVoted True) m = Some m'" for m'
      using that \<open>keeps ?n1 m\<close> assms(2)
      by (auto simp: Node_send_def keeps_def static_def set_hard_def remote_def bind_eq_Some_conv split: if_splits)
    moreover have "keeps (granting peer (env_from env) n) (m\<lparr>n_outbox := (n_outbox m)[peer := Some (OutVoted True)]\<rparr>)"
      using that assms
      by (auto simp: keeps_def static_def ballot_def granting_def set_hard_def plain_sends_def remote_def
          nth_list_update split: if_splits)
    ultimately show ?thesis
      by (blast intro: yieldsI)
  qed
  have refused: "yields (Node_send peer (OutVoted False) n) (keeps n)"
    using assms(2) by (intro keeps_send) simp_all
  show ?thesis
    by (auto simp: Node_on_vote_def Let_def yields_bind
        intro!: yields_conseq [OF keeps_reset_election] yields_conseq [OF sent] yields_conseq [OF refused]
        intro: received.granted received.kept)
qed

lemma received_voted:
  assumes fixed: "fixed_engine n"
    and "granted \<Longrightarrow> env_message env = Voted (hs_term (n_hard n)) True"
  shows "yields (Node_on_voted peer granted n) (received peer env n)"
proof -
  have "static (counting peer n) = static n"
    by (simp add: counting_def static_def)
  then have "yields (Node_become_leader (counting peer n)) (keeps ((counting peer n)\<lparr>n_role := Leader\<rparr>))"
    using fixed fixed_engine_static by (blast intro: keeps_become_leader)
  then show ?thesis
    using assms(2)
    by (auto simp: Node_on_voted_def Let_def yields_bind yields_index_write counting_def [symmetric]
        intro: received.kept received.counted received.elected elim!: yields_conseq)
qed

text \<open>The messages of a leader: the node follows, changes its log and answers.\<close>

lemma follow_fixed:
  assumes "fixed_engine n" and "keeps (n\<lparr>n_role := Follower\<rparr>) m"
  shows "fixed_engine m" and "remote peer m = remote peer n"
proof -
  have "static m = static n"
    using assms(2) by (simp add: keeps_def static_def)
  then show "fixed_engine m" and "remote peer m = remote peer n"
    using assms(1) fixed_engine_static remote_static by blast+
qed

lemma received_reply:
  assumes fixed: "fixed_engine n" and peer: "remote peer n"
    and m: "\<And>n1. fixed_engine n1 \<Longrightarrow> yields (m n1) (\<lambda>(r, n'). keeps n1 n' \<and> valid_answer r)"
  shows "yields (Node_follow leader n \<bind> (\<lambda>n1. m n1 \<bind> (\<lambda>(r, n2). Node_reply peer (fst r) (snd r) n2)))
    (received peer env n)"
  unfolding yields_bind
proof (rule yields_conseq [OF keeps_follow [OF fixed]], rule yields_conseq [OF m])
  fix n1 assume n1: "keeps (n\<lparr>n_role := Follower\<rparr>) n1"
  show "fixed_engine n1"
    using follow_fixed(1) [OF fixed n1] .
  fix x assume "case x of (r, n') \<Rightarrow> keeps n1 n' \<and> valid_answer r"
  then obtain r n2 where x: "x = (r, n2)" and n2: "keeps n1 n2" and r: "valid_answer r"
    by (cases x) auto
  have "remote peer n2"
    using peer follow_fixed(2) [OF fixed n1] n2 remote_static unfolding keeps_def by blast
  then have "yields (Node_reply peer (fst r) (snd r) n2) (keeps (n\<lparr>n_role := Follower\<rparr>))"
    unfolding Node_reply_def
    using keeps_from [OF keeps_trans [OF n1 n2] keeps_send [OF valid_answer_plain [OF r]]] by blast
  then show "yields (case x of (r, n2) \<Rightarrow> Node_reply peer (fst r) (snd r) n2) (received peer env n)"
    by (auto simp: x intro: received.followed elim!: yields_conseq)
qed

text \<open>The arm for a snapshot without its answer.\<close>

definition installing :: "'s Snapshot \<Rightarrow> ('v, 's) Node \<Rightarrow> ((u64 \<times> Rejection option) \<times> ('v, 's) Node) option" where
  "installing snapshot n =
     (let index = li_index (sn_last snapshot)
      in if index \<le> hs_commit (n_hard n)
            \<and> is_some_and (\<lambda>i. i \<noteq> sn_last snapshot) (State_id_at index (n_state n))
         then Some ((index, Some (Conflict (saturating_add (li_index (n_base n)) 1))), n)
         else (if li_index (n_base n) < index
                 \<and> (hs_commit (n_hard n) < index
                    \<or> State_id_at index (n_state n) = Some (sn_last snapshot))
              then (let n1 = (if State_id_at index (n_state n) \<noteq> Some (sn_last snapshot)
                              then n\<lparr>n_log_from := checked_add index 1\<rparr> else n)
                    in State_install snapshot (n_state n1) \<bind> (\<lambda>st.
                       Node_refresh_membership (n1\<lparr>n_state := st\<rparr>)
                       \<bind> (\<lambda>n2. Some (n2\<lparr>n_snapshot_changed := True, n_dirty := True\<rparr>))))
              else Some n) \<bind> (\<lambda>n3. Some ((index, None), n3)))"

lemma on_install_eq:
  "Node_on_install from peer snapshot n =
     Node_follow (Some from) n \<bind> (\<lambda>n1. installing snapshot n1 \<bind> (\<lambda>(r, n2). Node_reply peer (fst r) (snd r) n2))"
  unfolding Node_on_install_def installing_def Let_def
  by (rule arg_cong [where f = "Option.bind (Node_follow (Some from) n)"], rule ext) simp

lemma keeps_installing:
  assumes fixed: "fixed_engine n"
  shows "yields (installing snapshot n) (\<lambda>(r, n'). keeps n n' \<and> valid_answer r)"
proof -
  have k: "keeps n (n\<lparr>n_state := st\<rparr>)" "keeps n (n\<lparr>n_log_from := f, n_state := st\<rparr>)"
    "keeps n (n\<lparr>n_state := st, n_snapshot_changed := a, n_dirty := b\<rparr>)"
    "keeps n (n\<lparr>n_log_from := f, n_state := st, n_snapshot_changed := a, n_dirty := b\<rparr>)"
    if "State_install snapshot (n_state n) = Some st" for st f a b
    by (auto simp: static_def ballot_def State_install_hard [OF that] intro: keepsI)
  have "saturating_add x 1 \<noteq> 0" for x :: u64
    using saturating_add_one_pos [of x] by (auto simp: word_gt_0)
  then show ?thesis
    using keeps_refresh [OF fixed] k
    by (cases "State_install snapshot (n_state n)") (auto simp: installing_def valid_answer_def Let_def)
qed

text \<open>The messages that exist in the fixed engine.\<close>

fun is_probe :: "('v, 's) Message \<Rightarrow> bool" where
  "is_probe (PreVote _ _) = True"
| "is_probe (PreVoted _ _ _) = True"
| "is_probe _ = False"

lemma valid_next_index: "valid_next t p e \<Longrightarrow> li_index (en_id e) \<noteq> 0"
  by (auto simp: valid_next_def u64)

lemma valid_chain_index: "valid_chain t p es \<Longrightarrow> \<forall>e \<in> set es. li_index (en_id e) \<noteq> 0"
  by (induction t p es rule: valid_chain.induct) (auto simp: valid_next_index)

lemma received_dispatch:
  assumes fixed: "fixed_engine n" and slots: "peer < length (n_outbox n)" "remote peer n"
    and tm: "hs_term (n_hard n) = Message_term (env_message env)" and val: "Node_valid (env_message env)"
    and probe: "\<not> is_probe (env_message env)"
  shows "yields (Node_dispatch (env_from env) peer (env_message env) n) (received peer env n)"
proof (cases "env_message env")
  case (Vote t lst)
  then show ?thesis
    using received_vote [OF slots] by simp
next
  case (Voted t granted)
  then show ?thesis
    using tm received_voted [OF fixed, of granted env peer] by (cases granted) simp_all
next
  case (Append t previous entry commit)
  then have "\<forall>e. entry = Some e \<longrightarrow> li_index (en_id e) \<noteq> 0"
    using val by (auto simp: Node_valid_def Let_def dest: valid_next_index)
  then show ?thesis
    using Append received_reply [OF fixed slots(2) keeps_append] by (simp add: Node_on_append_def)
next
  case (AppendBatch t previous entries commit)
  then have "valid_batch t previous False 0 entries"
    using val by (simp add: Node_valid_def Let_def)
  then have es: "\<forall>e \<in> set (flatten entries). li_index (en_id e) \<noteq> 0"
    by (rule valid_chain_index [OF valid_batch_chain])
  have "valid_answer (li_index previous, None)"
    by (simp add: valid_answer_def)
  then show ?thesis
    using AppendBatch received_reply [OF fixed slots(2) keeps_append_batch [OF _ es]]
    by (simp add: Node_on_append_batch_def)
next
  case (Install t snapshot)
  then show ?thesis
    using received_reply [OF fixed slots(2) keeps_installing] by (simp add: on_install_eq)
next
  case (Replicated t index rejection)
  then show ?thesis
    by (auto intro: received.kept intro!: yields_conseq [OF keeps_replicated [OF fixed slots(2)]])
qed (use probe in simp_all)

lemma received_stale:
  assumes "remote peer n"
  shows "yields (Node_on_stale peer message n) (keeps n)"
  using assms by (cases message) (auto simp: Node_reply_def intro: keeps_send)

lemma keeps_granting: "keeps a b \<Longrightarrow> keeps (granting k i a) (granting k i b)"
  by (cases "length (n_outbox a) \<le> k")
    (auto simp: list_update_beyond keeps_def static_def ballot_def granting_def set_hard_def plain_sends_def nth_list_update)

lemma keeps_counting: "keeps a b \<Longrightarrow> keeps (counting k a) (counting k b)"
  by (auto simp: keeps_def static_def ballot_def counting_def plain_sends_def)

lemma keeps_role: "keeps a b \<Longrightarrow> keeps (a\<lparr>n_role := r\<rparr>) (b\<lparr>n_role := r\<rparr>)"
  by (auto simp: keeps_def static_def ballot_def plain_sends_def)

lemma received_from:
  assumes k: "keeps a b" and "received s env b n'"
  shows "received s env a n'"
proof -
  have same: "n_role b = n_role a" "hs_term (n_hard b) = hs_term (n_hard a)"
    "hs_voted_for (n_hard b) = hs_voted_for (n_hard a)"
    using k by (simp_all add: keeps_def ballot_def)
  from assms(2) show ?thesis
  proof cases
    case kept
    then show ?thesis
      using keeps_trans [OF k] by (blast intro: received.kept)
  next
    case followed
    then show ?thesis
      using keeps_trans [OF keeps_role [OF k]] by (blast intro: received.followed)
  next
    case granted
    then show ?thesis
      using keeps_trans [OF keeps_granting [OF k]] same by (intro received.granted) simp_all
  next
    case counted
    then show ?thesis
      using keeps_trans [OF keeps_counting [OF k]] same by (intro received.counted) simp_all
  next
    case elected
    moreover have "Node_election_quorum (counting s b) = Node_election_quorum (counting s a)"
      using k by (intro election_quorum_static) (auto simp: keeps_def static_def ballot_def counting_def)
    ultimately show ?thesis
      using keeps_trans [OF keeps_role [OF keeps_counting [OF k]]] same
      by (intro received.elected) simp_all
  qed
qed

lemma received_accept:
  assumes fixed: "fixed_engine n" and slots: "peer < length (n_outbox n)" "remote peer n"
    and val: "Node_valid (env_message env)" and probe: "\<not> is_probe (env_message env)"
  shows "yields (Node_accept peer env n) (received peer env (observe (Message_term (env_message env)) n))"
proof -
  let ?t = "Message_term (env_message env)"
  have hooks: "n_hooks n = None"
    using fixed unfolding fixed_engine_def by blast
  have acc: "Node_accept peer env n = Node_observe_term ?t n \<bind> (\<lambda>n1.
      if ?t < hs_term (n_hard n1) then Node_on_stale peer (env_message env) n1
      else Node_dispatch (env_from env) peer (env_message env) n1)"
    using probe hooks
    by (cases "env_message env") (simp_all add: Node_accept_def cong: if_cong)
  show ?thesis
    unfolding acc yields_bind
  proof (rule yields_conseq [OF keeps_observe_term [OF fixed]])
    fix n1 assume n1: "keeps (observe ?t n) n1"
    have f1: "fixed_engine n1"
      using n1 observe_fixed [OF fixed] keeps_fixed by blast
    have N1: "remote peer n1 = remote peer n" and len1: "length (n_outbox n1) = length (n_outbox n)"
      using n1 observe_static [of ?t n] by (auto simp: keeps_def static_def plain_sends_def remote_def)
    have tm: "hs_term (n_hard n1) = Message_term (env_message env)" if "\<not> ?t < hs_term (n_hard n1)"
      using n1 that by (auto simp: keeps_def ballot_def observe_def set_hard_def split: if_splits)
    show "yields (if ?t < hs_term (n_hard n1) then Node_on_stale peer (env_message env) n1
        else Node_dispatch (env_from env) peer (env_message env) n1) (received peer env (observe ?t n))"
    proof (cases "?t < hs_term (n_hard n1)")
      case True
      moreover have "yields (Node_on_stale peer (env_message env) n1) (keeps n1)"
        using slots N1 by (intro received_stale) simp
      ultimately show ?thesis
        using keeps_trans [OF n1] by (auto intro: received.kept elim!: yields_conseq)
    next
      case False
      then have "yields (Node_dispatch (env_from env) peer (env_message env) n1) (received peer env n1)"
        using f1 slots val probe N1 len1 tm by (intro received_dispatch) simp_all
      with False show ?thesis
        by (auto intro: received_from [OF n1] elim!: yields_conseq)
    qed
  qed
qed

lemma ballot_step:
  assumes fixed: "fixed_engine n" and len: "length (n_outbox n) = Node_N n" and probe: "\<not> is_probe (env_message env)"
  shows "yields (Node_step env n) (\<lambda>(_, n'). n' = n \<or>
     (\<exists>k. k < Node_N n \<and> k \<noteq> n_local n \<and> n_peers n ! k = Some (env_from env) \<and> Message_term (env_message env) \<noteq> 0
        \<and> received k env (observe (Message_term (env_message env)) n) n'))"
proof -
  let ?m = "n\<lparr>n_request_from := Some (env_from env)\<rparr>" and ?t = "Message_term (env_message env)"
  have m: "keeps n ?m" "keeps (observe ?t n) (observe ?t ?m)"
    by (auto simp: static_def ballot_def observe_def set_hard_def intro!: keepsI)
  have acc: "yields (Node_accept k env ?m) (received k env (observe ?t n))"
    if "k < Node_N n" "k \<noteq> n_local n" "Node_valid (env_message env)" for k
  proof -
    have "yields (Node_accept k env ?m) (received k env (observe ?t ?m))"
      using that fixed len probe keeps_fixed [OF m(1)] by (intro received_accept) (simp_all add: remote_def)
    then show ?thesis
      by (rule yields_conseq) (rule received_from [OF m(2)])
  qed
  have slot: "k < Node_N n \<and> n_peers n ! k = Some (env_from env)" if "Node_sender env n = Some k" for k
    using that fixed
    by (auto simp: Node_sender_def Node_peer_slot_def fixed_engine_def position_Some split: option.splits)
  have "k \<noteq> n_local n" if "Node_sender env n = Some k" "env_from env \<noteq> cfg_id (n_config n)" for k
    using slot [OF that(1)] that(2) fixed_local(2) [OF fixed] by auto
  moreover have "?t \<noteq> 0" if "Node_valid (env_message env)"
    using that probe by (cases "env_message env") (auto simp: Node_valid_def Let_def)
  ultimately show ?thesis
    using slot acc
    by (auto simp: Node_step_def yields_bind split: Result.split option.split
        intro!: yields_conseq [OF acc])
qed

section \<open>The invariant of the ballot\<close>

text \<open>A leader has a quorum of votes, and a granted vote in the outbox is the vote given.\<close>

definition out_ok :: "('v, 's) Node \<Rightarrow> usize \<Rightarrow> bool" where
  "out_ok n k \<longleftrightarrow> is_none_or (\<lambda>out. hs_term (n_hard n) \<noteq> 0
     \<and> (plain_out out \<or> out = OutVoted True \<and> n_peers n ! k = hs_voted_for (n_hard n))) (n_outbox n ! k)"

definition ballot_ok :: "('v, 's) Node \<Rightarrow> bool" where
  "ballot_ok n \<longleftrightarrow>
     fixed_engine n \<and> \<not> alone n \<and> (n_role n = Leader \<longrightarrow> Node_election_quorum n)
     \<and> is_none_or (\<lambda>p. Some p \<in> set (n_peers n)) (hs_voted_for (n_hard n))
     \<and> (\<forall>k < length (n_outbox n). out_ok n k) \<and> n_outbox n ! n_local n = None"

lemma alone_static: "static n' = static n \<Longrightarrow> alone n' = alone n"
  by (simp add: static_def alone_def)

lemma ballot_okI:
  assumes "ballot_ok n" and "static n' = static n" and "n_role n' = Leader \<Longrightarrow> Node_election_quorum n'"
    and "is_none_or (\<lambda>p. Some p \<in> set (n_peers n)) (hs_voted_for (n_hard n'))"
    and "\<And>k. k < length (n_outbox n') \<Longrightarrow> out_ok n' k" and "n_outbox n' ! n_local n = None"
  shows "ballot_ok n'"
proof -
  have "n_peers n' = n_peers n" and "n_local n' = n_local n"
    using assms(2) by (simp_all add: static_def)
  then show ?thesis
    using assms fixed_engine_static [OF assms(2)] alone_static [OF assms(2)] by (simp add: ballot_ok_def)
qed

lemma ballot_ok_keeps:
  assumes ok: "ballot_ok m" and k: "keeps m n" and out: "hs_term (n_hard m) \<noteq> 0 \<or> n_outbox n = n_outbox m"
  shows "ballot_ok n"
proof (rule ballot_okI [OF ok])
  show "static n = static m"
    using k by (simp add: keeps_def)
  have b: "n_role n = n_role m" "n_votes n = n_votes m" "hs_term (n_hard n) = hs_term (n_hard m)"
    "hs_voted_for (n_hard n) = hs_voted_for (n_hard m)"
    using k by (simp_all add: keeps_def ballot_def)
  show "Node_election_quorum n" if "n_role n = Leader"
    using ok b that election_quorum_static [OF \<open>static n = static m\<close>] by (simp add: ballot_ok_def)
  show "is_none_or (\<lambda>p. Some p \<in> set (n_peers m)) (hs_voted_for (n_hard n))"
    using ok b by (simp add: ballot_ok_def)
  show "n_outbox n ! n_local m = None"
    using k ok by (simp add: keeps_def ballot_ok_def)
  have p: "n_peers n = n_peers m"
    using k by (simp add: keeps_def static_def)
  fix i assume "i < length (n_outbox n)"
  then have "out_ok m i" and "n_outbox n ! i = n_outbox m ! i \<or> is_none_or plain_out (n_outbox n ! i)"
    using ok k by (auto simp: ballot_ok_def keeps_def plain_sends_def)
  then show "out_ok n i"
    using out by (cases "n_outbox n ! i"; cases "n_outbox m ! i") (auto simp: out_ok_def b p)
qed

text \<open>A node that is idle has nothing in its outbox.\<close>

lemma idle_out: "Node_available n = Ok () \<Longrightarrow> k < length (n_outbox n) \<Longrightarrow> n_outbox n ! k = None"
  by (auto simp: available_iff)

definition granted_by :: "('v, 's) Envelope \<Rightarrow> (Id \<times> u64) set" where
  "granted_by env = (case env_message env of Voted t True \<Rightarrow> {(env_from env, t)} | _ \<Rightarrow> {})"

definition votes_step :: "(Id \<times> u64) set \<Rightarrow> ('v, 's) Node \<Rightarrow> ('v, 's) Node \<Rightarrow> bool" where
  "votes_step evidence n n' \<longleftrightarrow>
     static n' = static n
     \<and> (n_role n' \<noteq> Follower \<longrightarrow>
          n_role n \<noteq> Follower \<and> hs_term (n_hard n') = hs_term (n_hard n)
            \<and> (\<forall>k p. n_peers n ! k = Some p \<longrightarrow> k < Node_N n \<longrightarrow> n_votes n' ! k \<longrightarrow>
                 n_votes n ! k \<or> (p, hs_term (n_hard n')) \<in> evidence)
        \<or> n_role n' = Candidate \<and> (\<forall>k < Node_N n. n_votes n' ! k \<longrightarrow> k = n_local n))"

lemma votes_step_refl: "votes_step evidence n n"
  by (auto simp: votes_step_def)

lemma votes_step_keeps:
  assumes "votes_step evidence n m" and "keeps m n'"
  shows "votes_step evidence n n'"
  using assms by (auto simp: votes_step_def keeps_def ballot_def)

lemma votes_step_follower: "static n' = static n \<Longrightarrow> n_role n' = Follower \<Longrightarrow> votes_step evidence n n'"
  by (simp add: votes_step_def)

lemma observe_keeps_role:
  "n_role (observe t n) \<noteq> Follower \<Longrightarrow> observe t n = n"
  by (auto simp: observe_def set_hard_def split: if_splits)

lemma ballot_ok_received:
  assumes ok: "ballot_ok n" and idle: "\<And>j. j < length (n_outbox n) \<Longrightarrow> n_outbox n ! j = None"
    and lens: "length (n_votes n) = Node_N n"
    and k: "k < Node_N n" "n_peers n ! k = Some (env_from env)" "k \<noteq> n_local n" and tm: "hs_term (n_hard n) \<noteq> 0"
    and rec: "received k env n n'"
  shows "ballot_ok n' \<and> votes_step (granted_by env) n n' \<and> hs_term (n_hard n') = hs_term (n_hard n)"
proof -
  have finish: ?thesis if "ballot_ok m" "votes_step (granted_by env) n m" "hs_term (n_hard m) = hs_term (n_hard n)" "keeps m n'" for m
    using that tm ballot_ok_keeps [OF that(1,4)] votes_step_keeps [OF that(2,4)]
    by (auto simp: keeps_def ballot_def)
  have voted: "is_none_or (\<lambda>p. Some p \<in> set (n_peers n)) (hs_voted_for (n_hard n))"
    using ok by (simp add: ballot_ok_def)
  have own: "n_outbox n ! n_local n = None"
    using ok by (simp add: ballot_ok_def)
  have sender: "Some (env_from env) \<in> set (n_peers n)"
    using k by (metis nth_mem)
  from rec show ?thesis
  proof cases
    case kept
    then show ?thesis
      using finish [of n] ok votes_step_refl by blast
  next
    case followed
    have "ballot_ok (n\<lparr>n_role := Follower\<rparr>)"
      using voted own by (intro ballot_okI [OF ok]) (auto simp: static_def out_ok_def idle)
    then show ?thesis
      using followed by (intro finish [of "n\<lparr>n_role := Follower\<rparr>"] votes_step_follower) (simp_all add: static_def)
  next
    case granted
    let ?m = "granting k (env_from env) n"
    have st: "static ?m = static n"
      by (simp add: granting_def static_def set_hard_def)
    have "ballot_ok ?m"
    proof (rule ballot_okI [OF ok st])
      show "Node_election_quorum ?m" if "n_role ?m = Leader"
        using ok that election_quorum_static [OF st] by (simp add: ballot_ok_def granting_def set_hard_def)
      show "is_none_or (\<lambda>p. Some p \<in> set (n_peers n)) (hs_voted_for (n_hard ?m))"
        using sender by (simp add: granting_def set_hard_def)
      show "out_ok ?m j" if "j < length (n_outbox ?m)" for j
        using that idle tm k by (cases "j = k") (auto simp: out_ok_def granting_def set_hard_def)
      show "n_outbox ?m ! n_local n = None"
        using own k(3) by (simp add: granting_def set_hard_def)
    qed
    moreover have "votes_step (granted_by env) n ?m"
      by (auto simp: votes_step_def st) (auto simp: granting_def set_hard_def)
    ultimately show ?thesis
      using granted by (intro finish [of ?m]) (simp_all add: granting_def set_hard_def)
  next
    case counted
    let ?m = "counting k n"
    have st: "static ?m = static n"
      by (simp add: counting_def static_def)
    have "ballot_ok ?m"
      using voted own counted by (intro ballot_okI [OF ok st]) (auto simp: counting_def out_ok_def idle)
    moreover have "votes_step (granted_by env) n ?m"
      using counted k lens by (auto simp: votes_step_def st granted_by_def) (auto simp: counting_def nth_list_update split: if_splits)
    ultimately show ?thesis
      using counted by (intro finish [of ?m]) (simp_all add: counting_def)
  next
    case elected
    let ?m = "(counting k n)\<lparr>n_role := Leader\<rparr>"
    have st: "static ?m = static n"
      by (simp add: counting_def static_def)
    have "Node_election_quorum ?m"
      using elected by (simp add: Node_election_quorum_def Node_peer_slot_def)
    then have "ballot_ok ?m"
      using voted own by (intro ballot_okI [OF ok st]) (auto simp: counting_def out_ok_def idle)
    moreover have "votes_step (granted_by env) n ?m"
      using elected k lens by (auto simp: votes_step_def st granted_by_def) (auto simp: counting_def nth_list_update split: if_splits)
    ultimately show ?thesis
      using elected by (intro finish [of ?m]) (simp_all add: counting_def)
  qed
qed

lemma votes_step_observed:
  assumes "votes_step evidence (observe t n) n'"
  shows "votes_step evidence n n'"
proof (cases "n_role (observe t n) = Follower")
  case True
  have "Node_N (observe t n) = Node_N n" and "n_local (observe t n) = n_local n"
    using observe_static [of t n] by (simp_all add: static_def)
  then show ?thesis
    using True assms by (auto simp: votes_step_def)
next
  case False
  then show ?thesis
    using assms observe_keeps_role [OF False] by simp
qed

lemma ballot_ok_observe:
  assumes "ballot_ok n" and "\<And>j. j < length (n_outbox n) \<Longrightarrow> n_outbox n ! j = None"
  shows "ballot_ok (observe t n)"
proof (rule ballot_okI [OF assms(1) observe_static])
  show "Node_election_quorum (observe t n)" if "n_role (observe t n) = Leader"
  proof -
    have "observe t n = n"
      using that by (intro observe_keeps_role) simp
    then show ?thesis
      using that assms(1) by (simp add: ballot_ok_def)
  qed
  show "is_none_or (\<lambda>p. Some p \<in> set (n_peers n)) (hs_voted_for (n_hard (observe t n)))"
    using assms(1) by (simp add: ballot_ok_def observe_def set_hard_def)
qed (use assms in \<open>simp_all add: out_ok_def ballot_ok_def\<close>)

text \<open>What a call does to the ballot: the invariant is kept, and votes are only added on evidence.\<close>

lemma ballot_receive:
  assumes inv: "Node_inv n" and ok: "ballot_ok n" and probe: "\<not> is_probe (env_message env)"
    and step: "Node_step env n = Some (r, n')"
  shows "ballot_ok n' \<and> votes_step (granted_by env) n n'
    \<and> hs_term (n_hard n') \<in> {hs_term (n_hard n), Message_term (env_message env)}"
proof (cases "Node_available n")
  case (Err e)
  then show ?thesis
    using step ok by (simp add: Node_step_def votes_step_refl)
next
  case (Ok u)
  then have idle: "n_outbox n ! j = None" if "j < length (n_outbox n)" for j
    using that idle_out by simp
  let ?t = "Message_term (env_message env)" and ?m = "observe (Message_term (env_message env)) n"
  have lens: "length (n_votes n) = Node_N n" "length (n_outbox n) = Node_N n"
    using inv by (simp_all add: Node_inv_def slots_ok_def)
  have same: "n_peers ?m = n_peers n" "n_local ?m = n_local n"
    using observe_static [of ?t n] by (simp_all add: static_def)
  have "fixed_engine n"
    using ok by (simp add: ballot_ok_def)
  from yieldsD [OF ballot_step [OF this lens(2) probe] step] consider "n' = n"
    | k where "k < Node_N n" "k \<noteq> n_local n" "n_peers n ! k = Some (env_from env)" "?t \<noteq> 0" "received k env ?m n'"
    by auto
  then show ?thesis
  proof cases
    case 1
    then show ?thesis
      using ok by (simp add: votes_step_refl)
  next
    case 2
    have "hs_term (n_hard ?m) \<noteq> 0" and tm: "hs_term (n_hard ?m) \<in> {hs_term (n_hard n), ?t}"
      using \<open>?t \<noteq> 0\<close> by (auto simp: observe_def set_hard_def not_less)
    then have "ballot_ok n' \<and> votes_step (granted_by env) ?m n' \<and> hs_term (n_hard n') = hs_term (n_hard ?m)"
      using 2 ok idle lens same by (intro ballot_ok_received [where k = k] ballot_ok_observe) simp_all
    then show ?thesis
      using votes_step_observed tm by auto
  qed
qed

lemma ballot_time:
  assumes inv: "Node_inv n" and ok: "ballot_ok n" and tick: "Node_tick n = Some (r, n')"
  shows "ballot_ok n' \<and> votes_step {} n n'
    \<and> (hs_term (n_hard n') = hs_term (n_hard n)
       \<or> n_role n \<noteq> Leader \<and> checked_add (hs_term (n_hard n)) 1 = Some (hs_term (n_hard n')))"
proof (cases "Node_available n")
  case (Err e)
  then show ?thesis
    using tick ok by (simp add: Node_tick_def votes_step_refl)
next
  case (Ok u)
  then have idle: "n_outbox n ! j = None" if "j < length (n_outbox n)" for j
    using that idle_out by simp
  have lens: "length (n_votes n) = Node_N n"
    using inv by (simp add: Node_inv_def slots_ok_def)
  have fixed: "fixed_engine n" and "\<not> alone n"
    using ok by (simp_all add: ballot_ok_def)
  from yieldsD [OF ballot_tick [OF this(1) lens this(2)] tick] consider
      (kept) "keeps n n'" "n_role n = Leader \<or> n_outbox n' = n_outbox n"
    | (campaign) t where "checked_add (hs_term (n_hard n)) 1 = Some t" "n_role n \<noteq> Leader" "keeps (candidate t n) n'"
    by auto
  then show ?thesis
  proof cases
    case kept
    have "hs_term (n_hard n) \<noteq> 0" if "n_role n = Leader"
      using inv that by (simp add: Node_inv_def role_ok_def)
    then show ?thesis
      using kept ballot_ok_keeps [OF ok kept(1)] votes_step_keeps [OF votes_step_refl kept(1)]
      by (auto simp: keeps_def ballot_def)
  next
    case campaign
    let ?m = "candidate t n"
    have st: "static ?m = static n" and role: "n_role ?m = Candidate" and tm: "hs_term (n_hard ?m) = t"
      and vs: "n_votes ?m = own_vote n" and out: "n_outbox ?m = n_outbox n"
      and voted: "hs_voted_for (n_hard ?m) = Some (cfg_id (n_config n))"
      by (simp_all add: candidate_def static_def set_hard_def)
    have "Some (cfg_id (n_config n)) \<in> set (n_peers n)"
      using fixed_local [OF fixed] by (metis nth_mem)
    moreover have "n_outbox n ! n_local n = None"
      using ok by (simp add: ballot_ok_def)
    ultimately have "ballot_ok ?m"
      by (intro ballot_okI [OF ok st]) (simp_all add: role voted out_ok_def out idle)
    moreover have "t \<noteq> 0"
      using campaign(1) by (auto simp: u64)
    moreover have "votes_step {} n ?m"
      using lens by (auto simp: votes_step_def st role vs own_vote_def nth_list_update split: if_splits)
    ultimately show ?thesis
      using campaign ballot_ok_keeps [of ?m n'] votes_step_keeps [of _ n ?m n'] tm
      by (auto simp: keeps_def ballot_def)
  qed
qed

lemma ballot_proposal:
  assumes inv: "Node_inv n" and ok: "ballot_ok n" and p: "Node_propose_many count vs n = Some (r, n')"
  shows "ballot_ok n' \<and> votes_step {} n n' \<and> hs_term (n_hard n') = hs_term (n_hard n)"
proof -
  have "fixed_engine n"
    using ok by (simp add: ballot_ok_def)
  from yieldsD [OF ballot_propose [OF this] p] have k: "keeps n n'" "n_role n = Leader \<or> n' = n"
    by auto
  have "hs_term (n_hard n) \<noteq> 0" if "n_role n = Leader"
    using inv that by (simp add: Node_inv_def role_ok_def)
  then show ?thesis
    using k ballot_ok_keeps [OF ok k(1)] votes_step_keeps [OF votes_step_refl k(1)]
    by (auto simp: keeps_def ballot_def)
qed

section \<open>Messages leave the node valid\<close>

lemma valid_id_at:
  assumes inv: "State_inv st" and "State_id_at i st = Some d"
  shows "valid_id (hs_term (st_hard st)) d"
proof -
  note ch = State_inv_D(2) [OF inv]
  have last: "li_term (State_base st) \<le> hs_term (st_hard st)"
    using State_inv_D(3) [OF inv] log_chain_last_term [OF ch] unfolding State_last_def by (rule order.trans [rotated])
  from assms(2) consider "d = State_base st" | e where "e \<in> set (State_entries st)" "en_id e = d"
    using State_id_at_cases [OF State_inv_D(1) [OF inv] ch] by auto
  then show ?thesis
  proof cases
    case 1
    then show ?thesis
      using inv last
      by (cases "st_snapshot st") (auto simp: valid_id_def State_inv_def word_gt_0 State_base_def)
  next
    case 2
    have "li_index d \<noteq> 0"
      using log_chain_mem_index [OF ch 2(1)] 2(2) by auto
    then show ?thesis
      using log_chain_terms [OF ch 2(1)] State_inv_D(3) [OF inv] 2(2)
      by (auto simp: valid_id_def word_gt_0 State_last_def)
  qed
qed

lemma log_chain_mono:
  assumes ch: "log_chain b es" and "i < j" "j < length es"
  shows "li_term (en_id (es ! i)) \<le> li_term (en_id (es ! j))"
proof -
  have "es ! j \<in> set (drop (Suc i) es)"
    using assms by (auto simp: in_set_conv_nth intro!: exI [of _ "j - Suc i"])
  moreover have "log_last b (take (Suc i) es) = en_id (es ! i)"
    using assms by (simp add: take_Suc_conv_app_nth)
  ultimately show ?thesis
    using log_chain_terms [OF log_chain_drop [OF ch, of "Suc i"]] by simp
qed

lemma valid_next_at:
  assumes inv: "State_inv st" and p: "State_id_at before st = Some previous" and e: "State_get i st = Some e"
    and i: "checked_add before 1 = Some i"
  shows "valid_next (hs_term (st_hard st)) previous e"
proof -
  note wf = State_inv_D(1,2) [OF inv]
  have em: "e \<in> set (State_entries st)" and ei: "li_index (en_id e) = i"
    using e State_get_mem [OF wf] by auto
  have pi: "li_index previous = before"
    using State_id_at_index [OF wf p] .
  have "State_id_at i st = Some (en_id e)"
    using State_id_at_cases [OF wf] em ei by auto
  then have "valid_id (hs_term (st_hard st)) (en_id e)"
    using valid_id_at [OF inv] by blast
  moreover have "li_term previous \<le> li_term (en_id e)"
  proof (cases "previous = State_base st")
    case True
    then show ?thesis
      using log_chain_terms [OF wf(2) em] by simp
  next
    case False
    then obtain d where d: "d \<in> set (State_entries st)" "en_id d = previous"
      using p State_id_at_cases [OF wf] by auto
    then obtain x y where x: "x < length (State_entries st)" "State_entries st ! x = d"
      and y: "y < length (State_entries st)" "State_entries st ! y = e"
      using em by (auto simp: in_set_conv_nth)
    have "x < y"
      using log_chain_nth [OF wf(2) x(1)] log_chain_nth [OF wf(2) y(1)] x y d ei pi i by (simp add: u64)
    then show ?thesis
      using log_chain_mono [OF wf(2) _ y(1)] x y d by auto
  qed
  ultimately show ?thesis
    using i pi ei by (simp add: valid_next_def)
qed

definition emitted :: "('v, 's) Node \<Rightarrow> ('v, 's) Message \<Rightarrow> bool" where
  "emitted n m \<longleftrightarrow> \<not> is_probe m \<and> Node_valid m \<and> Message_term m = hs_term (n_hard n)"

lemma emitted_replicate:
  assumes inv: "State_inv (n_state n)" and tm: "hs_term (n_hard n) \<noteq> 0" and hooks: "n_hooks n = None"
    and m: "Node_replicate_message k n = Some (Some m)"
  shows "emitted n m \<and> (\<forall>t. m \<noteq> Voted t True)"
proof -
  let ?st = "n_state n" and ?x = "n_next n ! k"
  have sub: "checked_sub ?x 1 = Some b \<Longrightarrow> checked_add b 1 = Some ?x" for b
    by (auto simp: u64)
  from m consider s where "st_snapshot ?st = Some s" "m = Install (hs_term (n_hard n)) \<lparr>sn_last = sn_last s, sn_value = sn_value s\<rparr>"
    | b p where "checked_sub ?x 1 = Some b" "State_id_at b ?st = Some p"
      "m = Append (hs_term (n_hard n)) p (State_get ?x ?st) (hs_commit (n_hard n))"
    by (auto simp: Node_replicate_message_def Let_def hooks bind_eq_Some_conv split: if_splits)
  then show ?thesis
  proof cases
    case 1
    have "State_id_at (li_index (State_base ?st)) ?st = Some (State_base ?st)"
      using State_id_at_cases [OF State_inv_D(1,2) [OF inv]] by blast
    then have "valid_id (hs_term (n_hard n)) (sn_last s)"
      using valid_id_at [OF inv] 1 by (auto simp: State_base_def)
    then show ?thesis
      using 1 tm State_inv_base [OF inv 1(1)] by (simp add: emitted_def Node_valid_def Let_def word_gt_0)
  next
    case 2
    then have "is_none_or (valid_next (hs_term (n_hard n)) p) (State_get ?x ?st)"
      using valid_next_at [OF inv 2(2) _ sub [OF 2(1)]] by (cases "State_get ?x ?st") auto
    then show ?thesis
      using 2 tm valid_id_at [OF inv 2(2)] by (simp add: emitted_def Node_valid_def Let_def word_gt_0)
  qed
qed

lemma emitted_message:
  assumes inv: "State_inv (n_state n)" and hooks: "n_hooks n = None" and tm: "hs_term (n_hard n) \<noteq> 0"
    and out: "plain_out out \<or> out = OutVoted True" and m: "Node_message k out n = Some (Some m)"
  shows "emitted n m \<and> (\<forall>t. m = Voted t True \<longrightarrow> out = OutVoted True)"
proof -
  have "valid_id (hs_term (n_hard n)) (n_last n)"
    using valid_id_at [OF inv] State_id_at_last [OF State_inv_D(1,2) [OF inv]] by blast
  then show ?thesis
    using out m tm emitted_replicate [OF inv tm hooks]
    by (cases out rule: plain_out.cases)
      (auto simp: Node_message_def emitted_def Node_valid_def Let_def word_gt_0)
qed

lemma distinct_slot:
  assumes "distinct (flatten xs)" and "xs ! i = Some x" "xs ! j = Some x" "i < length xs" "j < length xs"
  shows "i = j"
  using assms
proof (induction xs arbitrary: i j rule: flatten.induct)
  case (2 xs)
  then show ?case by (cases i; cases j) auto
next
  case (3 y xs)
  then show ?case
    by (cases i; cases j) (auto simp: in_set_conv_nth)
qed simp

text \<open>An envelope a node hands out, and the node without it.\<close>

definition handed_out :: "('v, 's) Node \<Rightarrow> ('v, 's) Envelope \<Rightarrow> bool" where
  "handed_out n env \<longleftrightarrow>
     env_from env = cfg_id (n_config n) \<and> Some (env_to env) \<in> set (n_peers n)
     \<and> env_to env \<noteq> cfg_id (n_config n) \<and> emitted n (env_message env)
     \<and> (\<forall>t. env_message env = Voted t True \<longrightarrow> hs_voted_for (n_hard n) = Some (env_to env))"

lemma ballot_output:
  assumes inv: "Node_inv n" and ok: "ballot_ok n" and nm: "Node_next_message n = Some (Some env, n')"
  shows "ballot_ok n' \<and> handed_out n env \<and> \<not> n_dirty n
    \<and> (\<exists>k. n' = n\<lparr>n_outbox := (n_outbox n)[k := None]\<rparr>)"
proof -
  have fixed: "fixed_engine n" and voted: "is_none_or (\<lambda>p. Some p \<in> set (n_peers n)) (hs_voted_for (n_hard n))"
    and own: "n_outbox n ! n_local n = None"
    using ok by (simp_all add: ballot_ok_def)
  have hooks: "n_hooks n = None" "n_extra_reply n = None"
    using fixed unfolding fixed_engine_def by blast+
  have len: "length (n_outbox n) = Node_N n" and dist: "distinct (flatten (n_peers n))"
    using inv by (simp_all add: Node_inv_def slots_ok_def)
  from nm hooks(2) obtain k to out m where clean: "\<not> n_dirty n" and k: "k < length (n_outbox n)"
    and to: "n_peers n ! k = Some to" "n_outbox n ! k = Some out"
    and n': "n' = n\<lparr>n_outbox := (n_outbox n)[k := None]\<rparr>"
    and m: "Node_message k out n' = Some (Some m)"
    and env: "env = \<lparr>env_from = cfg_id (n_config n), env_to = to, env_message = m\<rparr>"
    by (auto simp: Node_next_message_def Node_emit_def position_Some bind_eq_Some_conv split: if_splits option.splits)
  have ok_out: "hs_term (n_hard n) \<noteq> 0" "plain_out out \<or> out = OutVoted True \<and> hs_voted_for (n_hard n) = Some to"
    using ok k to by (auto simp: ballot_ok_def out_ok_def)
  have "emitted n' m \<and> (\<forall>t. m = Voted t True \<longrightarrow> out = OutVoted True)"
    using inv hooks ok_out m by (intro emitted_message [where k = k]) (auto simp: n' Node_inv_def log_ok_def)
  moreover have "out = OutVoted True \<longrightarrow> hs_voted_for (n_hard n) = Some to"
    using ok_out(2) by auto
  moreover have "to \<noteq> cfg_id (n_config n)"
  proof
    assume "to = cfg_id (n_config n)"
    then have "k = n_local n"
      using to(1) k len fixed_local [OF fixed] distinct_slot [OF dist] by metis
    with own to(2) show False by simp
  qed
  moreover have "Some to \<in> set (n_peers n)"
    using to(1) k len by (metis nth_mem)
  ultimately have "handed_out n env"
    by (auto simp: handed_out_def env emitted_def n')
  moreover have "ballot_ok n'"
  proof (rule ballot_okI [OF ok])
    show st: "static n' = static n"
      by (simp add: n' static_def)
    show "Node_election_quorum n'" if "n_role n' = Leader"
      using ok that election_quorum_static [OF st] by (simp add: n' ballot_ok_def)
    show "is_none_or (\<lambda>p. Some p \<in> set (n_peers n)) (hs_voted_for (n_hard n'))"
      using voted by (simp add: n')
    show "out_ok n' j" if "j < length (n_outbox n')" for j
      using ok that by (cases "j = k") (auto simp: n' ballot_ok_def out_ok_def)
    show "n_outbox n' ! n_local n = None"
      using own k by (cases "k = n_local n") (simp_all add: n')
  qed
  ultimately show ?thesis
    using clean n' by blast
qed

lemma ballot_persisted: "ballot_ok n \<Longrightarrow> ballot_ok (Ready_persisted n)"
  by (rule ballot_okI)
    (auto simp: ballot_ok_def static_def out_ok_def Ready_persisted_def Node_election_quorum_def Node_peer_slot_def)

end
