(* ===== verification/Jarl_World.thy ===== *)
theory Jarl_World
  imports Jarl_Ballot "HOL-Library.Char_ord" "HOL-Library.List_Lexorder"
begin

text \<open>
  The schedule explorer of \<^verbatim>\<open>jarl/src/explore.rs\<close>: three nodes of the fixed engine with their
  disks, an unordered network that loses, repeats and reorders messages, crashes, timeouts and
  proposals, the oracle \<^verbatim>\<open>check\<close> and the depth-first search \<^verbatim>\<open>visit\<close>.

  A panic of the explorer other than a reported violation (an \<^verbatim>\<open>unwrap\<close> of an error, an index
  out of range) is \<open>None\<close>; a violation the oracle asserts against is a value of \<open>Violation\<close> with
  the path that led to it. The derived \<^verbatim>\<open>Debug\<close> texts that sort the network and identify a
  world are the parameters \<open>debug\<close> and \<open>key\<close>; nothing is assumed of them.
\<close>

section \<open>Data\<close>

type_synonym WNode = "(u64, unit) Node"
type_synonym WState = "(u64, unit) State"
type_synonym WEnvelope = "(u64, unit) Envelope"

record World =
  w_nodes :: "WNode list"
  w_disk :: "WState list"
  w_network :: "WEnvelope list"
  w_history :: "u64 Entry list"
  w_leaders :: "Id option list"

datatype Action =
    Deliver usize
  | Drop usize
  | Duplicate usize
  | Save usize
  | Crash usize
  | Timeout usize
  | Propose usize

datatype Violation =
    ElectionSafety "Action list"
  | LeaderCompleteness "Action list"
  | UnpersistedOutput "Action list"
  | UnpersistedCommit
  | StateMachineSafety "Action list"

section \<open>Operations\<close>

text \<open>\<^verbatim>\<open>Result::unwrap\<close>.\<close>

definition unwrap :: "'a Result \<Rightarrow> 'a option" where
  "unwrap r = (case r of Ok x \<Rightarrow> Some x | Err _ \<Rightarrow> None)"

definition World_config :: "usize \<Rightarrow> Config" where
  "World_config i = Config_new (Id (of_nat i)) [Id 0, Id 1, Id 2]"

definition World_new :: "World option" where
  "World_new = do {
     nodes \<leftarrow> those (map (\<lambda>i. Node_new (World_config i) (State_new 4) \<bind> unwrap) [0..<3]);
     Some \<lparr>w_nodes = nodes, w_disk = replicate 3 (State_new 4), w_network = [], w_history = [],
           w_leaders = replicate 3 None\<rparr>
   }"

text \<open>Each message taken out leaves one fewer pending.\<close>

lemma next_message_pending:
  assumes "Node_next_message n = Some (Some env, n')"
  shows "pending n' < pending n"
proof -
  from assms consider k where "k < length (n_outbox n)" "n_outbox n ! k \<noteq> None"
      "n' = n\<lparr>n_outbox := (n_outbox n)[k := None]\<rparr>"
    | "n_extra_reply n \<noteq> None" "n' = n\<lparr>n_extra_reply := None\<rparr>"
    by (auto simp: Node_next_message_def Node_emit_def position_Some bind_eq_Some_conv
        split: if_splits option.splits)
  then show ?thesis
  proof cases
    case 1
    then show ?thesis
      using length_flatten_clear [OF 1(1,2)] by (simp add: pending_eq)
  qed (simp add: pending_eq)
qed

function drain ::
    "('v, 's) Node \<Rightarrow> ('v, 's) Envelope list \<Rightarrow> (('v, 's) Node \<times> ('v, 's) Envelope list) option" where
  "drain node network =
     (case Node_next_message node of
        None \<Rightarrow> None
      | Some (None, node') \<Rightarrow> Some (node', network)
      | Some (Some message, node') \<Rightarrow>
          drain node' (network @ [Envelope_cloned (\<lambda>v. v) (\<lambda>s. s) message]))"
  by pat_completeness auto
termination
  by (relation "measure (\<lambda>(node, network). pending node)") (auto intro: next_message_pending)

declare drain.simps [simp del]

definition World_output :: "usize \<Rightarrow> World \<Rightarrow> World option" where
  "World_output i w = do {
     node \<leftarrow> index_read (w_nodes w) i;
     (node', network) \<leftarrow> drain node (w_network w);
     Some (w\<lparr>w_nodes := (w_nodes w)[i := node'], w_network := network\<rparr>)
   }"

text \<open>\<^verbatim>\<open>Vec::remove\<close> without its result.\<close>

definition vec_remove :: "usize \<Rightarrow> 'a list \<Rightarrow> 'a list" where
  "vec_remove i xs = take i xs @ drop (Suc i) xs"

partial_function (option) tick_until :: "u64 \<Rightarrow> WNode \<Rightarrow> WNode option" where
  "tick_until term node =
     (if hs_term (n_hard node) = term
      then do {
        (r, node') \<leftarrow> Node_tick node;
        _ \<leftarrow> unwrap r;
        tick_until term node'
      }
      else Some node)"

declare tick_until.simps [code]

fun World_act :: "Action \<Rightarrow> World \<Rightarrow> World option" where
  "World_act (Deliver index) w = do {
     message \<leftarrow> index_read (w_network w) index;
     (let w1 = w\<lparr>w_network := vec_remove index (w_network w)\<rparr>;
          to = unat (id_num (env_to message))
      in do {
        node \<leftarrow> index_read (w_nodes w1) to;
        (r, node') \<leftarrow> Node_step message node;
        _ \<leftarrow> unwrap r;
        World_output to (w1\<lparr>w_nodes := (w_nodes w1)[to := node']\<rparr>)
      })
   }"
| "World_act (Drop index) w = do {
     _ \<leftarrow> index_read (w_network w) index;
     Some (w\<lparr>w_network := vec_remove index (w_network w)\<rparr>)
   }"
| "World_act (Duplicate index) w = do {
     message \<leftarrow> index_read (w_network w) index;
     Some (w\<lparr>w_network := w_network w @ [message]\<rparr>)
   }"
| "World_act (Save i) w = do {
     node \<leftarrow> index_read (w_nodes w) i;
     ready \<leftarrow> Node_ready node;
     disk \<leftarrow> index_write (w_disk w) i (Ready_state ready);
     World_output i (w\<lparr>w_disk := disk, w_nodes := (w_nodes w)[i := Ready_persisted ready]\<rparr>)
   }"
| "World_act (Crash i) w = do {
     disk \<leftarrow> index_read (w_disk w) i;
     r \<leftarrow> Node_new (World_config i) disk;
     node \<leftarrow> unwrap r;
     nodes \<leftarrow> index_write (w_nodes w) i node;
     Some (w\<lparr>w_nodes := nodes\<rparr>)
   }"
| "World_act (Timeout i) w = do {
     node \<leftarrow> index_read (w_nodes w) i;
     node' \<leftarrow> tick_until (hs_term (n_hard node)) node;
     Some (w\<lparr>w_nodes := (w_nodes w)[i := node']\<rparr>)
   }"
| "World_act (Propose i) w = do {
     node \<leftarrow> index_read (w_nodes w) i;
     (r, node') \<leftarrow> Node_propose (100 + of_nat i) node;
     _ \<leftarrow> unwrap r;
     Some (w\<lparr>w_nodes := (w_nodes w)[i := node']\<rparr>)
   }"

definition World_apply :: "(WEnvelope \<Rightarrow> string) \<Rightarrow> Action \<Rightarrow> World \<Rightarrow> World option" where
  "World_apply debug action w = do {
     w' \<leftarrow> World_act action w;
     Some (w'\<lparr>w_network := sort_key debug (w_network w')\<rparr>)
   }"

section \<open>The oracle\<close>

type_synonym Observed = "u64 Entry list \<times> Id option list"

definition check_leader :: "Action list \<Rightarrow> usize \<Rightarrow> WNode \<Rightarrow> Observed \<Rightarrow> (Violation + Observed) option" where
  "check_leader path i node = (\<lambda>(history, leaders).
     if n_role node = Leader
     then (let term = unat (hs_term (n_hard node))
           in do {
             known \<leftarrow> index_read leaders term;
             if is_some_and (\<lambda>l. l \<noteq> Id (of_nat i)) known then Some (Inl (ElectionSafety path))
             else (let leaders' = leaders[term := Some (Id (of_nat i))];
                       earlier = length (takeWhile (\<lambda>e. li_term (en_id e) < of_nat term) history);
                       log = take earlier (State_entries (n_state node))
                   in if log \<noteq> take earlier history then Some (Inl (LeaderCompleteness path))
                      else Some (Inr (history, leaders')))
           })
     else Some (Inr (history, leaders)))"

definition check_ready :: "Action list \<Rightarrow> WNode \<Rightarrow> (Violation + WNode) option" where
  "check_ready path node =
     (if Node_ready node \<noteq> None
      then do {
        (message, node') \<leftarrow> Node_next_message node;
        Some (if message \<noteq> None then Inl (UnpersistedOutput path)
              else if Node_committed node' \<noteq> [] then Inl UnpersistedCommit
              else Inr node')
      }
      else Some (Inr node))"

definition check_applied :: "Action list \<Rightarrow> WNode \<Rightarrow> Observed \<Rightarrow> Violation + Observed" where
  "check_applied path node = (\<lambda>(history, leaders).
     let applied = Node_committed node
     in if list_ex (\<lambda>(a, b). a \<noteq> b) (zip applied history) then Inl (StateMachineSafety path)
        else Inr (if length history < length applied then applied else history, leaders))"

fun check_nodes ::
    "Action list \<Rightarrow> usize \<Rightarrow> WNode list \<Rightarrow> Observed \<Rightarrow> (Violation + WNode list \<times> Observed) option" where
  "check_nodes path i [] seen = Some (Inr ([], seen))"
| "check_nodes path i (node # nodes) seen = do {
     led \<leftarrow> check_leader path i node seen;
     (case led of Inl v \<Rightarrow> Some (Inl v) | Inr seen1 \<Rightarrow> do {
        ready \<leftarrow> check_ready path node;
        (case ready of Inl v \<Rightarrow> Some (Inl v) | Inr node' \<Rightarrow>
           (case check_applied path node' seen1 of Inl v \<Rightarrow> Some (Inl v) | Inr seen2 \<Rightarrow> do {
              rest \<leftarrow> check_nodes path (Suc i) nodes seen2;
              Some (case rest of Inl v \<Rightarrow> Inl v | Inr (nodes', seen3) \<Rightarrow> Inr (node' # nodes', seen3))
            }))
      })
   }"

definition World_check :: "Action list \<Rightarrow> World \<Rightarrow> (Violation + World) option" where
  "World_check path w = do {
     r \<leftarrow> check_nodes path 0 (w_nodes w) (w_history w, w_leaders w);
     Some (case r of
         Inl v \<Rightarrow> Inl v
       | Inr (nodes, history, leaders) \<Rightarrow>
           Inr (w\<lparr>w_nodes := nodes, w_history := history, w_leaders := leaders\<rparr>))
   }"

section \<open>The search\<close>

definition network_actions :: "World \<Rightarrow> usize \<Rightarrow> Action list option" where
  "network_actions w i = do {
     message \<leftarrow> index_read (w_network w) i;
     node \<leftarrow> index_read (w_nodes w) (unat (id_num (env_to message)));
     Some ((if Node_ready node = None then [Deliver i] else []) @ [Drop i]
       @ (if length (w_network w) < 4 \<and> length (filter (\<lambda>m. m = message) (w_network w)) < 2
          then [Duplicate i] else []))
   }"

definition node_actions :: "World \<Rightarrow> usize \<Rightarrow> Action list option" where
  "node_actions w i = do {
     node \<leftarrow> index_read (w_nodes w) i;
     Some ((if Node_ready node \<noteq> None then [Save i, Crash i]
            else if n_role node \<noteq> Leader \<and> hs_term (n_hard node) < 2 then [Timeout i] else [])
       @ (if Node_ready node = None \<and> n_role node = Leader \<and> li_index (n_last node) < 2
          then [Propose i] else [])
       @ (if n_role node \<noteq> Follower then [Crash i] else []))
   }"

definition World_actions :: "World \<Rightarrow> Action list option" where
  "World_actions w = do {
     messages \<leftarrow> those (map (network_actions w) [0..<length (w_network w)]);
     nodes \<leftarrow> those (map (node_actions w) [0..<3]);
     Some (concat messages @ concat nodes)
   }"

fun visit ::
    "(WEnvelope \<Rightarrow> string) \<Rightarrow> (World \<Rightarrow> string) \<Rightarrow> World \<Rightarrow> usize \<Rightarrow> (string \<rightharpoonup> usize) \<Rightarrow> Action list
     \<Rightarrow> (Violation + (string \<rightharpoonup> usize)) option"
and visit_all ::
    "(WEnvelope \<Rightarrow> string) \<Rightarrow> (World \<Rightarrow> string) \<Rightarrow> World \<Rightarrow> usize \<Rightarrow> Action list \<Rightarrow> (string \<rightharpoonup> usize) \<Rightarrow> Action list
     \<Rightarrow> (Violation + (string \<rightharpoonup> usize)) option" where
  "visit debug key w left seen path = do {
     r \<leftarrow> World_check path w;
     (case r of
        Inl v \<Rightarrow> Some (Inl v)
      | Inr w1 \<Rightarrow>
          if is_some_and (\<lambda>depth. left \<le> depth) (seen (key w1)) then Some (Inr seen)
          else (let seen1 = seen(key w1 \<mapsto> left)
                in if left = 0 then Some (Inr seen1)
                   else do {
                     actions \<leftarrow> World_actions w1;
                     visit_all debug key w1 (left - 1) actions seen1 path
                   }))
   }"
| "visit_all debug key w left [] seen path = Some (Inr seen)"
| "visit_all debug key w left (action # actions) seen path = do {
     next \<leftarrow> World_apply debug action w;
     r \<leftarrow> visit debug key next left seen (path @ [action]);
     (case r of Inl v \<Rightarrow> Some (Inl v) | Inr seen1 \<Rightarrow> visit_all debug key w left actions seen1 path)
   }"

end
