(* ===== verification/Jarl_Election.thy ===== *)
theory Jarl_Election
  imports Jarl_World
begin

text \<open>
  Election safety of the explored cluster (\<open>Jarl_World\<close>) for every schedule. A ghost set \<open>G\<close>
  records the votes that reached a disk: \<open>(v, t, c)\<close> says that \<open>v\<close> voted for \<open>c\<close> in term \<open>t\<close>. The
  invariant \<open>world_ok G\<close> ties every vote a node has counted, every granted vote in the network
  and every leader seen by the oracle to votes in \<open>G\<close>, in which no voter votes twice in a term.
\<close>

section \<open>The three sites\<close>

abbreviation wid :: "usize \<Rightarrow> Id" where
  "wid i \<equiv> Id (of_nat i)"

definition world_peers :: "Id option list" where
  "world_peers = [Some (Id 0), Some (Id 1), Some (Id 2)]"

definition world_membership :: Membership where
  "world_membership =
     \<lparr>mb_members = map (\<lambda>i. Some \<lparr>m_id = i, m_voter = True, m_old = False, m_learner = False\<rparr>) [Id 0, Id 1, Id 2]\<rparr>"

lemma less_3: "(i :: usize) < 3 \<longleftrightarrow> i = 0 \<or> i = 1 \<or> i = 2"
  by auto

lemma world_peers_nth: "i < 3 \<Longrightarrow> world_peers ! i = Some (wid i)"
  by (auto simp: world_peers_def less_3)

lemma world_peers_length [simp]: "length world_peers = 3"
  by (simp add: world_peers_def)

lemma world_peers_set: "Some p \<in> set world_peers \<longleftrightarrow> (\<exists>i < 3. p = wid i)"
  unfolding less_3 world_peers_def by auto

lemma wid_inj: "i < 3 \<Longrightarrow> j < 3 \<Longrightarrow> wid i = wid j \<longleftrightarrow> i = j"
  by (auto simp: less_3)

lemma unat_wid: "i < 3 \<Longrightarrow> unat (id_num (wid i)) = i"
  by (auto simp: less_3)

lemma world_membership_facts:
  "Membership_new 3 [Id 0, Id 1, Id 2] [] = Ok world_membership"
  "Membership_peers world_membership = world_peers" "Membership_wf world_membership"
  "Membership_MAX world_membership = 3"
  by code_simp+

lemma world_ids: "Membership_ids world_membership = {Id 0, Id 1, Id 2}"
  by (auto simp: Membership_ids_def Membership_set_def world_membership_def)

lemma world_site:
  assumes "i < 3"
  shows "Membership_is_voter (wid i) world_membership"
    and "\<not> Membership_quorum (\<lambda>j. j = wid i) world_membership"
    and "position (\<lambda>p. p = Some (wid i)) world_peers = Some i"
proof -
  have "Membership_is_voter (wid 0) world_membership \<and> Membership_is_voter (wid 1) world_membership
      \<and> Membership_is_voter (wid 2) world_membership"
    by code_simp
  then show "Membership_is_voter (wid i) world_membership"
    using assms unfolding less_3 by auto
  have "\<not> Membership_quorum (\<lambda>j. j = wid 0) world_membership \<and> \<not> Membership_quorum (\<lambda>j. j = wid 1) world_membership
      \<and> \<not> Membership_quorum (\<lambda>j. j = wid 2) world_membership"
    by code_simp
  then show "\<not> Membership_quorum (\<lambda>j. j = wid i) world_membership"
    using assms unfolding less_3 by auto
  show "position (\<lambda>p. p = Some (wid i)) world_peers = Some i"
    using assms by (auto simp: less_3 world_peers_def)
qed

definition site :: "usize \<Rightarrow> WNode \<Rightarrow> bool" where
  "site i n \<longleftrightarrow>
     Node_inv n \<and> ballot_ok n \<and> n_config n = World_config i \<and> n_peers n = world_peers
     \<and> n_membership n = world_membership \<and> State_CAP (n_state n) = 4"

lemma site_static:
  assumes "site i n" and "static n' = static n" and "Node_inv n'" and "ballot_ok n'"
  shows "site i n'"
  using assms by (simp add: site_def static_def)

lemma site_local:
  assumes "site i n" and "i < 3"
  shows "n_local n = i" and "cfg_id (n_config n) = wid i" and "n_hooks n = None" and "Node_N n = 3"
    and "length (n_votes n) = 3"
proof -
  have "fixed_engine n"
    using assms(1) by (simp add: site_def ballot_ok_def)
  then have "n_local n = slot_of (cfg_id (n_config n)) (n_peers n)" and "n_hooks n = None"
    unfolding fixed_engine_def by blast+
  then show "n_local n = i" and "n_hooks n = None"
    using assms world_site(3) by (simp_all add: site_def World_config_def Config_new_def slot_of_def)
  show "cfg_id (n_config n) = wid i" and "Node_N n = 3" and "length (n_votes n) = 3"
    using assms by (simp_all add: site_def World_config_def Config_new_def Node_inv_def slots_ok_def)
qed

text \<open>What a disk holds, and the node that runs over it.\<close>

definition disk_ok :: "WState \<Rightarrow> bool" where
  "disk_ok d \<longleftrightarrow> State_inv d \<and> State_CAP d = 4 \<and> is_none_or (\<lambda>p. Some p \<in> set world_peers) (hs_voted_for (st_hard d))"

definition runs_over :: "WState \<Rightarrow> WNode \<Rightarrow> bool" where
  "runs_over d n \<longleftrightarrow> HardState_le (st_hard d) (n_hard n) \<and> (\<not> n_dirty n \<longrightarrow> n_state n = d)"

definition idle_unless_dirty :: "WNode \<Rightarrow> bool" where
  "idle_unless_dirty n \<longleftrightarrow> (\<not> n_dirty n \<longrightarrow> Node_available n = Ok ())"

lemma site_disk: "site i n \<Longrightarrow> disk_ok (n_state n)"
  by (auto simp: site_def disk_ok_def Node_inv_def log_ok_def ballot_ok_def)

section \<open>Starting and restarting a site\<close>

text \<open>A node of one of the three voters, whatever it replicates.\<close>

definition member_ok :: "usize \<Rightarrow> ('v, 's) Node \<Rightarrow> bool" where
  "member_ok i n \<longleftrightarrow>
     Node_inv n \<and> ballot_ok n \<and> n_config n = World_config i \<and> n_peers n = world_peers
     \<and> n_membership n = world_membership"

lemma member_starts:
  fixes d :: "('v, 's) State"
  assumes i: "i < 3" and inv: "State_inv d" and cap: "0 < State_CAP d"
    and vote: "is_none_or (\<lambda>p. Some p \<in> set world_peers) (hs_voted_for (st_hard d))"
  shows "\<exists>n. Node_new (World_config i) d = Some (Ok n) \<and> member_ok i n \<and> n_state n = d \<and> n_role n = Follower
    \<and> \<not> n_dirty n \<and> Node_available n = Ok ()"
proof -
  let ?c = "World_config i"
  have timing: "valid_timing ?c"
    by (simp add: World_config_def Config_new_def valid_timing_def)
  have mem: "cfg_members ?c = [Id 0, Id 1, Id 2]" and me: "cfg_id ?c = wid i"
    by (simp_all add: World_config_def Config_new_def)
  have voted: "\<not> is_some_and (\<lambda>j. j \<notin> {Id 0, Id 1, Id 2}) (hs_voted_for (st_hard d))"
    using vote by (cases "hs_voted_for (st_hard d)") (auto simp: world_peers_def)
  have build: "Node_new ?c d = Node_build ?c d world_membership None"
  proof -
    have "wid i = Id 0 \<or> wid i = Id 1 \<or> wid i = Id 2"
      using i unfolding less_3 by auto
    then have "position (\<lambda>j. j = wid i) [Id 0, Id 1, Id 2] \<noteq> None"
      by (auto simp: position_None)
    moreover have "\<not> list_ex (\<lambda>j. [Id 0, Id 1, Id 2] ! j \<in> set (take j [Id 0, Id 1, Id (2 :: u64)])) [0..<3]"
      by code_simp
    ultimately show ?thesis
      using voted timing cap world_membership_facts(1) [unfolded numeral_3_eq_3] by (auto simp: Node_new_def mem me Let_def)
  qed
  have pay: "payloads_ok (None :: ('v, 's) MembershipHooks option) 3 d"
    by (cases "st_snapshot d") (simp_all add: payloads_ok_def entry_ok_def snapshot_ok_def list_all_iff)
  from Node_build_returns [of d ?c world_membership None] pay cap inv obtain n
    where n: "Node_build ?c d world_membership None = Some (Ok n)" "Node_inv n" "n_config n = ?c" "n_state n = d"
      "n_role n = Follower" "Node_available n = Ok ()"
    using timing world_membership_facts by (auto simp: returns_iff Membership_ok_def)
  let ?node = "\<lparr>n_config = ?c, n_state = d, n_role = Follower, n_leader = None, n_local = i,
     n_membership = world_membership, n_bootstrap = world_membership, n_hooks = None,
     n_peers = world_peers, n_votes = replicate 3 False, n_next = replicate 3 1,
     n_matched = replicate 3 0, n_outbox = replicate 3 None, n_dirty = False,
     n_log_from = None, n_snapshot_changed = False, n_elapsed = 0,
     n_election_deadline = 0, n_random = cfg_seed ?c, n_prevoting = None,
     n_leader_age = u64_MAX, n_quorum_elapsed = 0, n_active = replicate 3 False,
     n_extra_reply = None, n_request_from = None\<rparr> :: ('v, 's) Node"
  have fixed: "fixed_engine ?node"
    using world_site [OF i] by (simp add: fixed_engine_def me slot_of_def world_ids world_peers_def)
  have "Node_build ?c d world_membership None = Node_reset_election ?node \<bind> (\<lambda>n2. Some (Ok n2))"
    using timing cap world_site(3) [OF i] fixed_refresh [OF fixed]
    by (simp add: Node_build_def world_membership_facts(2) me Let_def)
  then have "Node_reset_election ?node = Some n"
    using n(1) by (cases "Node_reset_election ?node") simp_all
  then have k: "keeps ?node n"
    by (rule yieldsD [OF keeps_reset_election])
  have "ballot_ok ?node"
    using fixed world_site(2) [OF i] vote
    by (simp add: ballot_ok_def alone_def me out_ok_def) (use i in simp)
  moreover have "n_outbox n = n_outbox ?node"
    using n(6) k by (intro nth_equalityI) (auto simp: keeps_def plain_sends_def available_iff)
  ultimately have "ballot_ok n"
    using ballot_ok_keeps [OF _ k] by blast
  then have "member_ok i n"
    using n k by (simp add: member_ok_def keeps_def static_def)
  then show ?thesis
    using n build by (auto simp: available_iff)
qed

lemma site_starts:
  assumes i: "i < 3" and d: "disk_ok d"
  shows "\<exists>n. Node_new (World_config i) d = Some (Ok n) \<and> site i n \<and> n_state n = d \<and> n_role n = Follower
    \<and> \<not> n_dirty n \<and> Node_available n = Ok ()"
proof -
  have cap: "State_CAP d = 4" and "State_inv d" "is_none_or (\<lambda>p. Some p \<in> set world_peers) (hs_voted_for (st_hard d))"
    using d by (simp_all add: disk_ok_def)
  then show ?thesis
    using member_starts [OF i, of d] by (auto simp: member_ok_def site_def)
qed

section \<open>Emptying the outbox\<close>

lemma ballot_same:
  assumes "n' = n\<lparr>n_outbox := out\<rparr>"
  shows "static n' = static n" and "ballot n' = ballot n"
  by (simp_all add: assms static_def ballot_def)

lemma next_message_inv:
  assumes "Node_inv n" and "Node_next_message n = Some (m, n')"
  shows "Node_inv n'" and "m = None \<Longrightarrow> n' = n \<and> (n_dirty n \<or> pending n = 0)"
proof -
  show "Node_inv n'"
    using next_message_safe [OF assms(1)] assms(2) by simp
  show "n' = n \<and> (n_dirty n \<or> pending n = 0)" if "m = None"
    using that assms next_message_none [of n] next_message_takes [OF assms(1)]
    by (cases "n_dirty n \<or> pending n = 0") auto
qed

lemma cloned_unit [simp]: "Envelope_cloned (\<lambda>v. v) (\<lambda>s. ()) env = env"
  using Envelope_cloned_id [of env] by simp

text \<open>Draining returns; what it sends was handed out by the node, and nothing else changes.\<close>

lemma drain_returns:
  assumes "Node_inv n" and "ballot_ok n"
  shows "returns (drain n network) (\<lambda>(n', network').
     (\<exists>out. n' = n\<lparr>n_outbox := out\<rparr>) \<and> Node_inv n' \<and> ballot_ok n' \<and> (n_dirty n \<or> Node_available n' = Ok ())
     \<and> (\<exists>sent. network' = network @ sent \<and> (\<forall>env \<in> set sent. handed_out n env \<and> \<not> n_dirty n)))"
  using assms
proof (induction n network rule: drain.induct)
  case (1 n network)
  obtain m n' where nm: "Node_next_message n = Some (m, n')" and inv': "Node_inv n'"
    using next_message_safe [OF 1(2)] by (auto simp: returns_iff)
  show ?case
  proof (cases m)
    case None
    then have "n' = n" and "n_dirty n \<or> pending n = 0"
      using next_message_inv(2) [OF 1(2) nm] by auto
    moreover from this have "n_dirty n \<or> Node_available n = Ok ()"
      by (cases "n_extra_reply n")
        (auto simp: pending_eq available_iff flatten_filter_Some filter_empty_conv split: if_splits)
    moreover have "\<exists>out. n = n\<lparr>n_outbox := out\<rparr>"
      by (rule exI [of _ "n_outbox n"]) simp
    ultimately show ?thesis
      using nm None 1(2,3) by (subst drain.simps) simp
  next
    case (Some env)
    have out: "ballot_ok n'" "handed_out n env" "\<not> n_dirty n" "\<exists>k. n' = n\<lparr>n_outbox := (n_outbox n)[k := None]\<rparr>"
      using ballot_output [OF 1(2,3)] nm Some by blast+
    have same: "handed_out n' e = handed_out n e" "n_dirty n' = n_dirty n" for e
      using out(4) by (auto simp: handed_out_def emitted_def)
    have "returns (drain n' (network @ [env])) (\<lambda>(n'', network').
       (\<exists>out. n'' = n'\<lparr>n_outbox := out\<rparr>) \<and> Node_inv n'' \<and> ballot_ok n'' \<and> (n_dirty n' \<or> Node_available n'' = Ok ())
       \<and> (\<exists>sent. network' = (network @ [env]) @ sent \<and> (\<forall>env \<in> set sent. handed_out n' env \<and> \<not> n_dirty n')))"
      using 1(1) [OF nm [unfolded Some] refl] inv' out(1) by simp
    then have "returns (drain n' (network @ [env])) (\<lambda>(n'', network').
       (\<exists>out. n'' = n\<lparr>n_outbox := out\<rparr>) \<and> Node_inv n'' \<and> ballot_ok n'' \<and> (n_dirty n \<or> Node_available n'' = Ok ())
       \<and> (\<exists>sent. network' = network @ sent \<and> (\<forall>env \<in> set sent. handed_out n env \<and> \<not> n_dirty n)))"
      unfolding same
    proof (rule returns_conseq, clarify)
      fix n'' sent x assume "ballot_ok (n'\<lparr>n_outbox := x\<rparr>)" "Node_inv (n'\<lparr>n_outbox := x\<rparr>)"
        "n_dirty n \<or> Node_available (n'\<lparr>n_outbox := x\<rparr>) = Ok ()"
        "\<forall>env \<in> set sent. handed_out n env \<and> \<not> n_dirty n"
      then show "(\<exists>out. n'\<lparr>n_outbox := x\<rparr> = n\<lparr>n_outbox := out\<rparr>) \<and> Node_inv (n'\<lparr>n_outbox := x\<rparr>)
          \<and> ballot_ok (n'\<lparr>n_outbox := x\<rparr>) \<and> (n_dirty n \<or> Node_available (n'\<lparr>n_outbox := x\<rparr>) = Ok ())
          \<and> (\<exists>sent'. (network @ [env]) @ sent = network @ sent' \<and> (\<forall>env \<in> set sent'. handed_out n env \<and> \<not> n_dirty n))"
        using out by (auto intro!: exI [of _ "env # sent"])
    qed
    then show ?thesis
      using nm Some by (subst drain.simps) simp
  qed
qed

section \<open>The invariant of the world\<close>

type_synonym Grants = "(Id \<times> u64 \<times> Id) set"

definition backed :: "Grants \<Rightarrow> usize \<Rightarrow> WNode \<Rightarrow> bool" where
  "backed G i n \<longleftrightarrow>
     (n_role n \<noteq> Follower \<longrightarrow>
        (\<forall>k < 3. n_votes n ! k \<longrightarrow> k \<noteq> i \<longrightarrow> (wid k, hs_term (n_hard n), wid i) \<in> G)
        \<and> (n_role n = Leader \<longrightarrow> (wid i, hs_term (n_hard n), wid i) \<in> G))"

definition registered :: "Grants \<Rightarrow> usize \<Rightarrow> WState \<Rightarrow> bool" where
  "registered G i d \<longleftrightarrow>
     (\<forall>c. hs_voted_for (st_hard d) = Some c \<longrightarrow> (wid i, hs_term (st_hard d), c) \<in> G)
     \<and> (\<forall>t c. (wid i, t, c) \<in> G \<longrightarrow>
          t < hs_term (st_hard d) \<or> t = hs_term (st_hard d) \<and> hs_voted_for (st_hard d) = Some c)
     \<and> (\<forall>t c c'. (wid i, t, c) \<in> G \<longrightarrow> (wid i, t, c') \<in> G \<longrightarrow> c = c')"

definition travels :: "Grants \<Rightarrow> WEnvelope \<Rightarrow> bool" where
  "travels G env \<longleftrightarrow>
     Some (env_from env) \<in> set world_peers \<and> Some (env_to env) \<in> set world_peers \<and> env_from env \<noteq> env_to env
     \<and> \<not> is_probe (env_message env) \<and> Node_valid (env_message env)
     \<and> (\<forall>t. env_message env = Voted t True \<longrightarrow> (env_from env, t, env_to env) \<in> G)"

definition elected :: "Grants \<Rightarrow> u64 \<Rightarrow> Id \<Rightarrow> bool" where
  "elected G t c \<longleftrightarrow> Membership_quorum (\<lambda>v. (v, t, c) \<in> G) world_membership"

definition site_ok :: "Grants \<Rightarrow> usize \<Rightarrow> WNode \<Rightarrow> WState \<Rightarrow> bool" where
  "site_ok G i n d \<longleftrightarrow>
     site i n \<and> disk_ok d \<and> runs_over d n \<and> idle_unless_dirty n \<and> backed G i n \<and> registered G i d"

definition world_ok :: "Grants \<Rightarrow> World \<Rightarrow> bool" where
  "world_ok G w \<longleftrightarrow>
     length (w_nodes w) = 3 \<and> length (w_disk w) = 3 \<and> length (w_leaders w) = 3
     \<and> (\<forall>i < 3. site_ok G i (w_nodes w ! i) (w_disk w ! i))
     \<and> (\<forall>env \<in> set (w_network w). travels G env)
     \<and> (\<forall>t < 3. \<forall>c. w_leaders w ! t = Some c \<longrightarrow> elected G (of_nat t) c)
     \<and> (\<forall>v t c. (v, t, c) \<in> G \<longrightarrow> Some v \<in> set world_peers)"

text \<open>Only one candidate of a term can be elected, and a leader is.\<close>

lemma elected_unique:
  assumes ok: "world_ok G w" and "elected G t c" and "elected G t c'"
  shows "c = c'"
proof -
  obtain v where v: "(v, t, c) \<in> G" "(v, t, c') \<in> G"
    using stable.overlap [of world_membership "\<lambda>v. (v, t, c) \<in> G" "\<lambda>v. (v, t, c') \<in> G"] assms(2,3)
      world_membership_facts(3)
    by (auto simp: elected_def)
  then obtain i where i: "i < 3" "v = wid i"
    using ok world_peers_set unfolding world_ok_def by blast
  then have "registered G i (w_disk w ! i)"
    using ok by (simp add: world_ok_def site_ok_def)
  then show ?thesis
    using v unfolding registered_def i(2) by blast
qed

lemma leader_elected:
  assumes "i < 3" and "site i n" and "backed G i n" and "n_role n = Leader"
  shows "elected G (hs_term (n_hard n)) (wid i)"
  unfolding elected_def
proof (rule quorum_mono)
  have "Node_election_quorum n" and "n_membership n = world_membership"
    using assms by (simp_all add: site_def ballot_ok_def)
  then show "Membership_quorum (\<lambda>j. is_some_and (\<lambda>k. n_votes n ! k) (Node_peer_slot j n)) world_membership"
    by (simp add: Node_election_quorum_def)
  fix j assume "is_some_and (\<lambda>k. n_votes n ! k) (Node_peer_slot j n)"
  then obtain k where k: "n_votes n ! k" "k < 3" "world_peers ! k = Some j"
    using assms(2) by (auto simp: is_some_and_iff Node_peer_slot_def position_Some site_def)
  then have "j = wid k"
    using world_peers_nth by simp
  then show "(j, hs_term (n_hard n), wid i) \<in> G"
    using assms(3,4) k by (cases "k = i") (auto simp: backed_def)
qed

section \<open>Calls at a site\<close>

lemma site_call:
  assumes ok: "site_ok G i n d" and i: "i < 3" and av: "Node_available n = Ok ()" and good: "good n n'"
    and bal: "ballot_ok n'" and vs: "votes_step ev n n'" and ev: "\<forall>(p, t) \<in> ev. (p, t, wid i) \<in> G"
  shows "site i n' \<and> runs_over d n' \<and> backed G i n'"
proof -
  have site: "site i n" and d: "n_state n = d" and reg: "registered G i d" and b: "backed G i n"
    using ok av by (auto simp: site_ok_def runs_over_def available_iff)
  have st: "static n' = static n"
    using vs by (simp add: votes_step_def)
  have "site i n'"
    using site_static [OF site st] good bal by (simp add: good_def)
  moreover have "runs_over d n'"
    using good d by (auto simp: runs_over_def good_def saved_def evolves_def State_advances_def)
  moreover have "backed G i n'"
    unfolding backed_def
  proof (intro impI)
    assume "n_role n' \<noteq> Follower"
    then consider
        (on) "n_role n \<noteq> Follower" "hs_term (n_hard n') = hs_term (n_hard n)"
          "\<forall>k p. n_peers n ! k = Some p \<longrightarrow> k < Node_N n \<longrightarrow> n_votes n' ! k \<longrightarrow>
             n_votes n ! k \<or> (p, hs_term (n_hard n')) \<in> ev"
      | (fresh) "n_role n' = Candidate" "\<forall>k < Node_N n. n_votes n' ! k \<longrightarrow> k = n_local n"
      using vs unfolding votes_step_def by blast
    then show "(\<forall>k < 3. n_votes n' ! k \<longrightarrow> k \<noteq> i \<longrightarrow> (wid k, hs_term (n_hard n'), wid i) \<in> G)
        \<and> (n_role n' = Leader \<longrightarrow> (wid i, hs_term (n_hard n'), wid i) \<in> G)"
    proof cases
      case on
      have "hs_voted_for (n_hard n) = Some (wid i)"
        using site on(1) site_local(2) [OF site i] by (simp add: site_def Node_inv_def role_ok_def)
      then have "(wid i, hs_term (n_hard n), wid i) \<in> G"
        using reg d unfolding registered_def by blast
      moreover have "(wid k, hs_term (n_hard n'), wid i) \<in> G" if k: "k < 3" "n_votes n' ! k" "k \<noteq> i" for k
      proof -
        have "n_peers n ! k = Some (wid k)" and "k < Node_N n"
          using site k(1) world_peers_nth by (simp_all add: site_def)
        then have "n_votes n ! k \<or> (wid k, hs_term (n_hard n')) \<in> ev"
          using on(3) k(2) by blast
        then show ?thesis
          using b ev on(1,2) k unfolding backed_def by auto
      qed
      ultimately show ?thesis
        using on(2) by auto
    next
      case fresh
      then show ?thesis
        using site_local [OF site i] by auto
    qed
  qed
  ultimately show ?thesis by blast
qed

text \<open>Draining completes a call.\<close>

lemma site_drained:
  assumes site: "site i n" and i: "i < 3" and d: "disk_ok d" "runs_over d n" and b: "backed G i n" and reg: "registered G i d"
  shows "returns (drain n network) (\<lambda>(n', network'). site_ok G i n' d
    \<and> (\<forall>env \<in> set network'. env \<in> set network \<or> travels G env)
    \<and> n_state n' = n_state n \<and> n_dirty n' = n_dirty n \<and> n_role n' = n_role n
    \<and> (\<forall>env \<in> set network'. env \<in> set network \<or> Message_term (env_message env) = hs_term (n_hard n)))"
proof -
  have "Node_inv n" and "ballot_ok n"
    using site by (simp_all add: site_def)
  then show ?thesis
  proof (rule returns_conseq [OF drain_returns], clarify)
    fix out sent
    assume inv: "Node_inv (n\<lparr>n_outbox := out\<rparr>)" and bal: "ballot_ok (n\<lparr>n_outbox := out\<rparr>)"
      and idle: "n_dirty n \<or> Node_available (n\<lparr>n_outbox := out\<rparr>) = Ok ()"
      and sent: "\<forall>env \<in> set sent. handed_out n env \<and> \<not> n_dirty n"
    let ?n = "n\<lparr>n_outbox := out\<rparr>"
    have "site i ?n"
      using site inv bal by (simp add: site_def)
    then have "site_ok G i ?n d"
      using d b reg idle by (auto simp: site_ok_def runs_over_def idle_unless_dirty_def backed_def)
    moreover have "travels G env \<and> Message_term (env_message env) = hs_term (n_hard n)" if "env \<in> set sent" for env
    proof -
      have h: "handed_out n env" and "n_state n = d"
        using sent d that by (auto simp: runs_over_def)
      then have "(wid i, t, env_to env) \<in> G" if "env_message env = Voted t True" for t
        using reg that unfolding registered_def handed_out_def emitted_def by auto
      moreover have "Some (wid i) \<in> set world_peers"
        using i world_peers_set by blast
      ultimately show ?thesis
        using h site site_local(2) [OF site i] by (auto simp: travels_def handed_out_def emitted_def site_def)
    qed
    ultimately show "site_ok G i ?n d \<and> (\<forall>env \<in> set (network @ sent). env \<in> set network \<or> travels G env)
        \<and> n_state ?n = n_state n \<and> n_dirty ?n = n_dirty n \<and> n_role ?n = n_role n
        \<and> (\<forall>env \<in> set (network @ sent). env \<in> set network \<or> Message_term (env_message env) = hs_term (n_hard n))"
      by auto
  qed
qed

section \<open>Actions keep the invariant\<close>

text \<open>Replacing the node of a site and the network.\<close>

lemma world_ok_update:
  assumes "world_ok G w" and "i < 3" and "site_ok G i n (w_disk w ! i)" and "\<forall>env \<in> set network. travels G env"
  shows "world_ok G (w\<lparr>w_nodes := (w_nodes w)[i := n], w_network := network\<rparr>)"
  using assms unfolding world_ok_def by (auto simp: nth_list_update)

lemma world_ok_network:
  assumes "world_ok G w" and "\<forall>env \<in> set network. travels G env"
  shows "world_ok G (w\<lparr>w_network := network\<rparr>)"
  using assms by (simp add: world_ok_def)

lemma set_vec_remove: "set (vec_remove i xs) \<subseteq> set xs"
  unfolding vec_remove_def by (auto dest: in_set_takeD in_set_dropD)

lemma site_output:
  assumes ok: "world_ok G w" and i: "i < 3" and net: "\<forall>env \<in> set network. travels G env"
    and n: "site i n" "runs_over (w_disk w ! i) n" "backed G i n"
  shows "\<exists>n' network'. World_output i (w\<lparr>w_network := network, w_nodes := (w_nodes w)[i := n]\<rparr>)
      = Some (w\<lparr>w_nodes := (w_nodes w)[i := n'], w_network := network'\<rparr>)
    \<and> world_ok G (w\<lparr>w_nodes := (w_nodes w)[i := n'], w_network := network'\<rparr>)
    \<and> n_state n' = n_state n \<and> n_role n' = n_role n
    \<and> (\<forall>env \<in> set network'. env \<in> set network \<or> Message_term (env_message env) = hs_term (n_hard n))"
proof -
  have len: "length (w_nodes w) = 3" and s: "site_ok G i (w_nodes w ! i) (w_disk w ! i)"
    using ok i by (auto simp: world_ok_def)
  have "disk_ok (w_disk w ! i)" and "registered G i (w_disk w ! i)"
    using s by (simp_all add: site_ok_def)
  from site_drained [OF n(1) i this(1) n(2,3) this(2), of network]
  obtain n' network' where dr: "drain n network = Some (n', network')"
    and n': "site_ok G i n' (w_disk w ! i)" "n_state n' = n_state n" "n_role n' = n_role n"
    and net': "\<forall>env \<in> set network'. env \<in> set network \<or> travels G env"
      "\<forall>env \<in> set network'. env \<in> set network \<or> Message_term (env_message env) = hs_term (n_hard n)"
    unfolding returns_iff by auto
  have "world_ok G (w\<lparr>w_nodes := (w_nodes w)[i := n'], w_network := network'\<rparr>)"
    using net net'(1) by (intro world_ok_update [OF ok i n'(1)]) auto
  moreover have "World_output i (w\<lparr>w_network := network, w_nodes := (w_nodes w)[i := n]\<rparr>)
      = Some (w\<lparr>w_nodes := (w_nodes w)[i := n'], w_network := network'\<rparr>)"
    using len i dr by (simp add: World_output_def index_read_def)
  ultimately show ?thesis
    using n' net'(2) by blast
qed

text \<open>Delivery of a message to the node it is addressed to.\<close>

lemma message_ok_fixed: "message_ok None mx m"
  by (cases m) (auto simp: entry_ok_def snapshot_ok_def list_all_iff is_none_or_def split: option.split)

lemma site_receives:
  assumes ok: "site_ok G i n d" and i: "i < 3" and env: "travels G env" "env_to env = wid i"
    and step: "Node_step env n = Some (Ok (), n')"
  shows "site i n' \<and> runs_over d n' \<and> backed G i n'
    \<and> hs_term (n_hard n') \<in> {hs_term (n_hard n), Message_term (env_message env)}"
proof -
  have site: "site i n" and inv: "Node_inv n" "ballot_ok n"
    using ok by (simp_all add: site_ok_def site_def)
  have av: "Node_available n = Ok ()"
    using step by (cases "Node_available n") (simp_all add: Node_step_def)
  have "message_ok (n_hooks n) (Node_N n) (env_message env)"
    using site_local(3) [OF site i] message_ok_fixed by simp
  then have "good n n'"
    using good_step [OF inv(1) av] step by fastforce
  moreover have "ballot_ok n'" "votes_step (granted_by env) n n'"
    "hs_term (n_hard n') \<in> {hs_term (n_hard n), Message_term (env_message env)}"
    using ballot_receive [OF inv _ step] env(1) by (auto simp: travels_def)
  moreover have "\<forall>(p, t) \<in> granted_by env. (p, t, wid i) \<in> G"
    using env by (auto simp: travels_def granted_by_def split: Message.splits bool.splits)
  ultimately show ?thesis
    using site_call [OF ok i av] by blast
qed

lemma unwrap_Some: "unwrap r = Some x \<longleftrightarrow> r = Ok x"
  by (cases r) (auto simp: unwrap_def)

lemma world_deliver:
  assumes ok: "world_ok G w" and act: "World_act (Deliver index) w = Some w'"
  shows "world_ok G w'"
proof -
  from act obtain env n n' where env: "index < length (w_network w)" "w_network w ! index = env"
    and to: "unat (id_num (env_to env)) < length (w_nodes w)" "w_nodes w ! unat (id_num (env_to env)) = n"
    and step: "Node_step env n = Some (Ok (), n')"
    and out: "World_output (unat (id_num (env_to env))) (w\<lparr>w_network := vec_remove index (w_network w),
        w_nodes := (w_nodes w)[unat (id_num (env_to env)) := n']\<rparr>) = Some w'"
    by (auto simp: bind_eq_Some_conv Let_def unwrap_Some)
  have tr: "travels G env"
    using ok env by (auto simp: world_ok_def)
  then obtain i where i: "i < 3" "env_to env = wid i"
    using world_peers_set by (auto simp: travels_def)
  then have u: "unat (id_num (env_to env)) = i"
    using unat_wid by simp
  have s: "site_ok G i n (w_disk w ! i)"
    using ok i(1) to u by (auto simp: world_ok_def)
  have net: "\<forall>e \<in> set (vec_remove index (w_network w)). travels G e"
    using ok set_vec_remove [of index "w_network w"] by (auto simp: world_ok_def)
  have "site i n' \<and> runs_over (w_disk w ! i) n' \<and> backed G i n'"
    using site_receives [OF s i(1) tr i(2) step] by blast
  then show ?thesis
    using site_output [OF ok i(1) net, of n'] out u by auto
qed

text \<open>A save makes the vote of the node durable.\<close>

definition vote_of :: "usize \<Rightarrow> WState \<Rightarrow> Grants" where
  "vote_of i st = (\<lambda>c. (wid i, hs_term (st_hard st), c)) ` set_option (hs_voted_for (st_hard st))"

lemma registered_save:
  assumes reg: "registered G i d" and le: "HardState_le (st_hard d) (st_hard st)"
  shows "registered (G \<union> vote_of i st) i st"
proof -
  have old: "t < hs_term (st_hard st) \<or> t = hs_term (st_hard st) \<and> hs_voted_for (st_hard st) = Some c"
    if "(wid i, t, c) \<in> G" for t c
  proof -
    have "t < hs_term (st_hard d) \<or> t = hs_term (st_hard d) \<and> hs_voted_for (st_hard d) = Some c"
      using reg that unfolding registered_def by blast
    then show ?thesis
      using le by (cases "hs_term (st_hard d) = hs_term (st_hard st)") (auto simp: HardState_le_def)
  qed
  have new: "(wid i, t, c) \<in> vote_of i st \<longleftrightarrow> t = hs_term (st_hard st) \<and> hs_voted_for (st_hard st) = Some c" for t c
    by (auto simp: vote_of_def)
  have one: "c = c'" if "(wid i, t, c) \<in> G" "(wid i, t, c') \<in> G" for t c c'
    using reg that unfolding registered_def by blast
  show ?thesis
    unfolding registered_def Un_iff new using old one by (metis less_irrefl option.inject)
qed

lemma registered_other:
  assumes "registered G j d" and "j < 3" and "i < 3" and "j \<noteq> i"
  shows "registered (G \<union> vote_of i st) j d"
proof -
  have "(wid j, t, c) \<notin> vote_of i st" for t c
    using assms(2-4) wid_inj by (auto simp: vote_of_def)
  then show ?thesis
    using assms(1) by (auto simp: registered_def)
qed

lemma world_ok_save:
  assumes ok: "world_ok G w" and i: "i < 3"
  shows "world_ok (G \<union> vote_of i (n_state (w_nodes w ! i))) (w\<lparr>w_disk := (w_disk w)[i := n_state (w_nodes w ! i)]\<rparr>)"
    (is "world_ok ?G ?w")
proof -
  let ?n = "w_nodes w ! i"
  have s: "site_ok G j (w_nodes w ! j) (w_disk w ! j)" if "j < 3" for j
    using ok that by (simp add: world_ok_def)
  have mono: "backed ?G j n" if "backed G j n" for j n
    using that by (auto simp: backed_def)
  have "site_ok ?G i ?n (n_state ?n)"
    using s [OF i] site_disk registered_save mono unfolding site_ok_def runs_over_def by auto
  moreover have "site_ok ?G j (w_nodes w ! j) (w_disk w ! j)" if "j < 3" "j \<noteq> i" for j
    using s [OF that(1)] registered_other [OF _ that(1) i that(2)] mono by (simp add: site_ok_def)
  moreover have mono_net: "travels ?G env" if "travels G env" for env
    using that by (auto simp: travels_def)
  have mono_led: "elected ?G t c" if "elected G t c" for t c
    using that unfolding elected_def by (rule quorum_mono) auto
  have members: "Some v \<in> set world_peers" if "(v, t, c) \<in> vote_of i (n_state ?n)" for v t c
    using that i world_peers_set by (auto simp: vote_of_def)
  moreover have "length (w_disk w) = 3"
    using ok by (simp add: world_ok_def)
  ultimately have "site_ok ?G j (w_nodes w ! j) ((w_disk w)[i := n_state ?n] ! j)" if "j < 3" for j
    using that by (cases "j = i") simp_all
  then show ?thesis
    using ok mono_net mono_led members unfolding world_ok_def by auto
qed

lemma site_persisted:
  assumes "site i n" and "n_dirty n"
  shows "site i (Ready_persisted n)" and "runs_over (n_state n) (Ready_persisted n)"
    and "backed G i (Ready_persisted n) = backed G i n"
  using assms Node_inv_persisted ballot_persisted
  by (auto simp: site_def Ready_persisted_def runs_over_def backed_def)

lemma world_save:
  assumes ok: "world_ok G w" and act: "World_act (Save i) w = Some w'"
  shows "world_ok (G \<union> vote_of i (n_state (w_nodes w ! i))) w'"
proof -
  let ?n = "w_nodes w ! i" and ?G = "G \<union> vote_of i (n_state (w_nodes w ! i))"
  let ?w = "w\<lparr>w_disk := (w_disk w)[i := n_state ?n]\<rparr>"
  have i: "i < 3" and dirty: "n_dirty ?n"
    and out: "World_output i (w\<lparr>w_disk := (w_disk w)[i := n_state ?n], w_nodes := (w_nodes w)[i := Ready_persisted ?n]\<rparr>) = Some w'"
    using act ok by (auto simp: bind_eq_Some_conv Node_ready_def Ready_state_def world_ok_def split: if_splits)
  have ok': "world_ok ?G ?w"
    using world_ok_save [OF ok i] .
  have s: "site i ?n" and b: "backed ?G i ?n" and len: "length (w_disk w) = 3"
    using ok' i ok by (auto simp: world_ok_def site_ok_def)
  have "\<forall>env \<in> set (w_network w). travels ?G env"
    using ok' by (simp add: world_ok_def)
  from site_output [OF ok' i this site_persisted(1) [OF s dirty]] site_persisted [OF s dirty] b out len i
  show ?thesis
    by auto
qed

lemma world_ok_node:
  assumes "world_ok G w" and "i < 3" and "site_ok G i n (w_disk w ! i)"
  shows "world_ok G (w\<lparr>w_nodes := (w_nodes w)[i := n]\<rparr>)"
  using world_ok_update [OF assms, of "w_network w"] assms(1) by (auto simp: world_ok_def)

lemma site_restarts:
  assumes "i < 3" and "disk_ok d" and "registered G i d"
  shows "\<exists>n. Node_new (World_config i) d = Some (Ok n) \<and> site_ok G i n d \<and> n_state n = d \<and> n_role n = Follower"
  using site_starts [OF assms(1,2)] assms
  by (auto simp: site_ok_def runs_over_def idle_unless_dirty_def backed_def)

lemma world_crash:
  assumes ok: "world_ok G w" and act: "World_act (Crash i) w = Some w'"
  shows "world_ok G w'"
proof -
  from act obtain n where i: "i < length (w_disk w)" and n: "Node_new (World_config i) (w_disk w ! i) = Some (Ok n)"
    and w': "w' = w\<lparr>w_nodes := (w_nodes w)[i := n]\<rparr>"
    by (auto simp: bind_eq_Some_conv unwrap_Some)
  have i3: "i < 3"
    using ok i by (simp add: world_ok_def)
  then have "disk_ok (w_disk w ! i)" and "registered G i (w_disk w ! i)"
    using ok by (simp_all add: world_ok_def site_ok_def)
  then show ?thesis
    using site_restarts [OF i3] n world_ok_node [OF ok i3] w' by fastforce
qed

text \<open>Waiting for an election timeout.\<close>

lemma site_ticks:
  assumes s: "site i n" "disk_ok d" "runs_over d n" "backed G i n" "registered G i d" and i: "i < 3"
    and tick: "Node_tick n = Some (Ok (), n')"
  shows "site i n' \<and> runs_over d n' \<and> backed G i n' \<and> \<not> n_dirty n"
proof -
  have inv: "Node_inv n" "ballot_ok n"
    using s by (simp_all add: site_def)
  have av: "Node_available n = Ok ()"
    using tick by (cases "Node_available n") (simp_all add: Node_tick_def)
  have ok: "site_ok G i n d"
    using s av by (simp add: site_ok_def idle_unless_dirty_def)
  have "good n n'"
    using good_tick [OF inv(1) av] tick by fastforce
  moreover have "ballot_ok n'" "votes_step {} n n'"
    using ballot_time [OF inv tick] by blast+
  moreover have "\<not> n_dirty n"
    using av by (simp add: available_iff)
  ultimately show ?thesis
    using site_call [OF ok i av] by blast
qed

lemma site_times_out:
  assumes "tick_until t n = Some n'" and "site i n" "disk_ok d" "runs_over d n" "backed G i n" "registered G i d" and "i < 3"
  shows "site i n' \<and> runs_over d n' \<and> backed G i n' \<and> hs_term (n_hard n') \<noteq> t
    \<and> (hs_term (n_hard n) = t \<longrightarrow> \<not> n_dirty n)"
  using assms
proof (induction rule: tick_until.raw_induct [rotated 1, consumes 1])
  case (1 rec t n n')
  show ?case
  proof (cases "hs_term (n_hard n) = t")
    case False
    then show ?thesis
      using 1 by simp
  next
    case True
    then obtain m where m: "Node_tick n = Some (Ok (), m)" "rec t m = Some n'"
      using 1(2) by (auto simp: bind_eq_Some_conv unwrap_Some)
    show ?thesis
      using 1(1) [OF m(2)] site_ticks [OF 1(3-7) 1(8) m(1)] 1(4,7,8) by blast
  qed
qed

lemma world_timeout:
  assumes ok: "world_ok G w" and act: "World_act (Timeout i) w = Some w'"
  shows "world_ok G w'"
proof -
  let ?n = "w_nodes w ! i" and ?d = "w_disk w ! i"
  from act obtain n' where i: "i < length (w_nodes w)" and t: "tick_until (hs_term (n_hard ?n)) ?n = Some n'"
    and w': "w' = w\<lparr>w_nodes := (w_nodes w)[i := n']\<rparr>"
    by (auto simp: bind_eq_Some_conv)
  have i3: "i < 3"
    using ok i by (simp add: world_ok_def)
  then have s: "site i ?n" "disk_ok ?d" "runs_over ?d ?n" "backed G i ?n" "registered G i ?d"
    using ok by (simp_all add: world_ok_def site_ok_def)
  note n' = site_times_out [OF t s i3]
  then have "n_state ?n = ?d"
    using s(3) by (simp add: runs_over_def)
  then have "n_dirty n'"
    using n' by (auto simp: runs_over_def)
  then have "site_ok G i n' ?d"
    using n' s by (simp add: site_ok_def idle_unless_dirty_def)
  then show ?thesis
    using world_ok_node [OF ok i3] w' by simp
qed

lemma site_proposes:
  assumes ok: "site_ok G i n d" and i: "i < 3" and p: "Node_propose v n = Some (Ok x, n')"
  shows "site_ok G i n' d \<and> hs_term (n_hard n') = hs_term (n_hard n)"
proof -
  have site: "site i n" and inv: "Node_inv n" "ballot_ok n" and rest: "disk_ok d" "registered G i d"
    using ok by (simp_all add: site_ok_def site_def)
  obtain r m where "Node_propose_many 1 [Some v] n = Some (r, m)"
    using p by (auto simp: Node_propose_def bind_eq_Some_conv)
  then have pm: "Node_propose_many 1 [Some v] n = Some (r, n')" and r: "\<exists>y. r = Returned (Ok y)"
    using p by (auto simp: Node_propose_def split: Outcome.splits Result.splits)
  have adm: "admissible (length [v]) n"
    using propose_refused [of n 1 "[Some v]"] pm r inv(1)
    by (auto simp: Node_inv_def dest: log_okD(2))
  then have av: "Node_available n = Ok ()"
    by (simp add: admissible_def)
  have "list_all (value_ok (n_hooks n) (Node_N n)) [v]"
    using site_local(3) [OF site i] by (simp add: value_ok_def)
  from good_propose_done [OF inv(1) adm this] pm have "good n n'" and "n_dirty n'"
    by auto
  moreover have "ballot_ok n'" "votes_step {} n n'" "hs_term (n_hard n') = hs_term (n_hard n)"
    using ballot_proposal [OF inv pm] by blast+
  ultimately show ?thesis
    using site_call [OF ok i av, of n' "{}"] rest by (simp add: site_ok_def idle_unless_dirty_def)
qed

lemma world_propose:
  assumes ok: "world_ok G w" and act: "World_act (Propose i) w = Some w'"
  shows "world_ok G w'"
proof -
  from act obtain x n' where i: "i < length (w_nodes w)"
    and p: "Node_propose (100 + of_nat i) (w_nodes w ! i) = Some (Ok x, n')"
    and w': "w' = w\<lparr>w_nodes := (w_nodes w)[i := n']\<rparr>"
    by (auto simp: bind_eq_Some_conv unwrap_Some)
  have i3: "i < 3"
    using ok i by (simp add: world_ok_def)
  then have "site_ok G i (w_nodes w ! i) (w_disk w ! i)"
    using ok by (simp add: world_ok_def)
  then show ?thesis
    using site_proposes [OF _ i3 p] world_ok_node [OF ok i3] w' by blast
qed

lemma world_act:
  assumes ok: "world_ok G w" and act: "World_act a w = Some w'"
  shows "\<exists>G'. G \<subseteq> G' \<and> world_ok G' w'"
proof (cases a)
  case (Deliver index)
  then show ?thesis
    using world_deliver [OF ok] act by blast
next
  case (Drop index)
  then have "w' = w\<lparr>w_network := vec_remove index (w_network w)\<rparr>"
    using act by (auto simp: bind_eq_Some_conv)
  moreover have "\<forall>env \<in> set (vec_remove index (w_network w)). travels G env"
    using ok set_vec_remove [of index "w_network w"] by (auto simp: world_ok_def)
  ultimately show ?thesis
    using world_ok_network [OF ok] by blast
next
  case (Duplicate index)
  then have "w' = w\<lparr>w_network := w_network w @ [w_network w ! index]\<rparr>" and "index < length (w_network w)"
    using act by (auto simp: bind_eq_Some_conv)
  moreover from this(2) have "\<forall>env \<in> set (w_network w @ [w_network w ! index]). travels G env"
    using ok by (auto simp: world_ok_def)
  ultimately show ?thesis
    using world_ok_network [OF ok] by blast
next
  case (Save i)
  then show ?thesis
    using world_save [OF ok] act by blast
next
  case (Crash i)
  then show ?thesis
    using world_crash [OF ok] act by blast
next
  case (Timeout i)
  then show ?thesis
    using world_timeout [OF ok] act by blast
next
  case (Propose i)
  then show ?thesis
    using world_propose [OF ok] act by blast
qed

lemma world_apply:
  assumes "world_ok G w" and "World_apply debug a w = Some w'"
  shows "\<exists>G'. G \<subseteq> G' \<and> world_ok G' w'"
proof -
  obtain w1 where w1: "World_act a w = Some w1" and w': "w' = w1\<lparr>w_network := sort_key debug (w_network w1)\<rparr>"
    using assms(2) by (auto simp: World_apply_def bind_eq_Some_conv)
  obtain G' where "G \<subseteq> G'" "world_ok G' w1"
    using world_act [OF assms(1) w1] by blast
  then show ?thesis
    using w' world_ok_network [of G' w1] by (auto simp: world_ok_def)
qed

section \<open>The oracle never reports two leaders or unpersisted output\<close>

definition safety_violation :: "Violation \<Rightarrow> bool" where
  "safety_violation v = (case v of
     ElectionSafety _ \<Rightarrow> True | UnpersistedOutput _ \<Rightarrow> True | UnpersistedCommit \<Rightarrow> True | _ \<Rightarrow> False)"

lemma check_ready_ok: "check_ready path n = Some (Inr n)"
  by (cases "State_entries (n_state n)")
    (auto simp: check_ready_def Node_ready_def Node_next_message_def Node_committed_def)

definition led :: "Grants \<Rightarrow> Id option list \<Rightarrow> bool" where
  "led G leaders \<longleftrightarrow> length leaders = 3 \<and> (\<forall>t < 3. \<forall>c. leaders ! t = Some c \<longrightarrow> elected G (of_nat t) c)"

lemma check_leader_ok:
  assumes ok: "world_ok G w" and i: "i < 3" and s: "site i n" "backed G i n" and l: "led G leaders"
  shows "yields (check_leader path i n (history, leaders)) (\<lambda>r. case r of
     Inl v \<Rightarrow> \<not> safety_violation v | Inr (history', leaders') \<Rightarrow> led G leaders')"
proof (cases "n_role n = Leader")
  case True
  let ?t = "unat (hs_term (n_hard n))"
  have el: "elected G (hs_term (n_hard n)) (wid i)"
    using leader_elected [OF i s True] .
  then have "l = wid i" if "?t < 3" "leaders ! ?t = Some l" for l
    using l that elected_unique [OF ok] unfolding led_def by fastforce
  moreover have "led G (leaders[?t := Some (wid i)])"
    using l el by (cases "?t < 3") (auto simp: led_def nth_list_update split: if_splits)
  ultimately show ?thesis
    using True l by (auto simp: check_leader_def Let_def yield led_def safety_violation_def is_some_and_iff)
next
  case False
  then show ?thesis
    using l by (simp add: check_leader_def)
qed

lemma check_nodes_ok:
  assumes "world_ok G w" and "i + length nodes = 3"
    and "\<forall>k < length nodes. site (i + k) (nodes ! k) \<and> backed G (i + k) (nodes ! k)" and "led G leaders"
  shows "yields (check_nodes path i nodes (history, leaders)) (\<lambda>r. case r of
     Inl v \<Rightarrow> \<not> safety_violation v | Inr (nodes', history', leaders') \<Rightarrow> nodes' = nodes \<and> led G leaders')"
  using assms
proof (induction nodes arbitrary: i history leaders)
  case (Cons n nodes)
  have first: "i < 3" "site i n" "backed G i n"
    using Cons.prems(2,3) by (auto dest: spec [of _ 0])
  have rest: "\<forall>k < length nodes. site (Suc i + k) (nodes ! k) \<and> backed G (Suc i + k) (nodes ! k)"
    using Cons.prems(3) by (auto dest: spec [of _ "Suc _"])
  have tail: "yields (check_nodes path (Suc i) nodes (history', leaders')) (\<lambda>r. case r of
     Inl v \<Rightarrow> \<not> safety_violation v | Inr (nodes', history'', leaders'') \<Rightarrow> nodes' = nodes \<and> led G leaders'')"
    if "led G leaders'" for history' leaders'
    using Cons.prems(2) by (intro Cons.IH [OF Cons.prems(1) _ rest that]) simp
  have "\<not> safety_violation (StateMachineSafety path)"
    by (simp add: safety_violation_def)
  then show ?case
    by (auto simp: check_ready_ok check_applied_def Let_def yields_bind split: sum.splits
        intro!: yields_conseq [OF check_leader_ok [OF Cons.prems(1) first Cons.prems(4)]] yields_conseq [OF tail])
qed simp

lemma world_check:
  assumes ok: "world_ok G w"
  shows "yields (World_check path w) (\<lambda>r. case r of Inl v \<Rightarrow> \<not> safety_violation v | Inr w' \<Rightarrow> world_ok G w')"
proof -
  have "led G (w_leaders w)"
    and "\<forall>k < length (w_nodes w). site (0 + k) (w_nodes w ! k) \<and> backed G (0 + k) (w_nodes w ! k)"
    using ok by (auto simp: world_ok_def led_def site_ok_def)
  moreover have "0 + length (w_nodes w) = 3"
    using ok by (simp add: world_ok_def)
  ultimately have "yields (check_nodes path 0 (w_nodes w) (w_history w, w_leaders w)) (\<lambda>r. case r of
     Inl v \<Rightarrow> \<not> safety_violation v | Inr (nodes', history', leaders') \<Rightarrow> nodes' = w_nodes w \<and> led G leaders')"
    by (intro check_nodes_ok [OF ok])
  then show ?thesis
    using ok by (auto simp: World_check_def yields_bind world_ok_def led_def split: sum.splits elim!: yields_conseq)
qed

lemma world_check_nodes:
  assumes ok: "world_ok G w" and "World_check path w = Some (Inr w')"
  shows "w_nodes w' = w_nodes w" and "w_network w' = w_network w"
proof -
  obtain y where y: "check_nodes path 0 (w_nodes w) (w_history w, w_leaders w) = Some y"
    using assms(2) by (auto simp: World_check_def bind_eq_Some_conv)
  obtain nodes history leaders
    where c: "check_nodes path 0 (w_nodes w) (w_history w, w_leaders w) = Some (Inr (nodes, history, leaders))"
      and w': "w' = w\<lparr>w_nodes := nodes, w_history := history, w_leaders := leaders\<rparr>"
    using assms(2) y by (cases y) (auto simp: World_check_def)
  have "\<forall>k < length (w_nodes w). site (0 + k) (w_nodes w ! k) \<and> backed G (0 + k) (w_nodes w ! k)"
    and "0 + length (w_nodes w) = 3" and "led G (w_leaders w)"
    using ok by (auto simp: world_ok_def led_def site_ok_def)
  then show "w_nodes w' = w_nodes w" and "w_network w' = w_network w"
    using yieldsD [OF check_nodes_ok [OF ok] c] w' by auto
qed

section \<open>Schedules\<close>

text \<open>A step of a schedule is any action or an observation of the oracle.\<close>

inductive schedule :: "(WEnvelope \<Rightarrow> string) \<Rightarrow> World \<Rightarrow> World \<Rightarrow> bool" for debug where
  acts: "World_apply debug a w = Some w' \<Longrightarrow> schedule debug w w'"
| observes: "World_check path w = Some (Inr w') \<Longrightarrow> schedule debug w w'"

inductive_cases scheduleE: "schedule debug w w'"

definition reachable :: "(WEnvelope \<Rightarrow> string) \<Rightarrow> World \<Rightarrow> bool" where
  "reachable debug w \<longleftrightarrow> (\<exists>w0. World_new = Some w0 \<and> (schedule debug)\<^sup>*\<^sup>* w0 w)"

lemma world_starts: "\<exists>w. World_new = Some w \<and> world_ok {} w \<and> (\<forall>i < 3. hs_term (n_hard (w_nodes w ! i)) = 0) \<and> w_network w = []"
proof -
  let ?d = "State_new 4 :: WState"
  have d: "disk_ok ?d" and reg: "registered {} i ?d" for i
    by (simp_all add: disk_ok_def registered_def State_new_def HardState_default_def State_inv_def slots_wf_def
        State_entries_def State_base_def State_last_def list_all_iff)
  have "\<forall>i. \<exists>n. i < 3 \<longrightarrow> Node_new (World_config i) ?d = Some (Ok n) \<and> site_ok {} i n ?d \<and> n_state n = ?d"
    using site_restarts [OF _ d reg] by blast
  then obtain f where f: "\<And>i. i < 3 \<Longrightarrow> Node_new (World_config i) ?d = Some (Ok (f i)) \<and> site_ok {} i (f i) ?d \<and> n_state (f i) = ?d"
    by metis
  have "those (map (\<lambda>i. Node_new (World_config i) ?d \<bind> unwrap) [0..<3]) = Some [f 0, f 1, f 2]"
    using f [of 0] f [of 1] f [of 2] by (simp add: eval_nat_numeral unwrap_def)
  then have "World_new = Some \<lparr>w_nodes = [f 0, f 1, f 2], w_disk = replicate 3 ?d, w_network = [], w_history = [],
      w_leaders = replicate 3 None\<rparr>" (is "_ = Some ?w")
    by (simp add: World_new_def)
  moreover have "[f 0, f 1, f 2] ! i = f i" if "i < 3" for i
    using that by (auto simp: less_3)
  then have "world_ok {} ?w" and "\<forall>i < 3. hs_term (n_hard (w_nodes ?w ! i)) = 0"
    using f by (simp_all add: world_ok_def State_new_def HardState_default_def)
  ultimately show ?thesis
    by auto
qed

lemma schedule_step:
  assumes "schedule debug w w'" and "world_ok G w"
  shows "\<exists>G'. G \<subseteq> G' \<and> world_ok G' w'"
  using assms(1)
proof (rule scheduleE)
  fix a assume "World_apply debug a w = Some w'"
  then show ?thesis
    using world_apply [OF assms(2)] by blast
next
  fix path assume "World_check path w = Some (Inr w')"
  then show ?thesis
    using yieldsD [OF world_check [OF assms(2)]] by fastforce
qed

lemma schedule_steps:
  assumes "(schedule debug)\<^sup>*\<^sup>* w w'" and "world_ok G w"
  shows "\<exists>G'. G \<subseteq> G' \<and> world_ok G' w'"
  using assms(1)
proof (induction rule: rtranclp_induct)
  case base
  then show ?case using assms(2) by blast
next
  case (step w1 w2)
  then obtain G1 where "G \<subseteq> G1" "world_ok G1 w1"
    by blast
  then show ?case
    using schedule_step [OF step(2)] by (meson subset_trans)
qed

lemma reachable_ok: "reachable debug w \<Longrightarrow> \<exists>G. world_ok G w"
proof -
  assume "reachable debug w"
  then obtain w0 where w0: "World_new = Some w0" "(schedule debug)\<^sup>*\<^sup>* w0 w"
    unfolding reachable_def by blast
  then have "world_ok {} w0"
    using world_starts by (metis option.inject)
  then show ?thesis
    using schedule_steps [OF w0(2)] by blast
qed

text \<open>Two leaders of a term, at any two points of a schedule, are the same node.\<close>

lemma one_leader:
  assumes "reachable debug w" and "(schedule debug)\<^sup>*\<^sup>* w w'" and i: "i < 3" and j: "j < 3"
    and "n_role (w_nodes w ! i) = Leader" and "n_role (w_nodes w' ! j) = Leader"
    and tm: "hs_term (n_hard (w_nodes w ! i)) = hs_term (n_hard (w_nodes w' ! j))"
  shows "i = j"
proof -
  obtain G where G: "world_ok G w"
    using reachable_ok [OF assms(1)] by blast
  then obtain G' where le: "G \<subseteq> G'" and G': "world_ok G' w'"
    using schedule_steps [OF assms(2)] by blast
  have "elected G (hs_term (n_hard (w_nodes w ! i))) (wid i)"
    using leader_elected [OF i _ _ assms(5), of G] G i by (simp add: world_ok_def site_ok_def)
  then have "elected G' (hs_term (n_hard (w_nodes w ! i))) (wid i)"
    unfolding elected_def by (rule quorum_mono) (use le in auto)
  moreover have "elected G' (hs_term (n_hard (w_nodes w' ! j))) (wid j)"
    using leader_elected [OF j _ _ assms(6), of G'] G' j by (simp add: world_ok_def site_ok_def)
  ultimately show ?thesis
    using elected_unique [OF G'] tm wid_inj [OF i j] by metis
qed

end
