(* ===== verification/Jarl_Explore.thy ===== *)
theory Jarl_Explore
  imports Jarl_Election
begin

text \<open>
  The steps of the search of \<^verbatim>\<open>jarl/src/explore.rs\<close> return: every action the explorer offers can be
  carried out, the oracle and the list of actions can be computed, and the only violations the
  oracle could report concern the replicated logs (which \<open>Jarl_Safety\<close> excludes).
\<close>

section \<open>Waiting for a timeout ends\<close>

lemma tick_waits:
  assumes "Node_available n = Ok ()" and "n_hooks n = None" and "n_role n \<noteq> Leader"
    and "\<not> n_election_deadline n \<le> saturating_add (n_elapsed n) 1"
  shows "Node_tick n = Some (Ok (), n\<lparr>n_elapsed := saturating_add (n_elapsed n) 1,
    n_leader_age := saturating_add (n_leader_age n) 1\<rparr>)"
  using assms by (simp add: Node_tick_def Node_check_quorum_def Node_timers_def Let_def)

lemma tick_campaigns:
  assumes site: "site i n" and i: "i < 3" and av: "Node_available n = Ok ()" and role: "n_role n \<noteq> Leader"
    and due: "n_election_deadline n \<le> saturating_add (n_elapsed n) 1"
    and t: "checked_add (hs_term (n_hard n)) 1 = Some t"
  shows "\<exists>n'. Node_tick n = Some (Ok (), n') \<and> hs_term (n_hard n') = t"
proof -
  have inv: "Node_inv n" and bal: "ballot_ok n" and voter: "Membership_is_voter (cfg_id (n_config n)) (n_membership n)"
    using site site_local(2) [OF site i] world_site(1) [OF i] by (simp_all add: site_def)
  let ?m = "n\<lparr>n_elapsed := saturating_add (n_elapsed n) 1, n_leader_age := saturating_add (n_leader_age n) 1\<rparr>"
  have tick: "Node_tick n = Node_campaign t ?m \<bind> (\<lambda>n1. Some (Ok (), n1))"
    using av role voter due t site_local(3) [OF site i]
    by (simp add: Node_tick_def Node_check_quorum_def Node_timers_def Let_def)
  obtain r n' where rn: "Node_tick n = Some (r, n')"
    using good_tick [OF inv av] by (auto simp: returns_iff)
  then have c: "Node_campaign t ?m = Some n'" and r: "r = Ok ()"
    using tick by (auto simp: bind_eq_Some_conv)
  have "keeps n ?m"
    by (auto simp: static_def ballot_def intro: keepsI)
  then have "fixed_engine ?m" and "\<not> alone ?m" and "length (n_votes ?m) = Node_N ?m"
    using bal keeps_fixed inv by (auto simp: ballot_ok_def alone_def Node_inv_def slots_ok_def)
  then have "keeps (candidate t ?m) n'"
    using yieldsD [OF keeps_campaign c] by blast
  then show ?thesis
    using rn r by (auto simp: keeps_def ballot_def candidate_def set_hard_def)
qed

lemma site_waits:
  assumes "site i n" and "n' = n\<lparr>n_elapsed := e, n_leader_age := a\<rparr>" and "Node_inv n'"
  shows "site i n'"
proof -
  have "keeps n n'"
    by (auto simp: assms(2) static_def ballot_def intro: keepsI)
  then show ?thesis
    using assms ballot_ok_keeps [of n n'] by (auto simp: site_def)
qed

lemma tick_until_returns:
  assumes "site i n" and "i < 3" and "Node_available n = Ok ()" and "n_role n \<noteq> Leader"
    and "checked_add (hs_term (n_hard n)) 1 = Some t"
  shows "\<exists>n'. tick_until (hs_term (n_hard n)) n = Some n' \<and> hs_term (n_hard n') = t"
  using assms
proof (induction "unat (n_election_deadline n) - unat (n_elapsed n)" arbitrary: n rule: less_induct)
  case less
  let ?m = "n\<lparr>n_elapsed := saturating_add (n_elapsed n) 1, n_leader_age := saturating_add (n_leader_age n) 1\<rparr>"
  have inv: "Node_inv n"
    using less(2) by (simp add: site_def)
  show ?case
  proof (cases "n_election_deadline n \<le> saturating_add (n_elapsed n) 1")
    case True
    then obtain n' where n': "Node_tick n = Some (Ok (), n')" "hs_term (n_hard n') = t"
      using tick_campaigns [OF less(2-5) True less(6)] by blast
    moreover have "t \<noteq> hs_term (n_hard n)"
      using less(6) by (auto simp: u64)
    ultimately show ?thesis
      by (simp add: tick_until.simps [of _ n] tick_until.simps [of _ n'] unwrap_def)
  next
    case False
    then have tick: "Node_tick n = Some (Ok (), ?m)"
      using tick_waits less(4,5) site_local(3) [OF less(2,3)] by blast
    have "Node_inv ?m"
      using tick_safe [OF inv] tick by simp
    then have "site i ?m"
      using site_waits [OF less(2)] by blast
    moreover have "Node_available ?m = Ok ()" and "n_role ?m \<noteq> Leader"
      using less(4,5) by (simp_all add: available_iff)
    moreover have "unat (n_election_deadline ?m) - unat (n_elapsed ?m) < unat (n_election_deadline n) - unat (n_elapsed n)"
    proof -
      have "unat (n_election_deadline n) \<le> 18446744073709551615"
        using unat_u64_lt [of "n_election_deadline n"] by linarith
      then show ?thesis
        using False by (auto simp: u64 min_def split: if_splits)
    qed
    ultimately have "\<exists>n'. tick_until (hs_term (n_hard ?m)) ?m = Some n' \<and> hs_term (n_hard n') = t"
      using less(1) [of ?m] less(3,6) by simp
    then show ?thesis
      using tick by (simp add: tick_until.simps [of _ n] unwrap_def)
  qed
qed

section \<open>The actions the explorer offers\<close>

text \<open>Terms never pass 2, so that they index the table of leaders.\<close>

definition bounded :: "World \<Rightarrow> bool" where
  "bounded w \<longleftrightarrow>
     (\<forall>i < 3. hs_term (n_hard (w_nodes w ! i)) \<le> 2)
     \<and> (\<forall>env \<in> set (w_network w). Message_term (env_message env) \<le> 2)"

lemma bounded_update:
  assumes "bounded w" and "i < 3" and "length (w_nodes w) = 3" and "hs_term (n_hard n) \<le> 2"
    and "\<forall>env \<in> set network. Message_term (env_message env) \<le> 2"
  shows "bounded (w\<lparr>w_nodes := (w_nodes w)[i := n], w_network := network\<rparr>)"
  using assms by (auto simp: bounded_def nth_list_update)

lemma step_returns:
  assumes ok: "site_ok G i n d" and i: "i < 3" and env: "travels G env" "env_to env = wid i" and clean: "\<not> n_dirty n"
  shows "\<exists>n'. Node_step env n = Some (Ok (), n')"
proof -
  have site: "site i n" and av: "Node_available n = Ok ()" and inv: "Node_inv n"
    using ok clean by (simp_all add: site_ok_def idle_unless_dirty_def site_def)
  obtain j where j: "j < 3" "env_from env = wid j"
    using env(1) world_peers_set unfolding travels_def by blast
  then have slot: "Node_peer_slot (env_from env) n = Some j"
    using site world_site(3) by (simp add: Node_peer_slot_def site_def)
  have "message_ok (n_hooks n) (Node_N n) (env_message env)"
    using site_local(3) [OF site i] message_ok_fixed by simp
  then obtain r n' where "Node_step env n = Some (r, n')"
    using good_step [OF inv av, of env] by (auto simp: returns_iff)
  moreover from this have "r = Ok ()"
    using av slot env site_local(2) [OF site i]
    by (auto simp: Node_step_def Node_sender_def travels_def bind_eq_Some_conv split: if_splits)
  ultimately show ?thesis
    by blast
qed

lemma deliver_returns:
  assumes ok: "world_ok G w" and b: "bounded w" and index: "index < length (w_network w)"
    and ready: "Node_ready (w_nodes w ! unat (id_num (env_to (w_network w ! index)))) = None"
  shows "\<exists>w'. World_act (Deliver index) w = Some w' \<and> bounded w'"
proof -
  let ?env = "w_network w ! index"
  have tr: "travels G ?env" and te: "Message_term (env_message ?env) \<le> 2" and len: "length (w_nodes w) = 3"
    using ok b index by (auto simp: world_ok_def bounded_def)
  obtain i where i: "i < 3" "env_to ?env = wid i"
    using tr world_peers_set unfolding travels_def by blast
  then have u: "unat (id_num (env_to ?env)) = i"
    using unat_wid by simp
  let ?n = "w_nodes w ! i"
  have s: "site_ok G i ?n (w_disk w ! i)" and tn: "hs_term (n_hard ?n) \<le> 2"
    using ok b i(1) by (auto simp: world_ok_def bounded_def)
  obtain n' where step: "Node_step ?env ?n = Some (Ok (), n')"
    using step_returns [OF s i(1) tr i(2)] ready u by (auto simp: Node_ready_def split: if_splits)
  have n': "site i n'" "runs_over (w_disk w ! i) n'" "backed G i n'" "hs_term (n_hard n') \<le> 2"
    using site_receives [OF s i(1) tr i(2) step] tn te by auto
  have net: "\<forall>env \<in> set (vec_remove index (w_network w)). travels G env"
    "\<forall>env \<in> set (vec_remove index (w_network w)). Message_term (env_message env) \<le> 2"
    using ok b set_vec_remove [of index "w_network w"] by (auto simp: world_ok_def bounded_def)
  from site_output [OF ok i(1) net(1) n'(1-3)] obtain n2 network
    where out: "World_output i (w\<lparr>w_network := vec_remove index (w_network w), w_nodes := (w_nodes w)[i := n']\<rparr>)
        = Some (w\<lparr>w_nodes := (w_nodes w)[i := n2], w_network := network\<rparr>)"
      and n2: "n_state n2 = n_state n'"
      and sent: "\<forall>env \<in> set network. env \<in> set (vec_remove index (w_network w)) \<or> Message_term (env_message env) = hs_term (n_hard n')"
    by blast
  have "bounded (w\<lparr>w_nodes := (w_nodes w)[i := n2], w_network := network\<rparr>)"
    using n'(4) n2 sent net(2) by (intro bounded_update [OF b i(1) len]) auto
  then show ?thesis
    using index u i(1) len step out by (auto simp: Let_def unwrap_def index_read_def)
qed

lemma save_returns:
  assumes ok: "world_ok G w" and b: "bounded w" and i: "i < 3" and ready: "Node_ready (w_nodes w ! i) \<noteq> None"
  shows "\<exists>w'. World_act (Save i) w = Some w' \<and> bounded w'"
proof -
  let ?n = "w_nodes w ! i" and ?G = "G \<union> vote_of i (n_state (w_nodes w ! i))"
  let ?w = "w\<lparr>w_disk := (w_disk w)[i := n_state ?n]\<rparr>"
  have dirty: "n_dirty ?n"
    using ready by (auto simp: Node_ready_def split: if_splits)
  have ok': "world_ok ?G ?w"
    using world_ok_save [OF ok i] .
  have s: "site i ?n" and bk: "backed ?G i ?n" and len: "length (w_disk w) = 3" "length (w_nodes w) = 3"
    and tn: "hs_term (n_hard ?n) \<le> 2" and net: "\<forall>env \<in> set (w_network w). travels ?G env"
    using ok' i ok b by (auto simp: world_ok_def site_ok_def bounded_def)
  from site_output [OF ok' i net site_persisted(1) [OF s dirty]] site_persisted [OF s dirty] bk len i
  obtain n2 network
    where out: "World_output i (w\<lparr>w_disk := (w_disk w)[i := n_state ?n], w_nodes := (w_nodes w)[i := Ready_persisted ?n]\<rparr>)
        = Some (?w\<lparr>w_nodes := (w_nodes w)[i := n2], w_network := network\<rparr>)"
      and n2: "n_state n2 = n_state (Ready_persisted ?n)"
      and sent: "\<forall>env \<in> set network. env \<in> set (w_network w) \<or> Message_term (env_message env) = hs_term (n_hard (Ready_persisted ?n))"
    by auto
  have "bounded ?w"
    using b by (simp add: bounded_def)
  then have "bounded (?w\<lparr>w_nodes := (w_nodes ?w)[i := n2], w_network := network\<rparr>)"
    using tn n2 sent b len by (intro bounded_update [OF _ i]) (auto simp: Ready_persisted_def bounded_def)
  then show ?thesis
    using out i len ready dirty by (auto simp: Node_ready_def Ready_state_def index_read_def index_write_def)
qed

lemma crash_returns:
  assumes ok: "world_ok G w" and b: "bounded w" and i: "i < 3"
  shows "\<exists>w'. World_act (Crash i) w = Some w' \<and> bounded w'"
proof -
  let ?d = "w_disk w ! i"
  have d: "disk_ok ?d" "registered G i ?d" "runs_over ?d (w_nodes w ! i)"
    and len: "length (w_disk w) = 3" "length (w_nodes w) = 3"
    using ok i by (auto simp: world_ok_def site_ok_def)
  obtain n where n: "Node_new (World_config i) ?d = Some (Ok n)" "n_state n = ?d"
    using site_restarts [OF i d(1,2)] by blast
  have "hs_term (n_hard (w_nodes w ! i)) \<le> 2"
    using b i by (simp add: bounded_def)
  then have "hs_term (n_hard n) \<le> 2"
    using d(3) n(2) by (auto simp: runs_over_def HardState_le_def)
  then have "bounded (w\<lparr>w_nodes := (w_nodes w)[i := n], w_network := w_network w\<rparr>)"
    using b by (intro bounded_update [OF b i len(2)]) (auto simp: bounded_def)
  then show ?thesis
    using n len i by (simp add: index_read_def index_write_def unwrap_def)
qed

lemma timeout_returns:
  assumes ok: "world_ok G w" and b: "bounded w" and i: "i < 3" and ready: "Node_ready (w_nodes w ! i) = None"
    and role: "n_role (w_nodes w ! i) \<noteq> Leader" and tm: "hs_term (n_hard (w_nodes w ! i)) < 2"
  shows "\<exists>w'. World_act (Timeout i) w = Some w' \<and> bounded w'"
proof -
  let ?n = "w_nodes w ! i"
  have site: "site i ?n" and len: "length (w_nodes w) = 3" and "idle_unless_dirty ?n"
    using ok i by (auto simp: world_ok_def site_ok_def)
  then have av: "Node_available ?n = Ok ()"
    using ready by (auto simp: idle_unless_dirty_def Node_ready_def split: if_splits)
  obtain t where t: "checked_add (hs_term (n_hard ?n)) 1 = Some t" "t \<le> 2"
    using tm by (cases "checked_add (hs_term (n_hard ?n)) 1") (auto simp: u64)
  obtain n' where n': "tick_until (hs_term (n_hard ?n)) ?n = Some n'" "hs_term (n_hard n') = t"
    using tick_until_returns [OF site i av role t(1)] by blast
  have "bounded (w\<lparr>w_nodes := (w_nodes w)[i := n'], w_network := w_network w\<rparr>)"
    using b n'(2) t(2) by (intro bounded_update [OF b i len]) (auto simp: bounded_def)
  then show ?thesis
    using n' len i by (simp add: index_read_def)
qed

lemma proposal_returns:
  assumes ok: "site_ok G i n d" and i: "i < 3" and "\<not> n_dirty n" and role: "n_role n = Leader"
    and last: "li_index (n_last n) < 2"
  shows "\<exists>x n'. Node_propose v n = Some (Ok x, n')"
proof -
  have site: "site i n" and inv: "Node_inv n" and av: "Node_available n = Ok ()"
    using ok assms(3) by (simp_all add: site_ok_def site_def idle_unless_dirty_def)
  have st: "State_inv (n_state n)" and cap: "State_CAP (n_state n) = 4"
    using site by (simp_all add: site_def Node_inv_def log_ok_def)
  have lt: "unat (li_index (n_last n)) < 2"
    using last by (simp add: u64)
  have "unat (li_index (n_last n)) = unat (li_index (n_base n)) + length (State_entries (n_state n))"
    unfolding State_last_def by (rule log_chain_last_index [OF State_inv_D(2) [OF st]])
  then have adm: "admissible (length [v]) n"
    using av role cap lt by (simp add: admissible_def)
  have "list_all (value_ok (n_hooks n) (Node_N n)) [v]"
    using site_local(3) [OF site i] by (simp add: value_ok_def)
  from good_propose_done [OF inv adm this] show ?thesis
    by (auto simp: returns_iff Node_propose_def)
qed

lemma propose_returns:
  assumes ok: "world_ok G w" and b: "bounded w" and i: "i < 3" and ready: "Node_ready (w_nodes w ! i) = None"
    and role: "n_role (w_nodes w ! i) = Leader" and last: "li_index (n_last (w_nodes w ! i)) < 2"
  shows "\<exists>w'. World_act (Propose i) w = Some w' \<and> bounded w'"
proof -
  let ?n = "w_nodes w ! i"
  have s: "site_ok G i ?n (w_disk w ! i)" and len: "length (w_nodes w) = 3" and tn: "hs_term (n_hard ?n) \<le> 2"
    using ok b i by (auto simp: world_ok_def bounded_def)
  have "\<not> n_dirty ?n"
    using ready by (auto simp: Node_ready_def split: if_splits)
  then obtain x n' where p: "Node_propose (100 + of_nat i) ?n = Some (Ok x, n')"
    using proposal_returns [OF s i _ role last] by blast
  have "hs_term (n_hard n') \<le> 2"
    using site_proposes [OF s i p] tn by simp
  then have "bounded (w\<lparr>w_nodes := (w_nodes w)[i := n'], w_network := w_network w\<rparr>)"
    using b by (intro bounded_update [OF b i len]) (auto simp: bounded_def)
  then show ?thesis
    using p len i by (simp add: index_read_def unwrap_def)
qed

text \<open>What it means that the explorer offers an action.\<close>

fun enabled :: "World \<Rightarrow> Action \<Rightarrow> bool" where
  "enabled w (Deliver i) \<longleftrightarrow> i < length (w_network w)
     \<and> Node_ready (w_nodes w ! unat (id_num (env_to (w_network w ! i)))) = None"
| "enabled w (Drop i) \<longleftrightarrow> i < length (w_network w)"
| "enabled w (Duplicate i) \<longleftrightarrow> i < length (w_network w)"
| "enabled w (Save i) \<longleftrightarrow> i < 3 \<and> Node_ready (w_nodes w ! i) \<noteq> None"
| "enabled w (Crash i) \<longleftrightarrow> i < 3"
| "enabled w (Timeout i) \<longleftrightarrow> i < 3 \<and> Node_ready (w_nodes w ! i) = None \<and> n_role (w_nodes w ! i) \<noteq> Leader
     \<and> hs_term (n_hard (w_nodes w ! i)) < 2"
| "enabled w (Propose i) \<longleftrightarrow> i < 3 \<and> Node_ready (w_nodes w ! i) = None \<and> n_role (w_nodes w ! i) = Leader
     \<and> li_index (n_last (w_nodes w ! i)) < 2"

lemma enabled_returns:
  assumes "world_ok G w" and "bounded w" and "enabled w a"
  shows "\<exists>w'. World_apply debug a w = Some w' \<and> bounded w'"
proof -
  have "\<exists>w'. World_act a w = Some w' \<and> bounded w'"
  proof (cases a)
    case (Drop i)
    then show ?thesis
      using assms set_vec_remove [of i "w_network w"] by (auto simp: index_read_def bounded_def)
  next
    case (Duplicate i)
    then show ?thesis
      using assms by (auto simp: index_read_def bounded_def)
  qed (use assms deliver_returns save_returns crash_returns timeout_returns propose_returns in \<open>auto simp del: World_act.simps\<close>)
  then show ?thesis
    by (auto simp: World_apply_def bounded_def)
qed

lemma those_map: "(\<And>x. x \<in> set xs \<Longrightarrow> f x = Some (g x)) \<Longrightarrow> those (map f xs) = Some (map g xs)"
  by (induction xs) auto

lemma actions_return:
  assumes ok: "world_ok G w"
  shows "\<exists>as. World_actions w = Some as \<and> (\<forall>a \<in> set as. enabled w a)"
proof -
  have len: "length (w_nodes w) = 3"
    using ok by (simp add: world_ok_def)
  have "unat (id_num (env_to (w_network w ! i))) < 3" if "i < length (w_network w)" for i
  proof -
    have "travels G (w_network w ! i)"
      using ok that by (auto simp: world_ok_def)
    then show ?thesis
      using world_peers_set unat_wid unfolding travels_def by metis
  qed
  then have net: "\<exists>as. network_actions w i = Some as \<and> (\<forall>a \<in> set as. enabled w a)" if "i < length (w_network w)" for i
    using that len by (auto simp: network_actions_def index_read_def)
  have nodes: "\<exists>as. node_actions w i = Some as \<and> (\<forall>a \<in> set as. enabled w a)" if "i < 3" for i
    using that len by (auto simp: node_actions_def index_read_def)
  obtain f where f: "\<And>i. i < length (w_network w) \<Longrightarrow> network_actions w i = Some (f i) \<and> (\<forall>a \<in> set (f i). enabled w a)"
    using net by metis
  obtain g where g: "\<And>i. i < 3 \<Longrightarrow> node_actions w i = Some (g i) \<and> (\<forall>a \<in> set (g i). enabled w a)"
    using nodes by metis
  have "World_actions w = Some (concat (map f [0..<length (w_network w)]) @ concat (map g [0..<3]))"
    using those_map [of "[0..<length (w_network w)]" "network_actions w" f] those_map [of "[0..<3]" "node_actions w" g] f g
    by (simp add: World_actions_def)
  then show ?thesis
    using f g by (auto simp del: upt_rec_numeral)
qed

section \<open>The oracle returns\<close>

lemma check_nodes_return:
  assumes "\<forall>n \<in> set nodes. hs_term (n_hard n) \<le> 2" and "length leaders = 3"
  shows "returns (check_nodes path i nodes (history, leaders)) (\<lambda>_. True)"
  using assms
proof (induction nodes arbitrary: i history leaders)
  case (Cons n nodes)
  have "unat (hs_term (n_hard n)) < 3"
    using Cons.prems(1) by (auto simp: u64)
  then have "returns (check_leader path i n (history, leaders))
      (\<lambda>r. case r of Inl v \<Rightarrow> True | Inr (h, l) \<Rightarrow> length l = 3)"
    using Cons.prems(2) by (simp add: check_leader_def wp Let_def)
  moreover have "returns (check_nodes path (Suc i) nodes (h, l)) (\<lambda>_. True)" if "length l = 3" for h l
    using Cons.IH [OF _ that] Cons.prems(1) by simp
  ultimately show ?case
    by (auto simp: check_ready_ok check_applied_def Let_def wp split: sum.splits elim!: returns_conseq)
qed simp

lemma check_returns:
  assumes ok: "world_ok G w" and b: "bounded w"
  shows "\<exists>r. World_check path w = Some r \<and> (case r of
     Inl v \<Rightarrow> \<not> safety_violation v | Inr w' \<Rightarrow> world_ok G w' \<and> bounded w')"
proof -
  have "\<forall>n \<in> set (w_nodes w). hs_term (n_hard n) \<le> 2" and "length (w_leaders w) = 3"
    using ok b by (auto simp: world_ok_def bounded_def in_set_conv_nth)
  then obtain r where r: "World_check path w = Some r"
    using check_nodes_return [of "w_nodes w" "w_leaders w" path 0 "w_history w"]
    by (auto simp: World_check_def returns_iff)
  have "bounded w'" if "r = Inr w'" for w'
    using world_check_nodes [OF ok r [unfolded that]] b by (simp add: bounded_def)
  then show ?thesis
    using r yieldsD [OF world_check [OF ok] r] by (auto split: sum.splits)
qed

end
