(* ===== verification/Jarl_World_Examples.thy ===== *)
theory Jarl_World_Examples
  imports Jarl_Explore "HOL-Library.Code_Target_Nat"
begin

text \<open>
  A run of the explored cluster in which node 0 is elected: it times out, saves its vote, node 1
  receives the request, saves its vote, and the granted vote is delivered; every world up to there
  is evaluated. From there \<open>demo_commits\<close> replicates and commits the new leader's first entry.
\<close>

definition demo_site :: "usize \<Rightarrow> HardState \<Rightarrow> Role \<Rightarrow> bool list \<Rightarrow> Outbound option list \<Rightarrow> bool
    \<Rightarrow> u64 \<Rightarrow> u64 \<Rightarrow> Id option \<Rightarrow> WNode" where
  "demo_site i hard role votes out dirty deadline random request =
     \<lparr>n_config = World_config i, n_state = (State_new 4)\<lparr>st_hard := hard\<rparr>, n_role = role, n_leader = None,
      n_local = i, n_membership = world_membership, n_bootstrap = world_membership, n_hooks = None,
      n_peers = world_peers, n_votes = votes, n_next = [1, 1, 1], n_matched = [0, 0, 0], n_outbox = out,
      n_dirty = dirty, n_log_from = None, n_snapshot_changed = False, n_elapsed = 0,
      n_election_deadline = deadline, n_random = random, n_prevoting = None, n_leader_age = u64_MAX,
      n_quorum_elapsed = 0, n_active = [False, False, False], n_extra_reply = None, n_request_from = request\<rparr>"

definition demo_vote :: HardState where
  "demo_vote = \<lparr>hs_term = 1, hs_voted_for = Some (Id 0), hs_commit = 0\<rparr>"

definition demo_requested :: World where
  "demo_requested =
     \<lparr>w_nodes = [demo_site 0 demo_vote Candidate [True, False, False] [None, None, None] False 19 4354685564936845355 None,
        demo_site 1 HardState_default Follower [False, False, False] [None, None, None] False 10 11400714819323198487 None,
        demo_site 2 HardState_default Follower [False, False, False] [None, None, None] False 13 11400714819323198488 None],
      w_disk = [(State_new 4)\<lparr>st_hard := demo_vote\<rparr>, State_new 4, State_new 4],
      w_network = map (\<lambda>to. \<lparr>env_from = Id 0, env_to = to, env_message = Vote 1 LogId_default\<rparr>) [Id 1, Id 2],
      w_history = [], w_leaders = [None, None, None]\<rparr>"

definition demo_granting :: World where
  "demo_granting = demo_requested\<lparr>
     w_nodes := (w_nodes demo_requested)[1 := demo_site 1 demo_vote Follower [False, False, False]
       [Some (OutVoted True), None, None] True 11 15755400384260043841 (Some (Id 0))],
     w_network := [\<lparr>env_from = Id 0, env_to = Id 2, env_message = Vote 1 LogId_default\<rparr>]\<rparr>"

definition demo_granted :: World where
  "demo_granted = demo_granting\<lparr>
     w_nodes := (w_nodes demo_granting)[1 := demo_site 1 demo_vote Follower [False, False, False]
       [None, None, None] False 11 15755400384260043841 (Some (Id 0))],
     w_disk := (w_disk demo_granting)[1 := (State_new 4)\<lparr>st_hard := demo_vote\<rparr>],
     w_network := w_network demo_granting @ [\<lparr>env_from = Id 1, env_to = Id 0, env_message = Voted 1 True\<rparr>]\<rparr>"

definition demo_fresh :: World where
  "demo_fresh = demo_requested\<lparr>
     w_nodes := (w_nodes demo_requested)[0 := demo_site 0 HardState_default Follower [False, False, False]
       [None, None, None] False 15 11400714819323198486 None],
     w_disk := [State_new 4, State_new 4, State_new 4], w_network := []\<rparr>"

definition demo_campaigning :: World where
  "demo_campaigning = demo_fresh\<lparr>
     w_nodes := (w_nodes demo_fresh)[0 := demo_site 0 demo_vote Candidate [True, False, False]
       [None, Some OutVote, Some OutVote] True 19 4354685564936845355 None]\<rparr>"

lemma demo_new: "World_new = Some demo_fresh"
  by code_simp

lemma demo_timed_out: "World_apply (\<lambda>_. []) (Timeout 0) demo_fresh = Some demo_campaigning"
  by code_simp

lemma demo_asked: "World_apply (\<lambda>_. []) (Save 0) demo_campaigning = Some demo_requested"
  by code_simp

lemma demo_delivered: "World_apply (\<lambda>_. []) (Deliver 0) demo_requested = Some demo_granting"
  by code_simp

lemma demo_saved: "World_apply (\<lambda>_. []) (Save 1) demo_granting = Some demo_granted"
  by code_simp

lemma demo_counted: "map_option (\<lambda>w. map (\<lambda>n. (n_role n, hs_term (n_hard n))) (w_nodes w)) (World_apply (\<lambda>_. []) (Deliver 1) demo_granted)
   = Some [(Leader, 1), (Follower, 1), (Follower, 0)]"
  by code_simp

lemma demo_run: "(schedule (\<lambda>_. []))\<^sup>*\<^sup>* demo_fresh demo_granted"
proof -
  note link = rtranclp.rtrancl_into_rtrancl [where r = "schedule (\<lambda>_. [])", OF _ schedule.acts]
  show ?thesis
    by (rule link [OF link [OF link [OF link [OF rtranclp.rtrancl_refl demo_timed_out] demo_asked] demo_delivered] demo_saved])
qed

lemma demo_reachable: "reachable (\<lambda>_. []) demo_granted"
  using demo_new demo_run unfolding reachable_def by blast

fun World_run :: "(WEnvelope \<Rightarrow> string) \<Rightarrow> Action list \<Rightarrow> World \<Rightarrow> World option" where
  "World_run debug [] w = Some w"
| "World_run debug (a # as) w = World_apply debug a w \<bind> World_run debug as"

lemma run_schedule: "World_run debug as w = Some w' \<Longrightarrow> (schedule debug)\<^sup>*\<^sup>* w w'"
proof (induction as arbitrary: w)
  case (Cons a as)
  then obtain w1 where "World_apply debug a w = Some w1" "World_run debug as w1 = Some w'"
    by (auto simp: bind_eq_Some_conv)
  then show ?case
    using Cons.IH schedule.acts converse_rtranclp_into_rtranclp by metis
qed simp

definition demo_entry :: "u64 Entry" where
  "demo_entry = \<lparr>en_id = \<lparr>li_index = 1, li_term = 1\<rparr>, en_value = None\<rparr>"

lemma demo_commits:
  "map_option (\<lambda>w. map (\<lambda>n. (Node_committed n, State_entries (n_state n))) (w_nodes w))
     (World_run (\<lambda>_. []) [Deliver 1, Save 0, Deliver 1, Save 1, Deliver 2, Save 0, Deliver 2, Save 1] demo_granted)
   = Some [([demo_entry], [demo_entry]), ([demo_entry], [demo_entry]), ([], [])]"
  by code_simp

lemma demo_committed:
  obtains w where "reachable (\<lambda>_. []) w"
    and "map (\<lambda>n. (Node_committed n, State_entries (n_state n))) (w_nodes w)
      = [([demo_entry], [demo_entry]), ([demo_entry], [demo_entry]), ([], [])]"
proof -
  let ?as = "[Deliver 1, Save 0, Deliver 1, Save 1, Deliver 2, Save 0, Deliver 2, Save 1]"
  obtain w where w: "World_run (\<lambda>_. []) ?as demo_granted = Some w"
    "map (\<lambda>n. (Node_committed n, State_entries (n_state n))) (w_nodes w)
      = [([demo_entry], [demo_entry]), ([demo_entry], [demo_entry]), ([], [])]"
    using demo_commits by (cases "World_run (\<lambda>_. []) ?as demo_granted") (simp_all del: World_run.simps)
  have r: "reachable (\<lambda>_. []) w"
    using demo_reachable run_schedule [OF w(1)] unfolding reachable_def by (meson rtranclp_trans)
  show ?thesis
    by (rule that [OF r w(2)])
qed

end
