(* ===== verification/Jarl_Agreement.thy ===== *)
theory Jarl_Agreement
  imports Jarl_Ballot "HOL-Library.Sublist"
begin

text \<open>
  The argument that replicated logs agree, on logs alone. A ghost map \<open>L\<close> holds for every term
  that had a leader the leader and its log, the set \<open>A\<close> the acknowledgements \<open>(v, t, i)\<close>: \<open>v\<close> has
  stored the first \<open>i\<close> entries of the leader's log of term \<open>t\<close>. An index is committed in \<open>t\<close> when
  its entry is of term \<open>t\<close> and a quorum has acknowledged it. Within any \<open>quorum_system\<close>, the log
  of every later leader then holds the committed entries (\<open>leader_completeness\<close>), so that all
  committed prefixes are prefixes of one another (\<open>decided_comparable\<close>).
\<close>

section \<open>Logs of leaders\<close>

type_synonym 'v Led = "u64 \<rightharpoonup> Id \<times> 'v Entry list"
type_synonym Acks = "(Id \<times> u64 \<times> nat) set"

abbreviation en_term :: "'v Entry \<Rightarrow> u64" where
  "en_term e \<equiv> li_term (en_id e)"

text \<open>Every prefix that ends with an entry of a term is a prefix of the log of that term's leader.\<close>

definition rooted :: "'v Led \<Rightarrow> 'v Entry list \<Rightarrow> bool" where
  "rooted L X \<longleftrightarrow>
     (\<forall>k < length X. \<exists>c l. L (en_term (X ! k)) = Some (c, l) \<and> take (Suc k) X = take (Suc k) l)"

definition holds :: "'v Led \<Rightarrow> u64 \<Rightarrow> nat \<Rightarrow> 'v Entry list \<Rightarrow> bool" where
  "holds L t i X \<longleftrightarrow> (\<exists>c l. L t = Some (c, l) \<and> i \<le> length l \<and> take i X = take i l)"

definition conflict :: "'v Led \<Rightarrow> u64 \<Rightarrow> u64 \<Rightarrow> nat \<Rightarrow> bool" where
  "conflict L t' t i \<longleftrightarrow>
     (\<exists>c l c' l' k. L t' = Some (c', l') \<and> L t = Some (c, l)
        \<and> k < i \<and> k < length l' \<and> k < length l \<and> l' ! k \<noteq> l ! k)"

text \<open>What became of an acknowledged prefix in a log of a node in term \<open>T\<close>: it is there, or a later
  leader overwrote it.\<close>

definition retains :: "'v Led \<Rightarrow> u64 \<Rightarrow> nat \<Rightarrow> u64 \<Rightarrow> 'v Entry list \<Rightarrow> bool" where
  "retains L t i T X \<longleftrightarrow> holds L t i X \<or> (\<exists>t'. t < t' \<and> t' \<le> T \<and> conflict L t' t i)"

definition leaders_ok :: "'v Led \<Rightarrow> bool" where
  "leaders_ok L \<longleftrightarrow>
     (\<forall>t c l. L t = Some (c, l) \<longrightarrow>
        t \<noteq> 0 \<and> rooted L l \<and> log_chain LogId_default l \<and> (\<forall>e \<in> set l. en_term e \<le> t))"

text \<open>The log a leader had when it was elected.\<close>

definition inherited :: "u64 \<Rightarrow> 'v Entry list \<Rightarrow> 'v Entry list" where
  "inherited t l = takeWhile (\<lambda>e. en_term e < t) l"

text \<open>What the vote of \<open>v\<close> in \<open>t'\<close> for a candidate whose log ends with \<open>lst\<close> says of the
  acknowledgements of \<open>v\<close> in earlier terms.\<close>

definition supports :: "'v Led \<Rightarrow> Acks \<Rightarrow> Id \<Rightarrow> u64 \<Rightarrow> LogId \<Rightarrow> bool" where
  "supports L A v t' lst \<longleftrightarrow>
     (\<forall>t i. (v, t, i) \<in> A \<longrightarrow> t < t' \<longrightarrow>
        (\<exists>t''. t < t'' \<and> t'' < t' \<and> conflict L t'' t i)
        \<or> (\<exists>c l. L t = Some (c, l) \<and> 0 < i \<and> i \<le> length l \<and> log_up_to_date lst (en_id (l ! (i - 1)))))"

definition elections_ok :: "((Id \<Rightarrow> bool) \<Rightarrow> bool) \<Rightarrow> (Id \<times> u64 \<times> Id) set \<Rightarrow> 'v Led \<Rightarrow> Acks \<Rightarrow> bool" where
  "elections_ok Q G L A \<longleftrightarrow>
     (\<forall>t c l. L t = Some (c, l) \<longrightarrow>
        Q (\<lambda>v. (v, t, c) \<in> G \<and> supports L A v t (log_last LogId_default (inherited t l))))"

definition committed_at :: "((Id \<Rightarrow> bool) \<Rightarrow> bool) \<Rightarrow> 'v Led \<Rightarrow> Acks \<Rightarrow> u64 \<Rightarrow> nat \<Rightarrow> bool" where
  "committed_at Q L A t x \<longleftrightarrow>
     0 < x \<and> (\<exists>c l. L t = Some (c, l) \<and> x \<le> length l \<and> en_term (l ! (x - 1)) = t)
     \<and> Q (\<lambda>v. (v, t, x) \<in> A)"

text \<open>A list of entries that is part of a committed prefix.\<close>

definition decided :: "((Id \<Rightarrow> bool) \<Rightarrow> bool) \<Rightarrow> 'v Led \<Rightarrow> Acks \<Rightarrow> 'v Entry list \<Rightarrow> bool" where
  "decided Q L A X \<longleftrightarrow>
     X = [] \<or> (\<exists>t x c l. committed_at Q L A t x \<and> L t = Some (c, l) \<and> prefix X (take x l))"

section \<open>Leader completeness\<close>

lemma log_up_to_date_iff:
  "log_up_to_date a b \<longleftrightarrow> li_term b < li_term a \<or> li_term a = li_term b \<and> li_index b \<le> li_index a"
  by (auto simp: log_up_to_date_def less_eq_prod_def)

lemma log_term_mono:
  assumes "log_chain LogId_default l" and "i \<le> j" and "j < length l"
  shows "en_term (l ! i) \<le> en_term (l ! j)"
  using assms log_chain_mono [OF assms(1), of i j] by (cases "i = j") auto

lemma holds_less:
  assumes "holds L t x X" and "j \<le> x"
  shows "holds L t j X"
proof -
  obtain c l where l: "L t = Some (c, l)" "x \<le> length l" "take x X = take x l"
    using assms(1) unfolding holds_def by blast
  then have "take j X = take j l"
    using assms(2) by (metis min.absorb1 take_take)
  then show ?thesis
    using l assms(2) unfolding holds_def by auto
qed

lemma holds_no_conflict:
  assumes "L t' = Some (c', l')" and "holds L t i l'"
  shows "\<not> conflict L t' t i"
proof
  assume "conflict L t' t i"
  then obtain c l k where k: "L t = Some (c, l)" "k < i" "k < length l'" "k < length l" "l' ! k \<noteq> l ! k"
    using assms(1) by (auto simp: conflict_def)
  have "take i l' = take i l"
    using assms(2) k(1) by (auto simp: holds_def)
  then show False
    using k nth_take [of k i l] nth_take [of k i l'] by simp
qed

lemma rooted_last:
  assumes "rooted L l" and "0 < n" and "n \<le> length l"
  obtains c l' where "L (en_term (l ! (n - 1))) = Some (c, l')" and "take n l = take n l'" and "n \<le> length l'"
proof -
  have "n - 1 < length l" "Suc (n - 1) = n"
    using assms by simp_all
  with assms(1) obtain c l' where *: "L (en_term (l ! (n - 1))) = Some (c, l')" "take n l = take n l'"
    unfolding rooted_def by metis
  then have "min (length l) n = min (length l') n"
    by (metis length_take)
  then show ?thesis
    using that * assms(3) by simp
qed

lemma inherited_take:
  obtains n where "n \<le> length l" and "inherited t l = take n l" and "length (inherited t l) = n"
    and "0 < n \<longrightarrow> en_term (l ! (n - 1)) < t"
proof
  let ?n = "length (inherited t l)"
  show "?n \<le> length l"
    by (simp add: inherited_def length_takeWhile_le)
  show eq: "inherited t l = take ?n l"
    by (simp add: inherited_def takeWhile_eq_take [symmetric])
  show "length (inherited t l) = ?n" ..
  show "0 < ?n \<longrightarrow> en_term (l ! (?n - 1)) < t"
  proof
    assume "0 < ?n"
    then have "inherited t l ! (?n - 1) \<in> set (inherited t l)"
      by simp
    moreover have "inherited t l ! (?n - 1) = l ! (?n - 1)"
      using \<open>0 < ?n\<close> by (subst eq) simp
    ultimately show "en_term (l ! (?n - 1)) < t"
      unfolding inherited_def by (metis set_takeWhileD)
  qed
qed

text \<open>A candidate whose log is at least as recent as an entry of term \<open>t\<close> at \<open>x\<close>, and no later term
  in conflict with it, has it.\<close>

lemma recent_holds:
  assumes ok: "leaders_ok L" and l': "L t' = Some (c', l')" and t: "L t = Some (c, l)" "0 < x" "x \<le> length l"
    "en_term (l ! (x - 1)) = t"
    and rec: "log_up_to_date (log_last LogId_default (inherited t' l')) (en_id (l ! (x - 1)))"
    and agree: "\<And>u d m. t < u \<Longrightarrow> u < t' \<Longrightarrow> L u = Some (d, m) \<Longrightarrow> holds L t x m"
  shows "holds L t x l'"
proof -
  have ch: "log_chain LogId_default l" "log_chain LogId_default l'" and root: "rooted L l'"
    and le: "\<And>e. e \<in> set l \<Longrightarrow> en_term e \<le> t" and t0: "t \<noteq> 0"
    using ok t(1) l' unfolding leaders_ok_def by blast+
  obtain n where n: "n \<le> length l'" "inherited t' l' = take n l'" "length (inherited t' l') = n"
    "0 < n \<longrightarrow> en_term (l' ! (n - 1)) < t'"
    by (rule inherited_take)
  have idx: "unat (li_index (en_id (l ! (x - 1)))) = x"
    using log_chain_nth [OF ch(1), of "x - 1"] t(2,3) by (simp add: LogId_default_def)
  have n0: "0 < n"
  proof (rule ccontr)
    assume "\<not> 0 < n"
    then have "inherited t' l' = []"
      using n(3) by simp
    then show False
      using rec t(4) t0 by (auto simp: log_up_to_date_iff LogId_default_def)
  qed
  let ?tc = "en_term (l' ! (n - 1))"
  have last: "log_last LogId_default (inherited t' l') = en_id (l' ! (n - 1))"
    using n n0 by (auto simp: log_last_def last_conv_nth)
  have nidx: "unat (li_index (en_id (l' ! (n - 1)))) = n"
    using log_chain_nth [OF ch(2), of "n - 1"] n(1) n0 by (simp add: LogId_default_def)
  obtain d m where m: "L ?tc = Some (d, m)" "take n l' = take n m" "n \<le> length m"
    using rooted_last [OF root n0 n(1)] .
  have cmp: "t < ?tc \<or> ?tc = t \<and> x \<le> n"
    using rec t(4) idx nidx by (auto simp: last log_up_to_date_iff word_le_nat_alt)
  then show ?thesis
  proof
    assume "?tc = t \<and> x \<le> n"
    then have "take n l' = take n l" and "x \<le> n"
      using m t(1) by auto
    then have "take x l' = take x l"
      by (metis min.absorb1 take_take)
    then show ?thesis
      using t by (auto simp: holds_def)
  next
    assume tc: "t < ?tc"
    then have h: "holds L t x m"
      using agree m(1) n(4) n0 by blast
    then have tx: "take x m = take x l"
      using t(1) by (auto simp: holds_def)
    have "x < n"
    proof (rule ccontr)
      assume "\<not> x < n"
      then have k: "n - 1 < x" "n - 1 < length l" "n - 1 < length m"
        using n0 t(3) m(3) by auto
      then have "m ! (n - 1) = l ! (n - 1)"
        using tx by (metis nth_take)
      moreover have "m ! (n - 1) = l' ! (n - 1)"
        using m(2) n0 by (metis diff_less less_numeral_extra(1) nth_take)
      ultimately have "?tc \<le> t"
        using le [OF nth_mem [OF k(2)]] by simp
      then show False
        using tc by simp
    qed
    then have "take x l' = take x m"
      using m(2) by (metis less_imp_le min.absorb1 take_take)
    then show ?thesis
      using tx t by (auto simp: holds_def)
  qed
qed

context quorum_system
begin

lemma leader_completeness:
  assumes ok: "leaders_ok L" and el: "elections_ok Q G L A" and com: "committed_at Q L A t x"
    and "t < t'" and "L t' = Some (c', l')"
  shows "holds L t x l'"
  using assms(4,5)
proof (induction t' arbitrary: c' l' rule: less_induct)
  case (less t')
  obtain c l where l: "L t = Some (c, l)" "0 < x" "x \<le> length l" "en_term (l ! (x - 1)) = t"
    and q: "Q (\<lambda>v. (v, t, x) \<in> A)"
    using com by (auto simp: committed_at_def)
  have "Q (\<lambda>v. (v, t', c') \<in> G \<and> supports L A v t' (log_last LogId_default (inherited t' l')))"
    using el less.prems(2) unfolding elections_ok_def by blast
  from overlap [OF q this] obtain v where v: "(v, t, x) \<in> A"
    "supports L A v t' (log_last LogId_default (inherited t' l'))"
    by blast
  have agree: "holds L t x m" if "t < u" "u < t'" "L u = Some (d, m)" for u d m
    using less.IH that by blast
  have "\<not> conflict L u t x" if "t < u" "u < t'" for u
    using agree [OF that] holds_no_conflict [of L u] by (auto simp: conflict_def)
  then have "log_up_to_date (log_last LogId_default (inherited t' l')) (en_id (l ! (x - 1)))"
    using v less.prems(1) l(1) unfolding supports_def by fastforce
  then show ?case
    using recent_holds [OF ok less.prems(2) l] agree by blast
qed

lemma decided_comparable:
  assumes ok: "leaders_ok L" and el: "elections_ok Q G L A" and "decided Q L A X" and "decided Q L A Y"
  shows "prefix X Y \<or> prefix Y X"
proof -
  have same: "prefix X Y \<or> prefix Y X" if "prefix X l" "prefix Y l" for l
    using that prefix_same_cases by blast
  have up: "prefix Z m" if "committed_at Q L A t x" "L t = Some (c, l)" "prefix Z (take x l)" "t < u" "L u = Some (d, m)"
    for Z t x c l u d m
  proof -
    have "holds L t x m"
      using leader_completeness [OF ok el that(1,4,5)] .
    then have "take x m = take x l"
      using that(2) by (auto simp: holds_def)
    then show ?thesis
      using that(3) by (metis prefix_order.trans take_is_prefix)
  qed
  show ?thesis
  proof (cases "X = [] \<or> Y = []")
    case False
    then obtain t x c l u y d m where X: "committed_at Q L A t x" "L t = Some (c, l)" "prefix X (take x l)"
      and Y: "committed_at Q L A u y" "L u = Some (d, m)" "prefix Y (take y m)"
      using assms(3,4) unfolding decided_def by blast
    have own: "prefix X l" "prefix Y m"
      using X(3) Y(3) by (metis prefix_order.trans take_is_prefix)+
    consider "t < u" | "t = u" | "u < t"
      by fastforce
    then show ?thesis
    proof cases
      case 1
      then show ?thesis
        using up [OF X _ Y(2)] own(2) same by blast
    next
      case 2
      then show ?thesis
        using own same X(2) Y(2) by auto
    next
      case 3
      then show ?thesis
        using up [OF Y _ X(2)] own(1) same by blast
    qed
  qed auto
qed

end

section \<open>Growth of the ghosts\<close>

text \<open>A leader only appends entries of its own term to its log.\<close>

definition grows :: "'v Led \<Rightarrow> 'v Led \<Rightarrow> bool" where
  "grows L L' \<longleftrightarrow>
     (\<forall>t c l. L t = Some (c, l) \<longrightarrow> (\<exists>xs. L' t = Some (c, l @ xs) \<and> (\<forall>e \<in> set xs. en_term e = t)))"

lemma growsD:
  assumes "grows L L'" and "L t = Some (c, l)"
  obtains xs where "L' t = Some (c, l @ xs)" and "\<forall>e \<in> set xs. en_term e = t"
  using assms unfolding grows_def by blast

lemma grows_refl [simp]: "grows L L"
  by (simp add: grows_def)

lemma grows_trans:
  assumes "grows L L'" and "grows L' L''"
  shows "grows L L''"
  unfolding grows_def
proof (intro allI impI)
  fix t c l assume "L t = Some (c, l)"
  then obtain xs ys where "L' t = Some (c, l @ xs)" "\<forall>e \<in> set xs. en_term e = t"
    "L'' t = Some (c, (l @ xs) @ ys)" "\<forall>e \<in> set ys. en_term e = t"
    using assms growsD by metis
  then show "\<exists>zs. L'' t = Some (c, l @ zs) \<and> (\<forall>e \<in> set zs. en_term e = t)"
    by (intro exI [of _ "xs @ ys"]) auto
qed

lemma take_eq_length: "take n X = take n l \<Longrightarrow> n \<le> length X \<Longrightarrow> n \<le> length l"
  by (metis length_take min.absorb2 min.cobounded1)

lemma rooted_grows:
  assumes "rooted L X" and "grows L L'"
  shows "rooted L' X"
  unfolding rooted_def
proof (intro allI impI)
  fix k assume k: "k < length X"
  then obtain c l where l: "L (en_term (X ! k)) = Some (c, l)" "take (Suc k) X = take (Suc k) l"
    using assms(1) unfolding rooted_def by blast
  then obtain xs where "L' (en_term (X ! k)) = Some (c, l @ xs)"
    using growsD [OF assms(2)] by metis
  moreover have "Suc k \<le> length l"
    using take_eq_length [OF l(2)] k by simp
  ultimately show "\<exists>c l. L' (en_term (X ! k)) = Some (c, l) \<and> take (Suc k) X = take (Suc k) l"
    using l(2) by auto
qed

lemma holds_grows: "holds L t i X \<Longrightarrow> grows L L' \<Longrightarrow> holds L' t i X"
  unfolding holds_def grows_def by fastforce

lemma conflict_grows:
  assumes "conflict L t' t i" and "grows L L'"
  shows "conflict L' t' t i"
proof -
  obtain c l c' l' k where k: "L t' = Some (c', l')" "L t = Some (c, l)" "k < i" "k < length l'" "k < length l" "l' ! k \<noteq> l ! k"
    using assms(1) unfolding conflict_def by blast
  obtain xs ys where "L' t' = Some (c', l' @ xs)" "L' t = Some (c, l @ ys)"
    using growsD [OF assms(2) k(1)] growsD [OF assms(2) k(2)] by metis
  with k show ?thesis
    unfolding conflict_def
    by (intro exI [of _ c] exI [of _ "l @ ys"] exI [of _ c'] exI [of _ "l' @ xs"] exI [of _ k]) (auto simp: nth_append)
qed

lemma retains_grows: "retains L t i T X \<Longrightarrow> grows L L' \<Longrightarrow> retains L' t i T X"
  unfolding retains_def using holds_grows conflict_grows by blast

lemma retains_later: "retains L t i T X \<Longrightarrow> T \<le> T' \<Longrightarrow> retains L t i T' X"
  unfolding retains_def using order.trans by blast

lemma supports_grows:
  assumes "supports L A v t' lst" and g: "grows L L'"
    and new: "\<And>t i. (v, t, i) \<in> A' \<Longrightarrow> (v, t, i) \<notin> A \<Longrightarrow> t' \<le> t"
  shows "supports L' A' v t' lst"
  unfolding supports_def
proof (intro allI impI)
  fix t i assume a: "(v, t, i) \<in> A'" and lt: "t < t'"
  then have "(v, t, i) \<in> A"
    using new by force
  with assms(1) lt consider t'' where "t < t''" "t'' < t'" "conflict L t'' t i"
    | c l where "L t = Some (c, l)" "0 < i" "i \<le> length l" "log_up_to_date lst (en_id (l ! (i - 1)))"
    unfolding supports_def by blast
  then show "(\<exists>t''. t < t'' \<and> t'' < t' \<and> conflict L' t'' t i)
      \<or> (\<exists>c l. L' t = Some (c, l) \<and> 0 < i \<and> i \<le> length l \<and> log_up_to_date lst (en_id (l ! (i - 1))))"
  proof cases
    case 1
    then show ?thesis
      using conflict_grows [OF _ g] by blast
  next
    case 2
    obtain xs where "L' t = Some (c, l @ xs)"
      using growsD [OF g 2(1)] by blast
    then show ?thesis
      using 2 by (auto simp: nth_append)
  qed
qed

lemma inherited_grows: "\<forall>e \<in> set xs. en_term e = t \<Longrightarrow> inherited t (l @ xs) = inherited t l"
  unfolding inherited_def by (induction l) (auto simp: takeWhile_eq_Nil_iff)

lemma decided_prefix: "decided Q L A X \<Longrightarrow> prefix Y X \<Longrightarrow> decided Q L A Y"
  unfolding decided_def using prefix_order.trans by fastforce

context quorum_system
begin

lemma elections_grow:
  assumes "elections_ok Q G L A" and g: "grows L L'" and "G \<subseteq> G'"
    and new: "\<And>v t i t' c. (v, t, i) \<in> A' \<Longrightarrow> (v, t, i) \<notin> A \<Longrightarrow> (v, t', c) \<in> G' \<Longrightarrow> t' \<le> t"
    and fresh: "\<And>t c l. L' t = Some (c, l) \<Longrightarrow> L t = None \<Longrightarrow>
      Q (\<lambda>v. (v, t, c) \<in> G' \<and> supports L' A' v t (log_last LogId_default (inherited t l)))"
  shows "elections_ok Q G' L' A'"
  unfolding elections_ok_def
proof (intro allI impI)
  fix t c l assume l: "L' t = Some (c, l)"
  show "Q (\<lambda>v. (v, t, c) \<in> G' \<and> supports L' A' v t (log_last LogId_default (inherited t l)))"
  proof (cases "L t")
    case None
    then show ?thesis
      using fresh l by blast
  next
    case (Some p)
    obtain c0 l0 where p: "p = (c0, l0)"
      by fastforce
    obtain xs where xs: "L' t = Some (c0, l0 @ xs)" "\<forall>e \<in> set xs. en_term e = t"
      using growsD [OF g] Some p by metis
    then have eq: "c = c0" "inherited t l = inherited t l0"
      using l inherited_grows by auto
    have "Q (\<lambda>v. (v, t, c0) \<in> G \<and> supports L A v t (log_last LogId_default (inherited t l0)))"
      using assms(1) Some p unfolding elections_ok_def by blast
    then show ?thesis
    proof (rule mono1)
      fix v assume v: "(v, t, c0) \<in> G \<and> supports L A v t (log_last LogId_default (inherited t l0))"
      then have G': "(v, t, c0) \<in> G'"
        using assms(3) by blast
      have "supports L' A' v t (log_last LogId_default (inherited t l0))"
        by (rule supports_grows [OF conjunct2 [OF v] g]) (rule new [OF _ _ G'])
      with G' show "(v, t, c) \<in> G' \<and> supports L' A' v t (log_last LogId_default (inherited t l))"
        unfolding eq by blast
    qed
  qed
qed

lemma committed_grow:
  assumes "committed_at Q L A t x" and "grows L L'" and "A \<subseteq> A'"
  shows "committed_at Q L' A' t x"
proof -
  obtain c l where l: "0 < x" "L t = Some (c, l)" "x \<le> length l" "en_term (l ! (x - 1)) = t" "Q (\<lambda>v. (v, t, x) \<in> A)"
    using assms(1) unfolding committed_at_def by blast
  obtain xs where "L' t = Some (c, l @ xs)"
    using growsD [OF assms(2) l(2)] by blast
  moreover have "Q (\<lambda>v. (v, t, x) \<in> A')"
    using l(5) by (rule mono1) (use assms(3) in blast)
  ultimately show ?thesis
    using l unfolding committed_at_def by (auto simp: nth_append)
qed

lemma decided_grow:
  assumes "decided Q L A X" and g: "grows L L'" and "A \<subseteq> A'"
  shows "decided Q L' A' X"
proof (cases "X = []")
  case False
  then obtain t x c l where d: "committed_at Q L A t x" "L t = Some (c, l)" "prefix X (take x l)"
    using assms(1) unfolding decided_def by blast
  obtain xs where xs: "L' t = Some (c, l @ xs)"
    using growsD [OF g d(2)] by blast
  have "x \<le> length l"
    using d(1,2) unfolding committed_at_def by auto
  then have "prefix X (take x (l @ xs))"
    using d(3) by simp
  then show ?thesis
    unfolding decided_def using committed_grow [OF d(1) g assms(3)] xs by blast
qed (simp add: decided_def)

end

text \<open>A leader appends: the log of its term becomes its new log.\<close>

lemma rooted_extend:
  assumes "rooted L X" and "L t = Some (c, X @ es)" and "\<forall>e \<in> set es. en_term e = t"
  shows "rooted L (X @ es)"
  unfolding rooted_def
proof (intro allI impI)
  fix k assume k: "k < length (X @ es)"
  show "\<exists>c l. L (en_term ((X @ es) ! k)) = Some (c, l) \<and> take (Suc k) (X @ es) = take (Suc k) l"
  proof (cases "k < length X")
    case True
    then show ?thesis
      using assms(1) unfolding rooted_def by (simp add: nth_append)
  next
    case False
    then have "(X @ es) ! k \<in> set es"
      using k by (simp add: nth_append)
    then show ?thesis
      using assms(2,3) by simp
  qed
qed

lemma leaders_ok_update:
  assumes ok: "leaders_ok L" and root: "rooted L X" and es: "\<forall>e \<in> set es. en_term e = t"
    and ch: "log_chain LogId_default (X @ es)" and le: "\<forall>e \<in> set X. en_term e \<le> t" and t: "t \<noteq> 0"
    and g: "grows L (L(t \<mapsto> (c, X @ es)))"
  shows "leaders_ok (L(t \<mapsto> (c, X @ es)))"
proof -
  let ?L = "L(t \<mapsto> (c, X @ es))"
  have "rooted ?L (X @ es)"
    using rooted_extend [OF rooted_grows [OF root g], of t c es] es by simp
  moreover have "rooted ?L l" if "L u = Some (d, l)" for u d l
    using that ok rooted_grows [OF _ g] unfolding leaders_ok_def by blast
  ultimately show ?thesis
    using ok ch le es t unfolding leaders_ok_def by auto
qed

section \<open>Replicas\<close>

definition id_at :: "'v Entry list \<Rightarrow> nat \<Rightarrow> LogId option" where
  "id_at X i =
     (if i = 0 then Some LogId_default else if i \<le> length X then Some (en_id (X ! (i - 1))) else None)"

definition acks_ok :: "'v Led \<Rightarrow> Acks \<Rightarrow> bool" where
  "acks_ok L A \<longleftrightarrow>
     (\<forall>v t i. (v, t, i) \<in> A \<longrightarrow>
        0 < i \<and> (\<exists>c l. L t = Some (c, l) \<and> i \<le> length l \<and> (c, t, i) \<in> A)
        \<and> (\<forall>j. 0 < j \<longrightarrow> j \<le> i \<longrightarrow> (v, t, j) \<in> A))"

text \<open>A log of \<open>v\<close> in term \<open>T\<close> with commit index \<open>c\<close>.\<close>

definition replica_ok ::
    "((Id \<Rightarrow> bool) \<Rightarrow> bool) \<Rightarrow> 'v Led \<Rightarrow> Acks \<Rightarrow> Id \<Rightarrow> 'v Entry list \<Rightarrow> u64 \<Rightarrow> nat \<Rightarrow> bool" where
  "replica_ok Q L A v X T c \<longleftrightarrow>
     rooted L X \<and> decided Q L A (take c X)
     \<and> (\<forall>t i. (v, t, i) \<in> A \<longrightarrow> t \<le> T \<and> retains L t i T X)"

text \<open>Two logs with the same entry at an index are equal up to it.\<close>

lemma id_at_bound: "id_at X j = Some p \<Longrightarrow> j \<le> length X"
  by (auto simp: id_at_def split: if_splits)

lemma log_matching:
  assumes "rooted L X" and "rooted L Y" and "id_at X j = Some p" and "id_at Y j = Some p"
  shows "take j X = take j Y"
proof (cases "j = 0")
  case False
  then have len: "j \<le> length X" "j \<le> length Y" and ids: "en_id (X ! (j - 1)) = p" "en_id (Y ! (j - 1)) = p"
    using assms(3,4) by (auto simp: id_at_def split: if_splits)
  have j: "0 < j"
    using False by simp
  obtain c l where "L (li_term p) = Some (c, l)" "take j X = take j l"
    using rooted_last [OF assms(1) j len(1)] unfolding ids by blast
  moreover obtain c' l' where "L (li_term p) = Some (c', l')" "take j Y = take j l'"
    using rooted_last [OF assms(2) j len(2)] unfolding ids by blast
  ultimately show ?thesis
    by simp
qed simp

lemma replica_match:
  assumes "leaders_ok L" and "rooted L X" and "L T = Some (d, l)" and "id_at X j = Some p" and "id_at l j = Some p"
  shows "holds L T j X"
proof -
  have "rooted L l"
    using assms(1,3) unfolding leaders_ok_def by blast
  then have "take j X = take j l"
    using log_matching assms(2,4,5) by blast
  then show ?thesis
    using assms(3) id_at_bound [OF assms(5)] by (auto simp: holds_def)
qed

text \<open>A follower replaces the entry after a matching one.\<close>

lemma retains_append:
  assumes hold: "holds L T j X" and l: "L T = Some (d, l)" "j < length l" and j: "j \<le> length X"
    and new: "id_at X (Suc j) \<noteq> Some (en_id (l ! j))" and t: "t \<le> T" and r: "retains L t i T X" and i: "0 < i"
  shows "retains L t i T (take j X @ [l ! j])"
proof (cases "holds L t i X")
  case False
  then show ?thesis
    using r unfolding retains_def by blast
next
  case True
  then obtain c m where m: "L t = Some (c, m)" "i \<le> length m" "take i X = take i m"
    unfolding holds_def by blast
  have ix: "i \<le> length X"
    using take_eq_length [of i m X] m(2,3) by simp
  have tj: "take j X = take j l"
    using hold l(1) by (auto simp: holds_def)
  show ?thesis
  proof (cases "i \<le> j")
    case True
    then have "take i (take j X @ [l ! j]) = take i m"
      using m(3) j by (simp add: min_def)
    then show ?thesis
      using m by (auto simp: retains_def holds_def)
  next
    case False
    then have k: "j < i" "j < length m" "j < length X"
      using m(2) ix by simp_all
    then have "X ! j = m ! j"
      using m(3) by (metis nth_take)
    moreover have "X ! j \<noteq> l ! j"
      using new k(3) by (auto simp: id_at_def)
    ultimately have ne: "l ! j \<noteq> m ! j"
      by simp
    then have "t \<noteq> T"
      using m(1) l(1) by auto
    then have "t < T"
      using t by simp
    moreover have "conflict L T t i"
      unfolding conflict_def using l m(1) k ne by blast
    ultimately show ?thesis
      unfolding retains_def by blast
  qed
qed

lemma rooted_take: "rooted L X \<Longrightarrow> rooted L (take n X)"
  unfolding rooted_def by (auto simp: min_def)

lemma replica_append:
  assumes ok: "leaders_ok L" "acks_ok L A" and r: "replica_ok Q L A v X T c" and l: "L T = Some (d, l)" "j < length l"
    and p: "id_at X j = Some p" "id_at l j = Some p" and new: "id_at X (Suc j) \<noteq> Some (en_id (l ! j))" and c: "c \<le> j"
  shows "replica_ok Q L A v (take j X @ [l ! j]) T c" and "holds L T (Suc j) (take j X @ [l ! j])"
proof -
  have hold: "holds L T j X"
    using replica_match [OF ok(1) _ l(1) p] r by (simp add: replica_ok_def)
  have j: "j \<le> length X"
    using id_at_bound [OF p(1)] .
  have eq: "take j X @ [l ! j] = take (Suc j) l"
    using hold l by (auto simp: holds_def take_Suc_conv_app_nth)
  show "holds L T (Suc j) (take j X @ [l ! j])"
    unfolding eq using l by (auto simp: holds_def)
  have "rooted L (take j X @ [l ! j])"
    unfolding eq using ok(1) l(1) rooted_take unfolding leaders_ok_def by blast
  moreover have "take c (take j X @ [l ! j]) = take c X"
    using c j by (simp add: min_def)
  moreover have "t \<le> T \<and> retains L t i T (take j X @ [l ! j])" if "(v, t, i) \<in> A" for t i
    using that r ok(2) retains_append [OF hold l j new] unfolding replica_ok_def acks_ok_def by blast
  ultimately show "replica_ok Q L A v (take j X @ [l ! j]) T c"
    using r unfolding replica_ok_def by simp
qed

lemma replica_commit:
  assumes r: "replica_ok Q L A v X T c" and h: "holds L T k X" and l: "L T = Some (d, l)"
    and dec: "decided Q L A (take cm l)" and c': "c' \<le> cm" "c' \<le> k"
  shows "replica_ok Q L A v X T c'"
proof -
  have "take k X = take k l"
    using h l by (auto simp: holds_def)
  then have "take c' X = take c' l"
    using c'(2) by (metis min.absorb1 take_take)
  moreover have "prefix (take c' l) (take cm l)"
    using c'(1) by (metis min.absorb1 take_is_prefix take_take)
  ultimately have "decided Q L A (take c' X)"
    using decided_prefix [OF dec] by simp
  then show ?thesis
    using r by (simp add: replica_ok_def)
qed

text \<open>A vote in a term without a leader supports a candidate whose log is as recent.\<close>

lemma log_last_up_to_date:
  assumes ch: "log_chain LogId_default X" and "0 < i" and "i \<le> length X"
  shows "log_up_to_date (log_last LogId_default X) (en_id (X ! (i - 1)))"
proof -
  have ne: "X \<noteq> []"
    using assms by auto
  then have last: "log_last LogId_default X = en_id (X ! (length X - 1))"
    by (simp add: log_last_def last_conv_nth)
  have "en_term (X ! (i - 1)) \<le> en_term (X ! (length X - 1))"
    using assms ne by (intro log_term_mono [OF ch]) auto
  moreover have "unat (li_index (en_id (X ! (i - 1)))) = i" "unat (li_index (en_id (X ! (length X - 1)))) = length X"
    using log_chain_nth [OF ch, of "i - 1"] log_chain_nth [OF ch, of "length X - 1"] assms ne
    by (simp_all add: LogId_default_def)
  then have "li_index (en_id (X ! (i - 1))) \<le> li_index (en_id (X ! (length X - 1)))"
    using assms(3) by (simp add: word_le_nat_alt)
  ultimately show ?thesis
    unfolding last log_up_to_date_iff by auto
qed

lemma log_up_to_date_trans: "log_up_to_date a b \<Longrightarrow> log_up_to_date b c \<Longrightarrow> log_up_to_date a c"
  unfolding log_up_to_date_iff by auto

lemma vote_supports:
  assumes acks: "acks_ok L A" and r: "replica_ok Q L A v X T c" and none: "L T = None"
    and ch: "log_chain LogId_default X" and lst: "log_up_to_date lst (log_last LogId_default X)"
  shows "supports L A v T lst"
  unfolding supports_def
proof (intro allI impI)
  fix t i assume a: "(v, t, i) \<in> A" and lt: "t < T"
  then have i: "0 < i" and "retains L t i T X"
    using acks r unfolding acks_ok_def replica_ok_def by blast+
  then consider "holds L t i X" | t'' where "t < t''" "t'' \<le> T" "conflict L t'' t i"
    unfolding retains_def by blast
  then show "(\<exists>t''. t < t'' \<and> t'' < T \<and> conflict L t'' t i)
      \<or> (\<exists>c l. L t = Some (c, l) \<and> 0 < i \<and> i \<le> length l \<and> log_up_to_date lst (en_id (l ! (i - 1))))"
  proof cases
    case 1
    then obtain c l where l: "L t = Some (c, l)" "i \<le> length l" "take i X = take i l"
      unfolding holds_def by blast
    have ix: "i \<le> length X"
      using take_eq_length [of i l X] l(2,3) by simp
    have "X ! (i - 1) = l ! (i - 1)"
      using l(3) i by (metis diff_less less_numeral_extra(1) nth_take)
    then have "log_up_to_date lst (en_id (l ! (i - 1)))"
      using log_up_to_date_trans [OF lst log_last_up_to_date [OF ch i ix]] by simp
    then show ?thesis
      using l i by blast
  next
    case 2
    then have "t'' \<noteq> T"
      using none by (auto simp: conflict_def)
    then show ?thesis
      using 2 by auto
  qed
qed

context quorum_system
begin

lemma replica_grows:
  assumes r: "replica_ok Q L A v X T c" and g: "grows L L'" and sub: "A \<subseteq> A'" and le: "T \<le> T'"
    and new: "\<And>t i. (v, t, i) \<in> A' \<Longrightarrow> (v, t, i) \<notin> A \<Longrightarrow> t \<le> T' \<and> retains L' t i T' X"
  shows "replica_ok Q L' A' v X T' c"
  unfolding replica_ok_def
proof (intro conjI allI impI)
  show "rooted L' X" and "decided Q L' A' (take c X)"
    using r rooted_grows [OF _ g] decided_grow [OF _ g sub] unfolding replica_ok_def by blast+
  fix t i assume a: "(v, t, i) \<in> A'"
  have "t \<le> T' \<and> retains L' t i T' X"
  proof (cases "(v, t, i) \<in> A")
    case True
    then have "t \<le> T" and "retains L t i T X"
      using r unfolding replica_ok_def by blast+
    then show ?thesis
      using le retains_later [OF retains_grows [OF _ g]] by (blast intro: order.trans)
  next
    case False
    with a show ?thesis
      by (rule new)
  qed
  then show "t \<le> T'" and "retains L' t i T' X"
    by blast+
qed

end

end
