(* ===== verification/Jarl_Replica.thy ===== *)
theory Jarl_Replica
  imports Jarl_Agreement
begin

text \<open>
  The log of a node of the fixed engine that has no snapshot: what the methods of
  \<^verbatim>\<open>jarl/src/node.rs\<close> do to the log, the commit index, the acknowledgements a leader has counted
  and the outbox. \<open>hushed S\<close> is for methods that only put messages of \<open>S\<close> into the outbox, \<open>leads\<close> for
  those by which a leader appends and commits; \<open>log_receive\<close>, \<open>log_propose\<close> and \<open>log_tick\<close> sum up
  the calls, \<open>log_output\<close> the messages a node hands out.
\<close>

section \<open>Logs of states\<close>

abbreviation n_log :: "('v, 's) Node \<Rightarrow> 'v Entry list" where
  "n_log n \<equiv> State_entries (n_state n)"

abbreviation n_commit :: "('v, 's) Node \<Rightarrow> u64" where
  "n_commit n \<equiv> hs_commit (n_hard n)"

abbreviation n_term :: "('v, 's) Node \<Rightarrow> u64" where
  "n_term n \<equiv> hs_term (n_hard n)"

definition plain_log :: "('v, 's) State \<Rightarrow> bool" where
  "plain_log st \<longleftrightarrow> State_inv st \<and> st_snapshot st = None"

lemma plain_base: "st_snapshot st = None \<Longrightarrow> State_base st = LogId_default"
  by (simp add: State_base_def)

lemma plain_log_facts:
  assumes "plain_log st"
  shows "slots_wf st" and "log_chain LogId_default (State_entries st)" and "State_base st = LogId_default"
    and "State_last st = log_last LogId_default (State_entries st)"
    and "unat (li_index (State_last st)) = length (State_entries st)"
    and "e \<in> set (State_entries st) \<Longrightarrow> en_term e \<le> hs_term (st_hard st)"
    and "unat (hs_commit (st_hard st)) \<le> length (State_entries st)"
proof -
  have inv: "State_inv st" and base: "State_base st = LogId_default"
    using assms by (simp_all add: plain_log_def plain_base)
  show "slots_wf st" and "State_base st = LogId_default"
    using State_inv_D(1) [OF inv] base by simp_all
  show ch: "log_chain LogId_default (State_entries st)"
    using State_inv_D(2) [OF inv] base by simp
  show last: "State_last st = log_last LogId_default (State_entries st)"
    by (simp add: State_last_def base)
  show len: "unat (li_index (State_last st)) = length (State_entries st)"
    using log_chain_last_index [OF ch] by (simp add: last LogId_default_def)
  show "en_term e \<le> hs_term (st_hard st)" if "e \<in> set (State_entries st)"
    using log_chain_terms [OF ch that] State_inv_D(3) [OF inv] unfolding last by (blast intro: order.trans)
  have "hs_commit (st_hard st) \<le> li_index (State_last st)"
    using inv by (simp add: State_inv_def)
  then show "unat (hs_commit (st_hard st)) \<le> length (State_entries st)"
    using len by (simp add: word_le_nat_alt)
qed

lemma plain_get:
  assumes "plain_log st"
  shows "State_get i st =
    (if 0 < unat i \<and> unat i \<le> length (State_entries st) then Some (State_entries st ! (unat i - 1)) else None)"
  using State_get_eq [OF plain_log_facts(1) [OF assms]] plain_log_facts(3) [OF assms]
  by (auto simp: Let_def LogId_default_def)

lemma plain_id_at:
  assumes "plain_log st"
  shows "State_id_at i st = id_at (State_entries st) (unat i)"
  using plain_get [OF assms, of i] plain_log_facts(3) [OF assms]
  by (auto simp: State_id_at_def id_at_def LogId_default_def unat_eq_0)

section \<open>Methods that leave the log alone\<close>

definition outs :: "('v, 's) Node \<Rightarrow> Outbound set" where
  "outs n = {out. Some out \<in> set (n_outbox n)}"

definition same_log :: "('v, 's) Node \<Rightarrow> ('v, 's) Node \<Rightarrow> bool" where
  "same_log n n' \<longleftrightarrow>
     n_log n' = n_log n \<and> st_snapshot (n_state n') = st_snapshot (n_state n) \<and> n_commit n' = n_commit n
     \<and> n_matched n' = n_matched n"

definition hushed :: "Outbound set \<Rightarrow> ('v, 's) Node \<Rightarrow> ('v, 's) Node \<Rightarrow> bool" where
  "hushed S n n' \<longleftrightarrow> same_log n n' \<and> outs n' \<subseteq> outs n \<union> S"

lemma hushed_refl [simp]: "hushed S n n"
  by (simp add: hushed_def same_log_def)

lemma hushed_trans: "hushed S a b \<Longrightarrow> hushed S b c \<Longrightarrow> hushed S a c"
  unfolding hushed_def same_log_def by auto

lemma hushed_mono: "hushed S a b \<Longrightarrow> S \<subseteq> S' \<Longrightarrow> hushed S' a b"
  unfolding hushed_def by blast

lemma hushed_from:
  assumes "hushed S n n1" and "yields m (hushed S n1)"
  shows "yields m (hushed S n)"
  using assms(2) by (rule yields_conseq) (rule hushed_trans [OF assms(1)])

lemma hushedI:
  "n_state n' = n_state n \<Longrightarrow> n_matched n' = n_matched n \<Longrightarrow> n_outbox n' = n_outbox n \<Longrightarrow> hushed S n n'"
  by (simp add: hushed_def same_log_def outs_def)

lemma hushed_reset_election: "yields (Node_reset_election n) (hushed S n)"
  by (auto simp: Node_reset_election_def Let_def yield intro!: hushedI yields_triv)

lemma hushed_follow: "yields (Node_follow leader n) (hushed S n)"
  unfolding Node_follow_def Let_def
  by (rule hushed_from [OF hushedI hushed_reset_election]) auto

lemma outs_update: "k < length (n_outbox n) \<Longrightarrow> outs (n\<lparr>n_outbox := (n_outbox n)[k := Some out]\<rparr>) \<subseteq> outs n \<union> {out}"
  using set_update_subset_insert [of "n_outbox n" k "Some out"] by (auto simp: outs_def)

lemma hushed_send: "out \<in> S \<Longrightarrow> yields (Node_send peer out n) (hushed S n)"
  using outs_update [of peer n out]
  by (auto simp: Node_send_def yield hushed_def same_log_def outs_def split: option.split)

lemma hushed_broadcast: "OutReplicate \<in> S \<Longrightarrow> yields (Node_broadcast n) (hushed S n)"
  unfolding Node_broadcast_def
  by (rule for_each_yields) (auto simp: Node_replicate_def intro: hushed_from [OF _ hushed_send])

lemma hushed_ask_voters: "out \<in> S \<Longrightarrow> yields (Node_ask_voters out n) (hushed S n)"
  unfolding Node_ask_voters_def
  by (rule for_each_yields) (auto intro: hushed_from [OF _ hushed_send])

lemma hushed_hard:
  "hs_commit (f (n_hard n)) = n_commit n \<Longrightarrow> hushed S n (set_hard f n)"
  by (simp add: hushed_def same_log_def set_hard_def outs_def)

lemma hushed_observe_term: "yields (Node_observe_term term n) (hushed S n)"
proof -
  have "hushed S n ((set_hard (\<lambda>h. h\<lparr>hs_term := term, hs_voted_for := None\<rparr>) n)\<lparr>n_dirty := True\<rparr>)"
    by (simp add: hushed_def same_log_def set_hard_def outs_def)
  then show ?thesis
    by (auto simp: Node_observe_term_def intro: hushed_from [OF _ hushed_follow])
qed

section \<open>Commitment\<close>

definition committing :: "u64 \<Rightarrow> ('v, 's) Node \<Rightarrow> ('v, 's) Node" where
  "committing index n =
     (if n_commit n < index then (set_hard (\<lambda>h. h\<lparr>hs_commit := index\<rparr>) n)\<lparr>n_dirty := True\<rparr> else n)"

lemma commit_to_eq:
  assumes "fixed_engine n"
  shows "Node_commit_to index n = Some (committing index n)"
proof -
  have "static ((set_hard (\<lambda>h. h\<lparr>hs_commit := index\<rparr>) n)\<lparr>n_dirty := True\<rparr>) = static n"
    by (simp add: static_def set_hard_def)
  then have "Node_refresh_membership ((set_hard (\<lambda>h. h\<lparr>hs_commit := index\<rparr>) n)\<lparr>n_dirty := True\<rparr>)
      = Some ((set_hard (\<lambda>h. h\<lparr>hs_commit := index\<rparr>) n)\<lparr>n_dirty := True\<rparr>)"
    using assms fixed_engine_static by (blast intro: fixed_refresh)
  then show ?thesis
    by (simp add: Node_commit_to_def committing_def)
qed

lemma committing_simps [simp]:
  "n_log (committing i n) = n_log n" "st_snapshot (n_state (committing i n)) = st_snapshot (n_state n)"
  "n_matched (committing i n) = n_matched n" "n_role (committing i n) = n_role n" "n_outbox (committing i n) = n_outbox n"
  "n_term (committing i n) = n_term n" "n_commit (committing i n) = max (n_commit n) i"
  "static (committing i n) = static n" "outs (committing i n) = outs n" "State_get j (n_state (committing i n)) = State_get j (n_state n)"
  by (auto simp: committing_def set_hard_def static_def max_def outs_def)

text \<open>A leader appends entries of its term and commits one that a quorum has.\<close>

definition leads :: "('v, 's) Node \<Rightarrow> ('v, 's) Node \<Rightarrow> bool" where
  "leads n n' \<longleftrightarrow>
     static n' = static n \<and> n_role n' = n_role n \<and> n_term n' = n_term n
     \<and> st_snapshot (n_state n') = st_snapshot (n_state n)
     \<and> (\<exists>es. n_log n' = n_log n @ es \<and> (\<forall>e \<in> set es. en_term e = n_term n))
     \<and> length (n_matched n') = length (n_matched n)
     \<and> (\<forall>k. k \<noteq> n_local n \<longrightarrow> n_matched n' ! k = n_matched n ! k)
     \<and> (n_commit n' = n_commit n
        \<or> Membership_quorum (\<lambda>i. i = cfg_id (n_config n) \<or> n_commit n' \<le> Node_matched i n) (n_membership n)
          \<and> 0 < unat (n_commit n') \<and> unat (n_commit n') \<le> length (n_log n')
          \<and> en_term (n_log n' ! (unat (n_commit n') - 1)) = n_term n)
     \<and> outs n' \<subseteq> outs n \<union> {OutReplicate}"

lemma leads_refl [simp]: "leads n n"
  by (auto simp: leads_def)

lemma static_matched:
  assumes "static n' = static n" and fixed: "fixed_engine n" and "i \<noteq> cfg_id (n_config n)"
    and "\<forall>k. k \<noteq> n_local n \<longrightarrow> n_matched n' ! k = n_matched n ! k"
  shows "Node_matched i n' = Node_matched i n"
proof -
  have slot: "Node_peer_slot i n' = Node_peer_slot i n"
    using assms(1) by (simp add: Node_peer_slot_def static_def)
  have "k \<noteq> n_local n" if "Node_peer_slot i n = Some k" for k
    using that assms(3) fixed_local(2) [OF fixed] by (auto simp: Node_peer_slot_def position_Some)
  then show ?thesis
    using assms(4) by (simp add: Node_matched_def slot split: option.split)
qed

lemma leads_trans:
  assumes fixed: "fixed_engine a" and ab: "leads a b" and bc: "leads b c"
  shows "leads a c"
proof -
  have st: "static b = static a"
    using ab by (simp add: leads_def)
  then have same: "cfg_id (n_config b) = cfg_id (n_config a)" "n_membership b = n_membership a" "n_local b = n_local a"
    by (simp_all add: static_def)
  have "Node_matched i b = Node_matched i a" if "i \<noteq> cfg_id (n_config a)" for i
    using static_matched [OF st fixed that] ab by (simp add: leads_def)
  then have q: "Membership_quorum (\<lambda>i. i = cfg_id (n_config b) \<or> x \<le> Node_matched i b) (n_membership b) \<longleftrightarrow>
      Membership_quorum (\<lambda>i. i = cfg_id (n_config a) \<or> x \<le> Node_matched i a) (n_membership a)" for x
    unfolding same by (intro arg_cong2 [where f = Membership_quorum] ext) metis+
  obtain es fs where es: "n_log b = n_log a @ es" "\<forall>e \<in> set es. en_term e = n_term a"
    and fs: "n_log c = n_log b @ fs" "\<forall>e \<in> set fs. en_term e = n_term b"
    using ab bc unfolding leads_def by blast
  have tm: "n_term b = n_term a" "n_term c = n_term a"
    using ab bc by (simp_all add: leads_def)
  have kept: "n_log c ! (unat x - 1) = n_log b ! (unat x - 1)" "unat x \<le> length (n_log c)"
    if "unat x \<le> length (n_log b)" "0 < unat x" for x :: u64
    using that fs(1) by (auto simp: nth_append)
  let ?rule = "\<lambda>x l. Membership_quorum (\<lambda>i. i = cfg_id (n_config a) \<or> x \<le> Node_matched i a) (n_membership a)
      \<and> 0 < unat x \<and> unat x \<le> length l \<and> en_term (l ! (unat x - 1)) = n_term a"
  have rb: "n_commit b = n_commit a \<or> ?rule (n_commit b) (n_log b)"
    using ab unfolding leads_def by blast
  have rc: "n_commit c = n_commit b \<or> ?rule (n_commit c) (n_log c)"
    using bc unfolding leads_def q tm by blast
  have commit: "n_commit c = n_commit a \<or> ?rule (n_commit c) (n_log c)"
    using rc
  proof
    assume eq: "n_commit c = n_commit b"
    show ?thesis
      using rb kept [of "n_commit b"] unfolding eq by presburger
  qed blast
  have log: "\<exists>es. n_log c = n_log a @ es \<and> (\<forall>e \<in> set es. en_term e = n_term a)"
    using es fs tm by (intro exI [of _ "es @ fs"]) auto
  have mat: "length (n_matched c) = length (n_matched a)" "\<forall>k. k \<noteq> n_local a \<longrightarrow> n_matched c ! k = n_matched a ! k"
    using ab bc same(3) unfolding leads_def by auto
  have rest: "static c = static a" "n_role c = n_role a" "st_snapshot (n_state c) = st_snapshot (n_state a)"
    "outs c \<subseteq> outs a \<union> {OutReplicate}"
    using ab bc unfolding leads_def by auto
  show ?thesis
    unfolding leads_def using rest tm(2) log mat commit by blast
qed

lemma leads_from:
  assumes "fixed_engine n" and "leads n n1" and "yields m (leads n1)"
  shows "yields m (leads n)"
  using assms(3) by (rule yields_conseq) (rule leads_trans [OF assms(1,2)])

lemma leads_fixed: "leads n n' \<Longrightarrow> fixed_engine n' = fixed_engine n"
  by (rule fixed_engine_static) (simp add: leads_def)

lemma hushed_leads:
  "hushed {OutReplicate} n n' \<Longrightarrow> static n' = static n \<Longrightarrow> n_role n' = n_role n \<Longrightarrow> n_term n' = n_term n \<Longrightarrow> leads n n'"
  by (auto simp: hushed_def same_log_def leads_def)

lemma keeps_hushed_leads: "keeps n n' \<Longrightarrow> hushed {OutReplicate} n n' \<Longrightarrow> leads n n'"
  by (intro hushed_leads) (auto simp: keeps_def ballot_def)

lemma yields_conj: "yields m P \<Longrightarrow> yields m R \<Longrightarrow> yields m (\<lambda>x. P x \<and> R x)"
  by (cases m) auto

lemma leads_broadcast: "yields (Node_broadcast n) (leads n)"
  by (rule yields_conseq [OF yields_conj [OF keeps_broadcast hushed_broadcast [of "{OutReplicate}"]]])
    (auto intro: keeps_hushed_leads)

lemma leads_replicate:
  assumes "remote peer n"
  shows "yields (Node_replicate peer n) (leads n)"
  unfolding Node_replicate_def
  by (rule yields_conseq [OF yields_conj [OF keeps_send hushed_send [of _ "{OutReplicate}"]]])
    (use assms in \<open>auto intro: keeps_hushed_leads\<close>)

lemma leads_set_local_matched: "leads n (Node_set_local_matched i n)"
  by (auto simp: Node_set_local_matched_def leads_def static_def outs_def)

lemma leads_advance_commit:
  assumes fixed: "fixed_engine n" and plain: "plain_log (n_state n)" and vs: "Membership_voters (n_membership n) \<noteq> []"
  shows "yields (Node_advance_commit n) (\<lambda>x. leads n (snd x))"
proof -
  obtain p where p: "Membership_quorum_index (\<lambda>i. Node_matched i n) (n_membership n) = Some p"
    and q: "\<And>t. t \<le> p \<longleftrightarrow> Membership_quorum (\<lambda>i. t \<le> Node_matched i n) (n_membership n)"
    using quorum_index_spec [OF vs, of "\<lambda>i. Node_matched i n"] by (auto simp: returns_iff)
  have "Membership_quorum (\<lambda>i. p \<le> Node_matched i n) (n_membership n)"
    using q by blast
  then have quorum: "Membership_quorum (\<lambda>i. i = cfg_id (n_config n) \<or> p \<le> Node_matched i n) (n_membership n)"
    by (rule quorum_mono) simp
  have "leads n (committing p n)" if lt: "n_commit n < p"
    and at: "is_some_and (\<lambda>i. li_term i = n_term n) (State_id_at p (n_state n))"
  proof -
    have "0 < unat p"
      using lt by (simp add: word_less_nat_alt)
    then have "unat p \<le> length (n_log n)" "en_term (n_log n ! (unat p - 1)) = n_term n"
      using at plain_id_at [OF plain] by (auto simp: is_some_and_iff id_at_def split: if_splits)
    then show ?thesis
      using quorum lt \<open>0 < unat p\<close> by (auto simp: leads_def max_def)
  qed
  then show ?thesis
    by (simp add: Node_advance_commit_def p commit_to_eq [OF fixed])
qed

text \<open>Pushing an entry of the leader's term.\<close>

lemma leads_push:
  assumes plain: "plain_log (n_state n)" and push: "State_push e (n_state n) = (Ok (), st)" and tm: "en_term e = n_term n"
  shows "leads n (n\<lparr>n_state := st, n_dirty := d, n_log_from := f\<rparr>)" and "State_entries st = n_log n @ [e]"
    and "st_snapshot st = st_snapshot (n_state n)"
proof -
  have st: "State_entries st = n_log n @ [e]" "State_CAP st = State_CAP (n_state n)"
    "st_hard st = n_hard n" "st_snapshot st = st_snapshot (n_state n)"
    using plain_log_facts(1) [OF plain] push by (cases rule: State_push_cases [where e = e]; force)+
  then show "leads n (n\<lparr>n_state := st, n_dirty := d, n_log_from := f\<rparr>)"
    and "State_entries st = n_log n @ [e]" and "st_snapshot st = st_snapshot (n_state n)"
    using tm by (auto simp: leads_def static_def outs_def)
qed

lemma plain_push:
  assumes plain: "plain_log st" and push: "State_push e st = (Ok (), st')"
    and i: "checked_add (li_index (State_last st)) 1 = Some (li_index (en_id e))"
    and t: "en_term e = hs_term (st_hard st)" "en_term e \<noteq> 0"
  shows "plain_log st'"
proof -
  have inv: "State_inv st" and none: "st_snapshot st = None"
    using plain by (simp_all add: plain_log_def)
  have st': "slots_wf st'" "State_entries st' = State_entries st @ [e]" "st_hard st' = st_hard st" "st_snapshot st' = None"
    using plain_log_facts(1) [OF plain] push none by (cases rule: State_push_cases [where e = e]; force)+
  have base: "State_base st' = State_base st"
    using st'(4) none by (simp add: State_base_def)
  have last: "State_last st' = en_id e"
    using st'(2) by (simp add: State_last_def)
  have "li_term (State_last st) \<le> en_term e"
    using inv t(1) by (simp add: State_inv_def)
  then have "log_chain (State_base st') (State_entries st')"
    using State_inv_D(2) [OF inv] i t(2) by (simp add: st'(2) base log_chain_append State_last_def)
  moreover have "hs_commit (st_hard st) \<le> li_index (en_id e)"
    using inv i by (auto simp: State_inv_def u64)
  ultimately show ?thesis
    using inv st' t none by (auto simp: plain_log_def State_inv_def last base)
qed

lemma leads_barrier:
  assumes fixed: "fixed_engine n" and plain: "plain_log (n_state n)" and vs: "Membership_voters (n_membership n) \<noteq> []"
    and tm: "n_term n \<noteq> 0"
  shows "yields (Node_barrier n) (leads n)"
proof -
  have adv: "yields (Node_advance_commit (Node_set_local_matched i (n\<lparr>n_state := st, n_dirty := True, n_log_from := Some i\<rparr>)))
      (\<lambda>r. leads n (snd r))"
    if p: "State_push \<lparr>en_id = \<lparr>li_index = i, li_term = n_term n\<rparr>, en_value = None\<rparr> (n_state n) = (Ok (), st)"
      and i: "checked_add (li_index (n_last n)) 1 = Some i" for i st
  proof -
    let ?m = "n\<lparr>n_state := st, n_dirty := True, n_log_from := Some i\<rparr>"
    let ?m' = "Node_set_local_matched i ?m"
    have "leads n ?m"
      using leads_push(1) [OF plain p] by simp
    then have l: "leads n ?m'"
      using leads_trans [OF fixed _ leads_set_local_matched] by blast
    have "plain_log (n_state ?m')"
      using plain_push [OF plain p] i tm by (simp add: Node_set_local_matched_def)
    moreover have "fixed_engine ?m'"
      using leads_fixed [OF l] fixed by blast
    moreover have "n_membership ?m' = n_membership n"
      using l by (simp add: leads_def static_def)
    ultimately have "yields (Node_advance_commit ?m') (\<lambda>r. leads ?m' (snd r))"
      using vs by (intro leads_advance_commit) simp_all
    then show ?thesis
      by (rule yields_conseq) (rule leads_trans [OF fixed l])
  qed
  have err: "st = n_state n" if "State_push e (n_state n) = (Err x, st)" for e x st
    using plain_log_facts(1) [OF plain] that by (cases rule: State_push_cases [where e = e]) auto
  show ?thesis
    by (auto simp: Node_barrier_def yields_bind split: option.split prod.split Result.split
        dest: err intro!: yields_conseq [OF adv])
qed

lemma leads_become_leader:
  assumes fixed: "fixed_engine n" and plain: "plain_log (n_state n)" and vs: "Membership_voters (n_membership n) \<noteq> []"
    and tm: "n_term n \<noteq> 0"
  shows "yields (Node_become_leader n) (leads (n\<lparr>n_role := Leader, n_matched := map (\<lambda>_. 0) (n_matched n)\<rparr>))"
proof -
  let ?l = "n\<lparr>n_role := Leader, n_matched := map (\<lambda>_. 0) (n_matched n)\<rparr>"
  have "static ?l = static n"
    by (simp add: static_def)
  then have l: "fixed_engine ?l"
    using fixed fixed_engine_static by blast
  have "yields (Node_barrier (Node_set_local_matched i m) \<bind> Node_broadcast) (leads ?l)" if m: "leads ?l m" "plain_log (n_state m)" for i m
  proof -
    let ?m = "Node_set_local_matched i m"
    have lm: "leads ?l ?m"
      using leads_trans [OF l m(1) leads_set_local_matched] .
    moreover have "plain_log (n_state ?m)"
      using m(2) by (simp add: Node_set_local_matched_def)
    moreover have "fixed_engine ?m"
      using leads_fixed [OF lm] l by blast
    moreover have "n_membership ?m = n_membership n" "n_term ?m = n_term n"
      using lm by (simp_all add: leads_def static_def)
    ultimately have "yields (Node_barrier ?m) (leads ?m)"
      using vs tm by (intro leads_barrier) simp_all
    then show ?thesis
      unfolding yields_bind
      by (rule yields_conseq) (blast intro: leads_from [OF l] leads_trans [OF l lm] leads_broadcast)
  qed
  moreover have "leads ?l (n\<lparr>n_quorum_elapsed := q, n_active := a, n_role := Leader, n_leader := x, n_elapsed := e,
      n_next := y, n_matched := map (\<lambda>_. 0) (n_matched n)\<rparr>)" for q a x e y
    by (auto simp: leads_def static_def outs_def)
  ultimately show ?thesis
    using plain by (simp add: Node_become_leader_def Let_def)
qed

text \<open>An acknowledgement or a rejection reaches the leader.\<close>

lemma leads_replicated:
  assumes fixed: "fixed_engine n" and plain: "plain_log (n_state n)" and vs: "Membership_voters (n_membership n) \<noteq> []"
    and peer: "remote peer n"
  shows "yields (Node_replicated peer index rejection n) (\<lambda>n'. leads n n'
    \<or> rejection = None \<and> unat index \<le> length (n_log n) \<and> leads (n\<lparr>n_matched := (n_matched n)[peer := index]\<rparr>) n')"
proof -
  have other: "leads n (n\<lparr>n_active := a\<rparr>)" "leads n (n\<lparr>n_active := a, n_next := x\<rparr>)"
    "leads (n\<lparr>n_matched := m\<rparr>) (n\<lparr>n_active := a, n_matched := m, n_next := x\<rparr>)" for a x m
    by (auto simp: leads_def static_def outs_def Node_matched_def Node_peer_slot_def)
  have rep: "yields (Node_replicate peer n1) (leads n0)" if "leads n0 n1" "static n0 = static n" for n0 n1
  proof -
    have "fixed_engine n0"
      using fixed fixed_engine_static that(2) by blast
    moreover have "remote peer n1"
      using that peer remote_static unfolding leads_def by metis
    ultimately show ?thesis
      using leads_from [OF _ that(1) leads_replicate] by blast
  qed
  have mat: "yields (Node_advance_commit (n\<lparr>n_active := a, n_matched := m, n_next := x\<rparr>) \<bind>
      (\<lambda>(advanced, n2). if advanced then Node_broadcast n2
        else if index < li_index (n_last n2) then Node_replicate peer n2 else Some n2)) (leads (n\<lparr>n_matched := m\<rparr>))" for a m x
  proof -
    let ?n0 = "n\<lparr>n_matched := m\<rparr>" and ?n1 = "n\<lparr>n_active := a, n_matched := m, n_next := x\<rparr>"
    have st: "static ?n0 = static n" "static ?n1 = static n"
      by (simp_all add: static_def)
    then have f: "fixed_engine ?n0" "fixed_engine ?n1"
      using fixed fixed_engine_static by blast+
    have "yields (Node_advance_commit ?n1) (\<lambda>y. leads ?n1 (snd y))"
      using f(2) plain vs by (intro leads_advance_commit) simp_all
    then show ?thesis
      unfolding yields_bind
    proof (rule yields_conseq)
      fix y :: "bool \<times> ('a, 'b) Node" assume "leads ?n1 (snd y)"
      then have l: "leads ?n0 (snd y)"
        using leads_trans [OF f(1) other(3)] by blast
      show "yields (case y of (advanced, n2) \<Rightarrow> if advanced then Node_broadcast n2
        else if index < li_index (n_last n2) then Node_replicate peer n2 else Some n2) (leads ?n0)"
        using l rep [OF l st(1)] leads_from [OF f(1) l leads_broadcast] by (cases y) auto
    qed
  qed
  have mat': "yields (Node_advance_commit (n\<lparr>n_active := a, n_matched := m, n_next := x\<rparr>))
      (\<lambda>y. yields (case y of (advanced, n2) \<Rightarrow> if advanced then Node_broadcast n2
        else if index < li_index (n_last n2) then Node_replicate peer n2 else Some n2)
        (\<lambda>n'. leads n n' \<or> leads (n\<lparr>n_matched := m\<rparr>) n'))" for a m x
    unfolding yields_bind [symmetric] by (rule yields_conseq [OF mat]) blast
  have "unat index \<le> length (n_log n)" if "\<not> li_index (n_last n) < index"
    using that plain_log_facts(5) [OF plain] by (simp add: word_less_nat_alt)
  then show ?thesis
    using other
    by (auto simp: Node_replicated_def Let_def yields_index_write yields_bind
        split: option.split Rejection.split
        intro!: mat' yields_triv [where m = "clamp x y z" for x y z] yields_conseq [OF rep [OF other(2) refl]])
qed

section \<open>A follower appends\<close>

definition appends ::
    "LogId \<Rightarrow> 'v Entry option \<Rightarrow> u64 \<Rightarrow> u64 \<times> Rejection option \<Rightarrow> ('v, 's) Node \<Rightarrow> ('v, 's) Node \<Rightarrow> bool" where
  "appends previous entry cm r n n' \<longleftrightarrow>
     st_snapshot (n_state n') = st_snapshot (n_state n) \<and> outs n' = outs n
     \<and> (let X = n_log n; matches = id_at X (unat (li_index previous)) = Some previous
        in if snd r \<noteq> None
           then n_log n' = X
             \<and> (n_commit n' = n_commit n \<or> matches \<and> n_commit n' = max (n_commit n) (min cm (li_index previous)))
           else matches \<and> n_commit n' = max (n_commit n) (min cm (fst r))
             \<and> (case entry of
                  None \<Rightarrow> fst r = li_index previous \<and> n_log n' = X
                | Some e \<Rightarrow> fst r = li_index (en_id e)
                    \<and> (if id_at X (unat (fst r)) = Some (en_id e) then n_log n' = X
                       else n_commit n < fst r \<and> n_log n' = take (unat (fst r) - 1) X @ [e])))"

lemma truncate_push:
  assumes plain: "plain_log st" and i: "hs_commit (st_hard st) < i"
    and room: "\<not> (State_full st \<and> li_index (State_last st) < i)"
  obtains st' where "State_push e (State_truncate i st) = (Ok (), st')"
    and "State_entries st' = take (unat i - 1) (State_entries st) @ [e]" and "st_snapshot st' = st_snapshot st"
    and "st_hard st' = st_hard st" and "State_CAP st' = State_CAP st"
proof -
  note facts = plain_log_facts [OF plain]
  have ch: "log_chain (State_base st) (State_entries st)"
    using facts(2,3) by simp
  note tr = State_truncate_spec [OF facts(1) ch, of i]
  have es: "State_entries (State_truncate i st) = take (unat i - 1) (State_entries st)"
    using tr log_chain_filter_below [OF facts(2), of i] by (simp add: LogId_default_def)
  have "length (take (unat i - 1) (State_entries st)) < State_CAP st"
  proof (cases "State_full st")
    case True
    then have "unat i \<le> length (State_entries st)"
      using room facts(5) by (simp add: word_less_nat_alt)
    moreover have "0 < unat i"
      using i by (simp add: word_less_nat_alt)
    ultimately show ?thesis
      using slots_wf_cap [OF facts(1)] by simp
  next
    case False
    then show ?thesis
      using State_full_iff [OF facts(1)] slots_wf_cap [OF facts(1)] by simp
  qed
  then have "length (State_entries (State_truncate i st)) \<noteq> State_CAP (State_truncate i st)"
    unfolding es using tr by simp
  then have "\<not> State_full (State_truncate i st)"
    using tr State_full_iff [of "State_truncate i st"] by blast
  then show ?thesis
    using State_push_ok [of "State_truncate i st" e] tr es that by metis
qed

lemma append_effect:
  assumes fixed: "fixed_engine n" and plain: "plain_log (n_state n)"
  shows "yields (Node_append previous entry cm n) (\<lambda>(r, n'). appends previous entry cm r n n')"
proof -
  note at = plain_id_at [OF plain]
  have pushed: "yields (case State_push e (State_truncate (li_index (en_id e)) (n_state n)) of
        (Err x, st') \<Rightarrow> Some ((li_index previous, Some RejectFull), n\<lparr>n_state := st'\<rparr>)
      | (Ok x, st') \<Rightarrow> Node_refresh_membership (n\<lparr>n_state := st'\<rparr>) \<bind>
          (\<lambda>n1. let n2 = n1\<lparr>n_dirty := True, n_log_from := Some (lower_from (n_log_from n1) (li_index (en_id e)))\<rparr>
            in Node_commit_to (min cm (li_index (en_id e))) n2 \<bind> (\<lambda>n3. Some ((li_index (en_id e), None), n3))))
      (\<lambda>(r, n'). appends previous (Some e) cm r n n')"
    if matches: "id_at (n_log n) (unat (li_index previous)) = Some previous"
      and new: "id_at (n_log n) (unat (li_index (en_id e))) \<noteq> Some (en_id e)" and c: "n_commit n < li_index (en_id e)"
      and room: "\<not> (State_full (n_state n) \<and> li_index (n_last n) < li_index (en_id e))" for e
  proof -
    obtain st' where st': "State_push e (State_truncate (li_index (en_id e)) (n_state n)) = (Ok (), st')"
      "State_entries st' = take (unat (li_index (en_id e)) - 1) (n_log n) @ [e]"
      "st_snapshot st' = st_snapshot (n_state n)" "st_hard st' = n_hard n" "State_CAP st' = State_CAP (n_state n)"
      using truncate_push [OF plain c room] .
    let ?n1 = "n\<lparr>n_state := st'\<rparr>"
    let ?n2 = "?n1\<lparr>n_dirty := True, n_log_from := Some (lower_from (n_log_from n) (li_index (en_id e)))\<rparr>"
    have "static ?n1 = static n" "static ?n2 = static n"
      using st'(5) by (simp_all add: static_def)
    then have "fixed_engine ?n1" "fixed_engine ?n2"
      using fixed fixed_engine_static by blast+
    then show ?thesis
      using st' matches new c by (simp add: fixed_refresh commit_to_eq appends_def outs_def)
  qed
  show ?thesis
  proof (cases "id_at (n_log n) (unat (li_index previous)) = Some previous")
    case False
    then show ?thesis
      by (simp add: Node_append_def Let_def at appends_def)
  next
    case matches: True
    show ?thesis
    proof (cases entry)
      case None
      then show ?thesis
        using matches by (simp add: Node_append_def Let_def at commit_to_eq [OF fixed] appends_def)
    next
      case (Some e)
      consider (same) "id_at (n_log n) (unat (li_index (en_id e))) = Some (en_id e)"
        | (old) "id_at (n_log n) (unat (li_index (en_id e))) \<noteq> Some (en_id e)" "li_index (en_id e) \<le> n_commit n"
        | (full) "id_at (n_log n) (unat (li_index (en_id e))) \<noteq> Some (en_id e)" "\<not> li_index (en_id e) \<le> n_commit n"
          "State_full (n_state n) \<and> li_index (n_last n) < li_index (en_id e)"
        | (new) "id_at (n_log n) (unat (li_index (en_id e))) \<noteq> Some (en_id e)" "\<not> li_index (en_id e) \<le> n_commit n"
          "\<not> (State_full (n_state n) \<and> li_index (n_last n) < li_index (en_id e))"
        by blast
      then show ?thesis
      proof cases
        case same
        then show ?thesis
          using matches Some by (simp add: Node_append_def Let_def at commit_to_eq [OF fixed] appends_def)
      next
        case old
        then show ?thesis
          using matches Some by (simp add: Node_append_def Let_def at commit_to_eq [OF fixed] appends_def)
      next
        case full
        then show ?thesis
          using matches Some by (simp add: Node_append_def Let_def at commit_to_eq [OF fixed] appends_def)
      next
        case new
        then have c: "n_commit n < li_index (en_id e)"
          by simp
        show ?thesis
          using matches Some new pushed [OF matches new(1) c new(3)]
          by (simp add: Node_append_def Let_def at del: de_Morgan_conj)
      qed
    qed
  qed
qed

section \<open>Calls\<close>

fun silent :: "Outbound \<Rightarrow> bool" where
  "silent (OutVoted granted) = (\<not> granted)"
| "silent (OutReplicated _ rejection) = (rejection \<noteq> None)"
| "silent _ = False"

text \<open>The node keeps its role and term, or is a follower now.\<close>

definition stays :: "('v, 's) Node \<Rightarrow> ('v, 's) Node \<Rightarrow> bool" where
  "stays n n' \<longleftrightarrow> n_role n' = Follower \<or> n_role n' = n_role n \<and> n_term n' = n_term n"

definition vote_kept :: "('v, 's) Node \<Rightarrow> ('v, 's) Node \<Rightarrow> bool" where
  "vote_kept n n' \<longleftrightarrow>
     hs_voted_for (n_hard n') = None \<or> hs_voted_for (n_hard n') = hs_voted_for (n_hard n) \<and> n_term n' = n_term n"

lemma vote_kept_trans: "vote_kept a b \<Longrightarrow> vote_kept b c \<Longrightarrow> vote_kept a c"
  by (auto simp: vote_kept_def)

inductive heard :: "('v, 's) Envelope \<Rightarrow> ('v, 's) Node \<Rightarrow> ('v, 's) Node \<Rightarrow> bool" for env n n' where
  ignored: "hushed {out. silent out} n n' \<Longrightarrow> stays n n' \<Longrightarrow> vote_kept n n' \<Longrightarrow> heard env n n'"
| voted: "\<lbrakk>env_message env = Vote (n_term n') lst; hushed {OutVoted True} n n'; stays n n';
     hs_voted_for (n_hard n') = Some (env_from env);
     log_up_to_date lst (n_last n')\<rbrakk> \<Longrightarrow> heard env n n'"
| elected: "\<lbrakk>n_role n = Candidate; leads (n\<lparr>n_role := Leader, n_matched := map (\<lambda>_. 0) (n_matched n)\<rparr>) n'\<rbrakk>
     \<Longrightarrow> heard env n n'"
| appended: "\<lbrakk>env_message env = Append (n_term n') previous entry cm; n_role n' = Follower; vote_kept n n'; appends previous entry cm r n m;
     hushed {OutReplicated (fst r) (snd r)} m n'\<rbrakk> \<Longrightarrow> heard env n n'"
| counted: "\<lbrakk>env_message env = Replicated (n_term n) index None; n_role n = Leader; n_peers n ! k = Some (env_from env);
     k < Node_N n; k \<noteq> n_local n; unat index \<le> length (n_log n); leads (n\<lparr>n_matched := (n_matched n)[k := index]\<rparr>) n'\<rbrakk>
     \<Longrightarrow> heard env n n'"
| led: "\<lbrakk>n_role n = Leader; leads n n'\<rbrakk> \<Longrightarrow> heard env n n'"

text \<open>The messages that travel in a cluster of the fixed engine that never compacts.\<close>

fun plain_message :: "('v, 's) Message \<Rightarrow> bool" where
  "plain_message (Vote _ _) = True"
| "plain_message (Voted _ _) = True"
| "plain_message (Append _ _ _ _) = True"
| "plain_message (Replicated _ _ _) = True"
| "plain_message _ = False"

lemma heard_vote:
  assumes "env_message env = Vote (n_term n) lst"
  shows "yields (Node_on_vote (env_from env) peer lst n) (heard env n)"
proof -
  let ?n1 = "if hs_voted_for (n_hard n) \<noteq> Some (env_from env)
    then (set_hard (\<lambda>h. h\<lparr>hs_voted_for := Some (env_from env)\<rparr>) n)\<lparr>n_dirty := True\<rparr> else n"
  have c1: "hushed S n ?n1" and r1: "n_role ?n1 = n_role n" "n_term ?n1 = n_term n" for S
    by (auto simp: hushed_def same_log_def set_hard_def outs_def)
  have same: "yields (Node_send peer out m) (\<lambda>m'. n_role m' = n_role m \<and> n_state m' = n_state m)" for out and m :: "('a, 'b) Node"
    by (auto simp: Node_send_def yield split: option.split)
  have reset: "yields (Node_reset_election m) (\<lambda>m'. n_role m' = n_role m \<and> n_state m' = n_state m)" for m :: "('a, 'b) Node"
    by (auto simp: Node_reset_election_def Let_def yield intro!: yields_triv)
  have refused: "yields (Node_send peer (OutVoted False) n) (heard env n)"
    by (rule yields_conseq [OF yields_conj [OF hushed_send [of _ "{out. silent out}"] same]])
      (auto simp: stays_def vote_kept_def intro!: heard.ignored)
  have granted: "yields (Node_reset_election ?n1 \<bind> Node_send peer (OutVoted True)) (heard env n)"
    if up: "log_up_to_date lst (n_last n)"
    unfolding yields_bind
  proof (rule yields_conseq [OF yields_conj [OF hushed_reset_election [of _ "{OutVoted True}"] reset]])
    fix m assume m: "hushed {OutVoted True} ?n1 m \<and> n_role m = n_role ?n1 \<and> n_state m = n_state ?n1"
    show "yields (Node_send peer (OutVoted True) m) (heard env n)"
    proof (rule yields_conseq [OF yields_conj [OF hushed_send [of _ "{OutVoted True}"] same]])
      fix m' assume m': "hushed {OutVoted True} m m' \<and> n_role m' = n_role m \<and> n_state m' = n_state m"
      then have "hushed {OutVoted True} n m'"
        using m hushed_trans [OF hushed_trans [OF c1]] by blast
      moreover have "n_role m' = n_role n" "n_term m' = n_term n" "hs_voted_for (n_hard m') = Some (env_from env)"
        using m m' r1 by (simp_all add: set_hard_def)
      moreover from calculation(1) have "n_last m' = n_last n"
        unfolding hushed_def same_log_def State_last_def State_base_def by simp
      ultimately show "heard env n m'"
        using assms up by (intro heard.voted [where lst = lst]) (simp_all add: stays_def)
    qed simp
  qed
  show ?thesis
    using refused granted by (auto simp: Node_on_vote_def Let_def)
qed

lemma heard_append:
  assumes fixed: "fixed_engine n" and plain: "plain_log (n_state n)" and "env_message env = Append (n_term n) previous entry cm"
    and len: "length (n_outbox n) = Node_N n"
  shows "yields (Node_on_append (env_from env) peer previous entry cm n) (heard env n)"
  unfolding Node_on_append_def yields_bind
proof (rule yields_conseq [OF yields_conj [OF keeps_follow [OF fixed] hushed_follow [of _ _ "{}"]]])
  fix n1 assume n1: "keeps (n\<lparr>n_role := Follower\<rparr>) n1 \<and> hushed {} n n1" and eq: "Node_follow (Some (env_from env)) n = Some n1"
  have st: "n_state n1 = n_state n"
    using eq by (auto simp: Node_follow_def Node_reset_election_def Let_def bind_eq_Some_conv split: if_splits)
  have f1: "fixed_engine n1"
    using follow_fixed(1) [OF fixed] n1 by blast
  have role: "n_role n1 = Follower"
    using n1 by (simp add: keeps_def ballot_def)
  have outs1: "outs n1 = outs n"
    using eq by (auto simp: Node_follow_def Node_reset_election_def Let_def bind_eq_Some_conv outs_def split: if_splits)
  have k: "yields (Node_append previous entry cm n1) (\<lambda>(r, n2). n_role n2 = n_role n1 \<and> n_term n2 = n_term n1
      \<and> hs_voted_for (n_hard n2) = hs_voted_for (n_hard n1))"
  proof (cases "\<forall>e. entry = Some e \<longrightarrow> li_index (en_id e) \<noteq> 0")
    case True
    show ?thesis
      by (rule yields_conseq [OF keeps_append [OF f1 True]]) (auto simp: keeps_def ballot_def)
  next
    case False
    then obtain e where e: "entry = Some e" "li_index (en_id e) = 0"
      by auto
    then show ?thesis
      by (auto simp: Node_append_def Let_def commit_to_eq [OF f1] committing_def set_hard_def)
  qed
  have plain1: "plain_log (n_state n1)"
    using plain st by simp
  show "yields (Node_append previous entry cm n1)
      (\<lambda>x. yields (case x of (r, n2) \<Rightarrow> Node_reply peer (fst r) (snd r) n2) (heard env n))"
  proof (rule yields_conseq [OF yields_conj [OF append_effect [OF f1 plain1] k]], clarify)
    fix a b n2 assume app: "appends previous entry cm (a, b) n1 n2" and rt: "n_role n2 = n_role n1" "n_term n2 = n_term n1"
      "hs_voted_for (n_hard n2) = hs_voted_for (n_hard n1)"
    have app': "appends previous entry cm (a, b) n n2"
      using app unfolding appends_def st outs1 .
    have "yields (Node_send peer (OutReplicated a b) n2)
        (\<lambda>n'. hushed {OutReplicated a b} n2 n' \<and> n_role n' = n_role n2 \<and> n_state n' = n_state n2)"
      by (rule yields_conj [OF hushed_send]) (auto simp: Node_send_def yield split: option.split)
    then show "yields (Node_reply peer (fst (a, b)) (snd (a, b)) n2) (heard env n)"
      unfolding Node_reply_def fst_conv snd_conv
    proof (rule yields_conseq)
      fix n' assume n': "hushed {OutReplicated a b} n2 n' \<and> n_role n' = n_role n2 \<and> n_state n' = n_state n2"
      then have "n_term n' = n_term n" "n_role n' = Follower" "vote_kept n n'"
        using rt role st by (simp_all add: vote_kept_def)
      then show "heard env n n'"
        using assms(3) app' n' by (intro heard.appended [where r = "(a, b)" and m = n2]) simp_all
    qed
  qed
qed

text \<open>Nodes that differ in no field the log depends on.\<close>

definition log_equal :: "('v, 's) Node \<Rightarrow> ('v, 's) Node \<Rightarrow> bool" where
  "log_equal n m \<longleftrightarrow>
     n_state m = n_state n \<and> static m = static n \<and> n_role m = n_role n \<and> n_matched m = n_matched n \<and> n_outbox m = n_outbox n"

lemma leads_equal:
  assumes "log_equal n m"
  shows "leads m c = leads n c"
proof -
  have "Node_matched i m = Node_matched i n" for i
    using assms by (simp add: log_equal_def Node_matched_def Node_peer_slot_def static_def split: option.split)
  then show ?thesis
    using assms unfolding leads_def by (simp add: log_equal_def static_def outs_def)
qed

lemma log_equal_update:
  assumes "log_equal n m"
  shows "log_equal (n\<lparr>n_role := r, n_matched := x\<rparr>) (m\<lparr>n_role := r, n_matched := x\<rparr>)"
    and "log_equal (n\<lparr>n_matched := x\<rparr>) (m\<lparr>n_matched := x\<rparr>)"
  using assms by (simp_all add: log_equal_def static_def)

lemma heard_observed:
  assumes c: "hushed {} n m" and s: "stays n m" "vote_kept n m" and lead: "n_role m \<noteq> Follower \<Longrightarrow> log_equal n m" and out: "outs m = outs n"
    and h: "heard env m n'"
  shows "heard env n n'"
  using h
proof cases
  case ignored
  then show ?thesis
    using hushed_trans [OF hushed_mono [OF c]] s vote_kept_trans [OF s(2)]
    by (intro heard.ignored) (auto simp: stays_def)
next
  case (voted lst)
  then show ?thesis
    using hushed_trans [OF hushed_mono [OF c]] s by (intro heard.voted [where lst = lst]) (auto simp: stays_def)
next
  case (appended previous entry cm r k)
  have eqs: "st_snapshot (n_state m) = st_snapshot (n_state n)" "n_log m = n_log n" "n_commit m = n_commit n"
    using c by (auto simp: hushed_def same_log_def)
  have "appends previous entry cm r n k"
    using appended(4) unfolding appends_def eqs out .
  then show ?thesis
    using appended vote_kept_trans [OF s(2)] by (intro heard.appended)
next
  case elected
  then have eq: "log_equal n m"
    using lead by simp
  then have "n_matched m = n_matched n" "n_role n = Candidate"
    using elected(1) by (simp_all add: log_equal_def)
  then show ?thesis
    using elected(2) leads_equal [OF log_equal_update(1) [OF eq]] by (intro heard.elected) simp_all
next
  case (counted index k)
  then have eq: "log_equal n m"
    using lead by simp
  then have "n_matched m = n_matched n" "n_role n = Leader" "n_term m = n_term n" "n_peers m = n_peers n" "n_local m = n_local n"
    "n_log m = n_log n"
    using counted(2) by (simp_all add: log_equal_def static_def)
  then show ?thesis
    using counted leads_equal [OF log_equal_update(2) [OF eq]] by (intro heard.counted [where k = k and index = index]) simp_all
next
  case led
  then have eq: "log_equal n m"
    using lead by simp
  then show ?thesis
    using led leads_equal [OF eq] by (intro heard.led) (simp_all add: log_equal_def)
qed

lemma plain_term:
  assumes "plain_log st" and "hs_term (st_hard st) \<le> t"
  shows "plain_log (st\<lparr>st_hard := (st_hard st)\<lparr>hs_term := t, hs_voted_for := None\<rparr>\<rparr>)"
  using assms by (auto simp: plain_log_def State_inv_def slots_wf_def)

lemma observed:
  assumes "Node_observe_term t n = Some m"
  shows "hushed {} n m" and "stays n m" and "vote_kept n m" and "n_role m \<noteq> Follower \<Longrightarrow> m = n" and "n_outbox m = n_outbox n"
    and "plain_log (n_state n) \<Longrightarrow> plain_log (n_state m)" and "t \<le> n_term m"
proof -
  show "hushed {} n m"
    by (rule yieldsD [OF hushed_observe_term assms])
  show "stays n m" and "vote_kept n m" and "n_role m \<noteq> Follower \<Longrightarrow> m = n" and "n_outbox m = n_outbox n"
    and "t \<le> n_term m"
    using assms
    by (auto simp: Node_observe_term_def Node_follow_def Node_reset_election_def Let_def bind_eq_Some_conv set_hard_def stays_def vote_kept_def
        split: if_splits)
  have "n_state m = n_state n \<or> n_term n < t \<and> n_state m = (n_state n)\<lparr>st_hard := (n_hard n)\<lparr>hs_term := t, hs_voted_for := None\<rparr>\<rparr>"
    using assms
    by (auto simp: Node_observe_term_def Node_follow_def Node_reset_election_def Let_def bind_eq_Some_conv set_hard_def
        split: if_splits)
  then show "plain_log (n_state m)" if "plain_log (n_state n)"
    using that plain_term [OF that, of t] by (auto simp: less_imp_le)
qed

lemma heard_dispatch:
  assumes fixed: "fixed_engine n" and plain: "plain_log (n_state n)" and vs: "Membership_voters (n_membership n) \<noteq> []"
    and msg: "plain_message (env_message env)" and tm: "n_term n = Message_term (env_message env)" "n_term n \<noteq> 0"
    and peer: "peer < Node_N n" "remote peer n" "n_peers n ! peer = Some (env_from env)" and len: "length (n_outbox n) = Node_N n"
  shows "yields (Node_dispatch (env_from env) peer (env_message env) n) (heard env n)"
proof (cases "env_message env")
  case (Vote t lst)
  then show ?thesis
    using tm heard_vote [of env n lst peer] by simp
next
  case (Append t previous entry cm)
  then show ?thesis
    using tm heard_append [OF fixed plain _ len, of env previous entry cm peer] by simp
next
  case (Replicated t index rejection)
  have "heard env n n" 
    by (rule heard.ignored) (simp_all add: stays_def vote_kept_def)
  moreover have "yields (Node_replicated peer index rejection n) (heard env n)" if "n_role n = Leader"
    using that Replicated tm peer
    by (intro yields_conseq [OF leads_replicated [OF fixed plain vs peer(2)]])
      (auto simp: remote_def intro: heard.led heard.counted)
  ultimately show ?thesis
    using Replicated by simp
next
  case (Voted t granted)
  have ign: "heard env n (n\<lparr>n_votes := v\<rparr>)" "heard env n n" for v
    by (auto simp: stays_def vote_kept_def intro!: heard.ignored hushedI)
  have "yields (Node_become_leader (n\<lparr>n_votes := v\<rparr>)) (heard env n)" if "n_role n = Candidate" for v
  proof -
    let ?m = "n\<lparr>n_votes := v\<rparr>"
    have "static ?m = static n"
      by (simp add: static_def)
    then have "fixed_engine ?m"
      using fixed fixed_engine_static by blast
    then have "yields (Node_become_leader ?m) (leads (?m\<lparr>n_role := Leader, n_matched := map (\<lambda>_. 0) (n_matched ?m)\<rparr>))"
      using plain vs tm by (intro leads_become_leader) simp_all
    then show ?thesis
      by (rule yields_conseq)
        (rule heard.elected [OF that], simp add: leads_equal [OF log_equal_update(1), of n ?m] log_equal_def static_def)
  qed
  then show ?thesis
    using Voted ign by (auto simp: Node_on_voted_def Let_def yields_bind yields_index_write)
qed (use msg in simp_all)

lemma stale_hushed:
  "plain_message m \<Longrightarrow> yields (Node_on_stale peer m n) (\<lambda>n'. hushed {out. silent out} n n' \<and> n_role n' = n_role n \<and> n_state n' = n_state n)"
  by (cases m)
    (auto simp: Node_reply_def intro!: yields_conj hushed_send, auto simp: Node_send_def yield split: option.split)

lemma accept_plain:
  assumes "plain_message m" and "env_message env = m" and "n_hooks n = None"
  shows "Node_accept peer env n = Node_observe_term (Message_term m) n \<bind>
    (\<lambda>n1. if Message_term m < n_term n1 then Node_on_stale peer m n1 else Node_dispatch (env_from env) peer m n1)"
  using assms by (induction m) (simp_all add: Node_accept_def)

lemma log_receive:
  assumes fixed: "fixed_engine n" and plain: "plain_log (n_state n)" and vs: "Membership_voters (n_membership n) \<noteq> []"
    and msg: "plain_message (env_message env)" and len: "length (n_outbox n) = Node_N n"
    and step: "Node_step env n = Some (Ok (), n')"
  shows "heard env n n'"
proof -
  have hooks: "n_hooks n = None"
    using fixed unfolding fixed_engine_def by blast
  from step hooks obtain peer where peer: "Node_peer_slot (env_from env) n = Some peer" and val: "Node_valid (env_message env)"
    and other: "env_from env \<noteq> cfg_id (n_config n)"
    and acc: "Node_accept peer env (n\<lparr>n_request_from := Some (env_from env)\<rparr>) = Some n'"
    by (auto simp: Node_step_def Node_sender_def bind_eq_Some_conv split: Result.splits option.splits if_splits)
  let ?n = "n\<lparr>n_request_from := Some (env_from env)\<rparr>"
  have slot: "peer < Node_N n" "n_peers n ! peer = Some (env_from env)"
    using peer by (auto simp: Node_peer_slot_def position_Some)
  have "static ?n = static n"
    by (simp add: static_def)
  then have f: "fixed_engine ?n"
    using fixed fixed_engine_static by blast
  let ?t = "Message_term (env_message env)"
  have t0: "?t \<noteq> 0"
    using msg val by (cases "env_message env") (auto simp: Node_valid_def Let_def)
  have "Node_accept peer env ?n = Node_observe_term ?t ?n \<bind> (\<lambda>m. if ?t < n_term m then Node_on_stale peer (env_message env) m
      else Node_dispatch (env_from env) peer (env_message env) m)"
    using accept_plain [OF msg refl] hooks by simp
  with acc obtain m where m: "Node_observe_term ?t ?n = Some m"
    and rest: "(if ?t < n_term m then Node_on_stale peer (env_message env) m
      else Node_dispatch (env_from env) peer (env_message env) m) = Some n'"
    by (auto simp: bind_eq_Some_conv simp del: if_split split del: if_split)
  note ob = observed [OF m]
  have c: "hushed {} n ?n" and eq: "log_equal n ?n"
    by (auto simp: log_equal_def static_def intro: hushedI)
  show ?thesis
  proof (rule heard_observed)
    show "hushed {} n m"
      using hushed_trans [OF c ob(1)] .
    show "stays n m" and "vote_kept n m"
      using ob(2,3) by (simp_all add: stays_def vote_kept_def)
    show "log_equal n m" if "n_role m \<noteq> Follower"
      using ob(4) [OF that] eq by simp
    show "outs m = outs n"
      using ob(5) by (simp add: outs_def)
    show "heard env m n'"
    proof (cases "?t < n_term m")
      case True
      then have "Node_on_stale peer (env_message env) m = Some n'"
        using rest by simp
      from yieldsD [OF stale_hushed [OF msg] this] show ?thesis
        by (intro heard.ignored) (auto simp: stays_def vote_kept_def)
    next
      case False
      then have tm: "n_term m = ?t"
        using ob(7) by simp
      have st: "static m = static ?n"
        using yieldsD [OF keeps_observe_term [OF f] m] by (simp add: keeps_def)
      then have fm: "fixed_engine m"
        using f fixed_engine_static by blast
      have same: "n_membership m = n_membership n" "n_peers m = n_peers n" "n_local m = n_local n"
        using st by (simp_all add: static_def)
      have "plain_log (n_state m)"
        using ob(6) plain by simp
      moreover have "remote peer m"
        using slot other fixed_local(2) [OF fixed] unfolding remote_def same by auto
      ultimately have "yields (Node_dispatch (env_from env) peer (env_message env) m) (heard env m)"
        using fm vs msg tm t0 slot len ob(5) by (intro heard_dispatch) (simp_all add: same)
      then show ?thesis
        using rest False by simp
    qed
  qed
qed

text \<open>A proposal.\<close>

lemma leads_proposed:
  assumes fixed: "fixed_engine n" and plain: "plain_log (n_state n)" and vs: "Membership_voters (n_membership n) \<noteq> []"
    and tm: "n_term n \<noteq> 0" and i: "checked_add (li_index (n_last n)) 1 = Some i"
    and push: "State_push \<lparr>en_id = \<lparr>li_index = i, li_term = n_term n\<rparr>, en_value = Some v\<rparr> (n_state n) = (Ok (), st)"
  shows "yields (Node_refresh_membership (n\<lparr>n_state := st, n_dirty := True, n_log_from := Some i\<rparr>) \<bind>
    (\<lambda>n2. Node_advance_commit (Node_set_local_matched l n2) \<bind> (\<lambda>(_, n3). Node_broadcast n3 \<bind> (\<lambda>n4. Some (r, n4)))))
    (\<lambda>(_, n'). leads n n')"
proof -
  let ?m = "n\<lparr>n_state := st, n_dirty := True, n_log_from := Some i\<rparr>"
  let ?m' = "Node_set_local_matched l ?m"
  have lm: "leads n ?m"
    using leads_push(1) [OF plain push] by simp
  then have l: "leads n ?m'"
    using leads_trans [OF fixed _ leads_set_local_matched] by blast
  have f: "fixed_engine ?m" "fixed_engine ?m'"
    using fixed leads_fixed [OF lm] leads_fixed [OF l] by blast+
  have "plain_log (n_state ?m')"
    using plain_push [OF plain push] i tm by (simp add: Node_set_local_matched_def)
  moreover have "n_membership ?m' = n_membership n"
    using l by (simp add: leads_def static_def)
  ultimately have "yields (Node_advance_commit ?m') (\<lambda>y. leads ?m' (snd y))"
    using vs f(2) by (intro leads_advance_commit) simp_all
  then have "yields (Node_advance_commit ?m' \<bind> (\<lambda>(_, n3). Node_broadcast n3 \<bind> (\<lambda>n4. Some (r, n4)))) (\<lambda>(_, n'). leads n n')"
    unfolding yields_bind
  proof (rule yields_conseq)
    fix y assume "leads ?m' (snd y)"
    then have "leads n (snd y)"
      using leads_trans [OF fixed l] by blast
    then have "yields (Node_broadcast (snd y)) (leads n)"
      using leads_from [OF fixed _ leads_broadcast] by blast
    then show "yields (case y of (_, n3) \<Rightarrow> Node_broadcast n3 \<bind> (\<lambda>n4. Some (r, n4))) (\<lambda>(_, n'). leads n n')"
      by (auto simp: case_prod_beta yields_bind)
  qed
  then show ?thesis
    using fixed_refresh [OF f(1)] by simp
qed

lemma log_propose:
  assumes inv: "Node_inv n" and fixed: "fixed_engine n" and plain: "plain_log (n_state n)"
    and vs: "Membership_voters (n_membership n) \<noteq> []" and p: "Node_propose v n = Some (Ok x, n')"
  shows "n_role n = Leader" and "Node_available n = Ok ()" and "leads n n'"
proof -
  obtain a m where am: "Node_propose_many 1 [Some v] n = Some (a, m)"
    using p by (auto simp: Node_propose_def bind_eq_Some_conv)
  then obtain y where pm: "Node_propose_many 1 [Some v] n = Some (Returned (Ok y), n')"
    using p by (cases a rule: Outcome.exhaust; auto simp: Node_propose_def split: Result.splits)
  show role: "n_role n = Leader" and "Node_available n = Ok ()"
    using pm by (auto simp: Node_propose_many_def split: Result.splits if_splits)
  have tm: "n_term n \<noteq> 0"
    using inv role by (simp add: Node_inv_def role_ok_def)
  let ?rest = "\<lambda>i j st. Node_refresh_membership (n\<lparr>n_state := st, n_dirty := True, n_log_from := Some i\<rparr>) \<bind>
    (\<lambda>n2. Node_advance_commit (Node_set_local_matched j n2) \<bind> (\<lambda>(_, n3). Node_broadcast n3 \<bind>
    (\<lambda>n4. Some (Returned (Ok \<lparr>pr_first = \<lparr>li_index = i, li_term = n_term n\<rparr>, pr_last = \<lparr>li_index = j, li_term = n_term n\<rparr>\<rparr>), n4))))"
  from pm obtain i e st where i: "checked_add (li_index (n_last n)) 1 = Some i"
    and pv: "push_values State_push \<lparr>li_index = i, li_term = n_term n\<rparr> 0 [Some v] (n_state n) = Some (e, st)"
    by (auto simp: Node_propose_many_def Let_def bind_eq_Some_conv simp del: push_values.simps
        split: Result.splits if_splits option.splits)
  have e: "e = PushDone"
    using pm i pv by (cases e) (auto simp: Node_propose_many_def simp del: push_values.simps split: Result.splits if_splits)
  note push = pv [unfolded e]
  have rest: "?rest i i st = Some (Returned (Ok y), n')"
    using pm i push by (auto simp: Node_propose_many_def BatchRollback_drop_def Let_def simp del: push_values.simps split: Result.splits if_splits)
  have "State_push \<lparr>en_id = \<lparr>li_index = i, li_term = n_term n\<rparr>, en_value = Some v\<rparr> (n_state n) = (Ok (), st)"
    using push by (auto simp: bind_eq_Some_conv checked_add_def split: prod.splits Result.splits)
  from yieldsD [OF leads_proposed [OF fixed plain vs tm i this] rest] show "leads n n'"
    by simp
qed

text \<open>A timeout.\<close>

lemma hushed_campaign:
  assumes fixed: "fixed_engine n" and len: "length (n_votes n) = Node_N n" and others: "\<not> alone n"
  shows "yields (Node_campaign t n) (hushed {OutVote} n)"
proof -
  let ?n1 = "(set_hard (\<lambda>h. h\<lparr>hs_term := t, hs_voted_for := Some (cfg_id (n_config n))\<rparr>)
                 (n\<lparr>n_prevoting := None\<rparr>))\<lparr>n_dirty := True, n_role := Candidate, n_leader := None\<rparr>"
  let ?n2 = "?n1\<lparr>n_votes := own_vote n\<rparr>"
  have self: "Node_vote_for_self ?n1 = Some ?n2"
    using fixed_local(1) [OF fixed] len
    by (simp add: Node_vote_for_self_def own_vote_def set_hard_def index_write_def)
  have c2: "hushed {OutVote} n ?n2"
    by (auto simp: hushed_def same_log_def outs_def set_hard_def)
  have st2: "static ?n2 = static n"
    using fixed by (simp add: static_def set_hard_def fixed_engine_def)
  have "yields (if Node_election_quorum m then Node_become_leader m else Node_ask_voters OutVote m) (hushed {OutVote} n)"
    if m: "keeps ?n2 m \<and> hushed {OutVote} ?n2 m" for m
  proof -
    have "static m = static n" and "n_votes m = own_vote n"
      using m st2 by (simp_all add: keeps_def ballot_def)
    then have "\<not> Node_election_quorum m"
      using own_vote_quorum [OF fixed len] others by simp
    then show ?thesis
      using hushed_from [OF hushed_trans [OF c2] hushed_ask_voters] m by simp
  qed
  then show ?thesis
    unfolding Node_campaign_def Let_def self Option.bind.simps yields_bind
    by (rule yields_conseq [OF yields_conj [OF keeps_reset_election hushed_reset_election]])
qed

lemma log_tick:
  assumes inv: "Node_inv n" and ok: "ballot_ok n" and tick: "Node_tick n = Some (Ok (), n')"
  shows "n_term n' = n_term n \<and> n_role n' = n_role n \<and> (n_role n = Leader \<or> hushed {} n n')
    \<or> n_role n \<noteq> Leader \<and> n_role n' = Candidate \<and> n_term n < n_term n'
      \<and> hs_voted_for (n_hard n') = Some (cfg_id (n_config n)) \<and> hushed {OutVote} n n'"
proof -
  have fixed: "fixed_engine n" and others: "\<not> alone n" and len: "length (n_votes n) = Node_N n"
    and hooks: "n_hooks n = None"
    using inv ok by (auto simp: ballot_ok_def Node_inv_def slots_ok_def fixed_engine_def)
  let ?m = "n\<lparr>n_elapsed := saturating_add (n_elapsed n) 1, n_leader_age := saturating_add (n_leader_age n) 1\<rparr>"
  have timers: "Node_timers ?m = Some (Ok (), n')"
    using tick by (auto simp: Node_tick_def Node_check_quorum_def Let_def hooks split: Result.splits)
  have k: "n_role n' = n_role n \<and> n_term n' = n_term n" if "n_role n = Leader"
    using yieldsD [OF ballot_tick [OF fixed len others] tick] that by (auto simp: keeps_def ballot_def)
  show ?thesis
  proof (cases "n_role n = Leader")
    case True
    then show ?thesis
      using k by blast
  next
    case False
    then consider "n' = ?m"
      | t where "checked_add (n_term n) 1 = Some t" "Node_campaign t ?m = Some n'"
      using timers by (auto simp: Node_timers_def hooks bind_eq_Some_conv split: if_splits option.splits)
    then show ?thesis
    proof cases
      case 1
      then show ?thesis
        using hushedI [of n' n "{}"] by simp
    next
      case 2
      have st: "static ?m = static n"
        by (simp add: static_def)
      then have m: "fixed_engine ?m" "length (n_votes ?m) = Node_N ?m" "\<not> alone ?m"
        using fixed len others fixed_engine_static alone_static by (blast, simp, blast)
      have c: "hushed {OutVote} n n'"
        using hushed_trans [OF hushedI [of ?m n] yieldsD [OF hushed_campaign [OF m] 2(2)]] by simp
      have "keeps (candidate t ?m) n'"
        using yieldsD [OF keeps_campaign [OF m] 2(2)] .
      then have "n_role n' = Candidate" "n_term n' = t" "hs_voted_for (n_hard n') = Some (cfg_id (n_config n))"
        by (simp_all add: keeps_def ballot_def candidate_def set_hard_def)
      moreover have "n_term n < t"
        using 2(1) by (auto simp: u64)
      ultimately show ?thesis
        using False c by blast
    qed
  qed
qed

section \<open>Messages\<close>

text \<open>What a node without snapshot and hooks hands out.\<close>

fun sends :: "('v, 's) Node \<Rightarrow> ('v, 's) Message \<Rightarrow> bool" where
  "sends n (Vote t lst) \<longleftrightarrow> OutVote \<in> outs n \<and> t = n_term n \<and> lst = n_last n"
| "sends n (Voted t granted) \<longleftrightarrow> t = n_term n"
| "sends n (Append t previous entry cm) \<longleftrightarrow>
     OutReplicate \<in> outs n \<and> t = n_term n \<and> cm = n_commit n
     \<and> id_at (n_log n) (unat (li_index previous)) = Some previous
     \<and> (\<forall>e. entry = Some e \<longrightarrow> unat (li_index previous) < length (n_log n) \<and> e = n_log n ! unat (li_index previous))"
| "sends n (Replicated t index rejection) \<longleftrightarrow> t = n_term n \<and> OutReplicated index rejection \<in> outs n"
| "sends n _ \<longleftrightarrow> False"

lemma id_at_index:
  assumes "log_chain LogId_default X" and "id_at X j = Some p"
  shows "unat (li_index p) = j"
  using assms log_chain_nth [OF assms(1), of "j - 1"]
  by (auto simp: id_at_def LogId_default_def split: if_splits)

lemma log_message:
  assumes inv: "Node_inv n" and ok: "ballot_ok n" and plain: "plain_log (n_state n)"
    and nm: "Node_next_message n = Some (Some env, n')"
  shows "sends n (env_message env)" and "outs n' \<subseteq> outs n"
proof -
  have fixed: "fixed_engine n"
    using ok by (simp add: ballot_ok_def)
  have hooks: "n_hooks n = None" "n_extra_reply n = None"
    using fixed unfolding fixed_engine_def by blast+
  from nm hooks(2) obtain k to out m where k: "k < length (n_outbox n)"
    and to: "n_peers n ! k = Some to" "n_outbox n ! k = Some out"
    and n': "n' = n\<lparr>n_outbox := (n_outbox n)[k := None]\<rparr>"
    and m: "Node_message k out n' = Some (Some m)" "env_message env = m"
    by (auto simp: Node_next_message_def Node_emit_def position_Some bind_eq_Some_conv split: if_splits option.splits)
  show "outs n' \<subseteq> outs n"
    using set_update_subset_insert [of "n_outbox n" k None] by (auto simp: outs_def n')
  have out: "out \<in> outs n"
    using k to(2) by (auto simp: outs_def in_set_conv_nth)
  have "plain_out out \<or> out = OutVoted True"
    using ok k to by (auto simp: ballot_ok_def out_ok_def)
  have facts: "State_base (n_state n) = LogId_default" "log_chain LogId_default (n_log n)" "st_snapshot (n_state n) = None"
    using plain_log_facts [OF plain] plain by (simp_all add: plain_log_def)
  have rep: "sends n m" if r: "Node_replicate_message k n' = Some (Some m)" and o: "OutReplicate \<in> outs n"
  proof -
    let ?x = "n_next n ! k"
    from r obtain b p where b: "checked_sub ?x 1 = Some b" "State_id_at b (n_state n) = Some p"
      "m = Append (n_term n) p (State_get ?x (n_state n)) (n_commit n)"
      by (auto simp: Node_replicate_message_def Let_def hooks n' facts(3) bind_eq_Some_conv split: if_splits)
    have p: "id_at (n_log n) (unat b) = Some p"
      using b(2) plain_id_at [OF plain] by simp
    then have "unat (li_index p) = unat b" and x: "unat ?x = Suc (unat b)"
      using id_at_index [OF facts(2)] b(1) by (auto simp: u64)
    then show ?thesis
      using b(3) p o plain_get [OF plain, of ?x] by auto
  qed
  show "sends n (env_message env)"
    using m(1) out \<open>plain_out out \<or> out = OutVoted True\<close> rep unfolding m(2)
    by (cases out rule: plain_out.cases) (auto simp: Node_message_def n' Let_def)
qed

end
