(* ===== verification/Jarl_Logs.thy ===== *)
theory Jarl_Logs
  imports Jarl_Replica Jarl_Explore
begin

text \<open>
  The logs of the explored cluster (\<open>Jarl_World\<close>). To the votes \<open>G\<close> of \<open>Jarl_Election\<close> the
  invariant adds the ghosts of \<open>Jarl_Agreement\<close>: the logs \<open>L\<close> of the leaders and the
  acknowledgements \<open>A\<close>. \<open>agree G L A N D net history\<close> relates them to the nodes \<open>N\<close>, their disks \<open>D\<close>,
  the network and the history the oracle has seen. An action is a call at a node (\<open>agree_call\<close>:
  a message, a timeout, a proposal or a restart), perhaps a save (\<open>agree_save\<close>), the
  registration of what is durable now (\<open>agree_settle\<close>) and the output (\<open>agree_output\<close>).
\<close>

section \<open>The invariant\<close>

abbreviation majority :: "(Id \<Rightarrow> bool) \<Rightarrow> bool" where
  "majority a \<equiv> Membership_quorum a world_membership"

interpretation majority: quorum_system majority
  using world_membership_facts(3) stable.overlap [of world_membership]
  by unfold_locales (auto elim: quorum_mono)

abbreviation d_term :: "WState \<Rightarrow> u64" where
  "d_term d \<equiv> hs_term (st_hard d)"

definition stored :: "u64 Led \<Rightarrow> Acks \<Rightarrow> usize \<Rightarrow> WState \<Rightarrow> bool" where
  "stored L A i st \<longleftrightarrow>
     st_snapshot st = None
     \<and> replica_ok majority L A (wid i) (State_entries st) (d_term st) (unat (hs_commit (st_hard st)))"

definition leading :: "u64 Led \<Rightarrow> Acks \<Rightarrow> usize \<Rightarrow> WNode \<Rightarrow> bool" where
  "leading L A i n \<longleftrightarrow>
     (n_role n = Leader \<longrightarrow>
        L (n_term n) = Some (wid i, n_log n)
        \<and> (\<forall>k < 3. k \<noteq> i \<longrightarrow> n_matched n ! k \<noteq> 0 \<longrightarrow> (wid k, n_term n, unat (n_matched n ! k)) \<in> A))"

definition standing :: "Grants \<Rightarrow> u64 Led \<Rightarrow> Acks \<Rightarrow> usize \<Rightarrow> WNode \<Rightarrow> bool" where
  "standing G L A i n \<longleftrightarrow>
     (n_role n = Candidate \<longrightarrow>
        (\<forall>l. L (n_term n) \<noteq> Some (wid i, l))
        \<and> (L (n_term n) = None \<longrightarrow> (\<forall>v. (v, n_term n, wid i) \<in> G \<longrightarrow> supports L A v (n_term n) (n_last n))))"

definition answered :: "u64 Led \<Rightarrow> Acks \<Rightarrow> u64 \<Rightarrow> nat \<Rightarrow> u64 Entry list \<Rightarrow> bool" where
  "answered L A t x X \<longleftrightarrow> (\<exists>c. (\<exists>l. L t = Some (c, l)) \<and> holds L t x X \<and> (c, t, x) \<in> A)"

definition answering :: "u64 Led \<Rightarrow> Acks \<Rightarrow> WNode \<Rightarrow> bool" where
  "answering L A n \<longleftrightarrow>
     (OutReplicate \<in> outs n \<longrightarrow> n_role n = Leader) \<and> (OutVote \<in> outs n \<longrightarrow> n_role n = Candidate)
     \<and> (\<forall>x. OutReplicated x None \<in> outs n \<longrightarrow> x \<noteq> 0 \<longrightarrow> answered L A (n_term n) (unat x) (n_log n))"

definition site_log :: "Grants \<Rightarrow> u64 Led \<Rightarrow> Acks \<Rightarrow> usize \<Rightarrow> WNode \<Rightarrow> WState \<Rightarrow> bool" where
  "site_log G L A i n d \<longleftrightarrow>
     stored L A i (n_state n) \<and> stored L A i d \<and> leading L A i n \<and> standing G L A i n \<and> answering L A n"

text \<open>Terms of leaders and of votes have reached the disk of the leader or candidate.\<close>

definition dated :: "Grants \<Rightarrow> u64 Led \<Rightarrow> (usize \<Rightarrow> WState) \<Rightarrow> bool" where
  "dated G L D \<longleftrightarrow>
     (\<forall>t c l. L t = Some (c, l) \<longrightarrow> (\<exists>i < 3. c = wid i \<and> t \<le> d_term (D i)))
     \<and> (\<forall>v t. \<forall>i < 3. (v, t, wid i) \<in> G \<longrightarrow> t \<le> d_term (D i))"

text \<open>The vote of node \<open>n\<close> of site \<open>i\<close> for another site.\<close>

definition chose :: "Grants \<Rightarrow> (usize \<Rightarrow> WNode) \<Rightarrow> (usize \<Rightarrow> WState) \<Rightarrow> usize \<Rightarrow> WNode \<Rightarrow> bool" where
  "chose G N D i n \<longleftrightarrow>
     (\<forall>c < 3. c \<noteq> i \<longrightarrow> hs_voted_for (n_hard n) = Some (wid c) \<longrightarrow>
        n_term n \<le> d_term (D c)
        \<and> ((wid i, n_term n, wid c) \<notin> G \<longrightarrow> n_role (N c) = Candidate \<longrightarrow> n_term (N c) = n_term n \<longrightarrow>
             log_up_to_date (n_last (N c)) (n_last n)))"

fun told :: "u64 Led \<Rightarrow> Acks \<Rightarrow> Id \<Rightarrow> WNode \<Rightarrow> (u64, unit) Message \<Rightarrow> bool" where
  "told L A c n (Vote t lst) \<longleftrightarrow> (n_role n = Candidate \<longrightarrow> n_term n = t \<longrightarrow> lst = n_last n)"
| "told L A c n (Voted t granted) \<longleftrightarrow> True"
| "told L A c n (Append t previous entry cm) \<longleftrightarrow>
     (\<exists>l. L t = Some (c, l) \<and> unat cm \<le> length l \<and> decided majority L A (take (unat cm) l)
        \<and> id_at l (unat (li_index previous)) = Some previous
        \<and> (case entry of
             None \<Rightarrow> unat (li_index previous) = 0 \<or> (c, t, unat (li_index previous)) \<in> A
           | Some e \<Rightarrow> unat (li_index previous) < length l \<and> e = l ! unat (li_index previous)
               \<and> (c, t, Suc (unat (li_index previous))) \<in> A))"
| "told L A c n (Replicated t index rejection) \<longleftrightarrow> (rejection = None \<longrightarrow> index \<noteq> 0 \<longrightarrow> (c, t, unat index) \<in> A)"
| "told L A c n _ \<longleftrightarrow> False"

definition carried :: "u64 Led \<Rightarrow> Acks \<Rightarrow> (usize \<Rightarrow> WNode) \<Rightarrow> (usize \<Rightarrow> WState) \<Rightarrow> WEnvelope \<Rightarrow> bool" where
  "carried L A N D env \<longleftrightarrow>
     (\<exists>i < 3. env_from env = wid i \<and> Message_term (env_message env) \<le> d_term (D i)
        \<and> told L A (wid i) (N i) (env_message env))"

definition agree :: "Grants \<Rightarrow> u64 Led \<Rightarrow> Acks \<Rightarrow> (usize \<Rightarrow> WNode) \<Rightarrow> (usize \<Rightarrow> WState) \<Rightarrow> WEnvelope list
    \<Rightarrow> u64 Entry list \<Rightarrow> bool" where
  "agree G L A N D net history \<longleftrightarrow>
     leaders_ok L \<and> elections_ok majority G L A \<and> acks_ok L A \<and> dated G L D
     \<and> (\<forall>i < 3. site_log G L A i (N i) (D i)) \<and> (\<forall>i < 3. chose G N D i (N i))
     \<and> (\<forall>env \<in> set net. carried L A N D env) \<and> decided majority L A history"

section \<open>Growth\<close>

lemma acks_grows:
  assumes ok: "acks_ok L A" and g: "grows L L'"
  shows "acks_ok L' A"
  unfolding acks_ok_def
proof (intro allI impI conjI)
  fix v t i assume a: "(v, t, i) \<in> A"
  then obtain c l where l: "L t = Some (c, l)" "i \<le> length l" "(c, t, i) \<in> A"
    using ok unfolding acks_ok_def by blast
  obtain xs where "L' t = Some (c, l @ xs)"
    using growsD [OF g l(1)] by blast
  then show "\<exists>c l. L' t = Some (c, l) \<and> i \<le> length l \<and> (c, t, i) \<in> A"
    using l by auto
  show "0 < i"
    using ok a unfolding acks_ok_def by blast
  show "(v, t, j) \<in> A" if "0 < j" "j \<le> i" for j
    using ok a that unfolding acks_ok_def by blast
qed

lemma stored_grows:
  assumes "stored L A i st" and "grows L L'" and "A \<subseteq> A'"
    and "\<And>t x. (wid i, t, x) \<in> A' \<Longrightarrow> (wid i, t, x) \<notin> A \<Longrightarrow> t \<le> d_term st \<and> retains L' t x (d_term st) (State_entries st)"
  shows "stored L' A' i st"
  using assms majority.replica_grows [of L A "wid i" "State_entries st" "d_term st" _ L' A' "d_term st"]
  unfolding stored_def by blast

lemma answered_grows:
  assumes "answered L A t x X" and g: "grows L L'" and "A \<subseteq> A'"
  shows "answered L' A' t x X"
proof -
  obtain c l where l: "L t = Some (c, l)" "holds L t x X" "(c, t, x) \<in> A"
    using assms(1) unfolding answered_def by blast
  obtain xs where "L' t = Some (c, l @ xs)"
    using growsD [OF g l(1)] by blast
  then show ?thesis
    using holds_grows [OF l(2) g] l(3) assms(3) unfolding answered_def by blast
qed

lemma answering_grows: "answering L A n \<Longrightarrow> grows L L' \<Longrightarrow> A \<subseteq> A' \<Longrightarrow> answering L' A' n"
  unfolding answering_def using answered_grows by blast

lemma id_at_append: "id_at l j = Some p \<Longrightarrow> id_at (l @ xs) j = Some p"
  by (auto simp: id_at_def nth_append split: if_splits)

lemma told_grows:
  assumes "told L A c n m" and g: "grows L L'" and sub: "A \<subseteq> A'"
  shows "told L' A' c n m"
proof (cases m)
  case (Append t previous entry cm)
  let ?j = "unat (li_index previous)"
  obtain l where l: "L t = Some (c, l)" "unat cm \<le> length l" "decided majority L A (take (unat cm) l)"
    "id_at l ?j = Some previous"
    "case entry of None \<Rightarrow> ?j = 0 \<or> (c, t, ?j) \<in> A | Some e \<Rightarrow> ?j < length l \<and> e = l ! ?j \<and> (c, t, Suc ?j) \<in> A"
    using assms(1) Append by auto
  obtain xs where xs: "L' t = Some (c, l @ xs)"
    using growsD [OF g l(1)] by blast
  have "decided majority L' A' (take (unat cm) (l @ xs))"
    using majority.decided_grow [OF l(3) g sub] l(2) by simp
  moreover have "case entry of None \<Rightarrow> ?j = 0 \<or> (c, t, ?j) \<in> A'
      | Some e \<Rightarrow> ?j < length (l @ xs) \<and> e = (l @ xs) ! ?j \<and> (c, t, Suc ?j) \<in> A'"
    using l(5) sub by (auto simp: nth_append split: option.splits)
  ultimately show ?thesis
    using xs l(2) id_at_append [OF l(4)] Append by auto
qed (use assms in auto)

lemma standing_grows:
  assumes "standing G L A i n" and g: "grows L L'" and own: "\<And>t. L' t \<noteq> L t \<Longrightarrow> \<exists>l. L' t = Some (wid j, l)"
    and ij: "i < 3" "j < 3" "i \<noteq> j"
    and new: "\<And>v t x. (v, t, x) \<in> A' \<Longrightarrow> (v, t, x) \<notin> A \<Longrightarrow> (v, n_term n, wid i) \<in> G \<Longrightarrow> n_term n \<le> t"
  shows "standing G L' A' i n"
  unfolding standing_def
proof (intro impI conjI allI)
  assume role: "n_role n = Candidate"
  fix l show "L' (n_term n) \<noteq> Some (wid i, l)"
    using assms(1) role own [of "n_term n"] wid_inj [OF ij(1,2)] ij(3) unfolding standing_def by (metis option.inject prod.inject)
next
  fix v assume role: "n_role n = Candidate" and none: "L' (n_term n) = None" and v: "(v, n_term n, wid i) \<in> G"
  have "L (n_term n) = None"
    using none own [of "n_term n"] by fastforce
  then have "supports L A v (n_term n) (n_last n)"
    using assms(1) role v unfolding standing_def by blast
  then show "supports L' A' v (n_term n) (n_last n)"
    by (rule supports_grows [OF _ g]) (rule new [OF _ _ v])
qed

lemma leading_grows:
  assumes "leading L A i n" and g: "grows L L'" and own: "\<And>t. L' t \<noteq> L t \<Longrightarrow> \<exists>l. L' t = Some (wid j, l)"
    and ij: "i < 3" "j < 3" "i \<noteq> j" and "A \<subseteq> A'"
  shows "leading L' A' i n"
  unfolding leading_def
proof (intro impI conjI)
  assume role: "n_role n = Leader"
  then have l: "L (n_term n) = Some (wid i, n_log n)"
    using assms(1) unfolding leading_def by blast
  have "L' (n_term n) = L (n_term n)"
    using own [of "n_term n"] growsD [OF g l] wid_inj [OF ij(1,2)] ij(3) by (metis option.inject prod.inject)
  then show "L' (n_term n) = Some (wid i, n_log n)"
    using l by simp
  show "\<forall>k < 3. k \<noteq> i \<longrightarrow> n_matched n ! k \<noteq> 0 \<longrightarrow> (wid k, n_term n, unat (n_matched n ! k)) \<in> A'"
    using assms(1,7) role unfolding leading_def by blast
qed

section \<open>A call\<close>

lemma agreeD:
  assumes "agree G L A N D net history"
  shows "leaders_ok L" and "elections_ok majority G L A" and "acks_ok L A" and "dated G L D"
    and "i < 3 \<Longrightarrow> stored L A i (n_state (N i))" and "i < 3 \<Longrightarrow> stored L A i (D i)" and "i < 3 \<Longrightarrow> leading L A i (N i)"
    and "i < 3 \<Longrightarrow> standing G L A i (N i)" and "i < 3 \<Longrightarrow> answering L A (N i)" and "i < 3 \<Longrightarrow> chose G N D i (N i)"
    and "env \<in> set net \<Longrightarrow> carried L A N D env" and "decided majority L A history"
  using assms by (auto simp: agree_def site_log_def)

text \<open>The candidate of site \<open>i\<close> is the one it was, or of a term that is on no disk.\<close>

definition restands :: "WState \<Rightarrow> WNode \<Rightarrow> WNode \<Rightarrow> bool" where
  "restands d n n' \<longleftrightarrow>
     (n_role n' = Candidate \<longrightarrow>
        n_role n = Candidate \<and> n_term n' = n_term n \<and> n_last n' = n_last n \<or> d_term d < n_term n')"

lemma told_restands:
  assumes "told L A c n m" and "restands d n n'" and "Message_term m \<le> d_term d"
  shows "told L A c n' m"
  using assms by (cases m) (auto simp: restands_def)

lemma chose_restands:
  assumes "chose G N D j n" and "restands (D i) (N i) n'" and "i < 3"
  shows "chose G (N(i := n')) D j n"
  using assms by (auto simp: chose_def restands_def)

lemma agree_call:
  assumes ok: "agree G L A N D net history" and i: "i < 3" and g: "grows L L'" and lead: "leaders_ok L'"
    and el: "elections_ok majority G L' A"
    and own: "\<And>t. L' t \<noteq> L t \<Longrightarrow> t \<le> d_term (D i) \<and> (\<exists>l. L' t = Some (wid i, l))"
    and n: "stored L' A i (n_state n)" "leading L' A i n" "standing G L' A i n" "answering L' A n"
    and vote: "chose G N D i n" and re: "restands (D i) (N i) n" and net: "set net' \<subseteq> set net"
  shows "agree G L' A (N(i := n)) D net' history"
proof -
  note old = agreeD [OF ok]
  have own': "\<exists>l. L' t = Some (wid i, l)" if "L' t \<noteq> L t" for t
    using own [OF that] by blast
  have stored: "stored L' A j st" if "stored L A j st" for j st
    using that g by (rule stored_grows) simp_all
  have "site_log G L' A j ((N(i := n)) j) (D j)" if j: "j < 3" for j
  proof (cases "j = i")
    case True
    then show ?thesis
      using n stored [OF old(6) [OF j]] by (simp add: site_log_def)
  next
    case False
    then show ?thesis
      using stored [OF old(5) [OF j]] stored [OF old(6) [OF j]]
        leading_grows [OF old(7) [OF j] g own' j i] standing_grows [OF old(8) [OF j] g own' j i, where A' = A]
        answering_grows [OF old(9) [OF j] g]
      by (simp add: site_log_def)
  qed
  moreover have "chose G (N(i := n)) D j ((N(i := n)) j)" if j: "j < 3" for j
    using chose_restands [where N = N and D = D, OF _ re i] old(10) [OF j] vote by simp
  moreover have "carried L' A (N(i := n)) D env" if env: "env \<in> set net'" for env
  proof -
    obtain k where k: "k < 3" "env_from env = wid k" "Message_term (env_message env) \<le> d_term (D k)"
      "told L A (wid k) (N k) (env_message env)"
      using old(11) net env unfolding carried_def by blast
    then have "told L' A (wid k) ((N(i := n)) k) (env_message env)"
      using told_grows [OF _ g order.refl] told_restands [OF _ re] by auto
    then show ?thesis
      using k unfolding carried_def by blast
  qed
  moreover have "\<exists>k < 3. c = wid k \<and> t \<le> d_term (D k)" if l: "L' t = Some (c, l)" for t c l
  proof (cases "L' t = L t")
    case True
    then show ?thesis
      using old(4) l unfolding dated_def by metis
  next
    case False
    then show ?thesis
      using own [OF False] l i by auto
  qed
  then have "dated G L' D"
    using old(4) unfolding dated_def by blast
  moreover have "acks_ok L' A" and "decided majority L' A history"
    using acks_grows [OF old(3) g] majority.decided_grow [OF old(12) g] by simp_all
  ultimately show ?thesis
    using lead el unfolding agree_def by blast
qed

section \<open>A leader\<close>

lemma retains_extend:
  assumes "retains L t x T X"
  shows "retains L t x T (X @ es)"
proof (cases "holds L t x X")
  case True
  then obtain c l where l: "L t = Some (c, l)" "x \<le> length l" "take x X = take x l"
    unfolding holds_def by blast
  then have "x \<le> length X"
    using take_eq_length [of x l X] by simp
  then show ?thesis
    using l unfolding retains_def holds_def by auto
next
  case False
  then show ?thesis
    using assms unfolding retains_def by blast
qed

lemma site_plain:
  assumes "site i n" and "stored L A i (n_state n)"
  shows "plain_log (n_state n)"
  using assms by (simp add: plain_log_def stored_def site_def Node_inv_def log_ok_def)

text \<open>What a leader commits is committed by a quorum of acknowledgements.\<close>

lemma leader_commits:
  assumes i: "i < 3" and acks: "acks_ok L A" and l: "L T = Some (wid i, l)" "0 < x" "x \<le> length l" "en_term (l ! (x - 1)) = T"
    and q: "majority (\<lambda>v. v = wid i \<or> (\<exists>y \<ge> x. (v, T, y) \<in> A))"
  shows "committed_at majority L A T x"
proof -
  have ack: "(v, T, x) \<in> A" if "(v, T, y) \<in> A" "x \<le> y" for v y
    using acks that l(2) unfolding acks_ok_def by blast
  have ex: "\<exists>v. v \<noteq> wid i \<and> (\<exists>y \<ge> x. (v, T, y) \<in> A)"
  proof (rule ccontr)
    assume "\<not> ?thesis"
    then have "majority (\<lambda>v. v = wid i)"
      by (intro quorum_mono [OF q]) blast
    then show False
      using world_site(2) [OF i] by blast
  qed
  obtain v where "(v, T, x) \<in> A"
    using ack ex by blast
  then have "\<exists>c m. L T = Some (c, m) \<and> (c, T, x) \<in> A"
    using acks unfolding acks_ok_def by blast
  then have "(wid i, T, x) \<in> A"
    using l(1) by auto
  then have "majority (\<lambda>v. (v, T, x) \<in> A)"
    by (intro quorum_mono [OF q]) (use ack in blast)
  then show ?thesis
    using l unfolding committed_at_def by blast
qed

lemma world_matched:
  assumes "n_peers n = world_peers" and "x \<noteq> 0" and "x \<le> Node_matched v n"
  obtains k where "k < 3" and "v = wid k" and "x \<le> n_matched n ! k" and "n_matched n ! k \<noteq> 0"
proof -
  obtain k where k: "Node_peer_slot v n = Some k" "x \<le> n_matched n ! k"
    using assms by (auto simp: Node_matched_def split: option.splits)
  then have "k < 3" and "world_peers ! k = Some v"
    using assms(1) by (auto simp: Node_peer_slot_def position_Some)
  then have "v = wid k"
    using world_peers_nth by simp
  moreover have "n_matched n ! k \<noteq> 0"
    using k(2) assms(2) by auto
  ultimately show ?thesis
    using that \<open>k < 3\<close> k(2) by blast
qed

lemma log_last_before:
  assumes "rooted L X" and "L T = None" and "\<forall>e \<in> set X. en_term e \<le> T" and "\<forall>e \<in> set es. en_term e = T"
  shows "inherited T (X @ es) = X"
proof -
  have "en_term e < T" if e: "e \<in> set X" for e
  proof -
    obtain k where "k < length X" "X ! k = e"
      using e by (auto simp: in_set_conv_nth)
    then have "L (en_term e) \<noteq> None"
      using assms(1) unfolding rooted_def by fastforce
    then show ?thesis
      using assms(2,3) e by (metis order.not_eq_order_implies_strict)
  qed
  then have "inherited T X = X"
    by (simp add: inherited_def takeWhile_eq_all_conv)
  then show ?thesis
    using inherited_grows [OF assms(4), of X] by simp
qed

text \<open>The log of a leader after it appended and committed.\<close>

lemma leader_stored:
  assumes i: "i < 3" and site: "site i n" and st: "stored L A i (n_state n)" and acks: "acks_ok L' A"
    and lead: "leads (n\<lparr>n_role := Leader, n_matched := m\<rparr>) n'"
    and counted: "\<forall>k < 3. k \<noteq> i \<longrightarrow> m ! k \<noteq> 0 \<longrightarrow> (wid k, n_term n, unat (m ! k)) \<in> A"
    and g: "grows L L'" and L': "L' (n_term n) = Some (wid i, n_log n')"
  shows "stored L' A i (n_state n')"
proof -
  let ?T = "n_term n" and ?m = "n\<lparr>n_role := Leader, n_matched := m\<rparr>" and ?x = "unat (n_commit n')"
  have plain: "plain_log (n_state n)"
    using site_plain [OF site st] .
  obtain es where es: "n_log n' = n_log n @ es" "\<forall>e \<in> set es. en_term e = ?T"
    using lead unfolding leads_def by auto
  have "decided majority L' A (take ?x (n_log n'))"
  proof (cases "n_commit n' = n_commit n")
    case True
    have "decided majority L A (take ?x (n_log n))"
      using st True by (simp add: stored_def replica_ok_def)
    then show ?thesis
      using majority.decided_grow [OF _ g] plain_log_facts(7) [OF plain] es(1) True by simp
  next
    case False
    then have q: "majority (\<lambda>v. v = wid i \<or> n_commit n' \<le> Node_matched v ?m)"
      and x: "0 < ?x" "?x \<le> length (n_log n')" "en_term (n_log n' ! (?x - 1)) = ?T"
      using lead site_local(2) [OF site i] site unfolding leads_def by (auto simp: site_def)
    have "v = wid i \<or> (\<exists>y \<ge> ?x. (v, ?T, y) \<in> A)" if v: "v = wid i \<or> n_commit n' \<le> Node_matched v ?m" for v
    proof (cases "v = wid i")
      case False
      have "n_peers ?m = world_peers" "n_commit n' \<noteq> 0" "n_commit n' \<le> Node_matched v ?m"
        using x(1) site v False by (auto simp: site_def)
      then obtain k where k: "k < 3" "v = wid k" "n_commit n' \<le> m ! k" "m ! k \<noteq> 0"
        by (rule world_matched) simp
      then have "(v, ?T, unat (m ! k)) \<in> A"
        using counted False by auto
      then show ?thesis
        using k(3) by (auto simp: word_le_nat_alt)
    qed simp
    then have "majority (\<lambda>v. v = wid i \<or> (\<exists>y \<ge> ?x. (v, ?T, y) \<in> A))"
      by (intro quorum_mono [OF q])
    then have "committed_at majority L' A ?T ?x"
      using leader_commits [OF i acks L'] x by blast
    then show ?thesis
      using L' unfolding decided_def by auto
  qed
  moreover have "rooted L' (n_log n')"
    using rooted_extend [OF rooted_grows [OF _ g], of "n_log n" ?T "wid i" es] st es L' by (simp add: stored_def replica_ok_def)
  moreover have "t \<le> ?T \<and> retains L' t x ?T (n_log n')" if "(wid i, t, x) \<in> A" for t x
    using st that retains_extend [OF retains_grows [OF _ g]] es(1) by (simp add: stored_def replica_ok_def)
  moreover have "n_term n' = ?T" "st_snapshot (n_state n') = None"
    using lead plain unfolding leads_def by (simp_all add: plain_log_def)
  ultimately show ?thesis
    by (simp add: stored_def replica_ok_def)
qed

lemma leader_elections:
  assumes el: "elections_ok majority G L A" and g: "grows L (L(T \<mapsto> (c, X @ es)))"
    and X: "rooted L X" "\<forall>e \<in> set X. en_term e \<le> T" "\<forall>e \<in> set es. en_term e = T"
    and first: "L T = None \<Longrightarrow> majority (\<lambda>v. (v, T, c) \<in> G \<and> supports L A v T (log_last LogId_default X))"
  shows "elections_ok majority G (L(T \<mapsto> (c, X @ es))) A"
proof (rule majority.elections_grow [OF el g])
  let ?L = "L(T \<mapsto> (c, X @ es))"
  fix t d l assume l: "?L t = Some (d, l)" "L t = None"
  then have eqs: "t = T" "d = c" "l = X @ es"
    by (auto split: if_splits)
  then have inh: "inherited T (X @ es) = X"
    using log_last_before [OF X(1) _ X(2,3)] l(2) by simp
  have q: "majority (\<lambda>v. (v, T, c) \<in> G \<and> supports L A v T (log_last LogId_default X))"
    using first l(2) eqs(1) by simp
  show "majority (\<lambda>v. (v, t, d) \<in> G \<and> supports ?L A v t (log_last LogId_default (inherited t l)))"
    unfolding eqs inh by (rule quorum_mono [OF q]) (auto intro: supports_grows [OF _ g])
qed auto

lemma agree_leads:
  assumes ok: "agree G L A N D net history" and i: "i < 3" and site: "site i (N i)" "site i n'"
    and disk: "n_state (N i) = D i" and idle: "outs (N i) = {}"
    and lead: "leads ((N i)\<lparr>n_role := Leader, n_matched := m\<rparr>) n'"
    and counted: "\<forall>k < 3. k \<noteq> i \<longrightarrow> m ! k \<noteq> 0 \<longrightarrow> (wid k, n_term (N i), unat (m ! k)) \<in> A"
    and term_log: "L (n_term (N i)) = Some (wid i, n_log (N i))
      \<or> L (n_term (N i)) = None \<and> majority (\<lambda>v. (v, n_term (N i), wid i) \<in> G \<and> supports L A v (n_term (N i)) (n_last (N i)))"
    and net: "set net' \<subseteq> set net"
  shows "\<exists>L'. grows L L' \<and> agree G L' A (N(i := n')) D net' history"
proof -
  note old = agreeD [OF ok]
  let ?T = "n_term (N i)" and ?X = "n_log (N i)" and ?L = "L(n_term (N i) \<mapsto> (wid i, n_log n'))"
  have plain: "plain_log (n_state (N i))"
    using site_plain [OF site(1) old(5) [OF i]] .
  obtain es where es: "n_log n' = ?X @ es" "\<forall>e \<in> set es. en_term e = ?T"
    using lead unfolding leads_def by auto
  have n': "n_role n' = Leader" "n_term n' = ?T" "st_snapshot (n_state n') = None"
    using lead plain unfolding leads_def by (simp_all add: plain_log_def)
  have X: "rooted L ?X" "\<forall>e \<in> set ?X. en_term e \<le> ?T"
    using old(5) [OF i] plain_log_facts(6) [OF plain] by (auto simp: stored_def replica_ok_def)
  have t0: "?T \<noteq> 0" and voted: "hs_voted_for (n_hard n') = Some (wid i)"
    using site(2) n'(1,2) site_local(2) [OF site(2) i] by (simp_all add: site_def Node_inv_def role_ok_def)
  have g: "grows L ?L"
    using term_log es unfolding grows_def by auto
  have "plain_log (n_state n')"
    using site(2) n'(3) by (simp add: plain_log_def site_def Node_inv_def log_ok_def)
  then have lo: "leaders_ok ?L"
    using leaders_ok_update [OF old(1) X(1) es(2) _ X(2) t0, of "wid i"] g plain_log_facts(2) [of "n_state n'"] es(1) by simp
  have el: "elections_ok majority G ?L A"
    using leader_elections [OF old(2) g [unfolded es(1)] X es(2)] term_log plain_log_facts(4) [OF plain] es(1) by auto
  have "stored ?L A i (n_state n')"
    using leader_stored [OF i site(1) old(5) [OF i] acks_grows [OF old(3) g] lead counted g] by simp
  moreover have "leading ?L A i n'"
    using n' lead counted site_local(1) [OF site(1) i] unfolding leading_def leads_def by auto
  moreover have "answering ?L A n'"
    using lead idle n'(1) unfolding answering_def leads_def outs_def by auto
  moreover have "standing G ?L A i n'" and "restands (D i) (N i) n'" and "chose G N D i n'"
    using n'(1) voted wid_inj [OF i] by (auto simp: standing_def restands_def chose_def)
  moreover have "t \<le> d_term (D i) \<and> (\<exists>l. ?L t = Some (wid i, l))" if "?L t \<noteq> L t" for t
    using that disk by (auto split: if_splits)
  ultimately show ?thesis
    using agree_call [OF ok i g lo el] net g by blast
qed

section \<open>A follower or a candidate\<close>

lemma last_same: "same_log n n' \<Longrightarrow> n_last n' = n_last n"
  by (simp add: same_log_def State_last_def State_base_def)

lemma stored_later:
  assumes "stored L A i (n_state n)" and "same_log n n'" and "n_term n \<le> n_term n'"
  shows "stored L A i (n_state n')"
  using assms majority.replica_grows [of L A "wid i" "n_log n" "n_term n" _ L A "n_term n'"]
  by (auto simp: stored_def same_log_def)

lemma agree_hushed:
  assumes ok: "agree G L A N D net history" and i: "i < 3" and le: "n_term (N i) \<le> n_term n'"
    and same: "same_log (N i) n'" and stay: "stays (N i) n'" and ans: "answering L A n'" and vote: "chose G N D i n'"
    and net: "set net' \<subseteq> set net"
  shows "agree G L A (N(i := n')) D net' history"
proof (rule agree_call [OF ok i grows_refl])
  note old = agreeD [OF ok]
  show "leaders_ok L" and "elections_ok majority G L A"
    using old(1,2) .
  show "stored L A i (n_state n')"
    using stored_later [OF old(5) [OF i] same le] .
  show "leading L A i n'"
    using old(7) [OF i] same stay unfolding leading_def stays_def same_log_def by auto
  show "standing G L A i n'" and "restands (D i) (N i) n'"
    using old(8) [OF i] last_same [OF same] stay unfolding standing_def stays_def restands_def by auto
qed (use ans vote net in auto)

lemma chose_kept:
  assumes "chose G N D i n" and "registered G i d" and "n_state n = d" and "vote_kept n n'"
  shows "chose G N D i n'"
  using assms by (auto simp: chose_def vote_kept_def registered_def)

text \<open>A follower stores what a leader sent.\<close>

lemma replica_max:
  assumes "replica_ok Q L A v X T (unat (a :: u64))" and "replica_ok Q L A v X T (unat b)"
  shows "replica_ok Q L A v X T (unat (max a b))"
  using assms by (simp add: max_def)

lemma entry_stored:
  assumes ok: "leaders_ok L" "acks_ok L A" and r0: "replica_ok majority L A v X T (unat (c :: u64))"
    and l: "L T = Some (d, l)" "j < length l" "id_at l j = Some p" and match: "id_at X j = Some p"
    and new: "if id_at X (Suc j) = Some (en_id (l ! j)) then Y = X else unat c \<le> j \<and> Y = take j X @ [l ! j]"
  shows "replica_ok majority L A v Y T (unat c) \<and> holds L T (Suc j) Y"
proof (cases "id_at X (Suc j) = Some (en_id (l ! j))")
  case True
  moreover have "id_at l (Suc j) = Some (en_id (l ! j))"
    using l(2) by (simp add: id_at_def)
  ultimately show ?thesis
    using r0 new replica_match [OF ok(1) _ l(1)] by (simp add: replica_ok_def)
next
  case False
  then show ?thesis
    using replica_append [OF ok r0 l(1,2) match l(3)] new by simp
qed

lemma appends_stored:
  assumes ok: "leaders_ok L" "acks_ok L A" and r0: "replica_ok majority L A v (n_log n) T (unat (n_commit n))"
    and told: "told L A d x (Append T previous entry cm)" and app: "appends previous entry cm r n m"
  shows "replica_ok majority L A v (n_log m) T (unat (n_commit m))
    \<and> (snd r = None \<longrightarrow> fst r \<noteq> 0 \<longrightarrow> answered L A T (unat (fst r)) (n_log m))"
proof -
  let ?j = "unat (li_index previous)"
  obtain l where l: "L T = Some (d, l)" and dec: "decided majority L A (take (unat cm) l)"
    and p: "id_at l ?j = Some previous"
    and e: "case entry of None \<Rightarrow> ?j = 0 \<or> (d, T, ?j) \<in> A | Some e \<Rightarrow> ?j < length l \<and> e = l ! ?j \<and> (d, T, Suc ?j) \<in> A"
    using told by auto
  have root: "rooted L (n_log n)" and ch: "log_chain LogId_default l"
    using r0 ok(1) l by (auto simp: replica_ok_def leaders_ok_def)
  have upto: "replica_ok majority L A v X T (unat (max a (min cm b)))"
    if "replica_ok majority L A v X T (unat a)" "holds L T k X" "unat b \<le> k" for X k and a b :: u64
    using that(3) by (intro replica_max [OF that(1)] replica_commit [OF that(1,2) l dec]) (auto simp: min_def word_le_nat_alt)
  have held: "holds L T ?j (n_log n)" if "id_at (n_log n) ?j = Some previous"
    using replica_match [OF ok(1) root l that p] .
  consider (refused) y where "snd r = Some y" | (empty) "snd r = None" "entry = None"
    | (entry) x where "snd r = None" "entry = Some x"
    by fastforce
  then show ?thesis
  proof cases
    case refused
    then show ?thesis
      using app r0 upto [OF r0 held, of "li_index previous"] by (auto simp: appends_def Let_def)
  next
    case empty
    then have match: "id_at (n_log n) ?j = Some previous" and "fst r = li_index previous" "n_log m = n_log n"
      "n_commit m = max (n_commit n) (min cm (fst r))"
      using app by (simp_all add: appends_def Let_def)
    then show ?thesis
      using upto [OF r0 held [OF match], of "fst r"] held [OF match] empty e l by (auto simp: answered_def unat_eq_0)
  next
    case (entry x)
    then have x: "x = l ! ?j" "?j < length l" "(d, T, Suc ?j) \<in> A" and f: "fst r = li_index (en_id x)"
      and match: "id_at (n_log n) ?j = Some previous" and c: "n_commit m = max (n_commit n) (min cm (fst r))"
      using app e by (simp_all add: appends_def Let_def)
    have j: "unat (fst r) = Suc ?j"
      using log_chain_nth [OF ch x(2)] by (simp add: f x(1) LogId_default_def)
    have "replica_ok majority L A v (n_log m) T (unat (n_commit n)) \<and> holds L T (Suc ?j) (n_log m)"
      by (rule entry_stored [OF ok r0 l x(2) p match])
        (use app entry j x(1) in \<open>auto simp: appends_def Let_def word_less_nat_alt\<close>)
    then show ?thesis
      using upto [of "n_log m" "n_commit n" "Suc ?j" "fst r"] j x(3) l by (auto simp: c answered_def)
  qed
qed

lemma agree_append:
  assumes ok: "agree G L A N D net history" and i: "i < 3" and le: "n_term (N i) \<le> n_term n'"
    and msg: "env \<in> set net" "env_message env = Append (n_term n') previous entry cm"
    and role: "n_role n' = Follower" and vote: "chose G N D i n'" and app: "appends previous entry cm r (N i) m"
    and hushed: "hushed {OutReplicated (fst r) (snd r)} m n'" and idle: "outs (N i) = {}" and net: "set net' \<subseteq> set net"
  shows "agree G L A (N(i := n')) D net' history"
proof (rule agree_call [OF ok i grows_refl])
  note old = agreeD [OF ok]
  show "leaders_ok L" and "elections_ok majority G L A"
    using old(1,2) .
  obtain c where told: "told L A (wid c) (N c) (Append (n_term n') previous entry cm)"
    using old(11) [OF msg(1)] msg(2) unfolding carried_def by auto
  have "replica_ok majority L A (wid i) (n_log (N i)) (n_term n') (unat (n_commit (N i)))"
    using old(5) [OF i] le unfolding stored_def by (auto intro: majority.replica_grows)
  note st = appends_stored [OF old(1,3) this told app]
  have eqs: "n_log n' = n_log m" "n_commit n' = n_commit m" "st_snapshot (n_state n') = st_snapshot (n_state (N i))"
    and outs: "outs n' \<subseteq> {OutReplicated (fst r) (snd r)}"
    using hushed app idle unfolding hushed_def same_log_def appends_def by auto
  show "stored L A i (n_state n')"
    using st old(5) [OF i] eqs by (simp add: stored_def)
  show "leading L A i n'" and "standing G L A i n'" and "restands (D i) (N i) n'"
    using role by (simp_all add: leading_def standing_def restands_def)
  show "answering L A n'"
    using outs st eqs(1) unfolding answering_def by auto
qed (use net vote in auto)

section \<open>Saving, settling and output\<close>

text \<open>What a node whose state is durable has acknowledged.\<close>

definition acks_of :: "usize \<Rightarrow> WNode \<Rightarrow> Acks" where
  "acks_of i n = {(wid i, n_term n, j) | j. 0 < j
     \<and> (n_role n = Leader \<and> j \<le> length (n_log n) \<or> (\<exists>x. OutReplicated x None \<in> outs n \<and> j \<le> unat x))}"

lemma acks_of_held:
  assumes "leading L A i n" and "answering L A n" and "(v, t, j) \<in> acks_of i n"
  shows "v = wid i" and "t = n_term n" and "0 < j" and "holds L t j (n_log n)"
    and "n_role n = Leader \<and> j \<le> length (n_log n) \<or> (\<exists>x. answered L A t x (n_log n) \<and> j \<le> x)"
proof -
  show v: "v = wid i" "t = n_term n" "0 < j"
    using assms(3) by (auto simp: acks_of_def)
  show or: "n_role n = Leader \<and> j \<le> length (n_log n) \<or> (\<exists>x. answered L A t x (n_log n) \<and> j \<le> x)"
    using assms(2,3) by (auto simp: acks_of_def answering_def)
  show "holds L t j (n_log n)"
    using or
  proof
    assume "n_role n = Leader \<and> j \<le> length (n_log n)"
    then show ?thesis
      using assms(1) v(2) by (auto simp: leading_def holds_def)
  next
    assume "\<exists>x. answered L A t x (n_log n) \<and> j \<le> x"
    then show ?thesis
      using holds_less unfolding answered_def by blast
  qed
qed

lemma acks_ok_settle:
  assumes ok: "acks_ok L A" and n: "leading L A i n" "answering L A n"
  shows "acks_ok L (A \<union> acks_of i n)"
  unfolding acks_ok_def
proof (intro allI impI)
  let ?A = "A \<union> acks_of i n"
  fix v t j assume a: "(v, t, j) \<in> ?A"
  show "0 < j \<and> (\<exists>c l. L t = Some (c, l) \<and> j \<le> length l \<and> (c, t, j) \<in> ?A) \<and> (\<forall>k. 0 < k \<longrightarrow> k \<le> j \<longrightarrow> (v, t, k) \<in> ?A)"
  proof (cases "(v, t, j) \<in> A")
    case True
    then have "0 < j" "\<exists>c l. L t = Some (c, l) \<and> j \<le> length l \<and> (c, t, j) \<in> A" "\<forall>k. 0 < k \<longrightarrow> k \<le> j \<longrightarrow> (v, t, k) \<in> A"
      using ok unfolding acks_ok_def by blast+
    then show ?thesis
      by blast
  next
    case False
    then have new: "(v, t, j) \<in> acks_of i n"
      using a by blast
    note h = acks_of_held [OF n new]
    have "(v, t, k) \<in> acks_of i n" if "0 < k" "k \<le> j" for k
      using new that by (fastforce simp: acks_of_def)
    moreover have "\<exists>c l. L t = Some (c, l) \<and> j \<le> length l \<and> (c, t, j) \<in> ?A"
      using h(5)
    proof
      assume "n_role n = Leader \<and> j \<le> length (n_log n)"
      then show ?thesis
        using n(1) h(1,2) new by (auto simp: leading_def)
    next
      assume "\<exists>x. answered L A t x (n_log n) \<and> j \<le> x"
      then obtain x c l where x: "L t = Some (c, l)" "(c, t, x) \<in> A" "j \<le> x"
        unfolding answered_def by blast
      have "(c, t, j) \<in> A"
        using ok x(2,3) h(3) unfolding acks_ok_def by blast
      moreover have "\<exists>c' l'. L t = Some (c', l') \<and> x \<le> length l'"
        using ok x(2) unfolding acks_ok_def by blast
      ultimately show ?thesis
        using x by auto
    qed
    ultimately show ?thesis
      using h(3) by blast
  qed
qed

lemma agree_settle:
  assumes ok: "agree G L A N D net history" and i: "i < 3" and disk: "n_state (N i) = D i" and reg: "registered G i (D i)"
  shows "agree G L (A \<union> acks_of i (N i)) N D net history"
proof -
  note old = agreeD [OF ok]
  let ?A = "A \<union> acks_of i (N i)"
  have held: "v = wid i \<and> t = d_term (D i) \<and> holds L t x (State_entries (D i))" if "(v, t, x) \<in> ?A" "(v, t, x) \<notin> A" for v t x
    using acks_of_held [OF old(7) [OF i] old(9) [OF i]] that disk by auto
  have late: "t' \<le> t" if "(v, t, x) \<in> ?A" "(v, t, x) \<notin> A" "(v, t', c) \<in> G" for v t x t' c
    using held [OF that(1,2)] that(3) reg unfolding registered_def by fastforce
  have el: "elections_ok majority G L ?A"
    by (rule majority.elections_grow [OF old(2) grows_refl]) (use late in auto)
  have stored: "stored L ?A j st" if "stored L A j st" "j < 3" "j = i \<longrightarrow> st = D i" for j st
  proof (rule stored_grows [OF that(1) grows_refl])
    fix t x assume new: "(wid j, t, x) \<in> ?A" "(wid j, t, x) \<notin> A"
    then have "j = i"
      using held [OF new] wid_inj [OF that(2) i] by simp
    then show "t \<le> d_term st \<and> retains L t x (d_term st) (State_entries st)"
      using held [OF new] that(3) by (auto simp: retains_def)
  qed simp
  have "standing G L ?A j (N j)" if "j < 3" for j
    using old(8) [OF that] late unfolding standing_def
    by (auto intro!: supports_grows [OF _ grows_refl, where A = A and A' = ?A])
  then have "site_log G L ?A j (N j) (D j)" if "j < 3" for j
    using that stored [OF old(5) [OF that]] stored [OF old(6) [OF that]] old(7) [OF that] disk
      answering_grows [OF old(9) [OF that] grows_refl, of ?A]
    by (auto simp: site_log_def leading_def)
  moreover have "carried L ?A N D env" if "env \<in> set net" for env
    using old(11) [OF that] told_grows [OF _ grows_refl, of L A _ _ _ ?A] unfolding carried_def by blast
  moreover have "decided majority L ?A history"
    using majority.decided_grow [OF old(12) grows_refl] by blast
  moreover have "acks_ok L ?A"
    using acks_ok_settle [OF old(3,7,9)] i by blast
  ultimately show ?thesis
    using el old(1,4,10) unfolding agree_def by blast
qed

text \<open>Output.\<close>

lemma told_sends:
  assumes n: "stored L A i (n_state n)" "leading L A i n" "answering L A n" and plain: "plain_log (n_state n)"
    and acks: "acks_of i n \<subseteq> A" and m: "sends n m"
  shows "told L A (wid i) n m \<and> Message_term m = n_term n"
proof (cases m)
  case (Append t previous entry cm)
  let ?j = "unat (li_index previous)"
  have t: "t = n_term n" "cm = n_commit n" and p: "id_at (n_log n) ?j = Some previous"
    and e: "\<forall>e. entry = Some e \<longrightarrow> ?j < length (n_log n) \<and> e = n_log n ! ?j"
    and lead: "n_role n = Leader"
    using m n(3) by (auto simp: Append answering_def)
  have L: "L t = Some (wid i, n_log n)"
    using n(2) lead t by (simp add: leading_def)
  have ack: "(wid i, t, j) \<in> A" if "0 < j" "j \<le> length (n_log n)" for j
    using acks lead that t by (auto simp: acks_of_def)
  have "decided majority L A (take (unat cm) (n_log n))" and "unat cm \<le> length (n_log n)"
    using n(1) plain_log_facts(7) [OF plain] by (simp_all add: t stored_def replica_ok_def)
  then show ?thesis
    using L p e ack id_at_bound [OF p] by (auto simp: Append t(1) split: option.split)
next
  case (Replicated t index rejection)
  have "(wid i, t, unat index) \<in> acks_of i n" if "rejection = None" "index \<noteq> 0"
    using m that by (auto simp: Replicated acks_of_def unat_gt_0)
  then show ?thesis
    using m acks by (auto simp: Replicated)
qed (use m n(3) in \<open>auto simp: answering_def\<close>)

lemma agree_output:
  assumes ok: "agree G L A N D net history" and i: "i < 3" and site: "site i (N i)" and disk: "n_state (N i) = D i"
    and acks: "acks_of i (N i) \<subseteq> A" and n': "n' = (N i)\<lparr>n_outbox := out\<rparr>" "outs n' \<subseteq> outs (N i)"
    and msgs: "\<forall>env \<in> set msgs. env_from env = wid i \<and> sends (N i) (env_message env)"
  shows "agree G L A (N(i := n')) D (net @ msgs) history"
proof -
  note old = agreeD [OF ok]
  have "answering L A n'" and "chose G N D i n'"
    using old(9,10) [OF i] n' by (auto simp: answering_def chose_def)
  then have a: "agree G L A (N(i := n')) D net history"
    using n'(1) by (intro agree_hushed [OF ok i]) (simp_all add: same_log_def stays_def)
  have "carried L A (N(i := n')) D env" if env: "env \<in> set msgs" for env
  proof -
    have "told L A (wid i) (N i) (env_message env) \<and> Message_term (env_message env) = n_term (N i)"
      using told_sends [OF old(5,7,9) site_plain [OF site old(5)] acks] i msgs env by blast
    then have "told L A (wid i) n' (env_message env) \<and> Message_term (env_message env) \<le> d_term (D i)"
      using n'(1) disk by (cases "env_message env") auto
    then show ?thesis
      using i msgs env unfolding carried_def by auto
  qed
  then show ?thesis
    using a unfolding agree_def by auto
qed

lemma drain_sends:
  assumes "drain n net = Some (n', net')" and "Node_inv n" and "ballot_ok n" and "plain_log (n_state n)"
  shows "outs n' \<subseteq> outs n \<and> (\<exists>msgs. net' = net @ msgs \<and> (\<forall>env \<in> set msgs. sends n (env_message env)))"
  using assms
proof (induction n net rule: drain.induct)
  case (1 n net)
  show ?case
  proof (cases "Node_next_message n")
    case None
    then show ?thesis
      using 1(2) by (subst (asm) drain.simps) simp
  next
    case (Some p)
    obtain m n1 where p: "p = (m, n1)"
      by fastforce
    note nm = Some [unfolded p]
    show ?thesis
    proof (cases m)
      case None
      then have "n' = n1" "net' = net"
        using 1(2) nm by (subst (asm) drain.simps, simp)+
      moreover have "n1 = n"
        using next_message_inv(2) [OF 1(3) nm] None by blast
      ultimately show ?thesis
        by simp
    next
      case m: (Some env)
      have d: "drain n1 (net @ [env]) = Some (n', net')"
        using 1(2) nm m by (subst (asm) drain.simps) simp
      have n1: "ballot_ok n1" "n_state n1 = n_state n" "n_log n1 = n_log n"
        using ballot_output [OF 1(3,4)] nm m by auto
      note out = log_message [OF 1(3,4,5) nm [unfolded m]]
      have sub: "sends n x" if "sends n1 x" for x
        using that out(2) n1(2) by (cases x) auto
      have "outs n' \<subseteq> outs n1 \<and> (\<exists>msgs. net' = (net @ [env]) @ msgs \<and> (\<forall>env \<in> set msgs. sends n1 (env_message env)))"
        using 1(1) [OF nm [unfolded m] refl] d next_message_inv(1) [OF 1(3) nm] n1 1(5) by simp
      then obtain msgs where "outs n' \<subseteq> outs n1" "net' = net @ env # msgs" "\<forall>env \<in> set msgs. sends n1 (env_message env)"
        by auto
      then show ?thesis
        using out sub by (intro conjI exI [of _ "env # msgs"]) auto
    qed
  qed
qed

lemma agree_drained:
  assumes ok: "agree G L A N D net history" and i: "i < 3" and site: "site i (N i)" and over: "runs_over (D i) (N i)"
    and reg: "registered G i (D i)" and dr: "drain (N i) net = Some (n', net')"
  shows "\<exists>A'. A \<subseteq> A' \<and> agree G L A' (N(i := n')) D net' history"
proof (cases "n_dirty (N i)")
  case True
  then have "n' = N i" "net' = net"
    using dr by (subst (asm) drain.simps, simp add: Node_next_message_def)+
  then show ?thesis
    using ok by (auto intro: exI [of _ A])
next
  case False
  then have disk: "n_state (N i) = D i"
    using over by (simp add: runs_over_def)
  let ?A = "A \<union> acks_of i (N i)"
  have a: "agree G L ?A N D net history"
    using agree_settle [OF ok i disk reg] .
  have inv: "Node_inv (N i)" "ballot_ok (N i)" and plain: "plain_log (n_state (N i))"
    using site site_plain [OF site agreeD(5) [OF ok i]] by (simp_all add: site_def)
  obtain msgs where msgs: "net' = net @ msgs" "\<forall>env \<in> set msgs. sends (N i) (env_message env)" and out: "outs n' \<subseteq> outs (N i)"
    using drain_sends [OF dr inv plain] by blast
  have "(\<exists>x. n' = (N i)\<lparr>n_outbox := x\<rparr>) \<and> (\<exists>msgs'. net' = net @ msgs' \<and> (\<forall>env \<in> set msgs'. handed_out (N i) env))"
    using drain_returns [OF inv, of net] dr by auto
  then obtain x where x: "n' = (N i)\<lparr>n_outbox := x\<rparr>" and src: "\<forall>env \<in> set msgs. env_from env = wid i"
    using msgs(1) site_local(2) [OF site i] by (auto simp: handed_out_def)
  have "agree G L ?A (N(i := n')) D (net @ msgs) history"
    using agree_output [OF a i site disk _ x out] src msgs(2) by blast
  then show ?thesis
    using msgs(1) by blast
qed

section \<open>Saving and restarting\<close>

lemma saved_supports:
  assumes ok: "agree G L A N D net history" and i: "i < 3" "j < 3" and site: "site i (N i)"
    and vote: "hs_voted_for (n_hard (N i)) = Some (wid j)" and role: "n_role (N j) = Candidate"
    and tm: "n_term (N i) = n_term (N j)" and none: "L (n_term (N j)) = None"
  shows "supports L A (wid i) (n_term (N j)) (n_last (N j))"
proof (cases "(wid i, n_term (N j), wid j) \<in> G")
  case True
  then show ?thesis
    using agreeD(8) [OF ok i(2)] role none unfolding standing_def by blast
next
  case False
  note old = agreeD [OF ok]
  have plain: "plain_log (n_state (N i))"
    using site_plain [OF site old(5) [OF i(1)]] .
  have "log_up_to_date (n_last (N j)) (n_last (N i))"
  proof (cases "j = i")
    case True
    then show ?thesis
      by (simp add: log_up_to_date_iff)
  next
    case neq: False
    then show ?thesis
      using old(10) [OF i(1)] i(2) vote role tm False unfolding chose_def by metis
  qed
  then show ?thesis
    using vote_supports [OF old(3), of majority "wid i" "n_log (N i)" "n_term (N j)"] old(5) [OF i(1)] none tm
      plain_log_facts(2,4) [OF plain]
    unfolding stored_def by metis
qed

lemma agree_save:
  assumes ok: "agree G L A N D net history" and i: "i < 3" and site: "site i (N i)" and over: "runs_over (D i) (N i)"
    and n': "n_state n' = n_state (N i)" "n_role n' = n_role (N i)" "n_outbox n' = n_outbox (N i)" "n_matched n' = n_matched (N i)"
  shows "agree (G \<union> vote_of i (n_state (N i))) L A (N(i := n')) (D(i := n_state (N i))) net history"
proof -
  let ?G = "G \<union> vote_of i (n_state (N i))" and ?N = "N(i := n')" and ?D = "D(i := n_state (N i))"
  note old = agreeD [OF ok]
  have same: "n_state (?N j) = n_state (N j)" "n_role (?N j) = n_role (N j)" "outs (?N j) = outs (N j)"
    "n_matched (?N j) = n_matched (N j)" for j
    using n' by (simp_all add: outs_def)
  have le: "d_term (D j) \<le> d_term (?D j)" for j
    using over by (simp add: runs_over_def HardState_le_def)
  have vote: "v = wid i \<and> t = n_term (N i) \<and> hs_voted_for (n_hard (N i)) = Some c" if "(v, t, c) \<in> vote_of i (n_state (N i))" for v t c
    using that by (auto simp: vote_of_def)
  have el: "elections_ok majority ?G L A"
    by (rule majority.elections_grow [OF old(2) grows_refl]) auto
  have "standing ?G L A j (?N j)" if j: "j < 3" for j
    using old(8) [OF j] vote saved_supports [OF ok i j site] unfolding standing_def same by fastforce
  then have "site_log ?G L A j (?N j) (?D j)" if "j < 3" for j
    using that old(5-7,9) [OF that] unfolding site_log_def stored_def leading_def answering_def same by auto
  moreover have "chose ?G ?N ?D j (?N j)" if "j < 3" for j
    using old(10) [OF that] le unfolding chose_def same by (meson UnCI order.trans)
  moreover have "carried L A ?N ?D env" if env: "env \<in> set net" for env
  proof -
    obtain k where k: "k < 3" "env_from env = wid k" "Message_term (env_message env) \<le> d_term (D k)"
      "told L A (wid k) (N k) (env_message env)"
      using old(11) [OF env] unfolding carried_def by blast
    then have "told L A (wid k) (?N k) (env_message env)"
      using same [of k] by (cases "env_message env") auto
    then show ?thesis
      using k le unfolding carried_def by (meson order.trans)
  qed
  moreover have "t \<le> d_term (?D k)" if g: "(v, t, wid k) \<in> ?G" and k: "k < 3" for v t k
  proof (cases "(v, t, wid k) \<in> G")
    case True
    then show ?thesis
      using old(4) k le order.trans unfolding dated_def by blast
  next
    case False
    then have "t = n_term (N i)" "hs_voted_for (n_hard (N i)) = Some (wid k)"
      using g vote by blast+
    then show ?thesis
      using old(10) [OF i] k unfolding chose_def by (cases "k = i") simp_all
  qed
  then have "dated ?G L ?D"
    using old(4) le order.trans unfolding dated_def by meson
  ultimately show ?thesis
    using el old(1,3,12) unfolding agree_def by blast
qed

lemma agree_crash:
  assumes ok: "agree G L A N D net history" and i: "i < 3" and reg: "registered G i (D i)"
    and n: "n_state n = D i" "n_role n = Follower" "outs n = {}"
  shows "agree G L A (N(i := n)) D net history"
proof (rule agree_call [OF ok i grows_refl])
  note old = agreeD [OF ok]
  show "leaders_ok L" and "elections_ok majority G L A" and "stored L A i (n_state n)"
    using old(1,2,6) i n(1) by simp_all
  show "leading L A i n" and "standing G L A i n" and "answering L A n" and "restands (D i) (N i) n"
    using n by (simp_all add: leading_def standing_def answering_def restands_def)
  show "chose G N D i n"
    using reg old(4) n(1) unfolding chose_def registered_def dated_def by auto
qed auto

section \<open>A message arrives\<close>

lemma idle_outs: "Node_available n = Ok () \<Longrightarrow> outs n = {} \<and> \<not> n_dirty n"
  by (auto simp: available_iff outs_def)

lemma world_voters: "Membership_voters world_membership \<noteq> []"
  by code_simp

lemma leader_update: "n_role n = Leader \<Longrightarrow> n\<lparr>n_role := Leader, n_matched := m\<rparr> = n\<lparr>n_matched := m\<rparr>"
  by (cases n) simp

text \<open>An election gives a term its first leader.\<close>

lemma elected_term:
  assumes ok: "agree G L A N D net history" and i: "i < 3" and role: "n_role (N i) = Candidate"
    and el: "elected G (n_term (N i)) (wid i)" and uniq: "\<forall>t c c'. elected G t c \<longrightarrow> elected G t c' \<longrightarrow> c = c'"
  shows "L (n_term (N i)) = None
    \<and> majority (\<lambda>v. (v, n_term (N i), wid i) \<in> G \<and> supports L A v (n_term (N i)) (n_last (N i)))"
proof -
  let ?T = "n_term (N i)"
  have stand: "\<And>l. L ?T \<noteq> Some (wid i, l)" "L ?T = None \<Longrightarrow> (v, ?T, wid i) \<in> G \<Longrightarrow> supports L A v ?T (n_last (N i))" for v
    using agreeD(8) [OF ok i] role unfolding standing_def by blast+
  have none: "L ?T = None"
  proof (cases "L ?T")
    case (Some p)
    then obtain c l where l: "L ?T = Some (c, l)"
      by (cases p) simp
    then have "majority (\<lambda>v. (v, ?T, c) \<in> G \<and> supports L A v ?T (log_last LogId_default (inherited ?T l)))"
      using agreeD(2) [OF ok] unfolding elections_ok_def by blast
    then have "elected G ?T c"
      unfolding elected_def by (rule quorum_mono) blast
    then show ?thesis
      using uniq el l stand(1) by blast
  qed
  moreover have "majority (\<lambda>v. (v, ?T, wid i) \<in> G \<and> supports L A v ?T (n_last (N i)))"
    using el stand(2) [OF none] unfolding elected_def by (elim quorum_mono) blast
  ultimately show ?thesis
    by blast
qed

lemma received_at:
  assumes ok: "agree G L A N D net history" and i: "i < 3" and s: "site_ok G i (N i) (D i)"
    and env: "env \<in> set net" "travels G env" "env_to env = wid i" and step: "Node_step env (N i) = Some (Ok (), n')"
  obtains c where "site i n'" and "backed G i n'" and "n_term (N i) \<le> n_term n'" and "outs (N i) = {}" and "n_state (N i) = D i"
    and "c < 3" and "env_from env = wid c" and "Message_term (env_message env) \<le> d_term (D c)"
    and "told L A (wid c) (N c) (env_message env)" and "heard env (N i) n'"
proof -
  note old = agreeD [OF ok]
  have site: "site i (N i)"
    using s by (simp add: site_ok_def)
  have av: "Node_available (N i) = Ok ()"
    using step by (cases "Node_available (N i)") (simp_all add: Node_step_def)
  then have idle: "outs (N i) = {}" and disk: "n_state (N i) = D i"
    using idle_outs [OF av] s by (simp_all add: site_ok_def runs_over_def)
  have n': "site i n'" "runs_over (D i) n'" "backed G i n'"
    using site_receives [OF s i env(2,3) step] by blast+
  then have le: "n_term (N i) \<le> n_term n'"
    using disk by (simp add: runs_over_def HardState_le_def)
  obtain c where c: "c < 3" "env_from env = wid c" "Message_term (env_message env) \<le> d_term (D c)"
    "told L A (wid c) (N c) (env_message env)"
    using old(11) [OF env(1)] unfolding carried_def by blast
  have msg: "plain_message (env_message env)"
    using c(4) by (cases "env_message env") simp_all
  have "fixed_engine (N i)" "length (n_outbox (N i)) = Node_N (N i)" "Membership_voters (n_membership (N i)) \<noteq> []"
    using site world_voters by (simp_all add: site_def ballot_ok_def Node_inv_def slots_ok_def)
  then have "heard env (N i) n'"
    using log_receive [OF _ site_plain [OF site old(5) [OF i]] _ msg _ step] by blast
  then show ?thesis
    using that [OF n'(1,3) le idle disk c] by blast
qed

lemma agree_receive:
  assumes ok: "agree G L A N D net history" and i: "i < 3" and s: "site_ok G i (N i) (D i)"
    and uniq: "\<forall>t c c'. elected G t c \<longrightarrow> elected G t c' \<longrightarrow> c = c'"
    and env: "env \<in> set net" "travels G env" "env_to env = wid i" and step: "Node_step env (N i) = Some (Ok (), n')"
    and net: "set net' \<subseteq> set net"
  shows "\<exists>L'. grows L L' \<and> agree G L' A (N(i := n')) D net' history"
proof -
  note old = agreeD [OF ok]
  let ?n = "N i"
  obtain c where n': "site i n'" "backed G i n'" and le: "n_term ?n \<le> n_term n'" and idle: "outs ?n = {}"
    and disk: "n_state ?n = D i" and c: "c < 3" "env_from env = wid c" "Message_term (env_message env) \<le> d_term (D c)"
      "told L A (wid c) (N c) (env_message env)"
    and heard: "heard env ?n n'"
    using received_at [OF ok i s env step] .
  have site: "site i ?n" and reg: "registered G i (D i)"
    using s by (simp_all add: site_ok_def)
  then have len: "length (n_matched ?n) = 3"
    by (simp add: site_def Node_inv_def slots_ok_def)
  have here: ?thesis if "agree G L A (N(i := n')) D net' history"
    using that grows_refl by blast
  note kept = chose_kept [OF old(10) [OF i] reg disk]
  note lead = agree_leads [OF ok i site n'(1) disk idle _ _ _ net]
  show ?thesis
    using heard
  proof cases
    case ignored
    then show ?thesis
      using idle kept by (intro here agree_hushed [OF ok i le _ _ _ _ net]) (auto simp: hushed_def answering_def)
  next
    case (voted lst)
    then have "chose G N D i n'"
      using c wid_inj [OF c(1)] by (auto simp: chose_def)
    then show ?thesis
      using voted idle by (intro here agree_hushed [OF ok i le _ _ _ _ net]) (auto simp: hushed_def answering_def)
  next
    case elected
    then have "elected G (n_term ?n) (wid i)"
      using leader_elected [OF i n'] by (auto simp: leads_def)
    from elected_term [OF ok i elected(1) this uniq] show ?thesis
      using len by (intro lead [OF elected(2)]) auto
  next
    case (appended previous entry cm r m)
    then show ?thesis
      by (intro here agree_append [OF ok i le env(1) _ _ kept _ _ idle net])
  next
    case (counted index k)
    have k: "k < 3" "wid k = wid c"
      using counted(3,4) site c(2) world_peers_nth [of k] by (simp_all add: site_def)
    have "index \<noteq> 0 \<longrightarrow> (wid k, n_term ?n, unat index) \<in> A"
      using c(4) counted(1) k(2) by simp
    then have "\<forall>j < 3. j \<noteq> i \<longrightarrow> (n_matched ?n)[k := index] ! j \<noteq> 0 \<longrightarrow>
        (wid j, n_term ?n, unat ((n_matched ?n)[k := index] ! j)) \<in> A"
      using k(1) old(7) [OF i] counted(2) len by (auto simp: leading_def nth_list_update)
    then show ?thesis
      using old(7) [OF i] counted(2,7) by (intro lead) (simp_all add: leader_update leading_def)
  next
    case led
    then have "leads (?n\<lparr>n_role := Leader, n_matched := n_matched ?n\<rparr>) n'"
      by (simp add: leader_update)
    then show ?thesis
      using old(7) [OF i] led(1) by (intro lead [where m = "n_matched ?n"]) (simp_all add: leading_def)
  qed
qed

section \<open>A timeout and a proposal\<close>

lemma timeout_log:
  assumes "tick_until t n = Some n'" and "Node_inv n" and "ballot_ok n"
  shows "(n_term n \<noteq> t \<longrightarrow> n' = n)
    \<and> (n_term n = t \<longrightarrow> n_role n \<noteq> Leader \<and> n_role n' = Candidate \<and> t < n_term n'
        \<and> hs_voted_for (n_hard n') = Some (cfg_id (n_config n)) \<and> hushed {OutVote} n n')"
  using assms
proof (induction rule: tick_until.raw_induct [rotated 1, consumes 1])
  case (1 rec t n n')
  show ?case
  proof (cases "n_term n = t")
    case False
    then show ?thesis
      using 1(2) by simp
  next
    case True
    then obtain m where m: "Node_tick n = Some (Ok (), m)" "rec t m = Some n'"
      using 1(2) by (auto simp: bind_eq_Some_conv unwrap_Some)
    have av: "Node_available n = Ok ()"
      using m(1) by (cases "Node_available n") (simp_all add: Node_tick_def)
    have inv: "Node_inv m" "ballot_ok m" and st: "static m = static n"
      using good_tick [OF 1(3) av] ballot_time [OF 1(3,4) m(1)] m(1) by (auto simp: good_def votes_step_def)
    note ih = 1(1) [OF m(2) inv]
    from log_tick [OF 1(3,4) m(1)] show ?thesis
    proof (elim disjE conjE)
      assume "n_term m = n_term n" "n_role m = n_role n" "hushed {} n m"
      then show ?thesis
        using True ih st hushed_trans [OF hushed_mono [of "{}" n m "{OutVote}"]] by (auto simp: static_def)
    next
      assume "n_term m = n_term n" "n_role m = n_role n" "n_role n = Leader"
      then show ?thesis
        using True ih by simp
    next
      assume "n_role n \<noteq> Leader" "n_role m = Candidate" "n_term n < n_term m"
        "hs_voted_for (n_hard m) = Some (cfg_id (n_config n))" "hushed {OutVote} n m"
      then show ?thesis
        using True ih by auto
    qed
  qed
qed

lemma agree_timeout:
  assumes ok: "agree G L A N D net history" and i: "i < 3" and s: "site_ok G i (N i) (D i)"
    and t: "tick_until (n_term (N i)) (N i) = Some n'"
  shows "agree G L A (N(i := n')) D net history"
proof (rule agree_call [OF ok i grows_refl])
  note old = agreeD [OF ok]
  have site: "site i (N i)" and inv: "Node_inv (N i)" "ballot_ok (N i)"
    using s by (simp_all add: site_ok_def site_def)
  have n': "n_role n' = Candidate" "n_term (N i) < n_term n'" "hs_voted_for (n_hard n') = Some (wid i)"
    "hushed {OutVote} (N i) n'"
    using timeout_log [OF t inv] site_local(2) [OF site i] by auto
  have "\<not> n_dirty (N i)"
    using site_times_out [OF t] s i by (auto simp: site_ok_def)
  then have disk: "n_state (N i) = D i" and idle: "outs (N i) = {}"
    using s idle_outs [of "N i"] by (auto simp: site_ok_def runs_over_def idle_unless_dirty_def)
  show "leaders_ok L" and "elections_ok majority G L A"
    using old(1,2) .
  show "stored L A i (n_state n')"
    using stored_later [OF old(5) [OF i]] n'(2,4) by (simp add: hushed_def)
  show "leading L A i n'" and "answering L A n'"
    using n' idle by (auto simp: leading_def answering_def hushed_def)
  have later: "d_term (D i) < n_term n'"
    using n'(2) disk by simp
  then show "restands (D i) (N i) n'"
    by (simp add: restands_def)
  have "L (n_term n') \<noteq> Some (wid i, l)" for l
    using old(4) later wid_inj [OF i] unfolding dated_def by (metis not_le)
  moreover have "(v, n_term n', wid i) \<notin> G" for v
    using old(4) later i unfolding dated_def by (metis not_le)
  ultimately show "standing G L A i n'"
    by (simp add: standing_def)
  show "chose G N D i n'"
    using n'(3) wid_inj [OF i] by (auto simp: chose_def)
qed auto

lemma agree_propose:
  assumes ok: "agree G L A N D net history" and i: "i < 3" and s: "site_ok G i (N i) (D i)"
    and p: "Node_propose v (N i) = Some (Ok x, n')"
  shows "\<exists>L'. grows L L' \<and> agree G L' A (N(i := n')) D net history"
proof -
  note old = agreeD [OF ok]
  let ?n = "N i"
  have site: "site i ?n"
    using s by (simp add: site_ok_def)
  then have inv: "Node_inv ?n" "fixed_engine ?n" "n_membership ?n = world_membership"
    unfolding site_def ballot_ok_def by blast+
  have l: "n_role ?n = Leader" "Node_available ?n = Ok ()" "leads ?n n'"
    using log_propose [OF inv(1,2) site_plain [OF site old(5) [OF i]] _ p] world_voters inv(3) by simp_all
  have disk: "n_state ?n = D i" and idle: "outs ?n = {}"
    using idle_outs [OF l(2)] s by (simp_all add: site_ok_def runs_over_def)
  have "site i n'"
    using site_proposes [OF s i p] by (simp add: site_ok_def)
  moreover have "leads (?n\<lparr>n_role := Leader, n_matched := n_matched ?n\<rparr>) n'"
    using l by (simp add: leader_update)
  ultimately show ?thesis
    using old(7) [OF i] l(1) by (intro agree_leads [OF ok i site _ disk idle, where m = "n_matched ?n"]) (simp_all add: leading_def)
qed

end
