(* ===== verification/Jarl_Safety.thy ===== *)
theory Jarl_Safety
  imports Jarl_Logs
begin

text \<open>
  Safety of the explored cluster: every action of \<^verbatim>\<open>jarl/src/explore.rs\<close> and every observation of
  its oracle keeps the invariant of \<open>Jarl_Logs\<close>, so that what any two nodes have applied at any two
  times agrees (\<open>applied_agree\<close>), logs match (\<open>logs_match\<close>), and the search, whose terms are
  bounded, ends and finds no violation (\<open>search_passes\<close>).
\<close>

section \<open>The world\<close>

definition world_agree :: "Grants \<Rightarrow> u64 Led \<Rightarrow> Acks \<Rightarrow> World \<Rightarrow> bool" where
  "world_agree G L A w \<longleftrightarrow>
     world_ok G w \<and> agree G L A ((!) (w_nodes w)) ((!) (w_disk w)) (w_network w) (w_history w)"

lemma nth_update: "i < length xs \<Longrightarrow> (!) (xs[i := x]) = ((!) xs)(i := x)"
  by (rule ext) (simp add: nth_list_update)

lemma world_agreeD:
  assumes "world_agree G L A w" and "i < 3"
  shows "site_ok G i (w_nodes w ! i) (w_disk w ! i)" and "site i (w_nodes w ! i)" and "runs_over (w_disk w ! i) (w_nodes w ! i)"
    and "registered G i (w_disk w ! i)" and "i < length (w_nodes w)" and "i < length (w_disk w)"
  using assms by (simp_all add: world_agree_def world_ok_def site_ok_def)

lemma output_drains:
  assumes "World_output i w = Some w'"
  obtains n' net' where "drain (w_nodes w ! i) (w_network w) = Some (n', net')"
    and "w' = w\<lparr>w_nodes := (w_nodes w)[i := n'], w_network := net'\<rparr>"
  using assms by (auto simp: World_output_def bind_eq_Some_conv)

lemma agree_deliver:
  assumes ok: "world_agree G L A w" and act: "World_act (Deliver index) w = Some w'"
  shows "\<exists>L' A'. grows L L' \<and> A \<subseteq> A' \<and> world_agree G L' A' w'"
proof -
  have wok: "world_ok G w" and ag: "agree G L A ((!) (w_nodes w)) ((!) (w_disk w)) (w_network w) (w_history w)"
    using ok by (simp_all add: world_agree_def)
  let ?env = "w_network w ! index"
  let ?i = "unat (id_num (env_to ?env))" and ?net = "vec_remove index (w_network w)"
  from act obtain n' where index: "index < length (w_network w)"
    and step: "Node_step ?env (w_nodes w ! ?i) = Some (Ok (), n')"
    and out: "World_output ?i (w\<lparr>w_network := ?net, w_nodes := (w_nodes w)[?i := n']\<rparr>) = Some w'"
    by (auto simp: bind_eq_Some_conv Let_def unwrap_Some)
  have env: "?env \<in> set (w_network w)" "travels G ?env"
    using wok index by (auto simp: world_ok_def)
  then obtain i where i: "i < 3" "env_to ?env = wid i"
    using world_peers_set by (auto simp: travels_def)
  then have u: "?i = i"
    using unat_wid by simp
  note site = world_agreeD [OF ok i(1)]
  have uniq: "\<forall>t c c'. elected G t c \<longrightarrow> elected G t c' \<longrightarrow> c = c'"
    using elected_unique [OF wok] by blast
  obtain L' where L': "grows L L'" "agree G L' A ((!) ((w_nodes w)[i := n'])) ((!) (w_disk w)) ?net (w_history w)"
    using agree_receive [OF ag i(1) site(1) uniq env i(2) _ set_vec_remove] step
    unfolding u nth_update [OF site(5)] by blast
  obtain n2 net2 where dr: "drain n' ?net = Some (n2, net2)" and w': "w' = w\<lparr>w_nodes := (w_nodes w)[i := n2], w_network := net2\<rparr>"
    using out site(5) unfolding u by (elim output_drains) simp
  have n': "site i n'" "runs_over (w_disk w ! i) n'"
    using site_receives [OF site(1) i(1) env(2) i(2)] step unfolding u by blast+
  obtain A' where "A \<subseteq> A'" "agree G L' A' (((!) ((w_nodes w)[i := n']))(i := n2)) ((!) (w_disk w)) net2 (w_history w)"
    using agree_drained [OF L'(2) i(1)] n' site(4,5) dr by auto
  then show ?thesis
    using L'(1) world_deliver [OF wok act] site(5) w' unfolding world_agree_def by (auto simp: nth_update)
qed

lemma agree_saves:
  assumes ok: "world_agree G L A w" and act: "World_act (Save i) w = Some w'"
  shows "\<exists>A'. A \<subseteq> A' \<and> world_agree (G \<union> vote_of i (n_state (w_nodes w ! i))) L A' w'"
proof -
  have wok: "world_ok G w" and ag: "agree G L A ((!) (w_nodes w)) ((!) (w_disk w)) (w_network w) (w_history w)"
    using ok by (simp_all add: world_agree_def)
  let ?n = "w_nodes w ! i" and ?G = "G \<union> vote_of i (n_state (w_nodes w ! i))"
  have i: "i < 3" and dirty: "n_dirty ?n"
    and out: "World_output i (w\<lparr>w_disk := (w_disk w)[i := n_state ?n], w_nodes := (w_nodes w)[i := Ready_persisted ?n]\<rparr>) = Some w'"
    using act wok by (auto simp: bind_eq_Some_conv Node_ready_def Ready_state_def world_ok_def split: if_splits)
  note site = world_agreeD [OF ok i]
  have a: "agree ?G L A (((!) (w_nodes w))(i := Ready_persisted ?n)) (((!) (w_disk w))(i := n_state ?n)) (w_network w) (w_history w)"
    by (rule agree_save [OF ag i site(2,3)]) (simp_all add: Ready_persisted_def)
  obtain n2 net2 where dr: "drain (Ready_persisted ?n) (w_network w) = Some (n2, net2)"
    and w': "w' = w\<lparr>w_disk := (w_disk w)[i := n_state ?n], w_nodes := (w_nodes w)[i := n2], w_network := net2\<rparr>"
    using out site(5) by (elim output_drains) simp
  have reg: "registered ?G i (n_state ?n)"
    using registered_save [OF site(4)] site(3) by (simp add: runs_over_def)
  obtain A' where "A \<subseteq> A'"
    "agree ?G L A' (((!) (w_nodes w))(i := n2)) (((!) (w_disk w))(i := n_state ?n)) net2 (w_history w)"
    using agree_drained [OF a i] site_persisted(1,2) [OF site(2) dirty] reg dr by auto
  then show ?thesis
    using world_save [OF wok act] site(5,6) w' unfolding world_agree_def by (auto simp: nth_update)
qed

lemma world_agree_node:
  assumes ok: "world_agree G L A w" and i: "i < 3" and wok: "world_ok G (w\<lparr>w_nodes := (w_nodes w)[i := n]\<rparr>)"
    and ag: "agree G L' A (((!) (w_nodes w))(i := n)) ((!) (w_disk w)) (w_network w) (w_history w)"
  shows "world_agree G L' A (w\<lparr>w_nodes := (w_nodes w)[i := n]\<rparr>)"
  using wok ag nth_update [OF world_agreeD(5) [OF ok i]] by (simp add: world_agree_def)

lemma agree_crashes:
  assumes ok: "world_agree G L A w" and act: "World_act (Crash i) w = Some w'"
  shows "world_agree G L A w'"
proof -
  have wok: "world_ok G w" and ag: "agree G L A ((!) (w_nodes w)) ((!) (w_disk w)) (w_network w) (w_history w)"
    using ok by (simp_all add: world_agree_def)
  obtain n where i: "i < 3" and n: "Node_new (World_config i) (w_disk w ! i) = Some (Ok n)"
    and w': "w' = w\<lparr>w_nodes := (w_nodes w)[i := n]\<rparr>"
    using act wok by (auto simp: bind_eq_Some_conv unwrap_Some world_ok_def)
  note site = world_agreeD [OF ok i]
  have "disk_ok (w_disk w ! i)"
    using site(1) by (simp add: site_ok_def)
  then have "n_state n = w_disk w ! i" "n_role n = Follower" "outs n = {}"
    using site_starts [OF i, of "w_disk w ! i"] n idle_outs [of n] by auto
  then show ?thesis
    using world_agree_node [OF ok i _ agree_crash [OF ag i site(4)]] world_crash [OF wok act] w' by simp
qed

lemma agree_times_out:
  assumes ok: "world_agree G L A w" and act: "World_act (Timeout i) w = Some w'"
  shows "world_agree G L A w'"
proof -
  have wok: "world_ok G w" and ag: "agree G L A ((!) (w_nodes w)) ((!) (w_disk w)) (w_network w) (w_history w)"
    using ok by (simp_all add: world_agree_def)
  obtain n' where i: "i < 3" and t: "tick_until (n_term (w_nodes w ! i)) (w_nodes w ! i) = Some n'"
    and w': "w' = w\<lparr>w_nodes := (w_nodes w)[i := n']\<rparr>"
    using act wok by (auto simp: bind_eq_Some_conv world_ok_def)
  show ?thesis
    using world_agree_node [OF ok i _ agree_timeout [OF ag i world_agreeD(1) [OF ok i] t]] world_timeout [OF wok act] w'
    by simp
qed

lemma agree_proposes:
  assumes ok: "world_agree G L A w" and act: "World_act (Propose i) w = Some w'"
  shows "\<exists>L'. grows L L' \<and> world_agree G L' A w'"
proof -
  have wok: "world_ok G w" and ag: "agree G L A ((!) (w_nodes w)) ((!) (w_disk w)) (w_network w) (w_history w)"
    using ok by (simp_all add: world_agree_def)
  obtain x n' where i: "i < 3" and p: "Node_propose (100 + of_nat i) (w_nodes w ! i) = Some (Ok x, n')"
    and w': "w' = w\<lparr>w_nodes := (w_nodes w)[i := n']\<rparr>"
    using act wok by (auto simp: bind_eq_Some_conv unwrap_Some world_ok_def)
  show ?thesis
    using agree_propose [OF ag i world_agreeD(1) [OF ok i] p] world_agree_node [OF ok i] world_propose [OF wok act] w'
    by blast
qed

text \<open>The ghosts only grow.\<close>

definition grown :: "Grants \<times> u64 Led \<times> Acks \<Rightarrow> Grants \<times> u64 Led \<times> Acks \<Rightarrow> bool" where
  "grown = (\<lambda>(G, L, A) (G', L', A'). G \<subseteq> G' \<and> grows L L' \<and> A \<subseteq> A')"

lemma grownI: "world_agree G' L' A' w \<Longrightarrow> G \<subseteq> G' \<Longrightarrow> grows L L' \<Longrightarrow> A \<subseteq> A' \<Longrightarrow>
  \<exists>G' L' A'. grown (G, L, A) (G', L', A') \<and> world_agree G' L' A' w"
  by (intro exI [of _ G'] exI [of _ L'] exI [of _ A']) (simp add: grown_def)

lemma agree_network:
  assumes ok: "world_agree G L A w" and sub: "set network \<subseteq> set (w_network w)"
  shows "world_agree G L A (w\<lparr>w_network := network\<rparr>)"
proof -
  have "\<forall>env \<in> set network. travels G env"
    using ok sub by (auto simp: world_agree_def world_ok_def)
  then have "world_ok G (w\<lparr>w_network := network\<rparr>)"
    using ok world_ok_network by (simp add: world_agree_def)
  moreover have "agree G L A ((!) (w_nodes w)) ((!) (w_disk w)) network (w_history w)"
    using ok sub unfolding world_agree_def agree_def by (simp add: subset_iff)
  ultimately show ?thesis
    by (simp add: world_agree_def)
qed

lemma agree_act:
  assumes ok: "world_agree G L A w" and act: "World_act a w = Some w'"
  shows "\<exists>G' L' A'. grown (G, L, A) (G', L', A') \<and> world_agree G' L' A' w'"
proof (cases a)
  case (Deliver index)
  then show ?thesis
    using agree_deliver [OF ok] act grownI by blast
next
  case (Drop index)
  then have "w' = w\<lparr>w_network := vec_remove index (w_network w)\<rparr>"
    using act by (auto simp: bind_eq_Some_conv)
  then show ?thesis
    using grownI [OF agree_network [OF ok set_vec_remove]] by simp
next
  case (Duplicate index)
  then have "w' = w\<lparr>w_network := w_network w @ [w_network w ! index]\<rparr>" and "index < length (w_network w)"
    using act by (auto simp: bind_eq_Some_conv)
  then show ?thesis
    using grownI [OF agree_network [OF ok, of "w_network w @ [w_network w ! index]"]] by simp
next
  case (Save i)
  then show ?thesis
    using agree_saves [OF ok] act grownI [of "G \<union> vote_of i (n_state (w_nodes w ! i))" L] by fastforce
next
  case (Crash i)
  then show ?thesis
    using grownI [OF agree_crashes [OF ok]] act by simp
next
  case (Timeout i)
  then show ?thesis
    using grownI [OF agree_times_out [OF ok]] act by simp
next
  case (Propose i)
  then show ?thesis
    using agree_proposes [OF ok] act grownI [of G _ A] by blast
qed

section \<open>The oracle\<close>

lemma committed_take:
  assumes "plain_log (n_state n)"
  shows "Node_committed n = (if n_dirty n then [] else take (unat (n_commit n)) (n_log n))"
  using log_chain_takeWhile_upto [OF plain_log_facts(2) [OF assms]]
  by (simp add: Node_committed_def LogId_default_def takeWhile_eq_Nil_iff)

lemma applied_decided:
  assumes "world_agree G L A w" and "i < 3"
  shows "decided majority L A (Node_committed (w_nodes w ! i))"
proof -
  have st: "stored L A i (n_state (w_nodes w ! i))"
    using agreeD(5) [of G L A "(!) (w_nodes w)"] assms by (auto simp: world_agree_def)
  then have "plain_log (n_state (w_nodes w ! i))"
    using site_plain world_agreeD(2) [OF assms] by blast
  then show ?thesis
    using st by (simp add: committed_take stored_def replica_ok_def decided_def)
qed

text \<open>A leader has what was committed in earlier terms.\<close>

definition complete :: "u64 Led \<Rightarrow> Acks \<Rightarrow> WNode \<Rightarrow> bool" where
  "complete L A n \<longleftrightarrow>
     (n_role n = Leader \<longrightarrow> (\<forall>h. decided majority L A h \<longrightarrow>
        (let k = length (takeWhile (\<lambda>e. en_term e < n_term n) h) in take k (n_log n) = take k h)))"

lemma prefix_take: "prefix h l \<Longrightarrow> k \<le> length h \<Longrightarrow> take k l = take k h"
  by (auto simp: prefix_def)

lemma leader_terms:
  assumes ok: "leaders_ok L" and l: "L t = Some (c, l)" and e: "e \<in> set l"
  shows "en_term e \<noteq> 0"
proof -
  obtain j where "j < length l" "l ! j = e"
    using e by (auto simp: in_set_conv_nth)
  moreover have "rooted L l"
    using ok l unfolding leaders_ok_def by blast
  ultimately obtain c' l' where "L (en_term e) = Some (c', l')"
    unfolding rooted_def by blast
  then show ?thesis
    using ok unfolding leaders_ok_def by blast
qed

lemma leader_complete:
  assumes ok: "agree G L A N D net history" and i: "i < 3" and two: "n_term (N i) \<le> 2" "\<forall>j < 3. d_term (D j) \<le> 2"
  shows "complete L A (N i)"
  unfolding complete_def Let_def
proof (intro impI allI)
  fix h assume role: "n_role (N i) = Leader" and dec: "decided majority L A h"
  note old = agreeD [OF ok]
  let ?T = "n_term (N i)" and ?X = "n_log (N i)"
  let ?k = "length (takeWhile (\<lambda>e. en_term e < n_term (N i)) h)"
  have k: "?k \<le> length h"
    by (simp add: length_takeWhile_le)
  have X: "L ?T = Some (wid i, ?X)"
    using old(7) [OF i] role by (simp add: leading_def)
  show "take ?k ?X = take ?k h"
  proof (cases "h = []")
    case False
    then obtain t x c l where com: "committed_at majority L A t x" and l: "L t = Some (c, l)" "prefix h (take x l)"
      using dec unfolding decided_def by blast
    have hl: "prefix h l"
      using l(2) take_is_prefix prefix_order.trans by blast
    consider "t < ?T" | "t = ?T" | "?T < t"
      by fastforce
    then show ?thesis
    proof cases
      case 1
      then have "holds L t x ?X"
        using majority.leader_completeness [OF old(1,2) com] X by blast
      then have "prefix h (take x ?X)"
        using l by (auto simp: holds_def)
      then have "prefix h ?X"
        using take_is_prefix prefix_order.trans by blast
      then show ?thesis
        using prefix_take [OF _ k] by blast
    next
      case 2
      then show ?thesis
        using prefix_take [OF hl k] X l(1) by simp
    next
      case 3
      have "t \<le> 2"
        using old(4) l(1) two(2) order.trans unfolding dated_def by blast
      then have one: "?T \<le> 1"
        using 3 by (auto simp: u64)
      have "\<not> en_term e < ?T" if "e \<in> set h" for e
        using leader_terms [OF old(1) l(1), of e] set_mono_prefix [OF hl] that one by (auto simp: subset_iff word_le_nat_alt word_less_nat_alt unat_eq_0 [symmetric])
      then have "takeWhile (\<lambda>e. en_term e < ?T) h = []"
        by (cases h) simp_all
      then show ?thesis
        by simp
    qed
  qed simp
qed

lemma prefix_zip: "prefix xs ys \<or> prefix ys xs \<Longrightarrow> \<not> list_ex (\<lambda>(a, b). a \<noteq> b) (zip xs ys)"
  by (auto simp: prefix_def zip_append1 zip_append2 list_ex_iff in_set_zip)

lemma check_leader_agree:
  assumes "b \<Longrightarrow> complete L A n" and "decided majority L A history"
  shows "yields (check_leader path i n (history, leaders))
    (\<lambda>r. case r of Inl v \<Rightarrow> b \<longrightarrow> safety_violation v | Inr (history', _) \<Rightarrow> history' = history)"
  using assms
  by (auto simp: check_leader_def Let_def yield complete_def safety_violation_def)

lemma check_applied_agree:
  assumes ok: "leaders_ok L" "elections_ok majority G L A" and h: "decided majority L A history"
    and n: "decided majority L A (Node_committed n)"
  shows "\<exists>history'. check_applied path n (history, leaders) = Inr (history', leaders) \<and> decided majority L A history'"
  using prefix_zip [OF majority.decided_comparable [OF ok n h]] h n
  by (auto simp: check_applied_def Let_def)

lemma check_nodes_agree:
  assumes ok: "leaders_ok L" "elections_ok majority G L A"
    and "\<forall>n \<in> set nodes. decided majority L A (Node_committed n)" and "decided majority L A history"
    and "b \<Longrightarrow> \<forall>n \<in> set nodes. complete L A n"
  shows "yields (check_nodes path i nodes (history, leaders)) (\<lambda>r. case r of
     Inl v \<Rightarrow> b \<longrightarrow> safety_violation v | Inr (_, history', _) \<Rightarrow> decided majority L A history')"
  using assms(3-)
proof (induction nodes arbitrary: i history leaders)
  case (Cons n nodes)
  have led: "yields (check_leader path i n (history, leaders))
      (\<lambda>r. case r of Inl v \<Rightarrow> b \<longrightarrow> safety_violation v | Inr (history', _) \<Rightarrow> history' = history)"
    using Cons.prems by (intro check_leader_agree) auto
  have rest: "yields (check_nodes path (Suc i) nodes (h, l)) (\<lambda>r. case r of
     Inl v \<Rightarrow> b \<longrightarrow> safety_violation v | Inr (_, history', _) \<Rightarrow> decided majority L A history')"
    if "decided majority L A h" for h l
    using Cons that by simp
  have tail: "yields (case check_applied path n (history, l) of Inl v \<Rightarrow> Some (Inl v) | Inr seen2 \<Rightarrow> do {
       rest \<leftarrow> check_nodes path (Suc i) nodes seen2;
       Some (case rest of Inl v \<Rightarrow> Inl v | Inr (nodes', seen3) \<Rightarrow> Inr (n # nodes', seen3))
     }) (\<lambda>r. case r of Inl v \<Rightarrow> b \<longrightarrow> safety_violation v | Inr (_, history', _) \<Rightarrow> decided majority L A history')" for l
  proof -
    obtain h where h: "check_applied path n (history, l) = Inr (h, l)" "decided majority L A h"
      using check_applied_agree [OF ok Cons.prems(2), of n path l] Cons.prems(1) by auto
    show ?thesis
      by (auto simp: h(1) yields_bind split: sum.splits intro!: yields_conseq [OF rest [OF h(2), of l]])
  qed
  show ?case
    unfolding check_nodes.simps yields_bind [of "check_leader path i n (history, leaders)"]
  proof (rule yields_conseq [OF led])
    fix r :: "Violation + Observed" assume "case r of Inl v \<Rightarrow> b \<longrightarrow> safety_violation v | Inr (history', _) \<Rightarrow> history' = history"
    then show "yields (case r of Inl v \<Rightarrow> Some (Inl v) | Inr seen1 \<Rightarrow> do {
        ready \<leftarrow> check_ready path n;
        (case ready of Inl v \<Rightarrow> Some (Inl v) | Inr node' \<Rightarrow>
           (case check_applied path node' seen1 of Inl v \<Rightarrow> Some (Inl v) | Inr seen2 \<Rightarrow> do {
              rest \<leftarrow> check_nodes path (Suc i) nodes seen2;
              Some (case rest of Inl v \<Rightarrow> Inl v | Inr (nodes', seen3) \<Rightarrow> Inr (node' # nodes', seen3))
            }))
      }) (\<lambda>r. case r of Inl v \<Rightarrow> b \<longrightarrow> safety_violation v | Inr (_, history', _) \<Rightarrow> decided majority L A history')"
      using tail by (cases r) (auto simp: check_ready_ok)
  qed
qed simp

lemma agree_observes:
  assumes ok: "world_agree G L A w" and check: "World_check path w = Some (Inr w')"
  shows "world_agree G L A w'"
proof -
  have wok: "world_ok G w" and ag: "agree G L A ((!) (w_nodes w)) ((!) (w_disk w)) (w_network w) (w_history w)"
    using ok by (simp_all add: world_agree_def)
  obtain r where r: "check_nodes path 0 (w_nodes w) (w_history w, w_leaders w) = Some r"
    "Inr w' = (case r of Inl v \<Rightarrow> Inl v | Inr (nodes, history, leaders) \<Rightarrow>
       Inr (w\<lparr>w_nodes := nodes, w_history := history, w_leaders := leaders\<rparr>))"
    using check by (auto simp: World_check_def bind_eq_Some_conv)
  obtain nodes history leaders where c: "r = Inr (nodes, history, leaders)"
    "w' = w\<lparr>w_nodes := nodes, w_history := history, w_leaders := leaders\<rparr>"
    using r(2) by (cases r) auto
  have "\<forall>n \<in> set (w_nodes w). decided majority L A (Node_committed n)"
    using applied_decided [OF ok] wok by (auto simp: in_set_conv_nth world_ok_def)
  from yieldsD [OF check_nodes_agree [OF agreeD(1,2) [OF ag] this agreeD(12) [OF ag], of False] r(1)] c(1)
  have "decided majority L A history"
    by simp
  moreover have "w_nodes w' = w_nodes w" "w_network w' = w_network w" "world_ok G w'"
    using world_check_nodes [OF wok check] yieldsD [OF world_check [OF wok] check] by simp_all
  ultimately show ?thesis
    using ag c(2) unfolding world_agree_def agree_def by simp
qed

text \<open>The oracle finds nothing wrong while terms are at most 2.\<close>

lemma check_passes:
  assumes ok: "world_agree G L A w" and b: "bounded w"
  shows "\<exists>w'. World_check path w = Some (Inr w') \<and> world_agree G L A w' \<and> bounded w'"
proof -
  have wok: "world_ok G w" and ag: "agree G L A ((!) (w_nodes w)) ((!) (w_disk w)) (w_network w) (w_history w)"
    using ok by (simp_all add: world_agree_def)
  have len: "length (w_nodes w) = 3"
    using wok by (simp add: world_ok_def)
  have two: "n_term (w_nodes w ! i) \<le> 2" "d_term (w_disk w ! i) \<le> 2" if i: "i < 3" for i
  proof -
    show two: "n_term (w_nodes w ! i) \<le> 2"
      using b i by (simp add: bounded_def)
    have "d_term (w_disk w ! i) \<le> n_term (w_nodes w ! i)"
      using world_agreeD(3) [OF ok i] by (simp add: runs_over_def HardState_le_def)
    then show "d_term (w_disk w ! i) \<le> 2"
      using two by (rule order.trans)
  qed
  have nodes: "\<forall>n \<in> set (w_nodes w). decided majority L A (Node_committed n) \<and> complete L A n"
    using applied_decided [OF ok] leader_complete [OF ag] two len by (auto simp: in_set_conv_nth)
  obtain r where r: "World_check path w = Some r" and
    safe: "case r of Inl v \<Rightarrow> \<not> safety_violation v | Inr w' \<Rightarrow> world_ok G w' \<and> bounded w'"
    using check_returns [OF wok b] by blast
  have "yields (check_nodes path 0 (w_nodes w) (w_history w, w_leaders w)) (\<lambda>r. case r of
     Inl v \<Rightarrow> True \<longrightarrow> safety_violation v | Inr (_, history', _) \<Rightarrow> decided majority L A history')"
    using nodes by (intro check_nodes_agree [OF agreeD(1,2) [OF ag] _ agreeD(12) [OF ag]]) auto
  then have "yields (World_check path w) (\<lambda>r. case r of Inl v \<Rightarrow> safety_violation v | Inr _ \<Rightarrow> True)"
    by (auto simp: World_check_def yields_bind split: sum.splits elim!: yields_conseq)
  then obtain w' where "r = Inr w'"
    using safe r by (cases r) auto
  then show ?thesis
    using r safe agree_observes [OF ok] by auto
qed

section \<open>Schedules\<close>

lemma agree_apply:
  assumes "world_agree G L A w" and "World_apply debug a w = Some w'"
  shows "\<exists>G' L' A'. grown (G, L, A) (G', L', A') \<and> world_agree G' L' A' w'"
proof -
  obtain w1 where w1: "World_act a w = Some w1" and w': "w' = w1\<lparr>w_network := sort_key debug (w_network w1)\<rparr>"
    using assms(2) by (auto simp: World_apply_def bind_eq_Some_conv)
  obtain G' L' A' where g: "grown (G, L, A) (G', L', A')" and ok: "world_agree G' L' A' w1"
    using agree_act [OF assms(1) w1] by blast
  have "world_agree G' L' A' w'"
    unfolding w' by (rule agree_network [OF ok]) simp
  then show ?thesis
    using g by blast
qed

lemma agree_schedule:
  assumes "(schedule debug)\<^sup>*\<^sup>* w w'" and "world_agree G L A w"
  shows "\<exists>G' L' A'. grown (G, L, A) (G', L', A') \<and> world_agree G' L' A' w'"
  using assms(1)
proof (induction rule: rtranclp_induct)
  case base
  then show ?case
    using grownI [OF assms(2)] by simp
next
  case (step w1 w2)
  then obtain G1 L1 A1 where one: "grown (G, L, A) (G1, L1, A1)" "world_agree G1 L1 A1 w1"
    by blast
  have "\<exists>G' L' A'. grown (G1, L1, A1) (G', L', A') \<and> world_agree G' L' A' w2"
    using step(2)
  proof (rule scheduleE)
    fix a assume "World_apply debug a w1 = Some w2"
    then show ?thesis
      using agree_apply [OF one(2)] by blast
  next
    fix path assume "World_check path w1 = Some (Inr w2)"
    then show ?thesis
      using grownI [OF agree_observes [OF one(2)]] by simp
  qed
  then obtain G2 L2 A2 where two: "grown (G1, L1, A1) (G2, L2, A2)" "world_agree G2 L2 A2 w2"
    by blast
  have "grown (G, L, A) (G2, L2, A2)"
    using one(1) two(1) grows_trans unfolding grown_def by auto
  then show ?case
    using two(2) by blast
qed

lemma agree_starts:
  assumes "World_new = Some w"
  shows "world_agree {} (\<lambda>_. None) {} w"
proof -
  let ?d = "State_new 4 :: WState"
  obtain nodes where nodes: "those (map (\<lambda>i. Node_new (World_config i) ?d \<bind> unwrap) [0..<3]) = Some nodes"
    and w: "w_nodes w = nodes" "w_disk w = replicate 3 ?d" "w_network w = []" "w_history w = []"
    using assms by (auto simp: World_new_def bind_eq_Some_conv)
  have new: "Node_new (World_config i) ?d = Some (Ok (nodes ! i))" if "i < 3" for i
    using nodes that
    by (auto simp: eval_nat_numeral bind_eq_Some_conv unwrap_Some less_Suc_eq split: option.splits)
  have "disk_ok ?d"
    by (simp add: disk_ok_def State_new_def HardState_default_def State_inv_def slots_wf_def
        State_entries_def State_base_def State_last_def list_all_iff)
  then have n: "n_state (nodes ! i) = ?d" "n_role (nodes ! i) = Follower" "outs (nodes ! i) = {}" if "i < 3" for i
    using site_starts [OF that, of ?d] new [OF that] idle_outs [of "nodes ! i"] by auto
  have d: "State_entries ?d = []" "st_snapshot ?d = None" "hs_voted_for (st_hard ?d) = None"
    by (simp_all add: State_new_def State_entries_def HardState_default_def)
  have "agree {} (\<lambda>_. None) {} ((!) nodes) ((!) (replicate 3 ?d)) [] []"
    using n d
    by (simp add: agree_def leaders_ok_def elections_ok_def acks_ok_def dated_def site_log_def stored_def replica_ok_def
        rooted_def decided_def leading_def standing_def answering_def chose_def)
  moreover have "world_ok {} w"
    using world_starts assms by (metis option.inject)
  ultimately show ?thesis
    using w by (simp add: world_agree_def)
qed

lemma reachable_agree:
  assumes "reachable debug w"
  shows "\<exists>G L A. world_agree G L A w"
proof -
  obtain w0 where w0: "World_new = Some w0" "(schedule debug)\<^sup>*\<^sup>* w0 w"
    using assms unfolding reachable_def by blast
  then show ?thesis
    using agree_schedule [OF w0(2) agree_starts [OF w0(1)]] by blast
qed

text \<open>What any two nodes have applied, at any two points of a schedule, agrees.\<close>

lemma applied_agree:
  assumes "reachable debug w" and "(schedule debug)\<^sup>*\<^sup>* w w'" and i: "i < 3" and j: "j < 3"
  shows "prefix (Node_committed (w_nodes w ! i)) (Node_committed (w_nodes w' ! j))
    \<or> prefix (Node_committed (w_nodes w' ! j)) (Node_committed (w_nodes w ! i))"
proof -
  obtain G L A where ok: "world_agree G L A w"
    using reachable_agree [OF assms(1)] by blast
  then obtain G' L' A' where g: "grown (G, L, A) (G', L', A')" and ok': "world_agree G' L' A' w'"
    using agree_schedule [OF assms(2)] by blast
  have "decided majority L' A' (Node_committed (w_nodes w ! i))"
    using majority.decided_grow [OF applied_decided [OF ok i]] g by (simp add: grown_def)
  moreover have "decided majority L' A' (Node_committed (w_nodes w' ! j))"
    using applied_decided [OF ok' j] .
  moreover have "leaders_ok L'" "elections_ok majority G' L' A'"
    using ok' agreeD(1,2) unfolding world_agree_def by blast+
  ultimately show ?thesis
    using majority.decided_comparable by blast
qed

text \<open>Logs that have the same entry at an index are equal up to it.\<close>

lemma logs_match:
  assumes "reachable debug w" and i: "i < 3" and j: "j < 3"
    and "k < length (n_log (w_nodes w ! i))" and "k < length (n_log (w_nodes w ! j))"
    and "en_id (n_log (w_nodes w ! i) ! k) = en_id (n_log (w_nodes w ! j) ! k)"
  shows "take (Suc k) (n_log (w_nodes w ! i)) = take (Suc k) (n_log (w_nodes w ! j))"
proof -
  obtain G L A where ok: "world_agree G L A w"
    using reachable_agree [OF assms(1)] by blast
  then have "rooted L (n_log (w_nodes w ! x))" if "x < 3" for x
    using that agreeD(5) [of G L A "(!) (w_nodes w)"] unfolding world_agree_def stored_def replica_ok_def by blast
  then show ?thesis
    using log_matching [of L "n_log (w_nodes w ! i)" "n_log (w_nodes w ! j)" "Suc k"] assms by (simp add: id_at_def)
qed

section \<open>The search finds no violation\<close>

lemma search_passes:
  shows "world_agree G L A w \<Longrightarrow> bounded w \<Longrightarrow> \<exists>seen'. visit debug key w left seen path = Some (Inr seen')"
    and "world_agree G L A w \<Longrightarrow> bounded w \<Longrightarrow> (\<forall>a \<in> set actions. enabled w a) \<Longrightarrow>
      \<exists>seen'. visit_all debug key w left actions seen path = Some (Inr seen')"
proof (induction debug key w left seen path and debug key w left actions seen path arbitrary: G L A and G L A
    rule: visit_visit_all.induct)
  case (1 debug key w left seen path)
  obtain w1 where w1: "World_check path w = Some (Inr w1)" "world_agree G L A w1" "bounded w1"
    using check_passes [OF 1(2,3)] by blast
  obtain as where as: "World_actions w1 = Some as" "\<forall>a \<in> set as. enabled w1 a"
    using actions_return w1(2) unfolding world_agree_def by blast
  have "\<exists>seen'. visit_all debug key w1 (left - 1) as (seen(key w1 \<mapsto> left)) path = Some (Inr seen')"
    if "\<not> is_some_and (\<lambda>depth. left \<le> depth) (seen (key w1))" "left \<noteq> 0"
    by (rule 1(1) [OF w1(1) refl that(1) refl that(2) as(1) w1(2,3) as(2)])
  then show ?case
    using w1(1) as(1) by (simp add: Let_def del: One_nat_def)
next
  case (3 debug key w left a as seen path)
  obtain w' where w': "World_apply debug a w = Some w'" "bounded w'"
    using enabled_returns [of G w a debug] 3(3-5) by (auto simp: world_agree_def)
  obtain G' L' A' where ok': "world_agree G' L' A' w'"
    using agree_apply [OF 3(3) w'(1)] by blast
  obtain seen1 where r: "visit debug key w' left seen (path @ [a]) = Some (Inr seen1)"
    using 3(1) [OF w'(1) ok' w'(2)] by blast
  show ?case
    using w' r 3(2) [OF w'(1) r refl 3(3,4)] 3(5) by (auto simp del: visit.simps)
qed auto

end
