(* ===== verification/Jarl_Text.thy ===== *)
theory Jarl_Text
  imports Jarl_Types
begin

text \<open>
  Texts that can be read back: joined lists, decimal numbers, and the locale \<open>value_text\<close> of a
  printed form that can be told from whatever follows it.
\<close>

fun join :: "string \<Rightarrow> string list \<Rightarrow> string" where
  "join sep [] = []"
| "join sep [s] = s"
| "join sep (s # t # ss) = s @ sep @ join sep (t # ss)"

definition nat_parse :: "string \<Rightarrow> nat" where
  "nat_parse s = foldl (\<lambda>a c. 10 * a + (of_char c - 48)) 0 s"

lemma nat_parse_decimal: "nat_parse (nat_decimal n) = n"
  unfolding nat_parse_def
proof (induction n rule: nat_decimal.induct)
  case (1 n)
  then show ?case
    by (subst nat_decimal.simps) auto
qed

lemma nat_decimal_digits: "c \<in> set (nat_decimal n) \<Longrightarrow> 48 \<le> (of_char c :: nat) \<and> of_char c < (58 :: nat)"
proof (induction n rule: nat_decimal.induct)
  case (1 n)
  show ?case
  proof (cases "n < 10")
    case True
    then show ?thesis
      using 1(2) by (subst (asm) nat_decimal.simps) auto
  next
    case False
    then show ?thesis
      using 1 by (subst (asm) (2) nat_decimal.simps) auto
  qed
qed

lemma nat_decimal_not:
  "CHR '')'' \<notin> set (nat_decimal n)" "CHR '' '' \<notin> set (nat_decimal n)"
  using nat_decimal_digits [of "CHR '')''" n] nat_decimal_digits [of "CHR '' ''" n] by auto

lemma closed_unique: "c \<notin> set xs \<Longrightarrow> c \<notin> set ys \<Longrightarrow> xs @ c # u = ys @ c # v \<longleftrightarrow> xs = ys \<and> u = v"
  by (induction xs arbitrary: ys; case_tac ys) auto

lemma nat_decimal_inj: "nat_decimal m = nat_decimal n \<longleftrightarrow> m = n"
  using nat_parse_decimal by metis

lemma nat_decimal_unique:
  "nat_decimal m @ CHR '')'' # u = nat_decimal n @ CHR '')'' # v \<longleftrightarrow> m = n \<and> u = v"
  "nat_decimal m @ CHR '' '' # u = nat_decimal n @ CHR '' '' # v \<longleftrightarrow> m = n \<and> u = v"
  by (simp_all add: closed_unique nat_decimal_not nat_decimal_inj)

lemma join_Cons: "join sep (s # ss) = s @ concat (map (\<lambda>t. sep @ t) ss)"
  by (induction ss arbitrary: s) simp_all

locale value_text =
  fixes text_of :: "'a \<Rightarrow> string"
  assumes unique: "text_of x @ u = text_of y @ v \<Longrightarrow> x = y \<and> u = v"
    and opens: "\<exists>c r. text_of x = c # r \<and> c \<noteq> CHR '']''"
begin

lemma value_append_iff: "text_of x @ u = text_of y @ v \<longleftrightarrow> x = y \<and> u = v"
  using unique by blast

lemma value_inj: "text_of x = text_of y \<Longrightarrow> x = y"
  using unique [of x "[]" y "[]"] by simp

lemma tail_unique:
  "concat (map (\<lambda>x. '', '' @ text_of x) xs) @ CHR '']'' # u = concat (map (\<lambda>x. '', '' @ text_of x) ys) @ CHR '']'' # v
     \<Longrightarrow> xs = ys \<and> u = v"
proof (induction xs arbitrary: ys)
  case Nil
  then show ?case
    by (cases ys) auto
next
  case (Cons x xs)
  then obtain y zs where ys: "ys = y # zs"
    by (cases ys) auto
  then show ?case
    using Cons by (auto simp: value_append_iff)
qed

lemma array_unique:
  assumes "join '', '' (map text_of xs) @ CHR '']'' # u = join '', '' (map text_of ys) @ CHR '']'' # v"
  shows "xs = ys \<and> u = v"
proof (cases xs)
  case Nil
  then show ?thesis
    using assms opens [of "hd ys"] by (cases ys) (auto simp: join_Cons)
next
  case (Cons x xs')
  then obtain y ys' where ys: "ys = y # ys'"
    using assms opens [of x] by (cases ys) (auto simp: join_Cons)
  then show ?thesis
    using assms Cons tail_unique [of xs' u ys' v] by (auto simp: join_Cons value_append_iff comp_def)
qed

end

end
