(* ===== verification/Jarl_Machine.thy ===== *)
theory Jarl_Machine
  imports Jarl_Node Jarl_Text
begin

text \<open>
  The value syntax of \<^verbatim>\<open>jarl/src/node/machine.rs\<close>, in which a differential test prints nodes,
  messages and results. The trait \<^verbatim>\<open>Value\<close> is the locale \<open>value_text\<close>: a text can be told from what
  follows it, so that it determines the value; its implementations interpret the locale.
\<close>

section \<open>The trait\<close>

definition quoted :: "string \<Rightarrow> string" where
  "quoted s = CHR 0x22 # s @ [CHR 0x22]"

definition fields_text :: "(string \<times> string) list \<Rightarrow> string" where
  "fields_text fs =
     ''['' @ join '', '' (map (\<lambda>(n, v). ''('' @ quoted n @ '', '' @ v @ '')'') fs) @ '']''"

definition record_text :: "string \<Rightarrow> (string \<times> string) list \<Rightarrow> string" where
  "record_text name fs = ''.record '' @ quoted name @ '' '' @ fields_text fs"

definition variant_text :: "string \<Rightarrow> string \<Rightarrow> (string \<times> string) list \<Rightarrow> string" where
  "variant_text owner tag fs = ''.variant '' @ quoted owner @ '' '' @ quoted tag @ '' '' @ fields_text fs"

section \<open>Implementations\<close>

text \<open>Numbers, truth values and the unit value.\<close>

definition u64_value :: "u64 \<Rightarrow> string" where
  "u64_value n = ''(.number '' @ quoted ''u64'' @ '' '' @ nat_decimal (unat n) @ '')''"

definition usize_value :: "usize \<Rightarrow> string" where
  "usize_value n = ''(.number '' @ quoted ''usize'' @ '' '' @ nat_decimal n @ '')''"

definition bool_value :: "bool \<Rightarrow> string" where
  "bool_value b = ''(.boolean '' @ (if b then ''true'' else ''false'') @ '')''"

definition unit_value :: "unit \<Rightarrow> string" where
  "unit_value u = ''.unit''"

definition option_value :: "('a \<Rightarrow> string) \<Rightarrow> 'a option \<Rightarrow> string" where
  "option_value f x = (case x of None \<Rightarrow> ''.absent'' | Some v \<Rightarrow> ''(.present ('' @ f v @ ''))'')"

definition array_value :: "('a \<Rightarrow> string) \<Rightarrow> 'a list \<Rightarrow> string" where
  "array_value f xs = ''(.array ['' @ join '', '' (map f xs) @ ''])''"

definition pair_value :: "('a \<Rightarrow> string) \<Rightarrow> ('b \<Rightarrow> string) \<Rightarrow> 'a \<times> 'b \<Rightarrow> string" where
  "pair_value f g = (\<lambda>(a, b). record_text ''()'' [(''0'', f a), (''1'', g b)])"

lemmas text_defs = record_text_def variant_text_def fields_text_def quoted_def

interpretation u64_text: value_text u64_value
  by unfold_locales (auto simp: u64_value_def quoted_def nat_decimal_unique word_unat_eq_iff)

interpretation usize_text: value_text usize_value
  by unfold_locales (auto simp: usize_value_def quoted_def nat_decimal_unique)

interpretation bool_text: value_text bool_value
  by unfold_locales (auto simp: bool_value_def split: if_splits)

interpretation unit_text: value_text unit_value
  by unfold_locales (auto simp: unit_value_def)

lemma option_text:
  assumes "value_text f"
  shows "value_text (option_value f)"
  by unfold_locales (auto simp: option_value_def value_text.value_append_iff [OF assms] split: option.splits)

lemma array_text:
  assumes "value_text f"
  shows "value_text (array_value f)"
  by unfold_locales (auto simp: array_value_def dest: value_text.array_unique [OF assms])

lemma pair_text:
  assumes "value_text f" and "value_text g"
  shows "value_text (pair_value f g)"
  by unfold_locales
    (auto simp: pair_value_def text_defs value_text.value_append_iff [OF assms(1)] value_text.value_append_iff [OF assms(2)])

section \<open>The vocabulary\<close>

definition Id_value :: "Id \<Rightarrow> string" where
  "Id_value i = record_text ''Id'' [(''0'', u64_value (id_num i))]"

definition LogId_value :: "LogId \<Rightarrow> string" where
  "LogId_value i = record_text ''LogId'' [(''index'', u64_value (li_index i)), (''term'', u64_value (li_term i))]"

definition Entry_value :: "('v \<Rightarrow> string) \<Rightarrow> 'v Entry \<Rightarrow> string" where
  "Entry_value vv e =
     record_text ''Entry'' [(''id'', LogId_value (en_id e)), (''value'', option_value vv (en_value e))]"

definition Snapshot_value :: "('s \<Rightarrow> string) \<Rightarrow> 's Snapshot \<Rightarrow> string" where
  "Snapshot_value sv s = record_text ''Snapshot'' [(''last'', LogId_value (sn_last s)), (''value'', sv (sn_value s))]"

text \<open>The derived \<^verbatim>\<open>Debug\<close> text of a variant without fields is its name.\<close>

fun Role_debug :: "Role \<Rightarrow> string" where
  "Role_debug Follower = ''Follower''"
| "Role_debug Candidate = ''Candidate''"
| "Role_debug Leader = ''Leader''"

definition Role_value :: "Role \<Rightarrow> string" where
  "Role_value r = variant_text ''Role'' (Role_debug r) []"

fun Rejection_value :: "Rejection \<Rightarrow> string" where
  "Rejection_value (Conflict next_index) = variant_text ''Rejection'' ''Conflict'' [(''next'', u64_value next_index)]"
| "Rejection_value RejectFull = variant_text ''Rejection'' ''Full'' []"

fun Error_value :: "Error \<Rightarrow> string" where
  "Error_value (ErrNotLeader i) = variant_text ''Error'' ''NotLeader'' [(''0'', option_value Id_value i)]"
| "Error_value ErrConfig = variant_text ''Error'' ''Config'' []"
| "Error_value ErrState = variant_text ''Error'' ''State'' []"
| "Error_value ErrBusy = variant_text ''Error'' ''Busy'' []"
| "Error_value ErrFull = variant_text ''Error'' ''Full'' []"
| "Error_value ErrNotCommitted = variant_text ''Error'' ''NotCommitted'' []"
| "Error_value ErrExhausted = variant_text ''Error'' ''Exhausted'' []"
| "Error_value ErrMessage = variant_text ''Error'' ''Message'' []"
| "Error_value ErrReconfiguring = variant_text ''Error'' ''Reconfiguring'' []"
| "Error_value ErrNotCaughtUp = variant_text ''Error'' ''NotCaughtUp'' []"

fun Outbound_value :: "Outbound \<Rightarrow> string" where
  "Outbound_value (OutPreVote t) = variant_text ''Outbound'' ''PreVote'' [(''0'', u64_value t)]"
| "Outbound_value (OutPreVoted t g) = variant_text ''Outbound'' ''PreVoted'' [(''0'', u64_value t), (''1'', bool_value g)]"
| "Outbound_value OutVote = variant_text ''Outbound'' ''Vote'' []"
| "Outbound_value (OutVoted g) = variant_text ''Outbound'' ''Voted'' [(''0'', bool_value g)]"
| "Outbound_value OutReplicate = variant_text ''Outbound'' ''Replicate'' []"
| "Outbound_value (OutReplicated i r) =
     variant_text ''Outbound'' ''Replicated'' [(''0'', u64_value i), (''1'', option_value Rejection_value r)]"

definition HardState_value :: "HardState \<Rightarrow> string" where
  "HardState_value h =
     record_text ''HardState''
       [(''term'', u64_value (hs_term h)), (''voted_for'', option_value Id_value (hs_voted_for h)),
        (''commit'', u64_value (hs_commit h))]"

definition State_value :: "('v \<Rightarrow> string) \<Rightarrow> ('s \<Rightarrow> string) \<Rightarrow> ('v, 's) State \<Rightarrow> string" where
  "State_value vv sv st =
     record_text ''State''
       [(''hard'', HardState_value (st_hard st)), (''snapshot'', option_value (Snapshot_value sv) (st_snapshot st)),
        (''entries'', array_value (option_value (Entry_value vv)) (st_entries st)), (''len'', usize_value (st_len st))]"

definition Member_value :: "Member \<Rightarrow> string" where
  "Member_value m =
     record_text ''Member''
       [(''id'', Id_value (m_id m)), (''voter'', bool_value (m_voter m)), (''old'', bool_value (m_old m)),
        (''learner'', bool_value (m_learner m))]"

definition Membership_value :: "Membership \<Rightarrow> string" where
  "Membership_value m = record_text ''Membership'' [(''members'', array_value (option_value Member_value) (mb_members m))]"

definition Config_value :: "Config \<Rightarrow> string" where
  "Config_value c =
     record_text ''Config''
       [(''id'', Id_value (cfg_id c)), (''members'', array_value Id_value (cfg_members c)),
        (''heartbeat_ticks'', u64_value (cfg_heartbeat_ticks c)), (''election_ticks'', u64_value (cfg_election_ticks c)),
        (''seed'', u64_value (cfg_seed c))]"

fun Message_value :: "('v \<Rightarrow> string) \<Rightarrow> ('s \<Rightarrow> string) \<Rightarrow> ('v, 's) Message \<Rightarrow> string" where
  "Message_value vv sv (PreVote t lst) = variant_text ''Message'' ''PreVote'' [(''term'', u64_value t), (''last'', LogId_value lst)]"
| "Message_value vv sv (PreVoted t campaign granted) =
     variant_text ''Message'' ''PreVoted''
       [(''term'', u64_value t), (''campaign'', u64_value campaign), (''granted'', bool_value granted)]"
| "Message_value vv sv (Vote t lst) = variant_text ''Message'' ''Vote'' [(''term'', u64_value t), (''last'', LogId_value lst)]"
| "Message_value vv sv (Voted t granted) = variant_text ''Message'' ''Voted'' [(''term'', u64_value t), (''granted'', bool_value granted)]"
| "Message_value vv sv (Append t previous entry cm) =
     variant_text ''Message'' ''Append''
       [(''term'', u64_value t), (''previous'', LogId_value previous), (''entry'', option_value (Entry_value vv) entry),
        (''commit'', u64_value cm)]"
| "Message_value vv sv (AppendBatch t previous entries cm) =
     variant_text ''Message'' ''AppendBatch''
       [(''term'', u64_value t), (''previous'', LogId_value previous),
        (''entries'', array_value (option_value (Entry_value vv)) entries), (''commit'', u64_value cm)]"
| "Message_value vv sv (Install t snapshot) =
     variant_text ''Message'' ''Install'' [(''term'', u64_value t), (''snapshot'', Snapshot_value sv snapshot)]"
| "Message_value vv sv (Replicated t index rejection) =
     variant_text ''Message'' ''Replicated''
       [(''term'', u64_value t), (''index'', u64_value index), (''rejection'', option_value Rejection_value rejection)]"

definition Envelope_value :: "('v \<Rightarrow> string) \<Rightarrow> ('s \<Rightarrow> string) \<Rightarrow> ('v, 's) Envelope \<Rightarrow> string" where
  "Envelope_value vv sv e =
     record_text ''Envelope''
       [(''from'', Id_value (env_from e)), (''to'', Id_value (env_to e)), (''message'', Message_value vv sv (env_message e))]"

text \<open>Printing the membership hooks panics.\<close>

definition hooks_value :: "('v, 's) MembershipHooks option \<Rightarrow> string option" where
  "hooks_value hooks = (case hooks of None \<Rightarrow> Some ''.absent'' | Some _ \<Rightarrow> None)"

definition Node_value :: "('v \<Rightarrow> string) \<Rightarrow> ('s \<Rightarrow> string) \<Rightarrow> ('v, 's) Node \<Rightarrow> string option" where
  "Node_value vv sv n = do {
     hooks \<leftarrow> hooks_value (n_hooks n);
     Some (record_text ''Node''
       [(''config'', Config_value (n_config n)), (''state'', State_value vv sv (n_state n)),
        (''role'', Role_value (n_role n)), (''leader'', option_value Id_value (n_leader n)),
        (''local'', usize_value (n_local n)), (''membership'', Membership_value (n_membership n)),
        (''bootstrap'', Membership_value (n_bootstrap n)), (''hooks'', hooks),
        (''peers'', array_value (option_value Id_value) (n_peers n)), (''votes'', array_value bool_value (n_votes n)),
        (''next'', array_value u64_value (n_next n)), (''matched'', array_value u64_value (n_matched n)),
        (''outbox'', array_value (option_value Outbound_value) (n_outbox n)), (''dirty'', bool_value (n_dirty n)),
        (''log_from'', option_value u64_value (n_log_from n)), (''snapshot_changed'', bool_value (n_snapshot_changed n)),
        (''elapsed'', u64_value (n_elapsed n)), (''election_deadline'', u64_value (n_election_deadline n)),
        (''random'', u64_value (n_random n)), (''prevoting'', option_value u64_value (n_prevoting n)),
        (''leader_age'', u64_value (n_leader_age n)), (''quorum_elapsed'', u64_value (n_quorum_elapsed n)),
        (''active'', array_value bool_value (n_active n)),
        (''extra_reply'', option_value (pair_value Id_value Outbound_value) (n_extra_reply n)),
        (''request_from'', option_value Id_value (n_request_from n))])
   }"

fun result_text :: "unit Result \<Rightarrow> string" where
  "result_text (Ok _) = variant_text ''Result'' ''Ok'' [(''0'', ''.unit'')]"
| "result_text (Err e) = variant_text ''Result'' ''Err'' [(''0'', Error_value e)]"

section \<open>Texts determine values\<close>

lemmas append_iffs =
  u64_text.value_append_iff usize_text.value_append_iff bool_text.value_append_iff unit_text.value_append_iff

interpretation id_text: value_text Id_value
  by unfold_locales (auto simp: Id_value_def text_defs append_iffs Id.expand)

interpretation log_id_text: value_text LogId_value
  by unfold_locales (auto simp: LogId_value_def text_defs append_iffs intro: LogId.equality)

interpretation role_text: value_text Role_value
proof unfold_locales
  show "x = y \<and> u = v" if "Role_value x @ u = Role_value y @ v" for x y u v
    using that by (cases x; cases y) (auto simp: Role_value_def text_defs)
qed (auto simp: Role_value_def text_defs)

interpretation rejection_text: value_text Rejection_value
proof unfold_locales
  show "x = y \<and> u = v" if "Rejection_value x @ u = Rejection_value y @ v" for x y u v
    using that by (cases x; cases y) (auto simp: text_defs append_iffs)
  show "\<exists>c r. Rejection_value x = c # r \<and> c \<noteq> CHR '']''" for x
    by (cases x) (auto simp: text_defs)
qed

text \<open>Options, arrays and pairs of what has a text.\<close>

lemmas nested_iffs = append_iffs id_text.value_append_iff log_id_text.value_append_iff role_text.value_append_iff
  value_text.value_append_iff [OF option_text [OF u64_text.value_text_axioms]]
  value_text.value_append_iff [OF option_text [OF id_text.value_text_axioms]]
  value_text.value_append_iff [OF option_text [OF rejection_text.value_text_axioms]]
  value_text.value_append_iff [OF array_text [OF bool_text.value_text_axioms]]
  value_text.value_append_iff [OF array_text [OF u64_text.value_text_axioms]]
  value_text.value_append_iff [OF array_text [OF id_text.value_text_axioms]]
  value_text.value_append_iff [OF array_text [OF option_text [OF id_text.value_text_axioms]]]

interpretation error_text: value_text Error_value
proof unfold_locales
  show "x = y \<and> u = v" if "Error_value x @ u = Error_value y @ v" for x y u v
    using that by (cases x; cases y) (auto simp: text_defs nested_iffs)
  show "\<exists>c r. Error_value x = c # r \<and> c \<noteq> CHR '']''" for x
    by (cases x) (auto simp: text_defs)
qed

interpretation outbound_text: value_text Outbound_value
proof unfold_locales
  show "x = y \<and> u = v" if "Outbound_value x @ u = Outbound_value y @ v" for x y u v
    using that by (cases x; cases y) (auto simp: text_defs nested_iffs)
  show "\<exists>c r. Outbound_value x = c # r \<and> c \<noteq> CHR '']''" for x
    by (cases x) (auto simp: text_defs)
qed

interpretation hard_text: value_text HardState_value
  by unfold_locales (auto simp: HardState_value_def text_defs nested_iffs intro: HardState.equality)

interpretation member_text: value_text Member_value
  by unfold_locales (auto simp: Member_value_def text_defs nested_iffs intro: Member.equality)

interpretation membership_text: value_text Membership_value
  by unfold_locales
    (auto simp: Membership_value_def text_defs
      value_text.value_append_iff [OF array_text [OF option_text [OF member_text.value_text_axioms]]]
      intro: Membership.equality)

interpretation config_text: value_text Config_value
  by unfold_locales (auto simp: Config_value_def text_defs nested_iffs intro: Config.equality)

lemma entry_text:
  assumes "value_text vv"
  shows "value_text (Entry_value vv)"
  by unfold_locales
    (auto simp: Entry_value_def text_defs nested_iffs value_text.value_append_iff [OF option_text [OF assms]]
      intro: Entry.equality)

lemma snapshot_text:
  assumes "value_text sv"
  shows "value_text (Snapshot_value sv)"
  by unfold_locales
    (auto simp: Snapshot_value_def text_defs nested_iffs value_text.value_append_iff [OF assms] intro: Snapshot.equality)

lemma state_text:
  assumes "value_text vv" and "value_text sv"
  shows "value_text (State_value vv sv)"
  by unfold_locales
    (auto simp: State_value_def text_defs nested_iffs hard_text.value_append_iff
      value_text.value_append_iff [OF option_text [OF snapshot_text [OF assms(2)]]]
      value_text.value_append_iff [OF array_text [OF option_text [OF entry_text [OF assms(1)]]]]
      intro: State.equality)

lemma message_text:
  assumes "value_text vv" and "value_text sv"
  shows "value_text (Message_value vv sv)"
proof unfold_locales
  note iffs = nested_iffs value_text.value_append_iff [OF snapshot_text [OF assms(2)]]
    value_text.value_append_iff [OF option_text [OF entry_text [OF assms(1)]]]
    value_text.value_append_iff [OF array_text [OF option_text [OF entry_text [OF assms(1)]]]]
  show "x = y \<and> u = v" if "Message_value vv sv x @ u = Message_value vv sv y @ v" for x y u v
    using that by (cases x; cases y) (auto simp: text_defs iffs)
  show "\<exists>c r. Message_value vv sv x = c # r \<and> c \<noteq> CHR '']''" for x
    by (cases x) (auto simp: text_defs)
qed

lemma envelope_text:
  assumes "value_text vv" and "value_text sv"
  shows "value_text (Envelope_value vv sv)"
  by unfold_locales
    (auto simp: Envelope_value_def text_defs nested_iffs value_text.value_append_iff [OF message_text [OF assms]]
      intro: Envelope.equality)

lemma node_text:
  assumes "value_text vv" and "value_text sv" and n: "Node_value vv sv n = Some t" and m: "Node_value vv sv m = Some t"
  shows "n = m"
proof -
  have hooks: "n_hooks n = None" "n_hooks m = None"
    using n m by (auto simp: Node_value_def hooks_value_def split: option.splits)
  note iffs = nested_iffs config_text.value_append_iff membership_text.value_append_iff
    value_text.value_append_iff [OF state_text [OF assms(1,2)]]
    value_text.value_append_iff [OF array_text [OF option_text [OF outbound_text.value_text_axioms]]]
    value_text.value_append_iff [OF option_text [OF pair_text [OF id_text.value_text_axioms outbound_text.value_text_axioms]]]
  have eq: "Node_value vv sv n = Node_value vv sv m"
    using n m by simp
  show ?thesis
    using eq hooks
    by (intro Node.equality)
      (auto simp: Node_value_def hooks_value_def text_defs iffs
        dest: value_text.value_inj [OF option_text [OF id_text.value_text_axioms]])
qed

lemma result_inj: "result_text r = result_text r' \<Longrightarrow> r = r'"
  by (cases r; cases r') (auto simp: text_defs dest: error_text.value_inj)

end
