(* ===== verification/Jarl_Schedules.thy ===== *)
theory Jarl_Schedules
  imports Jarl_Machine Jarl_Election
begin

text \<open>
  The random schedules of \<^verbatim>\<open>jarl/src/node/machine.rs\<close>: three nodes of the fixed engine are driven
  by a reproducible generator, and every call of the methods under test is recorded as a \<open>Case\<close>:
  the texts of the receiver and the arguments before the call, and of the result and the receiver
  after it. The recording never panics, and what is recorded of a call determines the call, so that
  a comparison of texts compares values.
\<close>

section \<open>Data\<close>

record Case =
  ca_function :: string
  ca_before :: string
  ca_arguments :: "string list"
  ca_result :: string
  ca_after :: string

definition ready_text :: "string \<Rightarrow> string" where
  "ready_text node = record_text ''Ready'' [(''node'', node)]"

definition WNode_value :: "WNode \<Rightarrow> string option" where
  "WNode_value = Node_value u64_value unit_value"

definition WState_value :: "WState \<Rightarrow> string" where
  "WState_value = State_value u64_value unit_value"

definition WEnvelope_value :: "WEnvelope \<Rightarrow> string" where
  "WEnvelope_value = Envelope_value u64_value unit_value"

text \<open>The generator: its state, stepped modulo \<open>2 ^ 64\<close>, and the remainder of the upper bits. A
  remainder by zero panics.\<close>

definition Random_below :: "usize \<Rightarrow> u64 \<Rightarrow> (usize \<times> u64) option" where
  "Random_below n random =
     (let random' = random * 6364136223846793005 + 1442695040888963407
      in if n = 0 then None else Some (unat (drop_bit 33 random') mod n, random'))"

record Schedule =
  sd_random :: u64
  sd_nodes :: "WNode list"
  sd_network :: "WEnvelope list"
  sd_disk :: "WState list"
  sd_cases :: "Case list"

section \<open>The arms of the schedule\<close>

definition schedule_tick :: "usize \<Rightarrow> Schedule \<Rightarrow> Schedule option" where
  "schedule_tick i s = do {
     node \<leftarrow> index_read (sd_nodes s) i;
     before \<leftarrow> WNode_value node;
     (r, node') \<leftarrow> Node_tick node;
     after \<leftarrow> WNode_value node';
     Some (s\<lparr>sd_nodes := (sd_nodes s)[i := node'],
             sd_cases := sd_cases s @ [\<lparr>ca_function = ''node_Node_tick'', ca_before = before,
               ca_arguments = [], ca_result = result_text r, ca_after = after\<rparr>]\<rparr>)
   }"

definition schedule_deliver :: "Schedule \<Rightarrow> Schedule option" where
  "schedule_deliver s = do {
     (k, random) \<leftarrow> Random_below (length (sd_network s)) (sd_random s);
     message \<leftarrow> index_read (sd_network s) k;
     (let to = unat (id_num (env_to message))
      in do {
        node \<leftarrow> index_read (sd_nodes s) to;
        before \<leftarrow> WNode_value node;
        (r, node') \<leftarrow> Node_step message node;
        after \<leftarrow> WNode_value node';
        Some (s\<lparr>sd_random := random, sd_network := vec_remove k (sd_network s),
                sd_nodes := (sd_nodes s)[to := node'],
                sd_cases := sd_cases s @ [\<lparr>ca_function = ''node_Node_step'', ca_before = before,
                  ca_arguments = [WEnvelope_value message], ca_result = result_text r, ca_after = after\<rparr>]\<rparr>)
      })
   }"

definition schedule_save :: "usize \<Rightarrow> Schedule \<Rightarrow> Schedule option" where
  "schedule_save i s = do {
     node \<leftarrow> index_read (sd_nodes s) i;
     before \<leftarrow> WNode_value node;
     (case Node_ready node of
        None \<Rightarrow> Some s
      | Some handle \<Rightarrow> do {
          disk \<leftarrow> index_write (sd_disk s) i (Ready_state handle);
          after \<leftarrow> WNode_value (Ready_persisted handle);
          Some (s\<lparr>sd_disk := disk, sd_nodes := (sd_nodes s)[i := Ready_persisted handle],
                  sd_cases := sd_cases s @ [\<lparr>ca_function = ''ready_Ready_persisted'', ca_before = ready_text before,
                    ca_arguments = [], ca_result = ''.unit'', ca_after = ready_text after\<rparr>]\<rparr>)
        })
   }"

definition schedule_discard :: "Schedule \<Rightarrow> Schedule option" where
  "schedule_discard s = do {
     (k, random) \<leftarrow> Random_below (length (sd_network s)) (sd_random s);
     _ \<leftarrow> index_read (sd_network s) k;
     Some (s\<lparr>sd_random := random, sd_network := vec_remove k (sd_network s)\<rparr>)
   }"

text \<open>The text of the result of \<^verbatim>\<open>Node::build\<close>.\<close>

definition built_text :: "WNode Result \<Rightarrow> string option" where
  "built_text built =
     (case built of
        Ok node \<Rightarrow> do { t \<leftarrow> WNode_value node; Some (variant_text ''Result'' ''Ok'' [(''0'', t)]) }
      | Err e \<Rightarrow> Some (variant_text ''Result'' ''Err'' [(''0'', Error_value e)]))"

definition schedule_restart :: "usize \<Rightarrow> Schedule \<Rightarrow> Schedule option" where
  "schedule_restart i s = do {
     membership \<leftarrow> unwrap (Membership_new (length (cfg_members (World_config i))) (cfg_members (World_config i)) []);
     disk \<leftarrow> index_read (sd_disk s) i;
     built \<leftarrow> Node_build (World_config i) disk membership None;
     result \<leftarrow> built_text built;
     node \<leftarrow> unwrap built;
     nodes \<leftarrow> index_write (sd_nodes s) i node;
     Some (s\<lparr>sd_nodes := nodes,
             sd_cases := sd_cases s @ [\<lparr>ca_function = ''node_Node_build'', ca_before = ''.unit'',
               ca_arguments = [Config_value (World_config i), WState_value disk, Membership_value membership, ''.absent''],
               ca_result = result, ca_after = ''.unit''\<rparr>]\<rparr>)
   }"

text \<open>A leader without a pending write proposes; the result is ignored, an overflow of the value
  panics.\<close>

definition schedule_propose :: "nat \<Rightarrow> usize \<Rightarrow> Schedule \<Rightarrow> Schedule option" where
  "schedule_propose seed i s = do {
     node \<leftarrow> index_read (sd_nodes s) i;
     if n_role node = Leader \<and> Node_ready node = None
     then do {
       (k, random) \<leftarrow> Random_below 50 (sd_random s);
       if seed * 100 + k < 2 ^ 64
       then do {
         (_, node') \<leftarrow> Node_propose (of_nat (seed * 100 + k)) node;
         Some (s\<lparr>sd_random := random, sd_nodes := (sd_nodes s)[i := node']\<rparr>)
       }
       else None
     }
     else Some s
   }"

definition schedule_action :: "nat \<Rightarrow> Schedule \<Rightarrow> Schedule option" where
  "schedule_action seed s = do {
     (i, random) \<leftarrow> Random_below 3 (sd_random s);
     (arm, random1) \<leftarrow> Random_below 8 random;
     (let s1 = s\<lparr>sd_random := random1\<rparr>
      in if arm = 0 \<or> arm = 1 then schedule_tick i s1
         else if (arm = 2 \<or> arm = 3) \<and> sd_network s1 \<noteq> [] then schedule_deliver s1
         else if arm = 4 then schedule_save i s1
         else if arm = 5 \<and> sd_network s1 \<noteq> [] then schedule_discard s1
         else if arm = 6 then do {
           (k, random2) \<leftarrow> Random_below 4 random1;
           (let s2 = s1\<lparr>sd_random := random2\<rparr>
            in if k = 0 then schedule_restart i s2 else schedule_propose seed i s2)
         }
         else schedule_propose seed i s1)
   }"

section \<open>Taking the messages out\<close>

function schedule_drain ::
    "WNode \<Rightarrow> WEnvelope list \<Rightarrow> Case list \<Rightarrow> (WNode \<times> WEnvelope list \<times> Case list) option" where
  "schedule_drain node network cases =
     (case Node_next_message node of
        None \<Rightarrow> None
      | Some (message, node') \<Rightarrow> do {
          before \<leftarrow> WNode_value node;
          after \<leftarrow> WNode_value node';
          (let message' = map_option (Envelope_cloned (\<lambda>v. v) (\<lambda>s. s)) message;
               cases' = cases @ [\<lparr>ca_function = ''node_Node_next_message'', ca_before = before, ca_arguments = [],
                 ca_result = option_value WEnvelope_value message', ca_after = after\<rparr>]
           in case message of
                None \<Rightarrow> Some (node', network, cases')
              | Some _ \<Rightarrow> schedule_drain node' (network @ [the message']) cases')
        })"
  by pat_completeness auto
termination
  by (relation "measure (\<lambda>(node, network, cases). pending node)") (auto intro: next_message_pending)

declare schedule_drain.simps [simp del]

fun schedule_drains ::
    "WNode list \<Rightarrow> WEnvelope list \<Rightarrow> Case list \<Rightarrow> (WNode list \<times> WEnvelope list \<times> Case list) option" where
  "schedule_drains [] network cases = Some ([], network, cases)"
| "schedule_drains (node # nodes) network cases = do {
     (node', network1, cases1) \<leftarrow> schedule_drain node network cases;
     (nodes', network2, cases2) \<leftarrow> schedule_drains nodes network1 cases1;
     Some (node' # nodes', network2, cases2)
   }"

section \<open>Whole schedules\<close>

definition schedule_round :: "nat \<Rightarrow> Schedule \<Rightarrow> Schedule option" where
  "schedule_round seed s = do {
     s1 \<leftarrow> schedule_action seed s;
     (nodes, network, cases) \<leftarrow> schedule_drains (sd_nodes s1) (sd_network s1) (sd_cases s1);
     Some (s1\<lparr>sd_nodes := nodes, sd_network := network, sd_cases := cases\<rparr>)
   }"

primrec schedule_rounds :: "nat \<Rightarrow> nat \<Rightarrow> Schedule \<Rightarrow> Schedule option" where
  "schedule_rounds seed 0 s = Some s"
| "schedule_rounds seed (Suc rounds) s = do {
     s' \<leftarrow> schedule_round seed s;
     schedule_rounds seed rounds s'
   }"

definition schedule_seed :: "nat \<Rightarrow> Case list \<Rightarrow> Case list option" where
  "schedule_seed seed cases = do {
     nodes \<leftarrow> those (map (\<lambda>i. Node_new (World_config i) (State_new 4) \<bind> unwrap) [0..<3]);
     s \<leftarrow> schedule_rounds seed 240
       \<lparr>sd_random = of_nat seed, sd_nodes = nodes, sd_network = [], sd_disk = replicate 3 (State_new 4),
        sd_cases = cases\<rparr>;
     Some (sd_cases s)
   }"

fun schedule_seeds :: "nat list \<Rightarrow> Case list \<Rightarrow> Case list option" where
  "schedule_seeds [] cases = Some cases"
| "schedule_seeds (seed # seeds) cases = do {
     cases' \<leftarrow> schedule_seed seed cases;
     schedule_seeds seeds cases'
   }"

definition schedules :: "usize \<Rightarrow> Case list option" where
  "schedules count = schedule_seeds [0..<count] []"

section \<open>What a case records\<close>

text \<open>A call of a method under test, and the case that records it.\<close>

datatype Call =
    CallTick WNode
  | CallStep WNode WEnvelope
  | CallPersisted WNode
  | CallBuild Config WState Membership
  | CallNext WNode

fun Call_case :: "Call \<Rightarrow> Case option" where
  "Call_case (CallTick n) = do {
     before \<leftarrow> WNode_value n; (r, n') \<leftarrow> Node_tick n; after \<leftarrow> WNode_value n';
     Some \<lparr>ca_function = ''node_Node_tick'', ca_before = before, ca_arguments = [],
           ca_result = result_text r, ca_after = after\<rparr>
   }"
| "Call_case (CallStep n env) = do {
     before \<leftarrow> WNode_value n; (r, n') \<leftarrow> Node_step env n; after \<leftarrow> WNode_value n';
     Some \<lparr>ca_function = ''node_Node_step'', ca_before = before, ca_arguments = [WEnvelope_value env],
           ca_result = result_text r, ca_after = after\<rparr>
   }"
| "Call_case (CallPersisted n) = do {
     before \<leftarrow> WNode_value n; after \<leftarrow> WNode_value (Ready_persisted n);
     Some \<lparr>ca_function = ''ready_Ready_persisted'', ca_before = ready_text before, ca_arguments = [],
           ca_result = ''.unit'', ca_after = ready_text after\<rparr>
   }"
| "Call_case (CallBuild config st membership) = do {
     built \<leftarrow> Node_build config st membership None; result \<leftarrow> built_text built;
     Some \<lparr>ca_function = ''node_Node_build'', ca_before = ''.unit'',
           ca_arguments = [Config_value config, WState_value st, Membership_value membership, ''.absent''],
           ca_result = result, ca_after = ''.unit''\<rparr>
   }"
| "Call_case (CallNext n) = do {
     before \<leftarrow> WNode_value n; (message, n') \<leftarrow> Node_next_message n; after \<leftarrow> WNode_value n';
     Some \<lparr>ca_function = ''node_Node_next_message'', ca_before = before, ca_arguments = [],
           ca_result = option_value WEnvelope_value message, ca_after = after\<rparr>
   }"

definition same_input :: "Case \<Rightarrow> Case \<Rightarrow> bool" where
  "same_input c c' \<longleftrightarrow> ca_function c = ca_function c' \<and> ca_before c = ca_before c' \<and> ca_arguments c = ca_arguments c'"

definition records :: "Case list \<Rightarrow> bool" where
  "records cases \<longleftrightarrow> (\<forall>c \<in> set cases. \<exists>k. Call_case k = Some c)"

lemma wnode_inj: "WNode_value n = Some t \<Longrightarrow> WNode_value m = Some t \<Longrightarrow> n = m"
  unfolding WNode_value_def
  by (rule node_text [OF u64_text.value_text_axioms unit_text.value_text_axioms])

lemma wstate_inj: "WState_value s = WState_value t \<Longrightarrow> s = t"
  unfolding WState_value_def
  by (rule value_text.value_inj [OF state_text [OF u64_text.value_text_axioms unit_text.value_text_axioms]])

lemma wenvelope_inj: "WEnvelope_value s = WEnvelope_value t \<Longrightarrow> s = t"
  unfolding WEnvelope_value_def
  by (rule value_text.value_inj [OF envelope_text [OF u64_text.value_text_axioms unit_text.value_text_axioms]])

lemma ready_inj: "ready_text s = ready_text t \<longleftrightarrow> s = t"
  by (simp add: ready_text_def text_defs)

text \<open>The recorded input determines the call.\<close>

lemma input_determines_call:
  assumes "Call_case k = Some c" and "Call_case k' = Some c'" and "same_input c c'"
  shows "k = k'"
  using assms unfolding same_input_def
  by (cases k; cases k')
    (auto simp: bind_eq_Some_conv ready_inj dest: wnode_inj wstate_inj wenvelope_inj
      config_text.value_inj membership_text.value_inj)

section \<open>The schedule returns\<close>

lemma WNode_value_site:
  assumes "site i n" and "i < 3"
  shows "\<exists>t. WNode_value n = Some t"
  using site_local(3) [OF assms] by (simp add: WNode_value_def Node_value_def hooks_value_def)

text \<open>Calls keep a node at its site, whatever they return.\<close>

lemma tick_at_site:
  assumes "site i n"
  shows "returns (Node_tick n) (\<lambda>(_, n'). site i n')"
proof -
  have inv: "Node_inv n" "ballot_ok n"
    using assms by (simp_all add: site_def)
  obtain r n' where t: "Node_tick n = Some (r, n')" "Node_inv n'"
    using tick_safe [OF inv(1)] by (auto simp: returns_iff)
  then show ?thesis
    using ballot_time [OF inv t(1)] site_static [OF assms] by (auto simp: votes_step_def)
qed

lemma step_at_site:
  assumes "site i n" and "i < 3" and "\<not> is_probe (env_message env)"
  shows "returns (Node_step env n) (\<lambda>(_, n'). site i n')"
proof -
  have inv: "Node_inv n" "ballot_ok n"
    using assms by (simp_all add: site_def)
  have "message_ok (n_hooks n) (Node_N n) (env_message env)"
    using site_local(3) [OF assms(1,2)] message_ok_fixed by simp
  then obtain r n' where t: "Node_step env n = Some (r, n')" "Node_inv n'"
    using step_safe [OF inv(1), of env] by (auto simp: returns_iff)
  then show ?thesis
    using ballot_receive [OF inv assms(3) t(1)] site_static [OF assms(1)] by (auto simp: votes_step_def)
qed

lemma propose_at_site:
  assumes "site i n" and "i < 3"
  shows "returns (Node_propose v n) (\<lambda>(_, n'). site i n')"
proof -
  have inv: "Node_inv n" "ballot_ok n"
    using assms by (simp_all add: site_def)
  have vs: "list_all (value_ok (n_hooks n) (Node_N n)) [v]"
    using site_local(3) [OF assms] by (simp add: value_ok_def)
  have "\<exists>r n'. Node_propose_many 1 [Some v] n = Some (Returned r, n') \<and> Node_inv n'"
  proof (cases "admissible 1 n")
    case True
    then show ?thesis
      using good_propose_done [OF inv(1) _ vs] by (auto simp: returns_iff good_def)
  next
    case False
    then show ?thesis
      using propose_refused [of n 1 "[Some v]"] inv(1) by (auto simp: Node_inv_def dest: log_okD(2))
  qed
  then obtain r n' where p: "Node_propose_many 1 [Some v] n = Some (Returned r, n')" "Node_inv n'"
    by blast
  then have "site i n'"
    using ballot_proposal [OF inv p(1)] site_static [OF assms(1)] by (auto simp: votes_step_def)
  then show ?thesis
    using p(1) by (cases r) (simp_all add: Node_propose_def)
qed

lemma build_at_site:
  assumes "i < 3" and "disk_ok d"
  shows "\<exists>n. Node_build (World_config i) d world_membership None = Some (Ok n) \<and> site i n"
proof -
  obtain n where n: "Node_new (World_config i) d = Some (Ok n)" "site i n"
    using site_starts [OF assms] by blast
  moreover have "Membership_new (length (cfg_members (World_config i))) (cfg_members (World_config i)) [] = Ok world_membership"
    using world_membership_facts(1) by (simp add: World_config_def Config_new_def numeral_3_eq_3)
  ultimately show ?thesis
    by (auto simp: Node_new_def Let_def split: if_splits)
qed

section \<open>The invariant of a schedule\<close>

definition addressed :: "WEnvelope \<Rightarrow> bool" where
  "addressed env \<longleftrightarrow> Some (env_to env) \<in> set world_peers \<and> \<not> is_probe (env_message env)"

definition taken :: "Case list \<Rightarrow> nat" where
  "taken cases = length (filter (\<lambda>c. ca_function c = ''node_Node_next_message'') cases)"

definition sched_ok :: "Schedule \<Rightarrow> bool" where
  "sched_ok s \<longleftrightarrow>
     length (sd_nodes s) = 3 \<and> length (sd_disk s) = 3 \<and> (\<forall>i < 3. site i (sd_nodes s ! i)) \<and> (\<forall>i < 3. disk_ok (sd_disk s ! i))
     \<and> (\<forall>env \<in> set (sd_network s). addressed env) \<and> records (sd_cases s)"

text \<open>What an arm of the schedule guarantees.\<close>

definition moves :: "Schedule \<Rightarrow> Schedule \<Rightarrow> bool" where
  "moves s s' \<longleftrightarrow> sched_ok s' \<and> taken (sd_cases s) \<le> taken (sd_cases s')"

lemma records_snoc: "records (cases @ [c]) \<longleftrightarrow> records cases \<and> (\<exists>k. Call_case k = Some c)"
  by (auto simp: records_def)

lemma taken_snoc [simp]: "taken cases \<le> taken (cases @ [c])"
  by (simp add: taken_def)

lemma moves_node:
  assumes "sched_ok s" and "i < 3" and "site i n" and "Call_case k = Some c" and "set network \<subseteq> set (sd_network s)"
  shows "moves s (s\<lparr>sd_random := random, sd_network := network, sd_nodes := (sd_nodes s)[i := n], sd_cases := sd_cases s @ [c]\<rparr>)"
  using assms by (auto simp: moves_def sched_ok_def records_snoc nth_list_update)

lemma tick_moves:
  assumes ok: "sched_ok s" and i: "i < 3"
  shows "returns (schedule_tick i s) (moves s)"
proof -
  let ?n = "sd_nodes s ! i"
  have n: "site i ?n" and len: "length (sd_nodes s) = 3"
    using ok i by (simp_all add: sched_ok_def)
  obtain r n' where t: "Node_tick ?n = Some (r, n')" "site i n'"
    using tick_at_site [OF n] by (auto simp: returns_iff)
  obtain b a where shown: "WNode_value ?n = Some b" "WNode_value n' = Some a"
    using WNode_value_site [OF n i] WNode_value_site [OF t(2) i] by blast
  show ?thesis
    using moves_node [OF ok i t(2), of "CallTick ?n" _ "sd_network s" "sd_random s"] t shown len i
    by (simp add: schedule_tick_def index_read_def)
qed

lemma addressed_index:
  assumes "sched_ok s" and "k < length (sd_network s)"
  obtains i where "i < 3" and "unat (id_num (env_to (sd_network s ! k))) = i" and "\<not> is_probe (env_message (sd_network s ! k))"
proof -
  have "addressed (sd_network s ! k)"
    using assms by (simp add: sched_ok_def)
  then obtain i where "i < 3" "env_to (sd_network s ! k) = wid i" "\<not> is_probe (env_message (sd_network s ! k))"
    using world_peers_set unfolding addressed_def by blast
  then show thesis
    using that unat_wid by simp
qed

lemma random_below: "0 < n \<Longrightarrow> \<exists>k random'. Random_below n random = Some (k, random') \<and> k < n"
  by (simp add: Random_below_def Let_def)

lemma deliver_moves:
  assumes ok: "sched_ok s" and net: "sd_network s \<noteq> []"
  shows "returns (schedule_deliver s) (moves s)"
proof -
  obtain k random where k: "Random_below (length (sd_network s)) (sd_random s) = Some (k, random)" "k < length (sd_network s)"
    using random_below net by (metis length_greater_0_conv)
  let ?env = "sd_network s ! k"
  obtain i where i: "i < 3" and to: "unat (id_num (env_to ?env)) = i" and plain: "\<not> is_probe (env_message ?env)"
    using addressed_index [OF ok k(2)] by blast
  let ?n = "sd_nodes s ! i"
  have n: "site i ?n" and len: "length (sd_nodes s) = 3"
    using ok i by (simp_all add: sched_ok_def)
  obtain r n' where t: "Node_step ?env ?n = Some (r, n')" "site i n'"
    using step_at_site [OF n i plain] by (auto simp: returns_iff)
  obtain b a where shown: "WNode_value ?n = Some b" "WNode_value n' = Some a"
    using WNode_value_site [OF n i] WNode_value_site [OF t(2) i] by blast
  show ?thesis
    using moves_node [OF ok i t(2), of "CallStep ?n ?env" _ "vec_remove k (sd_network s)" random] set_vec_remove [of k "sd_network s"]
      t shown len i k to
    by (simp add: schedule_deliver_def index_read_def)
qed

lemma save_moves:
  assumes ok: "sched_ok s" and i: "i < 3"
  shows "returns (schedule_save i s) (moves s)"
proof -
  let ?n = "sd_nodes s ! i"
  have n: "site i ?n" and len: "length (sd_nodes s) = 3" "length (sd_disk s) = 3"
    using ok i by (simp_all add: sched_ok_def)
  obtain b where b: "WNode_value ?n = Some b"
    using WNode_value_site [OF n i] by blast
  show ?thesis
  proof (cases "n_dirty ?n")
    case False
    then show ?thesis
      using ok b len i by (simp add: schedule_save_def index_read_def Node_ready_def moves_def)
  next
    case True
    have p: "site i (Ready_persisted ?n)"
      using site_persisted(1) [OF n True] .
    then obtain a where a: "WNode_value (Ready_persisted ?n) = Some a"
      using WNode_value_site i by blast
    have "sched_ok (s\<lparr>sd_disk := (sd_disk s)[i := n_state ?n]\<rparr>)"
      using ok i site_disk [OF n] by (auto simp: sched_ok_def nth_list_update)
    from moves_node [OF this i p, of "CallPersisted ?n" _ "sd_network s" "sd_random s"] show ?thesis
      using True a b len i
      by (simp add: schedule_save_def index_read_def index_write_def Node_ready_def Ready_state_def moves_def)
  qed
qed

lemma discard_moves:
  assumes ok: "sched_ok s" and net: "sd_network s \<noteq> []"
  shows "returns (schedule_discard s) (moves s)"
proof -
  obtain k random where k: "Random_below (length (sd_network s)) (sd_random s) = Some (k, random)" "k < length (sd_network s)"
    using random_below net by (metis length_greater_0_conv)
  then show ?thesis
    using ok set_vec_remove [of k "sd_network s"]
    by (auto simp: schedule_discard_def index_read_def moves_def sched_ok_def)
qed

lemma restart_moves:
  assumes ok: "sched_ok s" and i: "i < 3"
  shows "returns (schedule_restart i s) (moves s)"
proof -
  let ?d = "sd_disk s ! i"
  have d: "disk_ok ?d" and len: "length (sd_nodes s) = 3" "length (sd_disk s) = 3"
    using ok i by (simp_all add: sched_ok_def)
  obtain n where n: "Node_build (World_config i) ?d world_membership None = Some (Ok n)" "site i n"
    using build_at_site [OF i d] by blast
  obtain t where t: "WNode_value n = Some t"
    using WNode_value_site [OF n(2) i] by blast
  have m: "Membership_new (length (cfg_members (World_config i))) (cfg_members (World_config i)) [] = Ok world_membership"
    using world_membership_facts(1) by (simp add: World_config_def Config_new_def numeral_3_eq_3)
  show ?thesis
    using moves_node [OF ok i n(2), of "CallBuild (World_config i) ?d world_membership" _ "sd_network s" "sd_random s"] n t len i
    by (simp add: schedule_restart_def index_read_def index_write_def unwrap_def built_text_def m)
qed

lemma propose_moves:
  assumes ok: "sched_ok s" and i: "i < 3" and seed: "seed < 184467440737095516"
  shows "returns (schedule_propose seed i s) (moves s)"
proof -
  let ?n = "sd_nodes s ! i"
  have n: "site i ?n" and len: "length (sd_nodes s) = 3"
    using ok i by (simp_all add: sched_ok_def)
  obtain k random where k: "Random_below 50 (sd_random s) = Some (k, random)" "k < 50"
    using random_below [of 50 "sd_random s"] by auto
  then have fits: "seed * 100 + k < 2 ^ 64"
    using seed by simp
  obtain r n' where p: "Node_propose (of_nat (seed * 100 + k)) ?n = Some (r, n')" "site i n'"
    using propose_at_site [OF n i] by (fastforce simp: returns_iff)
  have "moves s (s\<lparr>sd_random := random, sd_nodes := (sd_nodes s)[i := n']\<rparr>)" and "moves s s"
    using ok p(2) i by (auto simp: moves_def sched_ok_def nth_list_update)
  then show ?thesis
    using k(1) fits p(1) len i by (simp add: schedule_propose_def index_read_def)
qed

lemma moves_random [simp]:
  "sched_ok (s\<lparr>sd_random := random\<rparr>) = sched_ok s" "moves (s\<lparr>sd_random := random\<rparr>) = moves s"
  by (simp_all add: sched_ok_def moves_def fun_eq_iff)

lemma action_moves:
  assumes ok: "sched_ok s" and seed: "seed < 184467440737095516"
  shows "returns (schedule_action seed s) (moves s)"
proof -
  obtain i random where i: "Random_below 3 (sd_random s) = Some (i, random)" "i < 3"
    using random_below [of 3 "sd_random s"] by auto
  obtain arm random1 where arm: "Random_below 8 random = Some (arm, random1)"
    using random_below [of 8 random] by auto
  obtain k random2 where k: "Random_below 4 random1 = Some (k, random2)"
    using random_below [of 4 random1] by auto
  have ok': "sched_ok (s\<lparr>sd_random := r\<rparr>)" for r
    using ok by simp
  show ?thesis
    using i arm k tick_moves [OF ok' i(2)] deliver_moves [OF ok'] save_moves [OF ok' i(2)] discard_moves [OF ok']
      restart_moves [OF ok' i(2)] propose_moves [OF ok' i(2) seed]
    by (auto simp: schedule_action_def Let_def)
qed

section \<open>Whole schedules return\<close>

lemma drain_moves:
  assumes "site i n" and "i < 3" and "\<forall>env \<in> set network. addressed env" and "records cases"
  shows "returns (schedule_drain n network cases) (\<lambda>(n', network', cases').
     site i n' \<and> (\<forall>env \<in> set network'. addressed env) \<and> records cases' \<and> taken cases < taken cases')"
  using assms
proof (induction n network cases rule: schedule_drain.induct)
  case (1 n network cases)
  have inv: "Node_inv n" "ballot_ok n"
    using 1(2) by (simp_all add: site_def)
  obtain m n' where nm: "Node_next_message n = Some (m, n')" and inv': "Node_inv n'"
    using next_message_safe [OF inv(1)] by (auto simp: returns_iff)
  have n': "site i n' \<and> (\<forall>env. m = Some env \<longrightarrow> addressed env)"
  proof (cases m)
    case None
    then show ?thesis
      using next_message_inv(2) [OF inv(1) nm] 1(2) by simp
  next
    case (Some env)
    then have "ballot_ok n'" "handed_out n env" "\<exists>k. n' = n\<lparr>n_outbox := (n_outbox n)[k := None]\<rparr>"
      using ballot_output [OF inv] nm by blast+
    then show ?thesis
      using Some 1(2) inv' by (auto simp: site_def addressed_def handed_out_def emitted_def)
  qed
  obtain b a where shown: "WNode_value n = Some b" "WNode_value n' = Some a"
    using WNode_value_site [OF 1(2,3)] WNode_value_site [of i n'] n' 1(3) by blast
  let ?c = "\<lparr>ca_function = ''node_Node_next_message'', ca_before = b, ca_arguments = [],
    ca_result = option_value WEnvelope_value m, ca_after = a\<rparr>"
  have c: "records (cases @ [?c])" and more: "taken (cases @ [?c]) = Suc (taken cases)"
    using 1(5) nm shown by (auto simp: records_snoc taken_def intro!: exI [of _ "CallNext n"])
  show ?case
  proof (cases m)
    case None
    then show ?thesis
      using nm shown c more n' 1(4) by (subst schedule_drain.simps) simp
  next
    case (Some env)
    have "returns (schedule_drain n' (network @ [env]) (cases @ [?c])) (\<lambda>(n'', network', cases').
       site i n'' \<and> (\<forall>env \<in> set network'. addressed env) \<and> records cases' \<and> taken (cases @ [?c]) < taken cases')"
      using 1(1) [OF nm refl shown refl refl] n' 1(3,4) c Some by simp
    then show ?thesis
      using nm shown Some more by (subst schedule_drain.simps) (auto elim!: returns_conseq)
  qed
qed

lemma drains_move:
  assumes "\<forall>i < length nodes. site (k + i) (nodes ! i)" and "k + length nodes \<le> 3"
    and "\<forall>env \<in> set network. addressed env" and "records cases"
  shows "returns (schedule_drains nodes network cases) (\<lambda>(nodes', network', cases').
     length nodes' = length nodes \<and> (\<forall>i < length nodes. site (k + i) (nodes' ! i))
     \<and> (\<forall>env \<in> set network'. addressed env) \<and> records cases' \<and> taken cases + length nodes \<le> taken cases')"
  using assms
proof (induction nodes arbitrary: k network cases)
  case (Cons n nodes)
  have "site k n" and rest: "\<forall>i < length nodes. site (Suc k + i) (nodes ! i)"
    using Cons.prems(1) by force+
  then obtain n' network1 cases1 where n': "schedule_drain n network cases = Some (n', network1, cases1)" "site k n'"
      "\<forall>env \<in> set network1. addressed env" "records cases1" "taken cases < taken cases1"
    using drain_moves [of k n network cases] Cons.prems by (auto simp: returns_iff)
  obtain nodes' network2 cases2 where ns': "schedule_drains nodes network1 cases1 = Some (nodes', network2, cases2)"
      "length nodes' = length nodes" "\<forall>i < length nodes. site (Suc k + i) (nodes' ! i)"
      "\<forall>env \<in> set network2. addressed env" "records cases2" "taken cases1 + length nodes \<le> taken cases2"
    using Cons.IH [OF rest _ n'(3,4)] Cons.prems(2) by (auto simp: returns_iff)
  have "site (k + i) ((n' # nodes') ! i)" if "i < Suc (length nodes)" for i
    using that n'(2) ns'(3) by (cases i) simp_all
  then show ?case
    using n' ns' by simp
qed simp

lemma round_moves:
  assumes "sched_ok s" and "seed < 184467440737095516"
  shows "returns (schedule_round seed s) (\<lambda>s'. sched_ok s' \<and> taken (sd_cases s) + 3 \<le> taken (sd_cases s'))"
proof -
  obtain s1 where s1: "schedule_action seed s = Some s1" "sched_ok s1" "taken (sd_cases s) \<le> taken (sd_cases s1)"
    using action_moves [OF assms] by (auto simp: returns_iff moves_def)
  then have "returns (schedule_drains (sd_nodes s1) (sd_network s1) (sd_cases s1)) (\<lambda>(nodes', network', cases').
     length nodes' = 3 \<and> (\<forall>i < 3. site i (nodes' ! i))
     \<and> (\<forall>env \<in> set network'. addressed env) \<and> records cases' \<and> taken (sd_cases s1) + 3 \<le> taken cases')"
    using drains_move [of "sd_nodes s1" 0 "sd_network s1" "sd_cases s1"] by (simp add: sched_ok_def)
  then show ?thesis
    using s1 by (auto simp: schedule_round_def returns_iff sched_ok_def)
qed

lemma rounds_move:
  assumes "sched_ok s" and "seed < 184467440737095516"
  shows "returns (schedule_rounds seed rounds s) (\<lambda>s'. sched_ok s' \<and> taken (sd_cases s) + 3 * rounds \<le> taken (sd_cases s'))"
  using assms
proof (induction rounds arbitrary: s)
  case (Suc rounds)
  obtain s1 where s1: "schedule_round seed s = Some s1" "sched_ok s1" "taken (sd_cases s) + 3 \<le> taken (sd_cases s1)"
    using round_moves [OF Suc.prems] by (auto simp: returns_iff)
  show ?case
    using Suc.IH [OF s1(2) Suc.prems(2)] s1(1,3) by (auto elim!: returns_conseq)
qed simp

lemma seed_moves:
  assumes "records cases" and "seed < 184467440737095516"
  shows "returns (schedule_seed seed cases) (\<lambda>cases'. records cases' \<and> taken cases + 720 \<le> taken cases')"
proof -
  obtain w where w: "World_new = Some w" "world_ok {} w" "w_network w = []"
    using world_starts by blast
  then obtain nodes where nodes: "those (map (\<lambda>i. Node_new (World_config i) (State_new 4) \<bind> unwrap) [0..<3]) = Some nodes"
      "w_nodes w = nodes" "w_disk w = replicate 3 (State_new 4)"
    by (auto simp: World_new_def bind_eq_Some_conv)
  let ?s = "\<lparr>sd_random = of_nat seed, sd_nodes = nodes, sd_network = [], sd_disk = replicate 3 (State_new 4), sd_cases = cases\<rparr>"
  have "sched_ok ?s"
    using w(2) nodes(2,3) assms(1) by (auto simp: sched_ok_def world_ok_def site_ok_def)
  from rounds_move [OF this assms(2), of 240] show ?thesis
    using nodes(1) by (auto simp: schedule_seed_def returns_iff sched_ok_def)
qed

lemma seeds_move:
  assumes "records cases" and "\<forall>seed \<in> set seeds. seed < 184467440737095516"
  shows "returns (schedule_seeds seeds cases) (\<lambda>cases'. records cases' \<and> taken cases + 720 * length seeds \<le> taken cases')"
  using assms
proof (induction seeds arbitrary: cases)
  case (Cons seed seeds)
  obtain cases1 where c1: "schedule_seed seed cases = Some cases1" "records cases1" "taken cases + 720 \<le> taken cases1"
    using seed_moves [of cases seed] Cons.prems by (auto simp: returns_iff)
  show ?case
    using Cons.IH [OF c1(2)] Cons.prems(2) c1(1,3) by (auto elim!: returns_conseq)
qed simp

lemma schedules_return:
  assumes "count \<le> 184467440737095516"
  shows "\<exists>cases. schedules count = Some cases \<and> records cases \<and> 720 * count \<le> taken cases"
  using seeds_move [of "[]" "[0..<count]"] assms by (auto simp: schedules_def returns_iff records_def taken_def)

end
