(* ===== verification/Provium_Lean.thy ===== *)
theory Provium_Lean
  imports Provium_IR Jarl_Text
begin

text \<open>
  The Lean backend of provium. The first part translates the evaluator of
  \<^verbatim>\<open>provium/lean/Provium/Semantics.lean\<close>, the second the generator \<^verbatim>\<open>provium/src/lean.rs\<close>, which prints
  every compiled function twice: as an expression for that evaluator and as a Lean term.

  The lemmas show that the Rust evaluator of \<^verbatim>\<open>ir.rs\<close> and the Lean evaluator agree, that the
  printed texts can be read in one way only, and that the printed term has no unbound variable and
  evaluates like the expression: the generated names never capture one another. The last part reads
  a generated file as Lean declarations, which hold one after the other. Strings are sequences of
  UTF-8 bytes.
\<close>

section \<open>The Lean evaluator\<close>

datatype LTy = LTyBoolean | LTyUint nat

datatype LValue = LBoolean bool | LUint nat nat

datatype LFault = LTypeMismatch | LOverflow | LDivisionByZero | LAssertion | LInput

type_synonym LResult = "LFault + LValue"

definition lean_valid_width :: "nat \<Rightarrow> bool" where
  "lean_valid_width w \<longleftrightarrow> w = 8 \<or> w = 16 \<or> w = 32 \<or> w = 64"

definition lean_word :: "nat \<Rightarrow> nat \<Rightarrow> LResult" where
  "lean_word w n =
     (if \<not> lean_valid_width w then Inl LTypeMismatch
      else if n < 2 ^ w then Inr (LUint w n) else Inl LOverflow)"

fun lean_bind :: "LResult \<Rightarrow> (LValue \<Rightarrow> LResult) \<Rightarrow> LResult" where
  "lean_bind (Inr v) next = next v"
| "lean_bind (Inl fault) next = Inl fault"

definition lean_get :: "LValue list \<Rightarrow> nat \<Rightarrow> LResult" where
  "lean_get env i = (if i < length env then Inr (env ! i) else Inl LInput)"

fun lean_negate :: "LValue \<Rightarrow> LResult" where
  "lean_negate (LBoolean b) = Inr (LBoolean (\<not> b))"
| "lean_negate _ = Inl LTypeMismatch"

fun lean_branch :: "LValue \<Rightarrow> (unit \<Rightarrow> LResult) \<Rightarrow> (unit \<Rightarrow> LResult) \<Rightarrow> LResult" where
  "lean_branch (LBoolean True) yes no = yes ()"
| "lean_branch (LBoolean False) yes no = no ()"
| "lean_branch _ yes no = Inl LTypeMismatch"

fun lean_guard :: "LValue \<Rightarrow> (unit \<Rightarrow> LResult) \<Rightarrow> LResult" where
  "lean_guard (LBoolean True) next = next ()"
| "lean_guard (LBoolean False) next = Inl LAssertion"
| "lean_guard _ next = Inl LTypeMismatch"

datatype LOp =
    LAdd | LSub | LMul | LDiv | LRem | LEq | LNe | LLt | LLe | LGt | LGe
  | LMin | LMax | LSaturatingAdd | LSaturatingSub | LWrappingAdd | LWrappingSub | LWrappingMul
  | LBitAnd | LBitOr | LBitXor | LShl | LShr

fun lean_uint_op :: "LOp \<Rightarrow> nat \<Rightarrow> nat \<Rightarrow> nat \<Rightarrow> LResult" where
  "lean_uint_op LAdd w a b = lean_word w (a + b)"
| "lean_uint_op LSub w a b = (if a < b then Inl LOverflow else lean_word w (a - b))"
| "lean_uint_op LMul w a b = lean_word w (a * b)"
| "lean_uint_op LDiv w a b = (if b = 0 then Inl LDivisionByZero else lean_word w (a div b))"
| "lean_uint_op LRem w a b = (if b = 0 then Inl LDivisionByZero else lean_word w (a mod b))"
| "lean_uint_op LEq w a b = Inr (LBoolean (a = b))"
| "lean_uint_op LNe w a b = Inr (LBoolean (a \<noteq> b))"
| "lean_uint_op LLt w a b = Inr (LBoolean (a < b))"
| "lean_uint_op LLe w a b = Inr (LBoolean (a \<le> b))"
| "lean_uint_op LGt w a b = Inr (LBoolean (a > b))"
| "lean_uint_op LGe w a b = Inr (LBoolean (a \<ge> b))"
| "lean_uint_op LMin w a b = lean_word w (min a b)"
| "lean_uint_op LMax w a b = lean_word w (max a b)"
| "lean_uint_op LSaturatingAdd w a b = lean_word w (min (a + b) (2 ^ w - 1))"
| "lean_uint_op LSaturatingSub w a b = lean_word w (a - b)"
| "lean_uint_op LWrappingAdd w a b = lean_word w ((a + b) mod 2 ^ w)"
| "lean_uint_op LWrappingSub w a b = lean_word w ((a + 2 ^ w - b) mod 2 ^ w)"
| "lean_uint_op LWrappingMul w a b = lean_word w ((a * b) mod 2 ^ w)"
| "lean_uint_op LBitAnd w a b = lean_word w (a AND b)"
| "lean_uint_op LBitOr w a b = lean_word w (a OR b)"
| "lean_uint_op LBitXor w a b = lean_word w (a XOR b)"
| "lean_uint_op LShl w a b = (if b < w then lean_word w ((a * 2 ^ b) mod 2 ^ w) else Inl LOverflow)"
| "lean_uint_op LShr w a b = (if b < w then lean_word w (a div 2 ^ b) else Inl LOverflow)"

fun lean_binary :: "LOp \<Rightarrow> LValue \<Rightarrow> LValue \<Rightarrow> LResult" where
  "lean_binary op (LBoolean a) (LBoolean b) =
     (case op of
        LEq \<Rightarrow> Inr (LBoolean (a = b))
      | LNe \<Rightarrow> Inr (LBoolean (a \<noteq> b))
      | _ \<Rightarrow> Inl LTypeMismatch)"
| "lean_binary op (LUint w a) (LUint v b) =
     (if w \<noteq> v \<or> \<not> lean_valid_width w then Inl LTypeMismatch
      else if a < 2 ^ w \<and> b < 2 ^ w then lean_uint_op op w a b
      else Inl LOverflow)"
| "lean_binary op _ _ = Inl LTypeMismatch"

datatype LExpr =
    LEBoolean bool
  | LEUint nat nat
  | LEVar nat
  | LENegate LExpr
  | LEBinary LOp LExpr LExpr
  | LEIte LExpr LExpr LExpr
  | LELetE LExpr LExpr
  | LEGuard LExpr LExpr

fun lean_eval :: "LExpr \<Rightarrow> LValue list \<Rightarrow> LResult" where
  "lean_eval (LEBoolean b) env = Inr (LBoolean b)"
| "lean_eval (LEUint w n) env = lean_word w n"
| "lean_eval (LEVar i) env = lean_get env i"
| "lean_eval (LENegate arg) env = lean_bind (lean_eval arg env) lean_negate"
| "lean_eval (LEBinary op left right) env =
     lean_bind (lean_eval left env) (\<lambda>a. lean_bind (lean_eval right env) (\<lambda>b. lean_binary op a b))"
| "lean_eval (LEIte condition yes no) env =
     lean_bind (lean_eval condition env) (\<lambda>c. lean_branch c (\<lambda>_. lean_eval yes env) (\<lambda>_. lean_eval no env))"
| "lean_eval (LELetE v body) env = lean_bind (lean_eval v env) (\<lambda>x. lean_eval body (x # env))"
| "lean_eval (LEGuard condition body) env =
     lean_bind (lean_eval condition env) (\<lambda>c. lean_guard c (\<lambda>_. lean_eval body env))"

fun lean_valid_args :: "LTy list \<Rightarrow> LValue list \<Rightarrow> bool" where
  "lean_valid_args [] [] \<longleftrightarrow> True"
| "lean_valid_args (LTyBoolean # types) (LBoolean _ # vs) \<longleftrightarrow> lean_valid_args types vs"
| "lean_valid_args (LTyUint w # types) (LUint v n # vs) \<longleftrightarrow>
     w = v \<and> lean_valid_width w \<and> n < 2 ^ w \<and> lean_valid_args types vs"
| "lean_valid_args _ _ \<longleftrightarrow> False"

definition lean_run :: "LTy list \<Rightarrow> LExpr \<Rightarrow> LValue list \<Rightarrow> LResult" where
  "lean_run types e env = (if lean_valid_args types env then lean_eval e env else Inl LInput)"

section \<open>The generator\<close>

text \<open>The guillemets around a name are two bytes each.\<close>

definition lean_name :: "string \<Rightarrow> string" where
  "lean_name s = [CHR 0xC2, CHR 0xAB] @ s @ [CHR 0xC2, CHR 0xBB]"

definition bool_text :: "bool \<Rightarrow> string" where
  "bool_text b = (if b then ''true'' else ''false'')"

fun ast :: "Expr \<Rightarrow> string" and ast_kind :: "Kind \<Rightarrow> string" where
  "ast (Expr ty kind) = ast_kind kind"
| "ast_kind (KBool b) = ''(.boolean '' @ bool_text b @ '')''"
| "ast_kind (KUInt bits v) = ''(.uint '' @ nat_decimal (unat bits) @ '' '' @ nat_decimal (unat v) @ '')''"
| "ast_kind (KVar i) = ''(.var '' @ nat_decimal i @ '')''"
| "ast_kind (KNot x) = ''(.negate '' @ ast x @ '')''"
| "ast_kind (KBinary op left right) = ''(.binary .'' @ Op_lean op @ '' '' @ ast left @ '' '' @ ast right @ '')''"
| "ast_kind (KIf condition yes no) = ''(.ite '' @ ast condition @ '' '' @ ast yes @ '' '' @ ast no @ '')''"
| "ast_kind (KLet v body) = ''(.letE '' @ ast v @ '' '' @ ast body @ '')''"
| "ast_kind (KAssert condition body) = ''(.guard '' @ ast condition @ '' '' @ ast body @ '')''"

text \<open>The counter of fresh names counts nodes of a tree in memory, so it does not overflow.\<close>

fun code :: "Expr \<Rightarrow> string \<Rightarrow> usize \<Rightarrow> string \<times> usize"
and code_kind :: "Kind \<Rightarrow> string \<Rightarrow> usize \<Rightarrow> string \<times> usize" where
  "code (Expr ty kind) env fresh = code_kind kind env (fresh + 1)"
| "code_kind (KBool b) env n = (''(.ok (.boolean '' @ bool_text b @ ''))'', n)"
| "code_kind (KUInt bits v) env n =
     (''(Provium.word '' @ nat_decimal (unat bits) @ '' '' @ nat_decimal (unat v) @ '')'', n)"
| "code_kind (KVar i) env n = (''(Provium.get '' @ env @ '' '' @ nat_decimal i @ '')'', n)"
| "code_kind (KNot x) env n =
     (let (tx, n1) = code x env n in (''(Provium.bind '' @ tx @ '' Provium.negate)'', n1))"
| "code_kind (KBinary op left right) env n =
     (let (tl, n1) = code left env n; (tr, n2) = code right env n1; k = nat_decimal n
      in (''(Provium.bind '' @ tl @ '' (fun a'' @ k @ '' => Provium.bind '' @ tr @ '' (fun b'' @ k
          @ '' => Provium.binary .'' @ Op_lean op @ '' a'' @ k @ '' b'' @ k @ '')))'', n2))"
| "code_kind (KIf condition yes no) env n =
     (let (tc, n1) = code condition env n; (ty, n2) = code yes env n1; (tn, n3) = code no env n2; k = nat_decimal n
      in (''(Provium.bind '' @ tc @ '' (fun c'' @ k @ '' => Provium.branch c'' @ k
          @ '' (fun _ => '' @ ty @ '') (fun _ => '' @ tn @ '')))'', n3))"
| "code_kind (KLet v body) env n =
     (let (tv, n1) = code v env n; k = nat_decimal n; (tb, n2) = code body (''(x'' @ k @ '' :: '' @ env @ '')'') n1
      in (''(Provium.bind '' @ tv @ '' (fun x'' @ k @ '' => '' @ tb @ ''))'', n2))"
| "code_kind (KAssert condition body) env n =
     (let (tc, n1) = code condition env n; (tb, n2) = code body env n1; k = nat_decimal n
      in (''(Provium.bind '' @ tc @ '' (fun c'' @ k @ '' => Provium.guard c'' @ k @ '' (fun _ => '' @ tb @ '')))'', n2))"

definition newline :: string where
  "newline = [CHR 0x0A]"

definition ty_text :: "u32 \<Rightarrow> Ty \<Rightarrow> string" where
  "ty_text usize_bits ty =
     (case Ty_bits usize_bits ty of None \<Rightarrow> ''.boolean'' | Some w \<Rightarrow> ''.uint '' @ nat_decimal (unat w))"

definition schema_text :: "u32 \<Rightarrow> Function \<Rightarrow> string" where
  "schema_text usize_bits f = ''['' @ join '', '' (map (\<lambda>p. ty_text usize_bits (pa_ty p)) (fn_parameters f)) @ '']''"

definition function_text :: "u32 \<Rightarrow> Function \<Rightarrow> string" where
  "function_text usize_bits f =
     (let schema = schema_text usize_bits f;
          f_name = lean_name (fn_name f);
          ir_name = lean_name (fn_name f @ ''_ir'');
          cert = lean_name (fn_name f @ ''_correspondence'')
      in ''-- Rust lines '' @ nat_decimal (fn_start_line f) @ ''-'' @ nat_decimal (fn_end_line f)
           @ ''; parameters in order: '' @ join '', '' (map pa_name (fn_parameters f)) @ newline
         @ ''def '' @ ir_name @ '' : Provium.Expr :='' @ newline
         @ ''  '' @ ast (fn_body f) @ newline @ newline
         @ ''def '' @ f_name @ '' (env : Provium.Env) : Provium.Result :='' @ newline
         @ ''  if Provium.validArgs '' @ schema @ '' env then'' @ newline
         @ ''    '' @ fst (code (fn_body f) ''env'' 0) @ newline
         @ ''  else .error .input'' @ newline @ newline
         @ ''theorem '' @ cert @ '' (env : Provium.Env) :'' @ newline
         @ ''    Provium.run '' @ schema @ '' '' @ ir_name @ '' env = '' @ f_name @ '' env := by'' @ newline
         @ ''  rfl'' @ newline @ newline)"

definition generate :: "Function list \<Rightarrow> string \<Rightarrow> u32 \<Rightarrow> string \<Rightarrow> string" where
  "generate functions namespace usize_bits source_hash =
     ''-- Generated by Provium. Do not hand-edit.'' @ newline
     @ ''-- Source SHA-256: '' @ source_hash @ newline
     @ ''-- Checked overflow; usize = '' @ nat_decimal (unat usize_bits) @ '' bits.'' @ newline
     @ ''import Provium.Semantics'' @ newline
     @ ''set_option maxRecDepth 4096'' @ newline
     @ ''namespace '' @ namespace @ newline
     @ ''open Provium'' @ newline @ newline
     @ ''def proviumUsizeBits : Nat := '' @ nat_decimal (unat usize_bits) @ newline @ newline
     @ concat (map (function_text usize_bits) functions)
     @ ''end '' @ namespace @ newline"

section \<open>The two evaluators agree\<close>

text \<open>The Lean counterparts of Rust values, faults, types and expressions.\<close>

fun lean_value :: "Value \<Rightarrow> LValue" where
  "lean_value (VBool b) = LBoolean b"
| "lean_value (VUInt w v) = LUint (unat w) (unat v)"

fun lean_fault :: "Fault \<Rightarrow> LFault" where
  "lean_fault TypeFault = LTypeMismatch"
| "lean_fault Overflow = LOverflow"
| "lean_fault DivisionByZero = LDivisionByZero"
| "lean_fault Assertion = LAssertion"
| "lean_fault InputFault = LInput"

definition lean_outcome :: "Outcome \<Rightarrow> LResult" where
  "lean_outcome = map_sum lean_fault lean_value"

definition lean_ty :: "u32 \<Rightarrow> Ty \<Rightarrow> LTy" where
  "lean_ty usize_bits ty = (case Ty_bits usize_bits ty of None \<Rightarrow> LTyBoolean | Some w \<Rightarrow> LTyUint (unat w))"

fun lean_op :: "Op \<Rightarrow> LOp" where
  "lean_op OpAdd = LAdd"
| "lean_op OpSub = LSub"
| "lean_op OpMul = LMul"
| "lean_op OpDiv = LDiv"
| "lean_op OpRem = LRem"
| "lean_op OpEq = LEq"
| "lean_op OpNe = LNe"
| "lean_op OpLt = LLt"
| "lean_op OpLe = LLe"
| "lean_op OpGt = LGt"
| "lean_op OpGe = LGe"
| "lean_op OpMin = LMin"
| "lean_op OpMax = LMax"
| "lean_op OpSaturatingAdd = LSaturatingAdd"
| "lean_op OpSaturatingSub = LSaturatingSub"
| "lean_op OpWrappingAdd = LWrappingAdd"
| "lean_op OpWrappingSub = LWrappingSub"
| "lean_op OpWrappingMul = LWrappingMul"
| "lean_op OpBitAnd = LBitAnd"
| "lean_op OpBitOr = LBitOr"
| "lean_op OpBitXor = LBitXor"
| "lean_op OpShl = LShl"
| "lean_op OpShr = LShr"

fun lean_expr :: "Expr \<Rightarrow> LExpr" and lean_kind :: "Kind \<Rightarrow> LExpr" where
  "lean_expr (Expr ty kind) = lean_kind kind"
| "lean_kind (KBool b) = LEBoolean b"
| "lean_kind (KUInt bits v) = LEUint (unat bits) (unat v)"
| "lean_kind (KVar i) = LEVar i"
| "lean_kind (KNot x) = LENegate (lean_expr x)"
| "lean_kind (KBinary op left right) = LEBinary (lean_op op) (lean_expr left) (lean_expr right)"
| "lean_kind (KIf condition yes no) = LEIte (lean_expr condition) (lean_expr yes) (lean_expr no)"
| "lean_kind (KLet v body) = LELetE (lean_expr v) (lean_expr body)"
| "lean_kind (KAssert condition body) = LEGuard (lean_expr condition) (lean_expr body)"

definition lean_schema :: "u32 \<Rightarrow> Function \<Rightarrow> LTy list" where
  "lean_schema usize_bits f = map (\<lambda>p. lean_ty usize_bits (pa_ty p)) (fn_parameters f)"

lemma lean_outcome_simps [simp]:
  "lean_outcome (Inl f) = Inl (lean_fault f)" "lean_outcome (Inr v) = Inr (lean_value v)"
  by (simp_all add: lean_outcome_def)

lemma valid_width_iff: "lean_valid_width (unat w) \<longleftrightarrow> (w :: u32) \<in> widths"
  by (simp add: lean_valid_width_def word_unat_eq_iff)

lemma word_agrees: "ir_word w (unat v) = Some r \<Longrightarrow> lean_word (unat w) (unat (v :: u64)) = lean_outcome r"
  using ir_word_eq [of w "unat v"] ir_word_unsupported [of w "unat v"]
  by (cases "w \<in> widths") (auto simp: lean_word_def valid_width_iff simp del: insert_iff split: if_splits)

lemma uint_op_result:
  assumes "lean_valid_width w"
  shows "lean_uint_op (lean_op op) w a b = (case op_result op w a b of
     Inl f \<Rightarrow> Inl (lean_fault f) | Inr (Inl c) \<Rightarrow> Inr (LBoolean c) | Inr (Inr n) \<Rightarrow> lean_word w n)"
  using assms by (cases op) (simp_all add: lean_word_def not_less not_le)

lemma op_agrees:
  assumes "fits w a" and "fits w b"
  shows "lean_uint_op (lean_op op) (unat w) a b = lean_outcome (op_value w (op_result op (unat w) a b))"
proof -
  have w: "lean_valid_width (unat w)"
    using assms by (simp add: fits_def valid_width_iff del: insert_iff)
  have "lean_word (unat w) n = Inr (LUint (unat w) (unat (of_nat n :: u64)))"
    if "op_result op (unat w) a b = Inr (Inr n)" for n
    using op_result_fits [OF assms that] fits_u64 [of w n] w by (simp add: fits_def lean_word_def unat_of_nat)
  then show ?thesis
    unfolding uint_op_result [OF w] by (auto simp: op_value_def split: sum.split)
qed

lemma binary_agrees: "binary op x y = Some r \<Longrightarrow> lean_binary (lean_op op) (lean_value x) (lean_value y) = lean_outcome r"
proof (cases x; cases y)
  fix a b assume "binary op x y = Some r" and "x = VBool a" and "y = VBool b"
  then show "lean_binary (lean_op op) (lean_value x) (lean_value y) = lean_outcome r"
    by (cases op) auto
next
  fix w a v b assume r: "binary op x y = Some r" and x: "x = VUInt w a" and y: "y = VUInt v b"
  show "lean_binary (lean_op op) (lean_value x) (lean_value y) = lean_outcome r"
  proof (cases "w = v \<and> w \<in> widths")
    case False
    then have "r = Inl TypeFault"
      using r ir_word_unsupported [of w "unat a"] by (cases "w = v") (simp_all add: x y del: insert_iff)
    then show ?thesis
      using False by (cases "w = v") (simp_all add: x y valid_width_iff flip: word_unat_eq_iff del: insert_iff)
  next
    case True
    then have w: "w \<in> widths" and v: "v = w"
      by blast+
    show ?thesis
    proof (cases "fits w (unat a) \<and> fits w (unat b)")
      case True
      then show ?thesis
        using r binary_uint [of w a b op] op_agrees [of w "unat a" "unat b" op] w v
        by (auto simp: x y valid_width_iff fits_def simp del: insert_iff binary.simps)
    next
      case False
      then have "r = Inl Overflow"
        using r w v by (auto simp: x y ir_word_eq [OF w] fits_def simp del: insert_iff split: if_splits)
      then show ?thesis
        using False w v by (auto simp: x y valid_width_iff fits_def simp del: insert_iff)
    qed
  qed
qed auto

lemma bind_agrees:
  assumes "m = Some r" and "\<And>v. r = Inr v \<Longrightarrow> \<exists>s. f v = Some s \<and> g (lean_value v) = lean_outcome s"
  shows "\<exists>s. try_bind m f = Some s \<and> lean_bind (lean_outcome r) g = lean_outcome s"
  using assms by (cases r) auto

lemma eval_agrees:
  "\<exists>r. evaluate e env = Some r \<and> lean_eval (lean_expr e) (map lean_value env) = lean_outcome r"
  "\<exists>r. evaluate_kind k env = Some r \<and> lean_eval (lean_kind k) (map lean_value env) = lean_outcome r"
proof (induction e env and k env rule: evaluate_evaluate_kind.induct)
  case (3 bits v env)
  obtain r where "ir_word bits (unat v) = Some r"
    using ir_word_returns by blast
  then show ?case
    using word_agrees by simp
next
  case (4 i env)
  then show ?case
    by (simp add: lean_get_def)
next
  case (5 x env)
  then obtain r where r: "evaluate x env = Some r" "lean_eval (lean_expr x) (map lean_value env) = lean_outcome r"
    by blast
  show ?case
    unfolding evaluate_kind.simps lean_kind.simps lean_eval.simps r(2)
    by (rule bind_agrees [OF r(1)]) (simp split: Value.split)
next
  case (6 op left right env)
  then obtain r where r: "evaluate left env = Some r" "lean_eval (lean_expr left) (map lean_value env) = lean_outcome r"
    by blast
  show ?case
    unfolding evaluate_kind.simps lean_kind.simps lean_eval.simps r(2)
  proof (rule bind_agrees [OF r(1)])
    fix a assume "r = Inr a"
    then obtain s where s: "evaluate right env = Some s" "lean_eval (lean_expr right) (map lean_value env) = lean_outcome s"
      using 6(2) r(1) by blast
    show "\<exists>s. try_bind (evaluate right env) (binary op a) = Some s
        \<and> lean_bind (lean_eval (lean_expr right) (map lean_value env)) (lean_binary (lean_op op) (lean_value a)) = lean_outcome s"
      unfolding s(2)
    proof (rule bind_agrees [OF s(1)])
      fix b
      show "\<exists>s. binary op a b = Some s \<and> lean_binary (lean_op op) (lean_value a) (lean_value b) = lean_outcome s"
        using binary_returns binary_agrees by blast
    qed
  qed
next
  case (7 condition yes no env)
  then obtain r where r: "evaluate condition env = Some r" "lean_eval (lean_expr condition) (map lean_value env) = lean_outcome r"
    by blast
  show ?case
    unfolding evaluate_kind.simps lean_kind.simps lean_eval.simps r(2)
    by (rule bind_agrees [OF r(1)]) (use 7 r(1) in \<open>auto split: Value.split bool.split\<close>)
next
  case (8 v body env)
  then obtain r where r: "evaluate v env = Some r" "lean_eval (lean_expr v) (map lean_value env) = lean_outcome r"
    by blast
  show ?case
    unfolding evaluate_kind.simps lean_kind.simps lean_eval.simps r(2)
    by (rule bind_agrees [OF r(1)]) (use 8(2) r(1) in auto)
next
  case (9 condition body env)
  then obtain r where r: "evaluate condition env = Some r" "lean_eval (lean_expr condition) (map lean_value env) = lean_outcome r"
    by blast
  show ?case
    unfolding evaluate_kind.simps lean_kind.simps lean_eval.simps r(2)
    by (rule bind_agrees [OF r(1)]) (use 9 r(1) in \<open>auto split: Value.split bool.split\<close>)
qed simp_all

lemma valid_args_agree:
  assumes "ub \<in> {32, 64}"
  shows "lean_valid_args (map (lean_ty ub) tys) (map lean_value args) \<longleftrightarrow> list_all2 (has_ty ub) args tys"
proof (induction tys arbitrary: args)
  case Nil
  then show ?case
    by (cases args) simp_all
next
  case (Cons ty tys)
  show ?case
  proof (cases args)
    case Nil
    then show ?thesis
      by (cases "lean_ty ub ty") simp_all
  next
    case (Cons arg rest)
    have "Ty_bits ub ty = None \<longleftrightarrow> ty = TyBool"
      by (cases ty) simp_all
    then show ?thesis
      using Cons.IH [of rest] Ty_bits_widths [OF assms] Cons
      by (cases arg; cases "Ty_bits ub ty")
        (auto simp: lean_ty_def valid_width_iff word_unat_eq_iff [symmetric] simp del: insert_iff)
  qed
qed

lemma run_agrees:
  assumes "ub \<in> {32, 64}"
  shows "\<exists>r. run f args ub = Some r \<and> lean_run (lean_schema ub f) (lean_expr (fn_body f)) (map lean_value args) = lean_outcome r"
proof -
  have valid: "lean_valid_args (lean_schema ub f) (map lean_value args) \<longleftrightarrow> list_all2 (has_ty ub) args (map pa_ty (fn_parameters f))"
    using valid_args_agree [OF assms, of "map pa_ty (fn_parameters f)"] by (simp add: lean_schema_def comp_def)
  show ?thesis
  proof (cases "length (fn_parameters f) = length args")
    case True
    then show ?thesis
      using eval_agrees(1) [of "fn_body f" args] valid valid_arguments_iff [OF assms True]
      by (auto simp: run_def lean_run_def)
  next
    case False
    then have "\<not> list_all2 (has_ty ub) args (map pa_ty (fn_parameters f))"
      by (auto dest: list_all2_lengthD)
    then show ?thesis
      using False valid by (simp add: run_def lean_run_def)
  qed
qed

section \<open>Reading the printed texts\<close>

text \<open>The names of the Lean constructors of \<^verbatim>\<open>Op\<close>, as the Lean library declares them. The generator takes
  its names from \<^verbatim>\<open>Op::lean\<close>; the two tables have to agree.\<close>

fun lop_text :: "LOp \<Rightarrow> string" where
  "lop_text LAdd = ''add''"
| "lop_text LSub = ''sub''"
| "lop_text LMul = ''mul''"
| "lop_text LDiv = ''div''"
| "lop_text LRem = ''rem''"
| "lop_text LEq = ''eq''"
| "lop_text LNe = ''ne''"
| "lop_text LLt = ''lt''"
| "lop_text LLe = ''le''"
| "lop_text LGt = ''gt''"
| "lop_text LGe = ''ge''"
| "lop_text LMin = ''min''"
| "lop_text LMax = ''max''"
| "lop_text LSaturatingAdd = ''saturatingAdd''"
| "lop_text LSaturatingSub = ''saturatingSub''"
| "lop_text LWrappingAdd = ''wrappingAdd''"
| "lop_text LWrappingSub = ''wrappingSub''"
| "lop_text LWrappingMul = ''wrappingMul''"
| "lop_text LBitAnd = ''bitAnd''"
| "lop_text LBitOr = ''bitOr''"
| "lop_text LBitXor = ''bitXor''"
| "lop_text LShl = ''shl''"
| "lop_text LShr = ''shr''"

lemma Op_lean_names: "Op_lean op = lop_text (lean_op op)"
  by (cases op) simp_all

lemma lop_text_blank: "CHR '' '' \<notin> set (lop_text op)"
  by (cases op) simp_all

lemma lop_text_inj: "lop_text a = lop_text b \<longleftrightarrow> a = b"
  by (cases a; cases b) simp_all

lemma op_text_unique: "lop_text a @ CHR '' '' # u = lop_text b @ CHR '' '' # v \<longleftrightarrow> a = b \<and> u = v"
  by (simp add: closed_unique lop_text_blank lop_text_inj)

lemma bool_text_unique: "bool_text a @ CHR '')'' # u = bool_text b @ CHR '')'' # v \<longleftrightarrow> a = b \<and> u = v"
  by (cases a; cases b) (simp_all add: bool_text_def)

text \<open>The constructors of the Lean type \<^verbatim>\<open>Expr\<close>, as \<open>ast\<close> prints them.\<close>

fun expr_text :: "LExpr \<Rightarrow> string" where
  "expr_text (LEBoolean b) = ''(.boolean '' @ bool_text b @ '')''"
| "expr_text (LEUint w n) = ''(.uint '' @ nat_decimal w @ '' '' @ nat_decimal n @ '')''"
| "expr_text (LEVar i) = ''(.var '' @ nat_decimal i @ '')''"
| "expr_text (LENegate x) = ''(.negate '' @ expr_text x @ '')''"
| "expr_text (LEBinary op l r) = ''(.binary .'' @ lop_text op @ '' '' @ expr_text l @ '' '' @ expr_text r @ '')''"
| "expr_text (LEIte c y n) = ''(.ite '' @ expr_text c @ '' '' @ expr_text y @ '' '' @ expr_text n @ '')''"
| "expr_text (LELetE v b) = ''(.letE '' @ expr_text v @ '' '' @ expr_text b @ '')''"
| "expr_text (LEGuard c b) = ''(.guard '' @ expr_text c @ '' '' @ expr_text b @ '')''"

lemma expr_text_unique: "expr_text x @ u = expr_text y @ v \<Longrightarrow> x = y \<and> u = v"
proof (induction x arbitrary: y u v)
  case (LEIte c t e)
  from LEIte.prems show ?case
    by (cases y) (auto dest!: LEIte.IH)
next
  case (LEBinary op l r)
  from LEBinary.prems show ?case
    by (cases y) (auto simp: op_text_unique dest!: LEBinary.IH)
next
  case (LELetE a b)
  from LELetE.prems show ?case
    by (cases y) (auto dest!: LELetE.IH)
next
  case (LEGuard a b)
  from LEGuard.prems show ?case
    by (cases y) (auto dest!: LEGuard.IH)
next
  case (LENegate a)
  from LENegate.prems show ?case
    by (cases y) (auto dest!: LENegate.IH)
next
  case (LEBoolean b)
  then show ?case
    by (cases y) (auto simp: bool_text_unique)
next
  case (LEUint w n)
  then show ?case
    by (cases y) (auto simp: nat_decimal_unique)
next
  case (LEVar i)
  then show ?case
    by (cases y) (auto simp: nat_decimal_unique)
qed

interpretation lean_expr_text: value_text expr_text
proof unfold_locales
  show "\<exists>c r. expr_text x = c # r \<and> c \<noteq> CHR '']''" for x
    by (cases x) auto
qed (rule expr_text_unique)

lemma ast_text: "ast e = expr_text (lean_expr e)" "ast_kind k = expr_text (lean_kind k)"
  by (induction e and k) (simp_all add: Op_lean_names)

section \<open>Lean terms\<close>

text \<open>The terms \<open>code\<close> prints: names bound by \<^verbatim>\<open>fun\<close>, environments, applications of the operations
  above and parentheses. The first argument of \<^verbatim>\<open>bind\<close> is always in parentheses.\<close>

datatype LName = NameA nat | NameB nat | NameC nat | NameX nat

datatype LEnv = EnvVar | EnvCons LName LEnv

datatype LTerm =
    TOk bool
  | TWord nat nat
  | TGet LEnv nat
  | TBindNegate LTerm
  | TBind LTerm LName LTerm
  | TBinary LOp LName LName
  | TBranch LName LTerm LTerm
  | TGuard LName LTerm
  | TParen LTerm

fun name_text :: "LName \<Rightarrow> string" where
  "name_text (NameA n) = ''a'' @ nat_decimal n"
| "name_text (NameB n) = ''b'' @ nat_decimal n"
| "name_text (NameC n) = ''c'' @ nat_decimal n"
| "name_text (NameX n) = ''x'' @ nat_decimal n"

fun env_text :: "LEnv \<Rightarrow> string" where
  "env_text EnvVar = ''env''"
| "env_text (EnvCons x env) = ''('' @ name_text x @ '' :: '' @ env_text env @ '')''"

fun term_text :: "LTerm \<Rightarrow> string" where
  "term_text (TOk b) = ''.ok (.boolean '' @ bool_text b @ '')''"
| "term_text (TWord w n) = ''Provium.word '' @ nat_decimal w @ '' '' @ nat_decimal n"
| "term_text (TGet env i) = ''Provium.get '' @ env_text env @ '' '' @ nat_decimal i"
| "term_text (TBindNegate m) = ''Provium.bind ('' @ term_text m @ '') Provium.negate''"
| "term_text (TBind m x t) = ''Provium.bind ('' @ term_text m @ '') (fun '' @ name_text x @ '' => '' @ term_text t @ '')''"
| "term_text (TBinary op x y) = ''Provium.binary .'' @ lop_text op @ '' '' @ name_text x @ '' '' @ name_text y"
| "term_text (TBranch x t e) =
     ''Provium.branch '' @ name_text x @ '' (fun _ => '' @ term_text t @ '') (fun _ => '' @ term_text e @ '')''"
| "term_text (TGuard x t) = ''Provium.guard '' @ name_text x @ '' (fun _ => '' @ term_text t @ '')''"
| "term_text (TParen t) = ''('' @ term_text t @ '')''"

text \<open>The value of a term, given the values of its names and of \<^verbatim>\<open>env\<close>, and the names it may use.\<close>

fun env_value :: "LEnv \<Rightarrow> (LName \<Rightarrow> LValue) \<Rightarrow> LValue list \<Rightarrow> LValue list" where
  "env_value EnvVar s env = env"
| "env_value (EnvCons x rest) s env = s x # env_value rest s env"

fun term_value :: "LTerm \<Rightarrow> (LName \<Rightarrow> LValue) \<Rightarrow> LValue list \<Rightarrow> LResult" where
  "term_value (TOk b) s env = Inr (LBoolean b)"
| "term_value (TWord w n) s env = lean_word w n"
| "term_value (TGet es i) s env = lean_get (env_value es s env) i"
| "term_value (TBindNegate m) s env = lean_bind (term_value m s env) lean_negate"
| "term_value (TBind m x t) s env = lean_bind (term_value m s env) (\<lambda>v. term_value t (s(x := v)) env)"
| "term_value (TBinary op x y) s env = lean_binary op (s x) (s y)"
| "term_value (TBranch x t e) s env = lean_branch (s x) (\<lambda>_. term_value t s env) (\<lambda>_. term_value e s env)"
| "term_value (TGuard x t) s env = lean_guard (s x) (\<lambda>_. term_value t s env)"
| "term_value (TParen t) s env = term_value t s env"

fun env_names :: "LEnv \<Rightarrow> LName set" where
  "env_names EnvVar = {}"
| "env_names (EnvCons x env) = insert x (env_names env)"

fun term_scoped :: "LName set \<Rightarrow> LTerm \<Rightarrow> bool" where
  "term_scoped xs (TOk b) \<longleftrightarrow> True"
| "term_scoped xs (TWord w n) \<longleftrightarrow> True"
| "term_scoped xs (TGet env i) \<longleftrightarrow> env_names env \<subseteq> xs"
| "term_scoped xs (TBindNegate m) \<longleftrightarrow> term_scoped xs m"
| "term_scoped xs (TBind m x t) \<longleftrightarrow> term_scoped xs m \<and> term_scoped (insert x xs) t"
| "term_scoped xs (TBinary op x y) \<longleftrightarrow> x \<in> xs \<and> y \<in> xs"
| "term_scoped xs (TBranch x t e) \<longleftrightarrow> x \<in> xs \<and> term_scoped xs t \<and> term_scoped xs e"
| "term_scoped xs (TGuard x t) \<longleftrightarrow> x \<in> xs \<and> term_scoped xs t"
| "term_scoped xs (TParen t) \<longleftrightarrow> term_scoped xs t"

text \<open>The printed form of a term, followed by a closing parenthesis, determines the term.\<close>

lemma name_text_unique:
  "name_text x @ CHR '' '' # u = name_text y @ CHR '' '' # v \<longleftrightarrow> x = y \<and> u = v"
  "name_text x @ CHR '')'' # u = name_text y @ CHR '')'' # v \<longleftrightarrow> x = y \<and> u = v"
  by (cases x; cases y; simp add: nat_decimal_unique)+

lemma env_text_unique: "env_text x @ u = env_text y @ v \<longleftrightarrow> x = y \<and> u = v"
proof (induction x arbitrary: y u v)
  case EnvVar
  then show ?case
    by (cases y) auto
next
  case (EnvCons n x)
  then show ?case
    by (cases y) (auto simp: name_text_unique)
qed

lemma term_text_unique:
  "term_text t @ CHR '')'' # u = term_text t' @ CHR '')'' # v \<longleftrightarrow> t = t' \<and> u = v"
proof (induction t arbitrary: t' u v)
  case (TOk b)
  then show ?case
    by (cases t') (auto simp: bool_text_unique)
next
  case (TWord w n)
  then show ?case
    by (cases t') (auto simp: nat_decimal_unique)
next
  case (TGet env i)
  then show ?case
    by (cases t') (auto simp: nat_decimal_unique env_text_unique)
next
  case (TBindNegate t)
  then show ?case
    by (cases t') auto
next
  case (TBind t1 x t2)
  then show ?case
    by (cases t') (auto simp: name_text_unique)
next
  case (TBinary op x y)
  then show ?case
    by (cases t') (auto simp: name_text_unique op_text_unique)
next
  case (TBranch x t1 t2)
  then show ?case
    by (cases t') (auto simp: name_text_unique)
next
  case (TGuard x t)
  then show ?case
    by (cases t') (auto simp: name_text_unique)
next
  case (TParen t)
  then show ?case
    by (cases t') auto
qed

lemma term_text_inj: "term_text t = term_text t' \<Longrightarrow> t = t'"
  using term_text_unique [of t "[]" t' "[]"] by simp

section \<open>The generated term\<close>

text \<open>The term whose text the generator prints.\<close>

fun lterm_of :: "Expr \<Rightarrow> LEnv \<Rightarrow> nat \<Rightarrow> LTerm \<times> nat" and lterm_of_kind :: "Kind \<Rightarrow> LEnv \<Rightarrow> nat \<Rightarrow> LTerm \<times> nat" where
  "lterm_of (Expr ty kind) env n = lterm_of_kind kind env (n + 1)"
| "lterm_of_kind (KBool b) env n = (TOk b, n)"
| "lterm_of_kind (KUInt bits v) env n = (TWord (unat bits) (unat v), n)"
| "lterm_of_kind (KVar i) env n = (TGet env i, n)"
| "lterm_of_kind (KNot x) env n = (let (tx, n1) = lterm_of x env n in (TBindNegate tx, n1))"
| "lterm_of_kind (KBinary op left right) env n =
     (let (tl, n1) = lterm_of left env n; (tr, n2) = lterm_of right env n1
      in (TBind tl (NameA n) (TBind tr (NameB n) (TBinary (lean_op op) (NameA n) (NameB n))), n2))"
| "lterm_of_kind (KIf condition yes no) env n =
     (let (tc, n1) = lterm_of condition env n; (ty, n2) = lterm_of yes env n1; (tn, n3) = lterm_of no env n2
      in (TBind tc (NameC n) (TBranch (NameC n) (TParen ty) (TParen tn)), n3))"
| "lterm_of_kind (KLet v body) env n =
     (let (tv, n1) = lterm_of v env n; (tb, n2) = lterm_of body (EnvCons (NameX n) env) n1
      in (TBind tv (NameX n) (TParen tb), n2))"
| "lterm_of_kind (KAssert condition body) env n =
     (let (tc, n1) = lterm_of condition env n; (tb, n2) = lterm_of body env n1
      in (TBind tc (NameC n) (TGuard (NameC n) (TParen tb)), n2))"

lemma code_prints_term:
  "code e (env_text env) n = (''('' @ term_text (fst (lterm_of e env n)) @ '')'', snd (lterm_of e env n))"
  "code_kind k (env_text env) n = (''('' @ term_text (fst (lterm_of_kind k env n)) @ '')'', snd (lterm_of_kind k env n))"
proof (induction e and k arbitrary: env n and env n)
  case (KLet v body)
  then show ?case
    using KLet(2) [of "EnvCons (NameX n) env"] by (simp add: Let_def split_def)
qed (simp_all add: split_def Let_def Op_lean_names)

lemma fresh_grows: "n \<le> snd (lterm_of e env n)" "n \<le> snd (lterm_of_kind k env n)"
proof (induction e and k arbitrary: env n and env n)
  case (Expr ty kind)
  show ?case
    using Expr [of "n + 1" env] by simp
qed (auto simp: split_def Let_def, (meson order_trans)+)

text \<open>The names of an environment carry numbers below the counter, so that a new name is different
  from all of them.\<close>

fun name_index :: "LName \<Rightarrow> nat" where
  "name_index (NameA n) = n"
| "name_index (NameB n) = n"
| "name_index (NameC n) = n"
| "name_index (NameX n) = n"

definition below :: "nat \<Rightarrow> LEnv \<Rightarrow> bool" where
  "below n env \<longleftrightarrow> (\<forall>x \<in> env_names env. name_index x < n)"

lemma env_value_fresh:
  "x \<notin> env_names es \<Longrightarrow> env_value es (s(x := v)) env = env_value es s env"
  "x \<notin> env_names es \<Longrightarrow> env_value es (\<lambda>y. if y = x then v else s y) env = env_value es s env"
  by (induction es) auto

lemma below_mono: "below n env \<Longrightarrow> n \<le> m \<Longrightarrow> below m env"
  by (auto simp: below_def)

lemma below_fresh: "below n env \<Longrightarrow> name_index x = n \<Longrightarrow> x \<notin> env_names env"
  by (auto simp: below_def)

lemma below_Cons: "below (n + 1) (EnvCons (NameX n) env) \<longleftrightarrow> below (n + 1) env"
  by (simp add: below_def)

lemma term_means:
  "below (n + 1) es \<Longrightarrow> term_value (fst (lterm_of e es n)) s env = lean_eval (lean_expr e) (env_value es s env)"
  "below n es \<Longrightarrow> term_value (fst (lterm_of_kind k es n)) s env = lean_eval (lean_kind k) (env_value es s env)"
proof (induction e and k arbitrary: es n s and es n s)
  case (KBinary op left right)
  then have "below (m + 1) es" if "n \<le> m" for m
    using that below_mono by fastforce
  then show ?case
    using KBinary fresh_grows(1) [of n left es]
    by (simp add: split_def Let_def env_value_fresh below_fresh)
next
  case (KIf condition yes no)
  then have "below (m + 1) es" if "n \<le> m" for m
    using that below_mono by fastforce
  moreover have "n \<le> snd (lterm_of yes es (snd (lterm_of condition es n)))"
    using fresh_grows(1) order_trans by blast
  ultimately show ?case
    using KIf fresh_grows(1) [of n condition es]
    by (simp add: split_def Let_def env_value_fresh below_fresh)
next
  case (KLet v body)
  let ?m = "snd (lterm_of v es n)"
  have "below (n + 1) es" and "below (?m + 1) (EnvCons (NameX n) es)"
    using KLet.prems fresh_grows(1) [of n v es] by (fastforce simp: below_def)+
  then show ?case
    using KLet by (simp add: split_def Let_def env_value_fresh below_fresh)
next
  case (KAssert condition body)
  then have "below (m + 1) es" if "n \<le> m" for m
    using that below_mono by fastforce
  then show ?case
    using KAssert fresh_grows(1) [of n condition es]
    by (simp add: split_def Let_def env_value_fresh below_fresh)
next
  case (KNot x)
  then show ?case
    using below_mono [of n es "n + 1"] by (simp add: split_def Let_def)
qed simp_all

lemma lterm_of_scoped:
  "env_names es \<subseteq> xs \<Longrightarrow> term_scoped xs (fst (lterm_of e es n))"
  "env_names es \<subseteq> xs \<Longrightarrow> term_scoped xs (fst (lterm_of_kind k es n))"
proof (induction e and k arbitrary: es n xs and es n xs)
  case (KLet v body)
  have "env_names (EnvCons (NameX n) es) \<subseteq> insert (NameX n) xs"
    using KLet.prems by auto
  then show ?case
    using KLet by (simp add: split_def Let_def)
qed (auto simp: split_def Let_def subset_insertI2)

text \<open>The Lean function that is printed: its arguments are checked, then the term is evaluated.\<close>

definition lean_function :: "LTy list \<Rightarrow> LTerm \<Rightarrow> LValue list \<Rightarrow> LResult" where
  "lean_function types t env =
     (if lean_valid_args types env then term_value t (\<lambda>_. LBoolean False) env else Inl LInput)"

lemma generated_term:
  defines "t \<equiv> \<lambda>f. fst (lterm_of (fn_body f) EnvVar 0)"
  shows "fst (code (fn_body f) ''env'' 0) = ''('' @ term_text (t f) @ '')''" and "term_scoped {} (t f)"
    and "term_value (t f) s env = lean_eval (lean_expr (fn_body f)) env"
  using code_prints_term(1) [of "fn_body f" EnvVar 0] lterm_of_scoped(1) [of EnvVar "{}" "fn_body f" 0]
    term_means(1) [of 0 EnvVar "fn_body f" s env]
  by (simp_all add: t_def below_def)

section \<open>The generated file\<close>

text \<open>Types and lists of types in Lean.\<close>

fun lty_text :: "LTy \<Rightarrow> string" where
  "lty_text LTyBoolean = ''.boolean''"
| "lty_text (LTyUint w) = ''.uint '' @ nat_decimal w"

definition types_text :: "LTy list \<Rightarrow> string" where
  "types_text ts = ''['' @ join '', '' (map lty_text ts) @ '']''"

lemma schema_text_types: "schema_text ub f = types_text (lean_schema ub f)"
proof -
  have "ty_text ub ty = lty_text (lean_ty ub ty)" for ty
    by (simp add: ty_text_def lean_ty_def split: option.split)
  then show ?thesis
    by (simp add: schema_text_def types_text_def lean_schema_def comp_def)
qed

lemma stop_unique:
  assumes "set xs \<inter> S = {}" and "set ys \<inter> S = {}" and "c \<in> S" and "d \<in> S"
  shows "xs @ c # u = ys @ d # v \<longleftrightarrow> xs = ys \<and> c = d \<and> u = v"
  using assms(1,2)
proof (induction xs arbitrary: ys)
  case Nil
  then show ?case
    using assms(3) by (cases ys) auto
next
  case (Cons x xs)
  then show ?case
    using assms(4) by (cases ys) auto
qed

lemma lty_text_stops: "set (lty_text t) \<inter> {CHR '','', CHR '']''} = {}"
proof (cases t)
  case (LTyUint w)
  have "c \<notin> set (nat_decimal w)" if "c = CHR '','' \<or> c = CHR '']''" for c
    using that nat_decimal_digits [of c w] by auto
  then show ?thesis
    by (simp add: LTyUint)
qed simp

lemma lty_text_inj: "lty_text a = lty_text b \<longleftrightarrow> a = b"
  by (cases a; cases b) (simp_all add: nat_decimal_inj)

lemma lty_text_unique:
  assumes "c \<in> {CHR '','', CHR '']''}" and "d \<in> {CHR '','', CHR '']''}"
  shows "lty_text a @ c # u = lty_text b @ d # v \<longleftrightarrow> a = b \<and> c = d \<and> u = v"
  using stop_unique [OF lty_text_stops lty_text_stops assms] lty_text_inj by simp

lemma types_tail_unique:
  "concat (map (\<lambda>t. '', '' @ lty_text t) ts) @ '']'' = concat (map (\<lambda>t. '', '' @ lty_text t) us) @ '']'' \<Longrightarrow> ts = us"
proof (induction ts arbitrary: us)
  case Nil
  then show ?case
    by (cases us) auto
next
  case (Cons t ts)
  obtain u us' where us: "us = u # us'"
    using Cons.prems by (cases us) auto
  define tail where "tail = (\<lambda>ts. concat (map (\<lambda>t. '', '' @ lty_text t) ts) @ '']'')"
  have "\<exists>c r. tail ts = c # r \<and> c \<in> {CHR '','', CHR '']''}" for ts
    by (cases ts) (simp_all add: tail_def)
  then obtain c r d q where "tail ts = c # r" "tail us' = d # q" "c \<in> {CHR '','', CHR '']''}" "d \<in> {CHR '','', CHR '']''}"
    by metis
  moreover have "lty_text t @ tail ts = lty_text u @ tail us'"
    using Cons.prems by (simp add: us tail_def)
  ultimately have "t = u" and "tail ts = tail us'"
    using lty_text_unique [of c d t r u q] by auto
  then show ?case
    using Cons.IH [of us'] us by (simp add: tail_def)
qed

lemma types_text_inj: "types_text ts = types_text us \<Longrightarrow> ts = us"
proof -
  assume eq: "types_text ts = types_text us"
  have "lty_text t \<noteq> [] \<and> hd (lty_text t) = CHR ''.''" for t
    by (cases t) simp_all
  then have first: "\<exists>r. lty_text t = CHR ''.'' # r" for t
    by (metis list.collapse)
  show "ts = us"
  proof (cases "ts = [] \<or> us = []")
    case True
    then show ?thesis
      using eq first [of "hd ts"] first [of "hd us"]
      by (cases ts; cases us) (auto simp: types_text_def join_Cons)
  next
    case False
    then obtain t ts' u us' where l: "ts = t # ts'" "us = u # us'"
      by (meson neq_Nil_conv)
    then have "concat (map (\<lambda>t. '', '' @ lty_text t) ts) @ '']'' = concat (map (\<lambda>t. '', '' @ lty_text t) us) @ '']''"
      using eq by (simp add: types_text_def join_Cons comp_def)
    then show ?thesis
      by (rule types_tail_unique)
  qed
qed

text \<open>The declarations of a generated file, in Lean's syntax, and what it takes for Lean to accept them in
  order: a name is declared once, a term has no unbound name, and a theorem that is closed by
  computation holds of what its names stand for.\<close>

datatype LDecl =
    LComment nat nat "string list"
  | LDefExpr string LExpr
  | LDefFunction string "LTy list" LTerm
  | LTheorem string "LTy list" string string

definition lean_quoted :: "string \<Rightarrow> string" where
  "lean_quoted x = [CHR 0xC2, CHR 0xAB] @ x @ [CHR 0xC2, CHR 0xBB]"

fun decl_text :: "LDecl \<Rightarrow> string" where
  "decl_text (LComment a b ps) =
     ''-- Rust lines '' @ nat_decimal a @ ''-'' @ nat_decimal b @ ''; parameters in order: '' @ join '', '' ps @ newline"
| "decl_text (LDefExpr x e) =
     ''def '' @ lean_quoted x @ '' : Provium.Expr :='' @ newline @ ''  '' @ expr_text e @ newline @ newline"
| "decl_text (LDefFunction x ts t) =
     ''def '' @ lean_quoted x @ '' (env : Provium.Env) : Provium.Result :='' @ newline
     @ ''  if Provium.validArgs '' @ types_text ts @ '' env then'' @ newline
     @ ''    ('' @ term_text t @ '')'' @ newline @ ''  else .error .input'' @ newline @ newline"
| "decl_text (LTheorem x ts y z) =
     ''theorem '' @ lean_quoted x @ '' (env : Provium.Env) :'' @ newline
     @ ''    Provium.run '' @ types_text ts @ '' '' @ lean_quoted y @ '' env = '' @ lean_quoted z @ '' env := by'' @ newline
     @ ''  rfl'' @ newline @ newline"

fun decls_hold ::
    "LDecl list \<Rightarrow> string set \<Rightarrow> (string \<rightharpoonup> LExpr) \<Rightarrow> (string \<rightharpoonup> (LValue list \<Rightarrow> LResult)) \<Rightarrow> bool" where
  "decls_hold [] used es fs \<longleftrightarrow> True"
| "decls_hold (LComment a b ps # ds) used es fs \<longleftrightarrow> decls_hold ds used es fs"
| "decls_hold (LDefExpr x e # ds) used es fs \<longleftrightarrow> x \<notin> used \<and> decls_hold ds (insert x used) (es(x \<mapsto> e)) fs"
| "decls_hold (LDefFunction x ts t # ds) used es fs \<longleftrightarrow>
     x \<notin> used \<and> term_scoped {} t \<and> decls_hold ds (insert x used) es (fs(x \<mapsto> lean_function ts t))"
| "decls_hold (LTheorem x ts y z # ds) used es fs \<longleftrightarrow>
     x \<notin> used \<and> (\<exists>e g. es y = Some e \<and> fs z = Some g \<and> (\<forall>env. lean_run ts e env = g env))
     \<and> decls_hold ds (insert x used) es fs"

text \<open>The declarations of one function.\<close>

definition lean_decls :: "u32 \<Rightarrow> Function \<Rightarrow> LDecl list" where
  "lean_decls ub f =
     [LComment (fn_start_line f) (fn_end_line f) (map pa_name (fn_parameters f)),
      LDefExpr (fn_name f @ ''_ir'') (lean_expr (fn_body f)),
      LDefFunction (fn_name f) (lean_schema ub f) (fst (lterm_of (fn_body f) EnvVar 0)),
      LTheorem (fn_name f @ ''_correspondence'') (lean_schema ub f) (fn_name f @ ''_ir'') (fn_name f)]"

lemma function_text_decls: "function_text ub f = concat (map decl_text (lean_decls ub f))"
  by (simp add: function_text_def lean_decls_def lean_name_def lean_quoted_def Let_def schema_text_types
      generated_term(1) ast_text(1))

text \<open>A Lean file: the library is imported, and the declarations stand in a namespace, after the width of
  \<^verbatim>\<open>usize\<close>.\<close>

definition file_text :: "string \<Rightarrow> nat \<Rightarrow> LDecl list \<Rightarrow> string" where
  "file_text namespace bits ds =
     ''import Provium.Semantics'' @ newline @ ''set_option maxRecDepth 4096'' @ newline
     @ ''namespace '' @ namespace @ newline @ ''open Provium'' @ newline @ newline
     @ ''def proviumUsizeBits : Nat := '' @ nat_decimal bits @ newline @ newline
     @ concat (map decl_text ds) @ ''end '' @ namespace @ newline"

lemma generated_file:
  "generate fns ns ub hash =
     (''-- Generated by Provium. Do not hand-edit.'' @ newline @ ''-- Source SHA-256: '' @ hash @ newline
      @ ''-- Checked overflow; usize = '' @ nat_decimal (unat ub) @ '' bits.'' @ newline)
     @ file_text ns (unat ub) (concat (map (lean_decls ub) fns))"
proof -
  have "concat (map (function_text ub) fns) = concat (map decl_text (concat (map (lean_decls ub) fns)))"
    by (induction fns) (simp_all add: function_text_decls)
  then show ?thesis
    by (simp add: generate_def file_text_def)
qed

lemma generated_function:
  "lean_function (lean_schema ub f) (fst (lterm_of (fn_body f) EnvVar 0))
     = lean_run (lean_schema ub f) (lean_expr (fn_body f))"
  by (simp add: fun_eq_iff lean_function_def lean_run_def generated_term(3))

text \<open>The symbols a project may generate, as \<^verbatim>\<open>project.rs\<close> collects them; a collision is an error.\<close>

definition lean_symbols :: "Function \<Rightarrow> string list" where
  "lean_symbols f = [fn_name f, fn_name f @ ''_ir'', fn_name f @ ''_correspondence'']"

fun symbols_insert :: "string list \<Rightarrow> string set \<Rightarrow> string set option" where
  "symbols_insert [] symbols = Some symbols"
| "symbols_insert (name # names) symbols =
     (if name \<in> symbols then None else symbols_insert names (insert name symbols))"

definition symbols_checked :: "Function list \<Rightarrow> bool" where
  "symbols_checked functions \<longleftrightarrow>
     symbols_insert (concat (map lean_symbols functions)) {''proviumUsizeBits''} \<noteq> None"

lemma symbols_insert_append:
  "symbols_insert (xs @ ys) s = symbols_insert xs s \<bind> symbols_insert ys"
  by (induction xs arbitrary: s) simp_all

lemma decls_hold_function:
  assumes "symbols_insert (lean_symbols f) used = Some used'"
    and "\<And>es fs. decls_hold ds used' es fs"
  shows "decls_hold (lean_decls ub f @ ds) used es fs"
  using assms generated_function [of ub f] generated_term(2) [of f]
  by (auto simp: lean_decls_def lean_symbols_def insert_commute split: if_splits)

lemma file_holds:
  assumes "symbols_insert (concat (map lean_symbols fns)) used = Some used'"
  shows "decls_hold (concat (map (lean_decls ub) fns)) used es fs"
  using assms
proof (induction fns arbitrary: used es fs)
  case (Cons f fns)
  then obtain u where u: "symbols_insert (lean_symbols f) used = Some u"
    "symbols_insert (concat (map lean_symbols fns)) u = Some used'"
    by (auto simp: symbols_insert_append bind_eq_Some_conv)
  then show ?case
    using decls_hold_function [OF u(1) Cons.IH [OF u(2)]] by simp
qed simp

end
