(* ===== verification/Provium_Cfg.thy ===== *)
theory Provium_Cfg
  imports Jarl_Types "HOL-Library.Char_ord"
begin

text \<open>
  Conditional compilation, \<^verbatim>\<open>provium/src/cfg.rs\<close>: parsing of the compiler's configuration, evaluation
  of \<^verbatim>\<open>cfg\<close> predicates and expansion of \<^verbatim>\<open>cfg_attr\<close>. What the crate \<^verbatim>\<open>syn\<close> does is an argument: a
  token stream is a value of an unknown type, and the parsers that turn it into lists of attributes
  are functions that may fail with a message. Nothing is assumed of them, not even that their
  results are smaller: the depth limit of the code ends the recursion.

  The lemmas show that evaluation answers exactly the predicates that can be read completely, and
  gives them their Boolean meaning; and the same of the attributes of a declaration.
\<close>

section \<open>Data\<close>

text \<open>A path that is a single identifier, written raw or not, or any other path.\<close>

datatype MetaPath = Single bool string | Compound

datatype MetaValue = StrLit string | OtherValue

datatype 't Meta =
    MetaWord MetaPath
  | MetaNameValue MetaPath MetaValue
  | MetaList MetaPath 't

fun Meta_path :: "'t Meta \<Rightarrow> MetaPath" where
  "Meta_path (MetaWord p) = p"
| "Meta_path (MetaNameValue p _) = p"
| "Meta_path (MetaList p _) = p"

text \<open>\<^verbatim>\<open>Path::is_ident\<close> distinguishes a raw identifier from the plain one.\<close>

fun is_ident :: "MetaPath \<Rightarrow> string \<Rightarrow> bool" where
  "is_ident (Single raw s) t \<longleftrightarrow> \<not> raw \<and> s = t"
| "is_ident Compound t \<longleftrightarrow> False"

record Configuration =
  cf_flags :: "string list"
  cf_values :: "(string \<times> string) list"

text \<open>The question mark operator on results without panics.\<close>

fun and_then :: "'e + 'a \<Rightarrow> ('a \<Rightarrow> 'e + 'b) \<Rightarrow> 'e + 'b" where
  "and_then (Inl e) f = Inl e"
| "and_then (Inr x) f = f x"

definition map_err :: "('e \<Rightarrow> 'f) \<Rightarrow> 'e + 'a \<Rightarrow> 'f + 'a" where
  "map_err f = map_sum f (\<lambda>x. x)"

fun cfg_name :: "MetaPath \<Rightarrow> string + string" where
  "cfg_name (Single raw s) = Inr s"
| "cfg_name Compound = Inl ''cfg names must be single identifiers''"

fun cfg_value :: "MetaValue \<Rightarrow> string + string" where
  "cfg_value (StrLit s) = Inr s"
| "cfg_value OtherValue = Inl ''cfg values must be string literals''"

section \<open>The compiler's configuration\<close>

text \<open>\<^verbatim>\<open>str::lines\<close>: the text is cut at line feeds, a carriage return before one is dropped, and an
  empty rest after the last one is no line.\<close>

fun split_lines :: "string \<Rightarrow> string \<Rightarrow> string list" where
  "split_lines acc [] = (if acc = [] then [] else [rev acc])"
| "split_lines acc (c # cs) =
     (if c = CHR 0x0A
      then rev (case acc of [] \<Rightarrow> [] | d # ds \<Rightarrow> if d = CHR 0x0D then ds else acc) # split_lines [] cs
      else split_lines (c # acc) cs)"

text \<open>Whether \<^verbatim>\<open>str::trim\<close> leaves nothing: the characters of the Unicode property \<^verbatim>\<open>White_Space\<close> in
  UTF-8.\<close>

fun blank :: "string \<Rightarrow> bool" where
  "blank [] \<longleftrightarrow> True"
| "blank (a # as) \<longleftrightarrow>
     (if a \<in> {CHR 0x09, CHR 0x0A, CHR 0x0B, CHR 0x0C, CHR 0x0D, CHR 0x20} then blank as
      else case as of
        b # bs \<Rightarrow>
          if a = CHR 0xC2 \<and> b \<in> {CHR 0x85, CHR 0xA0} then blank bs
          else (case bs of
            c # cs \<Rightarrow>
              (a = CHR 0xE1 \<and> b = CHR 0x9A \<and> c = CHR 0x80
               \<or> a = CHR 0xE2 \<and> b = CHR 0x80 \<and> (CHR 0x80 \<le> c \<and> c \<le> CHR 0x8A \<or> c \<in> {CHR 0xA8, CHR 0xA9, CHR 0xAF})
               \<or> a = CHR 0xE2 \<and> b = CHR 0x81 \<and> c = CHR 0x9F
               \<or> a = CHR 0xE3 \<and> b = CHR 0x80 \<and> c = CHR 0x80) \<and> blank cs
          | [] \<Rightarrow> False)
      | [] \<Rightarrow> False)"

fun Configuration_insert :: "(string \<Rightarrow> string + 't Meta) \<Rightarrow> string list \<Rightarrow> Configuration \<Rightarrow> string + Configuration" where
  "Configuration_insert parse_meta [] cfg = Inr cfg"
| "Configuration_insert parse_meta (line # lines) cfg =
     and_then (map_err (\<lambda>e. ''invalid compiler cfg: '' @ e) (parse_meta line)) (\<lambda>meta.
     and_then (case meta of
         MetaWord path \<Rightarrow> and_then (cfg_name path) (\<lambda>n. Inr (cfg\<lparr>cf_flags := List.insert n (cf_flags cfg)\<rparr>))
       | MetaNameValue path v \<Rightarrow>
           and_then (cfg_name path) (\<lambda>n. and_then (cfg_value v) (\<lambda>s.
             Inr (cfg\<lparr>cf_values := List.insert (n, s) (cf_values cfg)\<rparr>)))
       | MetaList _ _ \<Rightarrow> Inl ''compiler cfg must contain flags or string-valued keys'')
     (Configuration_insert parse_meta lines))"

definition Configuration_parse :: "(string \<Rightarrow> string + 't Meta) \<Rightarrow> string \<Rightarrow> string + Configuration" where
  "Configuration_parse parse_meta output =
     Configuration_insert parse_meta (filter (\<lambda>line. \<not> blank line) (split_lines [] output)) \<lparr>cf_flags = [], cf_values = []\<rparr>"

text \<open>\<^verbatim>\<open>str::parse\<close> for \<^verbatim>\<open>u32\<close>: an optional plus sign and at least one digit, without overflow.\<close>

definition parse_u32 :: "string \<Rightarrow> u32 option" where
  "parse_u32 s =
     (let digits = (case s of c # cs \<Rightarrow> if c = CHR ''+'' then cs else s | [] \<Rightarrow> []);
          n = foldl (\<lambda>a c. 10 * a + (of_char c - 48)) (0 :: nat) digits
      in if digits = [] \<or> \<not> list_all (\<lambda>c. CHR ''0'' \<le> c \<and> c \<le> CHR ''9'') digits \<or> 2 ^ 32 \<le> n then None
         else Some (of_nat n))"

definition Configuration_pointer_width :: "Configuration \<Rightarrow> u32 option" where
  "Configuration_pointer_width cfg =
     (case filter (\<lambda>(key, _). key = ''target_pointer_width'') (cf_values cfg) of
        [(_, width)] \<Rightarrow> parse_u32 width
      | _ \<Rightarrow> None)"

section \<open>Predicates\<close>

text \<open>\<open>args\<close> parses the tokens of a list as attributes separated by commas.\<close>

definition cfg_operator :: "MetaPath \<Rightarrow> bool list \<Rightarrow> string + bool" where
  "cfg_operator path results =
     and_then (cfg_name path) (\<lambda>op.
       if op = ''all'' then Inr (list_all (\<lambda>v. v) results)
       else if op = ''any'' then Inr (list_ex (\<lambda>v. v) results)
       else if op = ''not'' \<and> length results = 1 then Inr (\<not> results ! 0)
       else Inl ''unsupported cfg operator or arity'')"

function Configuration_evaluate_at ::
    "('t \<Rightarrow> string + 't Meta list) \<Rightarrow> Configuration \<Rightarrow> 't Meta \<Rightarrow> nat \<Rightarrow> string + bool"
and Configuration_evaluate_all ::
    "('t \<Rightarrow> string + 't Meta list) \<Rightarrow> Configuration \<Rightarrow> 't Meta list \<Rightarrow> nat \<Rightarrow> string + bool list" where
  "Configuration_evaluate_at args cfg predicate depth =
     (if 64 < depth then Inl ''cfg nesting exceeds supported depth''
      else case predicate of
        MetaWord path \<Rightarrow> and_then (cfg_name path) (\<lambda>n. Inr (n \<in> set (cf_flags cfg)))
      | MetaNameValue path v \<Rightarrow>
          and_then (cfg_name path) (\<lambda>n. and_then (cfg_value v) (\<lambda>s. Inr ((n, s) \<in> set (cf_values cfg))))
      | MetaList path tokens \<Rightarrow>
          and_then (map_err (\<lambda>e. ''invalid cfg predicate: '' @ e) (args tokens)) (\<lambda>predicates.
          and_then (Configuration_evaluate_all args cfg predicates (depth + 1)) (cfg_operator path)))"
| "Configuration_evaluate_all args cfg [] depth = Inr []"
| "Configuration_evaluate_all args cfg (p # ps) depth =
     and_then (Configuration_evaluate_at args cfg p depth) (\<lambda>v.
     and_then (Configuration_evaluate_all args cfg ps depth) (\<lambda>vs. Inr (v # vs)))"
  by pat_completeness auto
termination
  by (relation "measures [\<lambda>x. case x of Inl (_, _, _, d) \<Rightarrow> 2 * (66 - d) | Inr (_, _, _, d) \<Rightarrow> 2 * (66 - d) + 1,
      \<lambda>x. case x of Inl _ \<Rightarrow> 0 | Inr (_, _, ps, _) \<Rightarrow> length ps]") auto

declare Configuration_evaluate_at.simps [simp del]

definition Configuration_evaluate ::
    "('t \<Rightarrow> string + 't Meta list) \<Rightarrow> Configuration \<Rightarrow> 't Meta \<Rightarrow> string + bool" where
  "Configuration_evaluate args cfg predicate = Configuration_evaluate_at args cfg predicate 0"

section \<open>Attributes\<close>

function Configuration_expand ::
    "('t \<Rightarrow> string + 't Meta list) \<Rightarrow> Configuration \<Rightarrow> 't Meta \<Rightarrow> nat \<Rightarrow> string + 't Meta list"
and Configuration_expand_all ::
    "('t \<Rightarrow> string + 't Meta list) \<Rightarrow> Configuration \<Rightarrow> 't Meta list \<Rightarrow> nat \<Rightarrow> string + 't Meta list" where
  "Configuration_expand args cfg attribute depth =
     (if 64 < depth then Inl ''cfg_attr nesting exceeds supported depth''
      else if \<not> is_ident (Meta_path attribute) ''cfg_attr'' then Inr [attribute]
      else case attribute of
        MetaList path tokens \<Rightarrow>
          and_then (map_err (\<lambda>e. ''invalid cfg_attr: '' @ e) (args tokens)) (\<lambda>parts.
            case parts of
              [] \<Rightarrow> Inl ''cfg_attr requires a predicate''
            | condition # rest \<Rightarrow>
                and_then (Configuration_evaluate args cfg condition) (\<lambda>b.
                  if b then Configuration_expand_all args cfg rest (depth + 1) else Inr []))
      | _ \<Rightarrow> Inl ''cfg_attr requires arguments'')"
| "Configuration_expand_all args cfg [] depth = Inr []"
| "Configuration_expand_all args cfg (a # as) depth =
     and_then (Configuration_expand args cfg a depth) (\<lambda>ms.
     and_then (Configuration_expand_all args cfg as depth) (\<lambda>ns. Inr (ms @ ns)))"
  by pat_completeness auto
termination
  by (relation "measures [\<lambda>x. case x of Inl (_, _, _, d) \<Rightarrow> 2 * (66 - d) | Inr (_, _, _, d) \<Rightarrow> 2 * (66 - d) + 1,
      \<lambda>x. case x of Inl _ \<Rightarrow> 0 | Inr (_, _, ps, _) \<Rightarrow> length ps]") auto

declare Configuration_expand.simps [simp del]

text \<open>The test of the expanded attributes; \<open>arg\<close> parses the tokens of a list as one attribute.\<close>

fun Configuration_test ::
    "('t \<Rightarrow> string + 't Meta list) \<Rightarrow> ('t \<Rightarrow> string + 't Meta) \<Rightarrow> Configuration \<Rightarrow> 't Meta list
     \<Rightarrow> bool \<Rightarrow> 't Meta list \<Rightarrow> string + 't Meta list option" where
  "Configuration_test args arg cfg [] enabled remaining = Inr (if enabled then Some remaining else None)"
| "Configuration_test args arg cfg (attribute # rest) enabled remaining =
     (if is_ident (Meta_path attribute) ''cfg''
      then case attribute of
          MetaList path tokens \<Rightarrow>
            and_then (map_err (\<lambda>e. ''invalid cfg attribute: '' @ e) (arg tokens)) (\<lambda>predicate.
            and_then (Configuration_evaluate args cfg predicate) (\<lambda>b.
            Configuration_test args arg cfg rest (enabled \<and> b) remaining))
        | _ \<Rightarrow> Inl ''cfg requires a predicate''
      else Configuration_test args arg cfg rest enabled (remaining @ [attribute]))"

definition Configuration_attributes ::
    "('t \<Rightarrow> string + 't Meta list) \<Rightarrow> ('t \<Rightarrow> string + 't Meta) \<Rightarrow> Configuration \<Rightarrow> 't Meta list
     \<Rightarrow> string + 't Meta list option" where
  "Configuration_attributes args arg cfg attributes =
     and_then (Configuration_expand_all args cfg attributes 0) (\<lambda>expanded.
     Configuration_test args arg cfg expanded True [])"

text \<open>\<open>outer\<close> parses the attributes in front of a declaration.\<close>

definition Configuration_declaration ::
    "('t \<Rightarrow> string + 't Meta list) \<Rightarrow> ('t \<Rightarrow> string + 't Meta) \<Rightarrow> ('n \<Rightarrow> string + 't Meta list) \<Rightarrow> Configuration \<Rightarrow> 'n
     \<Rightarrow> string + 't Meta list option" where
  "Configuration_declaration args arg outer cfg node =
     and_then (outer node) (Configuration_attributes args arg cfg)"

section \<open>The meaning of a predicate\<close>

datatype Pred =
    PFlag string
  | PKey string string
  | PAll "Pred list"
  | PAny "Pred list"
  | PNot Pred

fun pred_holds :: "Configuration \<Rightarrow> Pred \<Rightarrow> bool" where
  "pred_holds cfg (PFlag n) \<longleftrightarrow> n \<in> set (cf_flags cfg)"
| "pred_holds cfg (PKey n s) \<longleftrightarrow> (n, s) \<in> set (cf_values cfg)"
| "pred_holds cfg (PAll ps) \<longleftrightarrow> (\<forall>p \<in> set ps. pred_holds cfg p)"
| "pred_holds cfg (PAny ps) \<longleftrightarrow> (\<exists>p \<in> set ps. pred_holds cfg p)"
| "pred_holds cfg (PNot p) \<longleftrightarrow> \<not> pred_holds cfg p"

text \<open>Operators nested at most so deep.\<close>

fun nested :: "nat \<Rightarrow> Pred \<Rightarrow> bool" where
  "nested h (PFlag n) \<longleftrightarrow> True"
| "nested h (PKey n s) \<longleftrightarrow> True"
| "nested h (PAll ps) \<longleftrightarrow> (\<forall>p \<in> set ps. 0 < h \<and> nested (h - 1) p)"
| "nested h (PAny ps) \<longleftrightarrow> (\<forall>p \<in> set ps. 0 < h \<and> nested (h - 1) p)"
| "nested h (PNot p) \<longleftrightarrow> 0 < h \<and> nested (h - 1) p"

text \<open>An attribute read as a predicate.\<close>

inductive reads :: "('t \<Rightarrow> string + 't Meta list) \<Rightarrow> 't Meta \<Rightarrow> Pred \<Rightarrow> bool" for args where
  flag: "reads args (MetaWord (Single raw n)) (PFlag n)"
| key: "reads args (MetaNameValue (Single raw n) (StrLit s)) (PKey n s)"
| all: "args tokens = Inr ms \<Longrightarrow> list_all2 (reads args) ms ps \<Longrightarrow> reads args (MetaList (Single raw ''all'') tokens) (PAll ps)"
| any: "args tokens = Inr ms \<Longrightarrow> list_all2 (reads args) ms ps \<Longrightarrow> reads args (MetaList (Single raw ''any'') tokens) (PAny ps)"
| neg: "args tokens = Inr [m] \<Longrightarrow> reads args m p \<Longrightarrow> reads args (MetaList (Single raw ''not'') tokens) (PNot p)"

inductive_simps reads_simps:
  "reads args (MetaWord path) p"
  "reads args (MetaNameValue path v) p"
  "reads args (MetaList path tokens) p"

lemma and_then_Inr: "and_then r f = Inr y \<longleftrightarrow> (\<exists>x. r = Inr x \<and> f x = Inr y)"
  by (cases r) auto

lemma map_err_Inr [simp]: "map_err f r = Inr y \<longleftrightarrow> r = Inr y"
  by (cases r) (auto simp: map_err_def)

lemma cfg_name_Inr: "cfg_name p = Inr n \<longleftrightarrow> (\<exists>raw. p = Single raw n)"
  by (cases p) auto

lemma cfg_value_Inr: "cfg_value v = Inr s \<longleftrightarrow> v = StrLit s"
  by (cases v) auto

lemma evaluate_operands:
  assumes "list_all2 (\<lambda>m p. reads args m p \<and> (\<forall>d. nested (64 - d) p \<longrightarrow> d \<le> 64
      \<longrightarrow> Configuration_evaluate_at args cfg m d = Inr (pred_holds cfg p))) ms ps"
    and "\<forall>p \<in> set ps. 0 < 64 - depth \<and> nested (64 - depth - 1) p"
  shows "Configuration_evaluate_all args cfg ms (depth + 1) = Inr (map (pred_holds cfg) ps)"
  using assms by (induction rule: list_all2_induct) simp_all

text \<open>Every predicate that can be read, up to the depth limit, is answered with its meaning.\<close>

lemma evaluate_complete:
  assumes "reads args m p" and "nested (64 - depth) p" and "depth \<le> 64"
  shows "Configuration_evaluate_at args cfg m depth = Inr (pred_holds cfg p)"
  using assms
proof (induction arbitrary: depth rule: reads.induct)
  case (all tokens ms ps raw)
  then show ?case
    using evaluate_operands [OF all(2), of depth]
    by (simp add: Configuration_evaluate_at.simps map_err_def cfg_operator_def list_all_iff)
next
  case (any tokens ms ps raw)
  then show ?case
    using evaluate_operands [OF any(2), of depth]
    by (simp add: Configuration_evaluate_at.simps map_err_def cfg_operator_def list_ex_iff)
next
  case (neg tokens m p raw)
  then have "Configuration_evaluate_at args cfg m (depth + 1) = Inr (pred_holds cfg p)"
    by simp
  then show ?case
    using neg by (simp add: Configuration_evaluate_at.simps [of _ _ "MetaList _ _"] map_err_def cfg_operator_def)
qed (simp_all add: Configuration_evaluate_at.simps)

text \<open>Every answer is the meaning of a predicate that can be read.\<close>

lemma evaluate_sound:
  "Configuration_evaluate_at args cfg m depth = Inr b
     \<Longrightarrow> depth \<le> 64 \<and> (\<exists>p. reads args m p \<and> nested (64 - depth) p \<and> pred_holds cfg p = b)"
  "Configuration_evaluate_all args cfg ms depth = Inr bs
     \<Longrightarrow> \<exists>ps. list_all2 (reads args) ms ps \<and> (\<forall>p \<in> set ps. depth \<le> 64 \<and> nested (64 - depth) p) \<and> map (pred_holds cfg) ps = bs"
proof (induction args cfg m depth and args cfg ms depth arbitrary: b and bs
    rule: Configuration_evaluate_at_Configuration_evaluate_all.induct)
  case (1 args cfg m depth)
  have d: "depth \<le> 64"
    using 1(2) by (simp add: Configuration_evaluate_at.simps split: if_splits)
  show ?case
  proof (cases m)
    case (MetaList path tokens)
    from 1(2) d obtain ms bs where ms: "args tokens = Inr ms" "Configuration_evaluate_all args cfg ms (depth + 1) = Inr bs"
        and op: "cfg_operator path bs = Inr b"
      by (auto simp: Configuration_evaluate_at.simps [of _ _ "MetaList _ _"] MetaList and_then_Inr)
    obtain ps where ps: "list_all2 (reads args) ms ps" "map (pred_holds cfg) ps = bs"
        "\<forall>p \<in> set ps. 0 < 64 - depth \<and> nested (64 - depth - 1) p"
      using 1(1) [OF _ MetaList ms(2)] d by fastforce
    from op obtain raw opn where path: "path = Single raw opn" and opn: "opn = ''all'' \<and> b = list_all (\<lambda>v. v) bs
        \<or> opn = ''any'' \<and> b = list_ex (\<lambda>v. v) bs \<or> opn = ''not'' \<and> length bs = 1 \<and> b = (\<not> bs ! 0)"
      by (auto simp: cfg_operator_def and_then_Inr cfg_name_Inr split: if_splits)
    from opn show ?thesis
    proof (elim disjE conjE)
      assume "opn = ''all''" "b = list_all (\<lambda>v. v) bs"
      then show ?thesis
        using reads.all [OF ms(1) ps(1)] ps path MetaList d by (auto simp: list_all_iff intro!: exI [of _ "PAll ps"])
    next
      assume "opn = ''any''" "b = list_ex (\<lambda>v. v) bs"
      then show ?thesis
        using reads.any [OF ms(1) ps(1)] ps path MetaList d by (auto simp: list_ex_iff intro!: exI [of _ "PAny ps"])
    next
      assume opn: "opn = ''not''" "length bs = 1" "b = (\<not> bs ! 0)"
      then obtain p where p: "ps = [p]"
        using ps(2) by (auto simp: length_Suc_conv)
      then obtain m' where "ms = [m']" "reads args m' p"
        using ps(1) by (auto simp: list_all2_Cons2)
      then show ?thesis
        using reads.neg [of args tokens m' p] ms(1) ps p opn path MetaList d by (auto intro!: exI [of _ "PNot p"])
    qed
  next
    case (MetaWord path)
    then show ?thesis
      using 1(2) d by (auto simp: Configuration_evaluate_at.simps and_then_Inr cfg_name_Inr reads_simps)
  next
    case (MetaNameValue path v)
    then show ?thesis
      using 1(2) d
      by (auto simp: Configuration_evaluate_at.simps and_then_Inr cfg_name_Inr cfg_value_Inr reads_simps)
  qed
next
  case (3 args cfg p ps depth)
  then obtain v vs where v: "Configuration_evaluate_at args cfg p depth = Inr v" "Configuration_evaluate_all args cfg ps depth = Inr vs"
      "bs = v # vs"
    by (auto simp: and_then_Inr)
  obtain q qs where "reads args p q" "depth \<le> 64" "nested (64 - depth) q" "pred_holds cfg q = v"
      "list_all2 (reads args) ps qs" "\<forall>p \<in> set qs. depth \<le> 64 \<and> nested (64 - depth) p" "map (pred_holds cfg) qs = vs"
    using 3(1) [OF v(1)] 3(2) [OF v(2)] by blast
  then show ?case
    using v(3) by (intro exI [of _ "q # qs"]) auto
qed simp

lemma evaluate_exact:
  "Configuration_evaluate args cfg m = Inr b \<longleftrightarrow> (\<exists>p. reads args m p \<and> nested 64 p \<and> pred_holds cfg p = b)"
  unfolding Configuration_evaluate_def
  using evaluate_sound(1) [of args cfg m 0 b] evaluate_complete [of args m _ 0 cfg] by auto

section \<open>The meaning of attributes\<close>

text \<open>An attribute expanded: \<^verbatim>\<open>cfg_attr\<close> stands for its attributes when its condition holds, and for
  nothing when it does not; nested at most so deep.\<close>

inductive expands ::
    "('t \<Rightarrow> string + 't Meta list) \<Rightarrow> Configuration \<Rightarrow> nat \<Rightarrow> 't Meta \<Rightarrow> 't Meta list \<Rightarrow> bool" for args cfg where
  plain: "\<not> is_ident (Meta_path a) ''cfg_attr'' \<Longrightarrow> expands args cfg h a [a]"
| off: "args tokens = Inr (c # rest) \<Longrightarrow> reads args c p \<Longrightarrow> nested 64 p \<Longrightarrow> \<not> pred_holds cfg p
    \<Longrightarrow> expands args cfg h (MetaList (Single False ''cfg_attr'') tokens) []"
| on: "args tokens = Inr (c # rest) \<Longrightarrow> reads args c p \<Longrightarrow> nested 64 p \<Longrightarrow> pred_holds cfg p
    \<Longrightarrow> (rest \<noteq> [] \<longrightarrow> 0 < h) \<Longrightarrow> list_all2 (expands args cfg (h - 1)) rest mss
    \<Longrightarrow> expands args cfg h (MetaList (Single False ''cfg_attr'') tokens) (concat mss)"

text \<open>A \<^verbatim>\<open>cfg\<close> attribute with its predicate.\<close>

definition requires :: "('t \<Rightarrow> string + 't Meta list) \<Rightarrow> ('t \<Rightarrow> string + 't Meta) \<Rightarrow> 't Meta \<Rightarrow> Pred \<Rightarrow> bool" where
  "requires args arg a p \<longleftrightarrow> (\<exists>path tokens m. a = MetaList path tokens \<and> arg tokens = Inr m \<and> reads args m p \<and> nested 64 p)"

abbreviation is_cfg :: "'t Meta \<Rightarrow> bool" where
  "is_cfg a \<equiv> is_ident (Meta_path a) ''cfg''"

lemma is_ident_iff: "is_ident p s \<longleftrightarrow> p = Single False s"
  by (cases p) auto

lemma ex_list_all2_Cons:
  "(\<exists>ys. list_all2 R (x # xs) ys \<and> Q ys) \<longleftrightarrow> (\<exists>y ys. R x y \<and> list_all2 R xs ys \<and> Q (y # ys))"
  by (auto simp: list_all2_Cons1)

lemma expand_all_list:
  "Configuration_expand_all args cfg as d = Inr ms
    \<longleftrightarrow> (\<exists>mss. list_all2 (\<lambda>a ms. Configuration_expand args cfg a d = Inr ms) as mss \<and> ms = concat mss)"
  by (induction as arbitrary: ms) (auto simp: and_then_Inr ex_list_all2_Cons)

lemma expand_complete:
  assumes "expands args cfg h a ms" and "h = 64 - depth" and "depth \<le> 64"
  shows "Configuration_expand args cfg a depth = Inr ms"
  using assms
proof (induction arbitrary: depth rule: expands.induct)
  case (on tokens c rest p h mss)
  have "list_all2 (\<lambda>a ms. Configuration_expand args cfg a (depth + 1) = Inr ms) rest mss"
    using on(6,5) on.prems by (cases "rest = []") (auto elim!: list.rel_mono_strong)
  then have "Configuration_expand_all args cfg rest (depth + 1) = Inr (concat mss)"
    unfolding expand_all_list by blast
  moreover have "Configuration_evaluate args cfg c = Inr True"
    using on(2-4) evaluate_exact by blast
  ultimately show ?case
    using on by (simp add: Configuration_expand.simps [of _ _ "MetaList _ _"] map_err_def)
next
  case (off tokens c rest p h)
  then have "Configuration_evaluate args cfg c = Inr False"
    using evaluate_exact by blast
  then show ?case
    using off by (simp add: Configuration_expand.simps map_err_def)
qed (simp add: Configuration_expand.simps)

lemma expand_sound:
  "Configuration_expand args cfg a depth = Inr ms \<Longrightarrow> depth \<le> 64 \<and> expands args cfg (64 - depth) a ms"
  "Configuration_expand_all args cfg as depth = Inr ns
     \<Longrightarrow> \<exists>mss. list_all2 (expands args cfg (64 - depth)) as mss \<and> ns = concat mss \<and> (as \<noteq> [] \<longrightarrow> depth \<le> 64)"
proof (induction args cfg a depth and args cfg as depth arbitrary: ms and ns
    rule: Configuration_expand_Configuration_expand_all.induct)
  case (1 args cfg a depth)
  have d: "depth \<le> 64"
    using 1(2) by (simp add: Configuration_expand.simps split: if_splits)
  show ?case
  proof (cases "is_ident (Meta_path a) ''cfg_attr''")
    case False
    then show ?thesis
      using 1(2) d expands.plain [OF False] by (simp add: Configuration_expand.simps)
  next
    case True
    then obtain tokens where a: "a = MetaList (Single False ''cfg_attr'') tokens"
      using 1(2) d by (cases a) (auto simp: Configuration_expand.simps is_ident_iff)
    with 1(2) d obtain parts where parts: "args tokens = Inr parts" and on: "(case parts of
        [] \<Rightarrow> Inl ''cfg_attr requires a predicate''
      | c # rest \<Rightarrow> and_then (Configuration_evaluate args cfg c) (\<lambda>b.
          if b then Configuration_expand_all args cfg rest (depth + 1) else Inr [])) = Inr ms"
      by (auto simp: Configuration_expand.simps [of _ _ "MetaList _ _"] and_then_Inr)
    then obtain c rest b where args: "args tokens = Inr (c # rest)" and b: "Configuration_evaluate args cfg c = Inr b"
        and ms: "(if b then Configuration_expand_all args cfg rest (depth + 1) else Inr []) = Inr ms"
      by (cases parts) (auto simp: and_then_Inr)
    obtain p where p: "reads args c p" "nested 64 p" "pred_holds cfg p = b"
      using b evaluate_exact by blast
    show ?thesis
    proof (cases b)
      case True
      then obtain mss where mss: "list_all2 (expands args cfg (64 - (depth + 1))) rest mss" "ms = concat mss" "rest \<noteq> [] \<longrightarrow> depth + 1 \<le> 64"
        using 1(1) [OF _ _ a refl] args b ms d \<open>is_ident (Meta_path a) ''cfg_attr''\<close> by auto
      then show ?thesis
        using expands.on [OF args p(1,2), of cfg "64 - depth" mss] p(3) True d a by auto
    next
      case False
      then show ?thesis
        using expands.off [OF args p(1,2), of cfg "64 - depth"] p(3) d a ms by simp
    qed
  qed
next
  case (3 args cfg a as depth)
  then obtain ms ns' where m: "Configuration_expand args cfg a depth = Inr ms" "Configuration_expand_all args cfg as depth = Inr ns'"
      "ns = ms @ ns'"
    by (auto simp: and_then_Inr)
  obtain mss where "list_all2 (expands args cfg (64 - depth)) as mss" "ns' = concat mss"
    using 3(2) [OF m(2)] by blast
  then show ?case
    using 3(1) [OF m(1)] m(3) by (intro exI [of _ "ms # mss"]) simp
qed simp

lemma expand_exact:
  "Configuration_expand_all args cfg as 0 = Inr ms \<longleftrightarrow> (\<exists>mss. list_all2 (expands args cfg 64) as mss \<and> ms = concat mss)"
proof
  assume "\<exists>mss. list_all2 (expands args cfg 64) as mss \<and> ms = concat mss"
  then obtain mss where mss: "list_all2 (expands args cfg 64) as mss" and ms: "ms = concat mss"
    by blast
  from mss have "list_all2 (\<lambda>a ms. Configuration_expand args cfg a 0 = Inr ms) as mss"
    by (rule list_all2_mono) (simp add: expand_complete)
  then show "Configuration_expand_all args cfg as 0 = Inr ms"
    unfolding expand_all_list using ms by blast
qed (use expand_sound(2) [of args cfg as 0 ms] in auto)

lemma test_exact:
  "Configuration_test args arg cfg as enabled remaining = Inr r
    \<longleftrightarrow> (\<exists>ps. list_all2 (requires args arg) (filter is_cfg as) ps
        \<and> r = (if enabled \<and> (\<forall>p \<in> set ps. pred_holds cfg p) then Some (remaining @ filter (\<lambda>a. \<not> is_cfg a) as) else None))"
proof (induction as arbitrary: enabled remaining)
  case (Cons a as)
  show ?case
  proof (cases "is_cfg a")
    case False
    then show ?thesis
      using Cons.IH by simp
  next
    case True
    show ?thesis
    proof (cases a)
      case (MetaList path tokens)
      have "Configuration_test args arg cfg (a # as) enabled remaining = Inr r
          \<longleftrightarrow> (\<exists>p. requires args arg a p \<and> Configuration_test args arg cfg as (enabled \<and> pred_holds cfg p) remaining = Inr r)"
        using True by (auto simp: MetaList and_then_Inr requires_def evaluate_exact)
      also have "\<dots> \<longleftrightarrow> (\<exists>p ps. requires args arg a p \<and> list_all2 (requires args arg) (filter is_cfg as) ps
          \<and> r = (if enabled \<and> (\<forall>p \<in> set (p # ps). pred_holds cfg p) then Some (remaining @ filter (\<lambda>a. \<not> is_cfg a) as) else None))"
        by (simp add: Cons.IH conj_assoc)
      finally show ?thesis
        using True by (simp add: ex_list_all2_Cons)
    qed (use True in \<open>auto simp: list_all2_Cons1 requires_def\<close>)
  qed
qed auto

end
