(* ===== verification/Jarl_Snapshots.thy ===== *)
theory Jarl_Snapshots
  imports Jarl_Ballot
begin

text \<open>
  Which calls of \<^verbatim>\<open>jarl/src/node.rs\<close> touch the snapshot: only a received snapshot and compaction
  do. The rules are stated with a continuation, so that they compose along the call graph.
  At the end, the log that compaction leaves, in every role.
\<close>

section \<open>Methods that keep the snapshot\<close>

abbreviation snapped :: "'s Snapshot option \<Rightarrow> ('v, 's) Node \<Rightarrow> bool" where
  "snapped s n \<equiv> st_snapshot (n_state n) = s"

lemma snap_for_each:
  assumes "snapped s n" and "\<And>n'. snapped s n' \<Longrightarrow> P n'"
    and "\<And>i m. snapped s m \<Longrightarrow> yields (f i m) (snapped s)"
  shows "yields (for_each f is n) P"
  using for_each_yields [of "snapped s" n "is" f] assms by (auto elim: yields_conseq)

lemma snap_reset_election:
  "snapped s n \<Longrightarrow> (\<And>n'. snapped s n' \<Longrightarrow> P n') \<Longrightarrow> yields (Node_reset_election n) P"
  by (auto simp: Node_reset_election_def Let_def yield intro!: yields_triv)

lemma snap_follow:
  "snapped s n \<Longrightarrow> (\<And>n'. snapped s n' \<Longrightarrow> P n') \<Longrightarrow> yields (Node_follow leader n) P"
  unfolding Node_follow_def Let_def by (rule snap_reset_election [where s = s]) auto

lemma snap_place_peer:
  "snapped s n \<Longrightarrow> yields (Node_place_peer i n) (snapped s)"
  by (auto simp: Node_place_peer_def yield intro!: yields_triv)

lemma snap_refresh:
  "snapped s n \<Longrightarrow> (\<And>n'. snapped s n' \<Longrightarrow> P n') \<Longrightarrow> yields (Node_refresh_membership n) P"
  unfolding Node_refresh_membership_def Let_def yields_bind
  by (rule snap_for_each [where s = s]) (auto simp: Node_locate_def intro: snap_place_peer snap_follow)

lemma snap_send:
  "snapped s n \<Longrightarrow> (\<And>n'. snapped s n' \<Longrightarrow> P n') \<Longrightarrow> yields (Node_send peer out n) P"
  by (auto simp: Node_send_def yield split: option.split)

lemma snap_reply:
  "snapped s n \<Longrightarrow> (\<And>n'. snapped s n' \<Longrightarrow> P n') \<Longrightarrow> yields (Node_reply peer index rejection n) P"
  unfolding Node_reply_def by (rule snap_send)

lemma snap_replicate:
  "snapped s n \<Longrightarrow> (\<And>n'. snapped s n' \<Longrightarrow> P n') \<Longrightarrow> yields (Node_replicate peer n) P"
  unfolding Node_replicate_def by (rule snap_send)

lemma snap_broadcast:
  "snapped s n \<Longrightarrow> (\<And>n'. snapped s n' \<Longrightarrow> P n') \<Longrightarrow> yields (Node_broadcast n) P"
  unfolding Node_broadcast_def by (rule snap_for_each) (auto intro: snap_replicate)

lemma snap_ask_voters:
  "snapped s n \<Longrightarrow> (\<And>n'. snapped s n' \<Longrightarrow> P n') \<Longrightarrow> yields (Node_ask_voters out n) P"
  unfolding Node_ask_voters_def by (rule snap_for_each) (auto intro: snap_send)

lemma snap_commit_to:
  "snapped s n \<Longrightarrow> (\<And>n'. snapped s n' \<Longrightarrow> P n') \<Longrightarrow> yields (Node_commit_to index n) P"
  by (auto simp: Node_commit_to_def set_hard_def intro!: snap_refresh [where s = s])

lemma snap_quorum_index: "(\<And>x. P x) \<Longrightarrow> yields (Membership_quorum_index f m) P"
  by (rule yields_triv)

lemma snap_clamp: "(\<And>x. P x) \<Longrightarrow> yields (clamp x lo hi) P"
  by (rule yields_triv)

lemma snap_checked_add: "(\<And>x. P x) \<Longrightarrow> yields (checked_add a b) P"
  by (rule yields_triv)

lemma snap_advance_commit:
  "snapped s n \<Longrightarrow> (\<And>b n'. snapped s n' \<Longrightarrow> P (b, n')) \<Longrightarrow> yields (Node_advance_commit n) P"
  by (auto simp: Node_advance_commit_def yield intro!: snap_quorum_index snap_commit_to [where s = s])

lemma snap_push: "State_push e st = (r, st') \<Longrightarrow> st_snapshot st' = st_snapshot st"
  by (auto simp: State_push_def split: if_splits)

lemma snap_truncate [simp]: "st_snapshot (State_truncate i st) = st_snapshot st"
proof (induction i st rule: State_truncate.induct)
  case (1 i st)
  then show ?case
    by (simp add: State_truncate.simps [of i st])
qed

lemma snap_set_local_matched [simp]: "n_state (Node_set_local_matched i n) = n_state n"
  by (simp add: Node_set_local_matched_def)

lemma snap_barrier:
  "snapped s n \<Longrightarrow> (\<And>n'. snapped s n' \<Longrightarrow> P n') \<Longrightarrow> yields (Node_barrier n) P"
  by (auto simp: Node_barrier_def yield split: option.split prod.split Result.split
      dest: snap_push intro!: snap_advance_commit [where s = s])

lemma snap_become_leader:
  "snapped s n \<Longrightarrow> (\<And>n'. snapped s n' \<Longrightarrow> P n') \<Longrightarrow> yields (Node_become_leader n) P"
  unfolding Node_become_leader_def Let_def yields_bind
  by (auto intro!: snap_barrier [where s = s] snap_broadcast [where s = s])

lemma snap_campaign:
  "snapped s n \<Longrightarrow> (\<And>n'. snapped s n' \<Longrightarrow> P n') \<Longrightarrow> yields (Node_campaign term n) P"
  unfolding Node_campaign_def Node_vote_for_self_def Let_def
  by (auto simp: yield set_hard_def
      intro!: snap_reset_election [where s = s] snap_become_leader [where s = s] snap_ask_voters [where s = s])

lemma snap_probe:
  "snapped s n \<Longrightarrow> (\<And>n'. snapped s n' \<Longrightarrow> P n') \<Longrightarrow> yields (Node_probe term n) P"
  unfolding Node_probe_def Node_vote_for_self_def
  by (auto simp: yield intro!: snap_reset_election [where s = s] snap_campaign [where s = s] snap_ask_voters [where s = s])

lemma snap_append:
  assumes "snapped s n" and "\<And>r n'. snapped s n' \<Longrightarrow> P (r, n')"
  shows "yields (Node_append previous entry commit n) P"
  using assms
  by (auto simp: Node_append_def Let_def yield split: option.split prod.split Result.split
      dest: snap_push intro!: snap_commit_to [where s = s] snap_refresh [where s = s])

lemma snap_append_batch:
  assumes "snapped s n" and "\<And>r n'. snapped s n' \<Longrightarrow> P (r, n')"
  shows "yields (Node_append_batch previous es commit accepted response n) P"
  using assms
proof (induction es arbitrary: previous accepted response n)
  case (Cons e es)
  show ?case
    using Cons by (cases response) (auto simp: yield intro!: snap_append [where s = s])
qed simp

lemma snap_replicated:
  "snapped s n \<Longrightarrow> (\<And>n'. snapped s n' \<Longrightarrow> P n') \<Longrightarrow> yields (Node_replicated peer index rejection n) P"
  by (auto simp: Node_replicated_def Let_def yield split: option.split Rejection.split
      intro!: snap_advance_commit [where s = s] snap_broadcast [where s = s] snap_replicate [where s = s] snap_clamp)

section \<open>Calls\<close>

lemma check_quorum_state [simp]: "n_state (snd (Node_check_quorum n)) = n_state n"
  by (simp add: Node_check_quorum_def Let_def)

lemma snap_timers: "snapped s n \<Longrightarrow> yields (Node_timers n) (\<lambda>(_, n'). snapped s n')"
  by (auto simp: Node_timers_def yield split: option.split
      intro!: snap_barrier [where s = s] snap_broadcast [where s = s] snap_probe [where s = s]
        snap_campaign [where s = s])

lemma snap_tick: "snapped s n \<Longrightarrow> yields (Node_tick n) (\<lambda>(_, n'). snapped s n')"
  using snap_timers [where s = s and n = "snd (Node_check_quorum (n\<lparr>n_elapsed := saturating_add (n_elapsed n) 1,
      n_leader_age := saturating_add (n_leader_age n) 1\<rparr>))"]
  by (auto simp: Node_tick_def Let_def yield case_prod_beta split: Result.split intro!: snap_follow [where s = s])

lemma snap_push_values:
  "yields (push_values State_push first k vs st) (\<lambda>(_, st'). st_snapshot st' = st_snapshot st)"
proof (induction vs arbitrary: k st rule: flatten.induct)
  case (3 v vs)
  show ?case
    using 3 by (auto simp: yield split: prod.split Result.split dest!: snap_push intro!: snap_checked_add) metis+
qed simp_all

lemma snap_propose:
  assumes "snapped s n"
  shows "yields (Node_propose_many count vs n) (\<lambda>(_, n'). snapped s n')"
  using assms
  by (auto simp: Node_propose_many_def Let_def yield BatchRollback_drop_def
      split: Result.split option.split PushEnd.split
      intro!: snap_checked_add yields_conseq [OF snap_push_values] snap_refresh [where s = s]
        snap_advance_commit [where s = s] snap_broadcast [where s = s])

text \<open>A received snapshot is installed above the commit index, or in place of entries it names.\<close>

definition snapshot_fits :: "'s Snapshot \<Rightarrow> ('v, 's) State \<Rightarrow> bool" where
  "snapshot_fits s st \<longleftrightarrow>
     li_index (State_base st) < li_index (sn_last s)
     \<and> (hs_commit (st_hard st) < li_index (sn_last s)
        \<or> State_id_at (li_index (sn_last s)) st = Some (sn_last s))"

lemma snap_install: "(\<And>st'. st_snapshot st' = Some s \<Longrightarrow> P st') \<Longrightarrow> yields (State_install s st) P"
  using State_install_keeps(2) by (cases "State_install s st") auto

lemma snap_on_install:
  "yields (Node_on_install from peer s n) (\<lambda>n'. snapped (st_snapshot (n_state n)) n'
     \<or> snapped (Some s) n' \<and> snapshot_fits s (n_state n))"
proof -
  have follow: "yields (Node_follow leader n) P" if "\<And>m. n_state m = n_state n \<Longrightarrow> P m" for leader P
    using that by (auto simp: Node_follow_def Node_reset_election_def Let_def yield intro!: yields_triv)
  show ?thesis
    unfolding on_install_eq yields_bind installing_def Let_def
    by (rule follow)
      (auto simp: yield snapshot_fits_def
        intro!: snap_install snap_reply [OF refl] snap_refresh [where s = "Some s"])
qed

lemma snap_observe_term:
  "(\<And>n'. \<lbrakk>hs_commit (n_hard n') = hs_commit (n_hard n); st_snapshot (n_state n') = st_snapshot (n_state n);
       st_entries (n_state n') = st_entries (n_state n); st_len (n_state n') = st_len (n_state n)\<rbrakk> \<Longrightarrow> P n')
   \<Longrightarrow> yields (Node_observe_term t n) P"
  by (auto simp: Node_observe_term_def Node_follow_def Node_reset_election_def set_hard_def Let_def yield intro!: yields_triv)

lemma fits_same_log:
  assumes "hs_commit (n_hard n') = hs_commit (n_hard n)" and "st_snapshot (n_state n') = st_snapshot (n_state n)"
    and "st_entries (n_state n') = st_entries (n_state n)" and "st_len (n_state n') = st_len (n_state n)"
  shows "snapshot_fits s (n_state n') = snapshot_fits s (n_state n)"
  unfolding snapshot_fits_def State_base_def State_id_at_def State_get_def assms ..

lemma snap_dispatch:
  "yields (Node_dispatch from peer message n) (\<lambda>n'. snapped (st_snapshot (n_state n)) n'
     \<or> (\<exists>t s. message = Install t s \<and> snapped (Some s) n' \<and> snapshot_fits s (n_state n)))"
proof (cases message)
  case (Install t s)
  then show ?thesis
    using snap_on_install [of "from" peer s n] by (auto elim: yields_conseq)
qed (auto simp: Node_on_vote_def Node_on_voted_def Node_on_append_def Node_on_append_batch_def Let_def yield set_hard_def
    intro!: snap_reset_election [OF refl] snap_send [OF refl] snap_become_leader [OF refl] snap_follow [OF refl]
      snap_append [OF refl] snap_append_batch [OF refl] snap_reply [OF refl] snap_replicated [OF refl])

lemma snap_stale:
  "yields (Node_on_stale peer message n) (snapped (st_snapshot (n_state n)))"
  by (cases message) (auto intro!: snap_send [OF refl] snap_reply [OF refl])

lemma snap_step:
  fixes n :: "('v, 's) Node"
  shows "yields (Node_step env n) (\<lambda>(_, n'). snapped (st_snapshot (n_state n)) n'
     \<or> (\<exists>t s. env_message env = Install t s \<and> snapped (Some s) n' \<and> snapshot_fits s (n_state n)))"
proof -
  define P :: "('v, 's) Node \<Rightarrow> bool" where "P = (\<lambda>n'. snapped (st_snapshot (n_state n)) n'
     \<or> (\<exists>t s. env_message env = Install t s \<and> snapped (Some s) n' \<and> snapshot_fits s (n_state n)))"
  have P: "P m" if "snapped (st_snapshot (n_state n)) m" for m
    using that by (simp add: P_def)
  have "yields (Node_accept peer env m) P" if m: "n_state m = n_state n" for peer m
  proof -
    have "yields (Node_on_prevote peer t l m) P" for t l
      using m by (auto simp: Node_on_prevote_def Let_def intro!: snap_send [OF refl] P)
    moreover have "yields (Node_on_prevoted peer c g m1) P" if "snapped (st_snapshot (n_state n)) m1" for c g m1
      using that by (auto simp: Node_on_prevoted_def Let_def yield intro!: snap_campaign [OF refl] P)
    moreover have "yields (Node_on_stale peer x m1) P" if "snapped (st_snapshot (n_state n)) m1" for x m1
      using that snap_stale [of peer x m1] P by (auto elim: yields_conseq)
    moreover have "yields (Node_dispatch from peer (env_message env) m1) P"
      if "hs_commit (n_hard m1) = hs_commit (n_hard m)" "st_snapshot (n_state m1) = st_snapshot (n_state m)"
        "st_entries (n_state m1) = st_entries (n_state m)" "st_len (n_state m1) = st_len (n_state m)" for "from" m1
      using fits_same_log [OF that] that(2) m snap_dispatch [of "from" peer "env_message env" m1]
      by (auto simp: P_def elim!: yields_conseq)
    ultimately show ?thesis
      using m P unfolding Node_accept_def
      by (cases "env_message env") (auto simp: yield simp del: Node_dispatch.simps Node_on_stale.simps intro!: snap_observe_term)
  qed
  then have "yields (Node_step env n) (\<lambda>(_, n'). P n')"
    using P by (auto simp: Node_step_def yield split: Result.split option.split)
  then show ?thesis
    by (simp add: P_def)
qed

lemma snap_compact:
  "yields (Node_compact index value n) (\<lambda>(_, n'). snapped (st_snapshot (n_state n)) n'
     \<or> (\<exists>lst. State_id_at index (n_state n) = Some lst \<and> li_index (n_base n) < index
          \<and> snapped (Some \<lparr>sn_last = lst, sn_value = value\<rparr>) n'))"
  by (auto simp: Node_compact_def Let_def yield split: Result.split option.split
      intro!: snap_install snap_barrier [OF refl] snap_broadcast [OF refl])

section \<open>Compaction\<close>

text \<open>A broadcast queues a replication for every other member.\<close>

definition told :: "('v, 's) Node \<Rightarrow> usize \<Rightarrow> bool" where
  "told n p \<longleftrightarrow>
     p \<noteq> n_local n \<and> is_some_and (\<lambda>i. Membership_contains i (n_membership n)) (n_peers n ! p)"

lemma broadcast_queues:
  assumes len: "length (n_outbox n) = Node_N n"
  shows "Node_broadcast n = Some (n\<lparr>n_outbox :=
    map (\<lambda>p. if told n p then Some OutReplicate else n_outbox n ! p) [0..<Node_N n]\<rparr>)"
proof -
  let ?f = "\<lambda>peer m :: ('a, 'b) Node. if peer \<noteq> n_local m
      \<and> is_some_and (\<lambda>i. Membership_contains i (n_membership m)) (n_peers m ! peer)
    then Node_replicate peer m else Some m"
  let ?out = "\<lambda>k. map (\<lambda>p. if told n p then Some OutReplicate else n_outbox n ! p) [0..<k] @ drop k (n_outbox n)"
  have "for_each ?f [0..<k] n = Some (n\<lparr>n_outbox := ?out k\<rparr>)" if "k \<le> Node_N n" for k
    using that
  proof (induction k)
    case (Suc k)
    then have k: "k < Node_N n" and dr: "drop k (n_outbox n) = n_outbox n ! k # drop (Suc k) (n_outbox n)"
      using len by (simp_all add: Cons_nth_drop_Suc)
    have "?f k (n\<lparr>n_outbox := ?out k\<rparr>) = Some (n\<lparr>n_outbox := ?out (Suc k)\<rparr>)"
      using k len by (cases "Node_N n")
        (auto simp: told_def Node_replicate_def Node_send_def index_write_def dr list_update_append)
    then show ?case
      using Suc.IH k by (simp add: for_each_append)
  qed simp
  from this [of "Node_N n"] show ?thesis
    using len by (simp add: Node_broadcast_def)
qed

text \<open>The log after compaction: the entries above the snapshot, and a leader's barrier.\<close>

lemma compact_log:
  assumes inv: "Node_inv n" and av: "Node_available n = Ok ()" and c: "carries_configuration index v n"
    and range: "li_index (n_base n) < index" "index \<le> hs_commit (n_hard n)"
  shows "\<exists>n' lst. Node_compact index v n = Some (Ok (), n') \<and> good n n' \<and> n_dirty n'
    \<and> State_id_at index (n_state n) = Some lst \<and> snapped (Some \<lparr>sn_last = lst, sn_value = v\<rparr>) n'
    \<and> State_entries (n_state n') = filter (\<lambda>e. index < li_index (en_id e)) (State_entries (n_state n))
        @ (if n_role n = Leader \<and> li_term (n_last n) \<noteq> hs_term (n_hard n)
           then (case checked_add (li_index (n_last n)) 1 of
                   None \<Rightarrow> []
                 | Some i \<Rightarrow> [\<lparr>en_id = \<lparr>li_index = i, li_term = hs_term (n_hard n)\<rparr>, en_value = None\<rparr>])
           else [])
    \<and> (n_role n = Leader \<longrightarrow> (\<forall>p < Node_N n'. told n' p \<longrightarrow> n_outbox n' ! p = Some OutReplicate))"
proof -
  obtain lst st where st: "State_id_at index (n_state n) = Some lst" "li_index lst = index"
    "State_install \<lparr>sn_last = lst, sn_value = v\<rparr> (n_state n) = Some st"
    "good n (n\<lparr>n_state := st, n_dirty := True, n_snapshot_changed := True\<rparr>)" (is "good n ?n1")
    "State_last st = n_last n" "st_hard st = n_hard n" "\<not> State_full st"
    "State_entries st = filter (\<lambda>e. index < li_index (en_id e)) (State_entries (n_state n))"
    using compact_install [OF inv av c range] by metis
  have snap: "st_snapshot st = Some \<lparr>sn_last = lst, sn_value = v\<rparr>"
    using State_install_keeps(2) [OF st(3)] .
  show ?thesis
  proof (cases "n_role n = Leader")
    case True
    obtain n2 where n2: "Node_barrier ?n1 = Some n2" "good n n2" "reach n2"
      "State_entries (n_state n2) = State_entries st @ barrier_entries ?n1"
      using good_barrier [OF st(4)] True good_start(2) [OF inv av] by (auto simp: returns_iff)
    have len: "length (n_outbox n2) = Node_N n2"
      using n2(2) by (simp add: good_def Node_inv_def slots_ok_def)
    obtain n3 where n3: "Node_broadcast n2 = Some n3" "good n n3"
      using good_broadcast [OF n2(2,3)] by (auto simp: returns_iff)
    have "snapped (st_snapshot st) n2"
      using snap_barrier [of ?n1 "st_snapshot st" "snapped (st_snapshot st)"] n2(1) by simp
    then have snap3: "snapped (Some \<lparr>sn_last = lst, sn_value = v\<rparr>) n3"
      and es3: "State_entries (n_state n3) = State_entries st @ barrier_entries ?n1"
      and out3: "\<forall>p < Node_N n3. told n3 p \<longrightarrow> n_outbox n3 ! p = Some OutReplicate"
      using n3(1) broadcast_queues [OF len] snap n2(4) by (auto simp: told_def)
    have "n_state n3 \<noteq> n_state n"
      using snap3 range(1) st(2) by (auto simp: State_base_def)
    then have "n_dirty n3"
      using n3(2) by (simp add: good_def saved_def)
    moreover have "barrier_entries ?n1 = (if li_term (n_last n) \<noteq> hs_term (n_hard n)
       then (case checked_add (li_index (n_last n)) 1 of
               None \<Rightarrow> []
             | Some i \<Rightarrow> [\<lparr>en_id = \<lparr>li_index = i, li_term = hs_term (n_hard n)\<rparr>, en_value = None\<rparr>])
       else [])"
      using st(5,6,7) by (simp add: barrier_entries_def split: option.split)
    moreover have "Node_compact index v n = Some (Ok (), n3)"
      using av range st(1,3) True n2(1) n3(1) by (simp add: Node_compact_def linorder_not_less)
    ultimately show ?thesis
      using True st(1,8) n3(2) snap3 es3 out3 by simp
  next
    case False
    then show ?thesis
      using av range st snap by (simp add: Node_compact_def linorder_not_less)
  qed
qed

end
