(* ===== verification/Jarl_Replicas.thy ===== *)
theory Jarl_Replicas
  imports Jarl_Election Jarl_Journal Jarl_Snapshots
begin

text \<open>
  The example program \<^verbatim>\<open>jarl/examples/cluster.rs\<close>: three voters, each a node over a reference
  journal with an application on top (a running total of the committed commands), and a queue of
  messages between them.

  An \<open>option\<close> is a panic as elsewhere; an \<^verbatim>\<open>io::Error\<close> is a value of \<open>HostError\<close>, and the state
  that the failed call leaves behind is returned with it. What the operating system does with the
  \<open>k\<close>-th flush of the program is \<open>io k\<close>. The loop of \<^verbatim>\<open>drain\<close> ends when the queue is empty; the
  model delivers at most \<open>fuel\<close> messages in one call and returns \<open>Unfinished\<close> when more are queued,
  which is no error of the program, so that what holds for every \<open>fuel\<close> holds at every moment of
  the loop. The files are their contents; creating and synchronising
  the directory is outside the model.
\<close>

section \<open>A host\<close>

type_synonym HNode = "(u64, u64) Node"
type_synonym HEnvelope = "(u64, u64) Envelope"

record Host =
  ho_node :: HNode
  ho_journal :: Journal
  ho_applied :: u64
  ho_total :: u64

datatype HostError =
    JournalFailed JournalError
  | NodeFailed Error
  | ApplicationOverflow
  | NotConverged
  | Unfinished

definition Host_open :: "Id \<Rightarrow> bytes \<Rightarrow> (HostError + Host) option" where
  "Host_open i content =
     (case Journal_open i content of
        Inl e \<Rightarrow> Some (Inl (JournalFailed e))
      | Inr journal \<Rightarrow> do {
          r \<leftarrow> Node_new (Config_new i [Id 0, Id 1, Id 2]) (jr_state journal);
          Some (case r of
              Err e \<Rightarrow> Inl (NodeFailed e)
            | Ok node \<Rightarrow> Inr \<lparr>ho_node = node, ho_journal = journal, ho_applied = 0, ho_total = 0\<rparr>)
        })"

text \<open>The first part of \<^verbatim>\<open>flush\<close>: save the pending transaction and acknowledge it.\<close>

definition Host_save :: "WriteOutcome \<Rightarrow> Host \<Rightarrow> (HostError + unit) \<times> Host" where
  "Host_save outcome h =
     (case Node_ready (ho_node h) of
        None \<Rightarrow> (Inr (), h)
      | Some ready \<Rightarrow>
          (case Journal_save outcome (Ready_write ready) (ho_journal h) of
             (Inl e, journal) \<Rightarrow> (Inl (JournalFailed e), h\<lparr>ho_journal := journal\<rparr>)
           | (Inr _, journal) \<Rightarrow> (Inr (), h\<lparr>ho_journal := journal, ho_node := Ready_persisted ready\<rparr>)))"

text \<open>The last part: the application takes over a newer snapshot and adds the committed commands.\<close>

definition Host_adopt :: "Host \<Rightarrow> Host" where
  "Host_adopt h =
     (case Node_snapshot (ho_node h) of
        None \<Rightarrow> h
      | Some s \<Rightarrow>
          if ho_applied h < li_index (sn_last s)
          then h\<lparr>ho_total := sn_value s, ho_applied := li_index (sn_last s)\<rparr> else h)"

fun add_commands :: "u64 Entry list \<Rightarrow> u64 \<Rightarrow> (HostError + unit) \<times> u64" where
  "add_commands [] acc = (Inr (), acc)"
| "add_commands (e # es) acc =
     (case checked_add acc (case en_value e of None \<Rightarrow> 0 | Some v \<Rightarrow> v) of
        None \<Rightarrow> (Inl ApplicationOverflow, acc)
      | Some acc' \<Rightarrow> add_commands es acc')"

definition Host_apply :: "Host \<Rightarrow> (HostError + unit) \<times> Host" where
  "Host_apply h =
     (let h1 = Host_adopt h
      in case add_commands (filter (\<lambda>e. ho_applied h1 < li_index (en_id e)) (Node_committed (ho_node h1)))
                (ho_total h1) of
           (Inl e, acc) \<Rightarrow> (Inl e, h1\<lparr>ho_total := acc\<rparr>)
         | (Inr _, acc) \<Rightarrow>
             (Inr (), h1\<lparr>ho_total := acc, ho_applied := hs_commit (n_hard (ho_node h1))\<rparr>))"

text \<open>In between, everything the node has to send is queued: the same loop as that of the explorer.\<close>

definition Host_flush ::
    "WriteOutcome \<Rightarrow> Host \<Rightarrow> HEnvelope list \<Rightarrow> ((HostError + unit) \<times> Host \<times> HEnvelope list) option" where
  "Host_flush outcome h network =
     (case Host_save outcome h of
        (Inl e, h1) \<Rightarrow> Some (Inl e, h1, network)
      | (Inr _, h1) \<Rightarrow> do {
          (node, network') \<leftarrow> drain (ho_node h1) network;
          (let (r, h2) = Host_apply (h1\<lparr>ho_node := node\<rparr>) in Some (r, h2, network'))
        })"

section \<open>The program\<close>

record Program =
  pg_hosts :: "Host list"
  pg_network :: "HEnvelope list"
  pg_flushes :: nat

type_synonym 'a Run = "((HostError + 'a) \<times> Program) option"

text \<open>The operator \<^verbatim>\<open>?\<close>: an error ends the function.\<close>

definition try_then :: "'a Run \<Rightarrow> ('a \<Rightarrow> Program \<Rightarrow> 'b Run) \<Rightarrow> 'b Run" where
  "try_then m f = (case m of
       None \<Rightarrow> None
     | Some (Inl e, p) \<Rightarrow> Some (Inl e, p)
     | Some (Inr x, p) \<Rightarrow> f x p)"

definition flush_host :: "(nat \<Rightarrow> WriteOutcome) \<Rightarrow> usize \<Rightarrow> Program \<Rightarrow> unit Run" where
  "flush_host io i p = do {
     h \<leftarrow> index_read (pg_hosts p) i;
     (r, h', network) \<leftarrow> Host_flush (io (pg_flushes p)) h (pg_network p);
     Some (r, p\<lparr>pg_hosts := (pg_hosts p)[i := h'], pg_network := network, pg_flushes := pg_flushes p + 1\<rparr>)
   }"

text \<open>A call of a host's node, with \<^verbatim>\<open>map_err(io::Error::other)?\<close>.\<close>

definition on_node ::
    "(HNode \<Rightarrow> ('a Result \<times> HNode) option) \<Rightarrow> usize \<Rightarrow> Program \<Rightarrow> unit Run" where
  "on_node f i p = do {
     h \<leftarrow> index_read (pg_hosts p) i;
     (r, node) \<leftarrow> f (ho_node h);
     Some (case r of Err e \<Rightarrow> Inl (NodeFailed e) | Ok _ \<Rightarrow> Inr (),
           p\<lparr>pg_hosts := (pg_hosts p)[i := h\<lparr>ho_node := node\<rparr>]\<rparr>)
   }"

fun drain_network :: "nat \<Rightarrow> (nat \<Rightarrow> WriteOutcome) \<Rightarrow> Program \<Rightarrow> unit Run" where
  "drain_network fuel io p =
     (case pg_network p of
        [] \<Rightarrow> Some (Inr (), p)
      | message # network \<Rightarrow>
          (case fuel of
             0 \<Rightarrow> Some (Inl Unfinished, p)
           | Suc fuel' \<Rightarrow>
               (let to = unat (id_num (env_to message))
                in try_then (on_node (Node_step message) to (p\<lparr>pg_network := network\<rparr>)) (\<lambda>_ p1.
                   try_then (flush_host io to p1) (\<lambda>_. drain_network fuel' io)))))"

declare drain_network.simps [simp del]

text \<open>A loop \<^verbatim>\<open>for host in &mut hosts\<close>.\<close>

fun each_host :: "(usize \<Rightarrow> Program \<Rightarrow> unit Run) \<Rightarrow> usize list \<Rightarrow> Program \<Rightarrow> unit Run" where
  "each_host f [] p = Some (Inr (), p)"
| "each_host f (i # is) p = try_then (f i p) (\<lambda>_. each_host f is)"

fun elect :: "nat \<Rightarrow> (nat \<Rightarrow> WriteOutcome) \<Rightarrow> nat \<Rightarrow> Program \<Rightarrow> usize Run" where
  "elect fuel io 0 p = Some (Inl NotConverged, p)"
| "elect fuel io (Suc rounds) p =
     try_then (each_host (\<lambda>i p. try_then (on_node Node_tick i p) (\<lambda>_. flush_host io i)) [0..<length (pg_hosts p)] p) (\<lambda>_ p1.
     try_then (drain_network fuel io p1) (\<lambda>_ p2.
       case position (\<lambda>h. n_role (ho_node h) = Leader) (pg_hosts p2) of
         Some leader \<Rightarrow> Some (Inr leader, p2)
       | None \<Rightarrow> elect fuel io rounds p2))"

fun propose_all :: "nat \<Rightarrow> (nat \<Rightarrow> WriteOutcome) \<Rightarrow> usize \<Rightarrow> u64 list \<Rightarrow> Program \<Rightarrow> unit Run" where
  "propose_all fuel io leader [] p = Some (Inr (), p)"
| "propose_all fuel io leader (c # cs) p =
     try_then (on_node (Node_propose c) leader p) (\<lambda>_ p1.
     try_then (flush_host io leader p1) (\<lambda>_ p2.
     try_then (drain_network fuel io p2) (\<lambda>_. propose_all fuel io leader cs)))"

definition compact_host :: "(nat \<Rightarrow> WriteOutcome) \<Rightarrow> usize \<Rightarrow> Program \<Rightarrow> unit Run" where
  "compact_host io i p = do {
     h \<leftarrow> index_read (pg_hosts p) i;
     try_then (on_node (Node_compact (ho_applied h) (ho_total h)) i p) (\<lambda>_. flush_host io i)
   }"

text \<open>The hosts opened so far are returned with an error: opening a file creates its header and cuts off
  an unfinished frame.\<close>

fun open_hosts :: "Id list \<Rightarrow> bytes list \<Rightarrow> ((HostError + unit) \<times> Host list) option" where
  "open_hosts (i # is) (content # contents) = do {
     r \<leftarrow> Host_open i content;
     (case r of
        Inl e \<Rightarrow> Some (Inl e, [])
      | Inr h \<Rightarrow> do {
          (rs, hs) \<leftarrow> open_hosts is contents;
          Some (rs, h # hs)
        })
   }"
| "open_hosts _ _ = Some (Inr (), [])"

definition run_hosts :: "nat \<Rightarrow> (nat \<Rightarrow> WriteOutcome) \<Rightarrow> Program \<Rightarrow> u64 list Run" where
  "run_hosts fuel io p =
     try_then (each_host (flush_host io) [0..<length (pg_hosts p)] p) (\<lambda>_ p1.
     try_then (elect fuel io 100 p1) (\<lambda>leader p2.
     try_then (propose_all fuel io leader [40, 2] p2) (\<lambda>_ p3.
     try_then (each_host (compact_host io) [0..<length (pg_hosts p3)] p3) (\<lambda>_ p4.
     try_then (drain_network fuel io p4) (\<lambda>_ p5. Some (Inr (map ho_total (pg_hosts p5)), p5))))))"

definition run_cluster :: "nat \<Rightarrow> (nat \<Rightarrow> WriteOutcome) \<Rightarrow> bytes list \<Rightarrow> ((HostError + u64 list) \<times> bytes list) option" where
  "run_cluster fuel io contents = do {
     (opened, hosts) \<leftarrow> open_hosts [Id 0, Id 1, Id 2] contents;
     (case opened of
        Inl e \<Rightarrow> Some (Inl e, map (\<lambda>h. jr_file (ho_journal h)) hosts @ drop (length hosts) contents)
      | Inr _ \<Rightarrow> do {
          (r, p) \<leftarrow> run_hosts fuel io \<lparr>pg_hosts = hosts, pg_network = [], pg_flushes = 0\<rparr>;
          Some (r, map (\<lambda>h. jr_file (ho_journal h)) (pg_hosts p))
        })
   }"

end
