(* ===== verification/Jarl_Totals.thy ===== *)
theory Jarl_Totals
  imports Jarl_Replicas
begin

text \<open>
  The application of the hosts of \<^verbatim>\<open>jarl/examples/cluster.rs\<close>: \<open>replayed\<close> is what applying a
  checkpoint up to an index gives, as an unbounded number. It is not changed by a call that only
  moves the checkpoint forward, and the last part of \<^verbatim>\<open>flush\<close> computes it, or reports that it does
  not fit 64 bits.
\<close>

section \<open>The application's value\<close>

definition command :: "u64 Entry \<Rightarrow> nat" where
  "command e = (case en_value e of None \<Rightarrow> 0 | Some v \<Rightarrow> unat v)"

text \<open>What applying a checkpoint up to an index gives: its snapshot and then its entries.\<close>

definition replayed :: "u64 \<Rightarrow> JState \<Rightarrow> nat" where
  "replayed index st =
     (case st_snapshot st of None \<Rightarrow> 0 | Some s \<Rightarrow> unat (sn_value s))
     + sum_list (map command (filter (\<lambda>e. li_index (en_id e) \<le> index) (State_entries st)))"

lemma add_commands_done:
  "unat t + sum_list (map command es) < 2 ^ 64 \<Longrightarrow>
     \<exists>t'. add_commands es t = (Inr (), t') \<and> unat t' = unat t + sum_list (map command es)"
proof (induction es arbitrary: t)
  case (Cons e es)
  let ?v = "case en_value e of None \<Rightarrow> 0 | Some v \<Rightarrow> v"
  have c: "command e = unat ?v"
    by (simp add: command_def split: option.split)
  then obtain t1 where t1: "checked_add t ?v = Some t1"
    using Cons.prems checked_add_eq_None [of t ?v] by (cases "checked_add t ?v") auto
  then have "unat t1 = unat t + command e"
    using c by (simp add: checked_add_eq_Some)
  with Cons show ?case
    using t1 Cons.IH [of t1] by (auto simp: add.assoc)
qed simp

lemma add_commands_overflow:
  "2 ^ 64 \<le> unat t + sum_list (map command es) \<Longrightarrow>
     \<exists>t'. add_commands es t = (Inl ApplicationOverflow, t')"
proof (induction es arbitrary: t)
  case (Cons e es)
  let ?v = "case en_value e of None \<Rightarrow> 0 | Some v \<Rightarrow> v"
  have c: "command e = unat ?v"
    by (simp add: command_def split: option.split)
  show ?case
  proof (cases "checked_add t ?v")
    case (Some t1)
    then have "unat t1 = unat t + command e"
      using c by (simp add: checked_add_eq_Some)
    with Cons Some show ?thesis
      by (auto simp: add.assoc)
  qed simp
next
  case Nil
  then show ?case
    using unat_u64_lt [of t] by simp
qed

lemma log_chain_distinct: "log_chain b es \<Longrightarrow> distinct es"
  by (auto simp: distinct_conv_nth dest: log_chain_nth) (metis Suc_inject add_left_cancel log_chain_nth)

lemma sum_filter_set:
  "distinct es \<Longrightarrow> sum_list (map f (filter P es)) = sum f {e \<in> set es. P e}"
  by (simp add: sum_list_distinct_conv_sum_set)

text \<open>Entries in a log are determined by their index.\<close>

lemma log_chain_at:
  assumes "log_chain b es" and "unat (li_index b) < x" and "x \<le> unat (li_index (log_last b es))"
  obtains e where "e \<in> set es" and "unat (li_index (en_id e)) = x"
proof -
  let ?k = "x - Suc (unat (li_index b))"
  have "?k < length es"
    using assms log_chain_last_index [OF assms(1)] by simp
  then show ?thesis
    using that [of "es ! ?k"] log_chain_nth [OF assms(1)] assms(2) by simp
qed

text \<open>Committed entries keep their place.\<close>

lemma committed_same:
  assumes inv: "State_inv st" and inv': "State_inv st'" and adv: "State_advances st st'"
  shows "{e \<in> set (State_entries st'). li_index (en_id e) \<le> hs_commit (st_hard st)}
    = {e \<in> set (State_entries st). li_index (State_base st') < li_index (en_id e) \<and> li_index (en_id e) \<le> hs_commit (st_hard st)}"
    (is "?L = ?R")
proof
  note ch = State_inv_D(2) [OF inv] and ch' = State_inv_D(2) [OF inv']
  show R: "?R \<subseteq> ?L"
    using adv by (auto simp: State_advances_def)
  show "?L \<subseteq> ?R"
  proof
    fix e assume e: "e \<in> ?L"
    have lo: "li_index (State_base st') < li_index (en_id e)"
      using e log_chain_mem_index [OF ch', of e] by (simp add: word_less_nat_alt)
    moreover have "li_index (State_base st) \<le> li_index (State_base st')"
      using adv by (simp add: State_advances_def)
    moreover have "hs_commit (st_hard st) \<le> li_index (State_last st)"
      using inv by (simp add: State_inv_def)
    ultimately obtain e' where e': "e' \<in> set (State_entries st)" "unat (li_index (en_id e')) = unat (li_index (en_id e))"
      using e log_chain_at [OF ch, of "unat (li_index (en_id e))"]
      by (auto simp: State_last_def word_le_nat_alt word_less_nat_alt)
    then have same: "li_index (en_id e') = li_index (en_id e)"
      by (simp add: u64_eq_iff)
    then have "e' \<in> ?L"
      using R e e' lo by auto
    then have "e' = e"
      using log_chain_inj [OF ch', of e' e] e same by auto
    with e e' lo show "e \<in> ?R"
      by simp
  qed
qed

lemma replayed_sum:
  assumes "State_inv st"
  shows "replayed index st = (case st_snapshot st of None \<Rightarrow> 0 | Some s \<Rightarrow> unat (sn_value s))
    + sum command {e \<in> set (State_entries st). li_index (en_id e) \<le> index}"
  unfolding replayed_def sum_filter_set [OF log_chain_distinct [OF State_inv_D(2) [OF assms]]] ..

lemma replayed_split:
  assumes inv: "State_inv st" and "a \<le> b"
  shows "replayed b st = replayed a st + sum command {e \<in> set (State_entries st). a < li_index (en_id e) \<and> li_index (en_id e) \<le> b}"
proof -
  let ?E = "\<lambda>P. {e \<in> set (State_entries st). P (li_index (en_id e))}"
  have "?E (\<lambda>i. i \<le> b) = ?E (\<lambda>i. i \<le> a) \<union> ?E (\<lambda>i. a < i \<and> i \<le> b)"
    using assms(2) by auto
  moreover have "?E (\<lambda>i. i \<le> a) \<inter> ?E (\<lambda>i. a < i \<and> i \<le> b) = {}"
    by auto
  ultimately show ?thesis
    by (simp add: replayed_sum [OF inv] sum.union_disjoint)
qed

text \<open>The value at the commit index survives every call, provided a snapshot that replaces
  committed entries holds their value.\<close>

definition snapshot_true :: "JState \<Rightarrow> JState \<Rightarrow> bool" where
  "snapshot_true st st' \<longleftrightarrow>
     st_snapshot st' = st_snapshot st
     \<or> (\<exists>s. st_snapshot st' = Some s
          \<and> (hs_commit (st_hard st) < li_index (sn_last s) \<or> unat (sn_value s) = replayed (li_index (sn_last s)) st))"

lemma replayed_kept:
  assumes inv: "State_inv st" and inv': "State_inv st'" and adv: "State_advances st st'"
    and snap: "snapshot_true st st'" and base: "li_index (State_base st') \<le> hs_commit (st_hard st)"
  shows "replayed (hs_commit (st_hard st)) st' = replayed (hs_commit (st_hard st)) st"
proof (cases "st_snapshot st' = st_snapshot st")
  case True
  then have "State_base st' = State_base st"
    by (simp add: State_base_def)
  moreover have "li_index (State_base st) < li_index (en_id e)" if "e \<in> set (State_entries st)" for e
    using that log_chain_mem_index [OF State_inv_D(2) [OF inv], of e] by (simp add: word_less_nat_alt)
  ultimately have "{e \<in> set (State_entries st'). li_index (en_id e) \<le> hs_commit (st_hard st)}
      = {e \<in> set (State_entries st). li_index (en_id e) \<le> hs_commit (st_hard st)}"
    unfolding committed_same [OF inv inv' adv] by auto
  then show ?thesis
    using True by (simp add: replayed_sum inv inv')
next
  case False
  then obtain s where s: "st_snapshot st' = Some s"
    and v: "hs_commit (st_hard st) < li_index (sn_last s) \<or> unat (sn_value s) = replayed (li_index (sn_last s)) st"
    using snap by (auto simp: snapshot_true_def)
  have b: "State_base st' = sn_last s"
    using s by (simp add: State_base_def)
  then have v': "unat (sn_value s) = replayed (li_index (sn_last s)) st"
    using v base by auto
  show ?thesis
    unfolding replayed_sum [OF inv'] committed_same [OF inv inv' adv] replayed_split [OF inv base]
    by (simp add: s v' b)
qed

section \<open>Applying\<close>

text \<open>What the application of a host knows.\<close>

definition applied_ok :: "u64 \<Rightarrow> u64 \<Rightarrow> JState \<Rightarrow> bool" where
  "applied_ok applied acc st \<longleftrightarrow> applied = hs_commit (st_hard st) \<and> unat acc = replayed applied st"

definition behind :: "u64 \<Rightarrow> u64 \<Rightarrow> JState \<Rightarrow> bool" where
  "behind applied acc st \<longleftrightarrow>
     applied \<le> hs_commit (st_hard st)
     \<and> (li_index (State_base st) \<le> applied \<longrightarrow> unat acc = replayed applied st)"

lemma base_below:
  assumes "State_inv st"
  shows "{e \<in> set (State_entries st). li_index (en_id e) \<le> li_index (State_base st)} = {}"
  using log_chain_mem_index [OF State_inv_D(2) [OF assms]] by (fastforce simp: word_le_nat_alt)

lemma replayed_base:
  assumes "State_inv st"
  shows "replayed (li_index (State_base st)) st = (case st_snapshot st of None \<Rightarrow> 0 | Some s \<Rightarrow> unat (sn_value s))"
  unfolding replayed_sum [OF assms] base_below [OF assms] by simp

lemma behind_start:
  assumes inv: "State_inv st"
  shows "behind 0 0 st"
proof -
  have "replayed 0 st = 0" if "li_index (State_base st) = 0"
    using that replayed_base [OF inv] inv by (simp add: State_inv_def)
  then show ?thesis
    by (simp add: behind_def)
qed

lemma behind_call:
  assumes "State_inv st" and "State_inv st'" and adv: "State_advances st st'" and "snapshot_true st st'"
    and ok: "applied_ok applied acc st"
  shows "behind applied acc st'"
proof -
  have "hs_commit (st_hard st) \<le> hs_commit (st_hard st')"
    using adv by (simp add: State_advances_def HardState_le_def)
  then show ?thesis
    using ok replayed_kept [OF assms(1-4)] by (auto simp: behind_def applied_ok_def)
qed

lemma log_chain_upto:
  "log_chain b es \<Longrightarrow> takeWhile (\<lambda>e. li_index (en_id e) \<le> i) es = filter (\<lambda>e. li_index (en_id e) \<le> i) es"
proof (induction es arbitrary: b)
  case (Cons e es)
  have "li_index (en_id e) < li_index (en_id e')" if "e' \<in> set es" for e'
    using Cons.prems log_chain_mem_index [of "en_id e" es e'] that by (simp add: word_less_nat_alt)
  then have "\<not> li_index (en_id e) \<le> i \<Longrightarrow> filter (\<lambda>e. li_index (en_id e) \<le> i) es = []"
    by (fastforce simp: filter_empty_conv)
  then show ?case
    using Cons by auto
qed simp

lemma committed_filter:
  assumes "\<not> n_dirty n" and "State_inv (n_state n)"
  shows "Node_committed n = filter (\<lambda>e. li_index (en_id e) \<le> hs_commit (n_hard n)) (State_entries (n_state n))"
  using assms(1) log_chain_upto [OF State_inv_D(2) [OF assms(2)]]
  by (simp add: Node_committed_def)

lemma adopted:
  assumes inv: "State_inv (n_state (ho_node h))" and clean: "\<not> n_dirty (ho_node h)"
    and b: "behind (ho_applied h) (ho_total h) (n_state (ho_node h))"
  obtains a t where "Host_adopt h = h\<lparr>ho_total := t, ho_applied := a\<rparr>"
    and "a \<le> hs_commit (n_hard (ho_node h))" and "unat t = replayed a (n_state (ho_node h))"
proof (cases "ho_applied h < li_index (n_base (ho_node h))")
  case True
  then obtain s where s: "st_snapshot (n_state (ho_node h)) = Some s"
    by (cases "st_snapshot (n_state (ho_node h))") (simp_all add: State_base_def)
  then have base: "n_base (ho_node h) = sn_last s"
    by (simp add: State_base_def)
  have "unat (sn_value s) = replayed (li_index (sn_last s)) (n_state (ho_node h))"
    using replayed_base [OF inv] s base by simp
  moreover have "li_index (sn_last s) \<le> hs_commit (n_hard (ho_node h))"
    using inv base by (simp add: State_inv_def)
  ultimately show ?thesis
    using that [of "li_index (sn_last s)" "sn_value s"] s base True clean
    by (simp add: Host_adopt_def Node_snapshot_def)
next
  case False
  then have "Host_adopt h = h"
    using clean by (auto simp: Host_adopt_def Node_snapshot_def State_base_def split: option.split)
  then show ?thesis
    using that [of "ho_applied h" "ho_total h"] b False by (simp add: behind_def not_less)
qed

lemma apply_host:
  assumes inv: "State_inv (n_state (ho_node h))" and clean: "\<not> n_dirty (ho_node h)"
    and b: "behind (ho_applied h) (ho_total h) (n_state (ho_node h))"
  shows "\<exists>a t. Host_apply h =
      (if replayed (hs_commit (n_hard (ho_node h))) (n_state (ho_node h)) < 2 ^ 64 then Inr () else Inl ApplicationOverflow,
       h\<lparr>ho_total := t, ho_applied := a\<rparr>)
    \<and> (replayed (hs_commit (n_hard (ho_node h))) (n_state (ho_node h)) < 2 ^ 64 \<longrightarrow> applied_ok a t (n_state (ho_node h)))"
proof -
  let ?n = "ho_node h"
  let ?st = "n_state ?n"
  let ?c = "hs_commit (n_hard ?n)"
  obtain a t where h1: "Host_adopt h = h\<lparr>ho_total := t, ho_applied := a\<rparr>" and a: "a \<le> ?c" and t: "unat t = replayed a ?st"
    using adopted [OF assms] by blast
  let ?es = "filter (\<lambda>e. a < li_index (en_id e)) (Node_committed ?n)"
  have "sum_list (map command ?es) = sum command {e \<in> set (State_entries ?st). a < li_index (en_id e) \<and> li_index (en_id e) \<le> ?c}"
    unfolding committed_filter [OF clean inv] filter_filter
    by (subst sum_filter_set [OF log_chain_distinct [OF State_inv_D(2) [OF inv]]]) (simp add: conj_commute)
  then have sum: "unat t + sum_list (map command ?es) = replayed ?c ?st"
    using replayed_split [OF inv a] t by simp
  show ?thesis
  proof (cases "replayed ?c ?st < 2 ^ 64")
    case True
    then obtain t' where "add_commands ?es t = (Inr (), t')" "unat t' = replayed ?c ?st"
      using add_commands_done [of t ?es] sum by auto
    then show ?thesis
      using True h1 by (auto simp: Host_apply_def Let_def applied_ok_def)
  next
    case False
    then obtain t' where "add_commands ?es t = (Inl ApplicationOverflow, t')"
      using add_commands_overflow [of t ?es] sum by auto
    then show ?thesis
      using False h1
      by (intro exI [of _ a] exI [of _ t']) (cases h, simp add: Host_apply_def Let_def)
  qed
qed

end
