(* ===== verification/Jarl_Hosts.thy ===== *)
theory Jarl_Hosts
  imports Jarl_Totals
begin

text \<open>
  A host of \<^verbatim>\<open>jarl/examples/cluster.rs\<close> through its life: its node and its journal are in step, and
  between calls the application has applied exactly what is committed (\<open>settled\<close>). Calls, restarts
  and restarts after a save that was cut short keep this.
\<close>

section \<open>A host and its journal\<close>

definition host_ok :: "usize \<Rightarrow> Host \<Rightarrow> bool" where
  "host_ok i h \<longleftrightarrow>
     i < 3 \<and> member_ok i (ho_node h) \<and> State_CAP (n_state (ho_node h)) = CAP
     \<and> journal.synced (wid i) (ho_journal h) (ho_node h)"

text \<open>Between calls: nothing is pending, and the application has applied what is committed.\<close>

definition settled :: "usize \<Rightarrow> Host \<Rightarrow> bool" where
  "settled i h \<longleftrightarrow>
     host_ok i h \<and> Node_available (ho_node h) = Ok ()
     \<and> applied_ok (ho_applied h) (ho_total h) (n_state (ho_node h))"

lemma host_okD:
  assumes "host_ok i h"
  shows "Node_inv (ho_node h)" and "ballot_ok (ho_node h)" and "State_inv (n_state (ho_node h))"
    and "is_none_or example_voter (hs_voted_for (n_hard (ho_node h)))" and "n_hooks (ho_node h) = None"
proof -
  show inv: "Node_inv (ho_node h)" and bal: "ballot_ok (ho_node h)"
    using assms by (simp_all add: host_ok_def member_ok_def)
  show "State_inv (n_state (ho_node h))"
    using inv log_okD(1) by (auto simp: Node_inv_def)
  have "is_none_or (\<lambda>p. Some p \<in> set world_peers) (hs_voted_for (n_hard (ho_node h)))"
    using bal assms by (simp add: ballot_ok_def host_ok_def member_ok_def)
  then show "is_none_or example_voter (hs_voted_for (n_hard (ho_node h)))"
    by (cases "hs_voted_for (n_hard (ho_node h))") (auto simp: world_peers_def example_voter_def)
  show "n_hooks (ho_node h) = None"
    using bal unfolding ballot_ok_def fixed_engine_def by blast
qed

lemma host_ok_node:
  assumes "host_ok i h" and "static n = static (ho_node h)" and "Node_inv n" and "ballot_ok n"
    and "journal.synced (wid i) j n"
  shows "host_ok i (h\<lparr>ho_journal := j, ho_node := n\<rparr>)"
  using assms by (simp add: host_ok_def member_ok_def static_def)

text \<open>Saving: a pending transaction is never refused by the journal.\<close>

lemma host_saves:
  assumes ok: "host_ok i h" and io: "outcome = Written \<or> \<not> n_dirty (ho_node h)"
  obtains n j where "Host_save outcome h = (Inr (), h\<lparr>ho_journal := j, ho_node := n\<rparr>)"
    and "host_ok i (h\<lparr>ho_journal := j, ho_node := n\<rparr>)" and "n_state n = n_state (ho_node h)" and "\<not> n_dirty n"
    and "n = ho_node h \<or> n = Ready_persisted (ho_node h)"
proof (cases "n_dirty (ho_node h)")
  case False
  then show ?thesis
    using that [of "ho_node h" "ho_journal h"] ok by (simp add: Host_save_def Node_ready_def)
next
  case True
  let ?n = "ho_node h"
  have sy: "journal.synced (wid i) (ho_journal h) ?n" and cap: "State_CAP (n_state ?n) = CAP"
    using ok by (simp_all add: host_ok_def)
  obtain j where j: "host_persist (Journal_save Written) ?n (ho_journal h) = (Inr (), Ready_persisted ?n, j)"
    "journal.synced (wid i) j (Ready_persisted ?n)"
    using journal_saves_node [OF sy cap host_okD(4) [OF ok]] by blast
  have "Host_save outcome h = (Inr (), h\<lparr>ho_journal := j, ho_node := Ready_persisted ?n\<rparr>)"
    using j(1) io True
    by (auto simp: Host_save_def host_persist_def Node_ready_def split: prod.splits sum.splits)
  moreover have "host_ok i (h\<lparr>ho_journal := j, ho_node := Ready_persisted ?n\<rparr>)"
  proof (rule host_ok_node [OF ok _ _ _ j(2)])
    show "static (Ready_persisted ?n) = static ?n"
      by (simp add: static_def Ready_persisted_def)
  qed (use host_okD [OF ok] in \<open>auto intro: Node_inv_persisted ballot_persisted\<close>)
  ultimately show ?thesis
    using that by (simp add: Ready_persisted_def)
qed

text \<open>Sending empties the outbox.\<close>

lemma host_sends:
  assumes ok: "host_ok i h" and clean: "\<not> n_dirty (ho_node h)"
  obtains n sent where "drain (ho_node h) network = Some (n, network @ sent)"
    and "host_ok i (h\<lparr>ho_node := n\<rparr>)" and "n_state n = n_state (ho_node h)" and "Node_available n = Ok ()"
    and "\<forall>env \<in> set sent. handed_out (ho_node h) env"
proof -
  have "journal.synced (wid i) (ho_journal h) (ho_node h)"
    using ok by (simp add: host_ok_def)
  then have sy: "journal_usable (wid i) (ho_journal h)"
      "Durable_of (jr_state (ho_journal h)) = Durable_of (n_state (ho_node h))"
    using clean unfolding journal.synced_def by blast+
  note dr = drain_returns [OF host_okD(1,2) [OF ok], of network]
  obtain n net where d0: "drain (ho_node h) network = Some (n, net)"
    using dr by (auto simp: returns_iff)
  obtain out sent where n: "Node_inv n" "ballot_ok n" "Node_available n = Ok ()"
    and out: "n = (ho_node h)\<lparr>n_outbox := out\<rparr>" and net: "net = network @ sent"
    and s: "\<forall>env \<in> set sent. handed_out (ho_node h) env"
    using dr [unfolded d0 returns_iff] clean by auto
  have d: "drain (ho_node h) network = Some (n, network @ sent)"
    using d0 net by simp
  have "journal.synced (wid i) (ho_journal h) n"
    using journal.synced_start [OF sy(1) n(1)] sy(2) clean by (simp add: out)
  then have "host_ok i (h\<lparr>ho_journal := ho_journal h, ho_node := n\<rparr>)"
    using n by (intro host_ok_node [OF ok]) (simp_all add: static_def out)
  then show ?thesis
    using that [OF d _ _ n(3) s] by (simp add: out)
qed

text \<open>A flush that can save reaches the application with nothing pending.\<close>

lemma host_delivers:
  assumes ok: "host_ok i h" and io: "outcome = Written \<or> \<not> n_dirty (ho_node h)"
  obtains n j sent where
    "Host_flush outcome h network =
       (let (r, h') = Host_apply (h\<lparr>ho_journal := j, ho_node := n\<rparr>) in Some (r, h', network @ sent))"
    and "host_ok i (h\<lparr>ho_journal := j, ho_node := n\<rparr>)" and "n_state n = n_state (ho_node h)"
    and "Node_available n = Ok ()" and "\<forall>env \<in> set sent. handed_out (ho_node h) env"
proof -
  obtain n j where sv: "Host_save outcome h = (Inr (), h\<lparr>ho_journal := j, ho_node := n\<rparr>)"
    and ok1: "host_ok i (h\<lparr>ho_journal := j, ho_node := n\<rparr>)" and n: "n_state n = n_state (ho_node h)" "\<not> n_dirty n"
    and m: "n = ho_node h \<or> n = Ready_persisted (ho_node h)"
    using host_saves [OF ok io] by blast
  obtain m sent where dr: "drain n network = Some (m, network @ sent)"
    and ok2: "host_ok i (h\<lparr>ho_journal := j, ho_node := m\<rparr>)"
    and st: "n_state m = n_state n" "Node_available m = Ok ()" and sent: "\<forall>env \<in> set sent. handed_out n env"
    by (rule host_sends [OF ok1, of network]) (use n(2) in simp_all)
  have "handed_out n env = handed_out (ho_node h) env" for env
    using m by (auto simp: handed_out_def emitted_def Ready_persisted_def)
  then show ?thesis
    using that [OF _ ok2 _ st(2)] sv dr st(1) n(1) sent by (simp add: Host_flush_def)
qed

lemma Host_apply_keeps:
  assumes "Host_apply h = (r, h')"
  shows "ho_node h' = ho_node h" and "ho_journal h' = ho_journal h"
proof -
  have "ho_node (Host_adopt h) = ho_node h" "ho_journal (Host_adopt h) = ho_journal h"
    by (simp_all add: Host_adopt_def split: option.split)
  then show "ho_node h' = ho_node h" and "ho_journal h' = ho_journal h"
    using assms by (auto simp: Host_apply_def Let_def split: prod.splits sum.splits)
qed

text \<open>A flush succeeds exactly when the application's value fits its 64 bits.\<close>

definition flushed :: "Host \<Rightarrow> HostError + unit" where
  "flushed h =
     (if replayed (hs_commit (n_hard (ho_node h))) (n_state (ho_node h)) < 2 ^ 64
      then Inr () else Inl ApplicationOverflow)"

lemma host_flushes:
  assumes ok: "host_ok i h" and b: "behind (ho_applied h) (ho_total h) (n_state (ho_node h))"
    and io: "outcome = Written \<or> \<not> n_dirty (ho_node h)"
  obtains h' sent where "Host_flush outcome h network = Some (flushed h, h', network @ sent)"
    and "host_ok i h'" and "n_state (ho_node h') = n_state (ho_node h)" and "Node_available (ho_node h') = Ok ()"
    and "flushed h = Inr () \<Longrightarrow> settled i h'"
proof -
  obtain n j sent where fl: "Host_flush outcome h network =
       (let (r, h') = Host_apply (h\<lparr>ho_journal := j, ho_node := n\<rparr>) in Some (r, h', network @ sent))"
    and ok2: "host_ok i (h\<lparr>ho_journal := j, ho_node := n\<rparr>)" (is "host_ok i ?h2")
    and n: "n_state n = n_state (ho_node h)" "Node_available n = Ok ()"
    by (rule host_delivers [OF ok io])
  have clean: "\<not> n_dirty n"
    using n(2) by (simp add: available_iff)
  obtain a t where ap: "Host_apply ?h2 = (flushed h, ?h2\<lparr>ho_total := t, ho_applied := a\<rparr>)"
    and a: "flushed h = Inr () \<Longrightarrow> applied_ok a t (n_state (ho_node h))"
    using apply_host [of ?h2] host_okD(3) [OF ok2] clean b n(1) by (auto simp: flushed_def split: if_splits)
  let ?h' = "?h2\<lparr>ho_total := t, ho_applied := a\<rparr>"
  have ok': "host_ok i ?h'"
    using ok2 by (simp add: host_ok_def)
  show ?thesis
    using that [of ?h' sent] fl ap a n ok' by (simp add: settled_def)
qed

section \<open>Calls of a host\<close>

text \<open>A snapshot another voter sends of a prefix this host has committed holds the value this host
  has there.\<close>

definition vouched :: "(u64, u64) Message \<Rightarrow> JState \<Rightarrow> bool" where
  "vouched message st =
     (case message of
        Install _ s \<Rightarrow>
          li_index (sn_last s) \<le> hs_commit (st_hard st) \<longrightarrow> unat (sn_value s) = replayed (li_index (sn_last s)) st
      | _ \<Rightarrow> True)"

text \<open>The calls the program makes of a node; pre-vote probes belong to the dynamic engine.\<close>

inductive host_call :: "Host \<Rightarrow> HNode \<Rightarrow> bool" for h where
  tick: "Node_tick (ho_node h) = Some (r, n) \<Longrightarrow> host_call h n"
| receive: "\<lbrakk>\<not> is_probe (env_message env); vouched (env_message env) (n_state (ho_node h));
    Node_step env (ho_node h) = Some (r, n)\<rbrakk> \<Longrightarrow> host_call h n"
| propose: "Node_propose v (ho_node h) = Some (p, n) \<Longrightarrow> host_call h n"
| compact: "Node_compact (ho_applied h) (ho_total h) (ho_node h) = Some (r, n) \<Longrightarrow> host_call h n"

lemma ballot_compact:
  assumes inv: "Node_inv n" and ok: "ballot_ok n" and av: "Node_available n = Ok ()"
    and c: "Node_compact index value n = Some (r, n')"
  shows "ballot_ok n' \<and> static n' = static n"
proof -
  have fixed: "fixed_engine n"
    using ok by (simp add: ballot_ok_def)
  have "keeps n (n\<lparr>n_state := st, n_dirty := d, n_snapshot_changed := e\<rparr>)"
    if "State_install s (n_state n) = Some st" for s st d e
    by (rule keepsI) (simp_all add: static_def ballot_def State_install_hard [OF that])
  then have inst: "yields (State_install s (n_state n)) P"
    if "\<And>st. (\<And>d e. keeps n (n\<lparr>n_state := st, n_dirty := d, n_snapshot_changed := e\<rparr>)) \<Longrightarrow> P st" for s P
    using that by (cases "State_install s (n_state n)") auto
  have lead: "yields (Node_barrier m \<bind> Node_broadcast) (keeps n)" if "keeps n m" for m
    using that fixed keeps_fixed [OF that]
    by (intro keeps_step keeps_from [OF that keeps_barrier] keeps_broadcast) simp
  have "yields (Node_compact index value n) (\<lambda>(_, n'). keeps n n' \<and> (n_role n = Leader \<or> n_outbox n' = n_outbox n))"
    using lead by (auto simp: Node_compact_def Let_def yield split: Result.split option.split
        intro!: inst elim!: yields_conseq)
  then have k: "keeps n n'" and out: "n_role n = Leader \<or> n_outbox n' = n_outbox n"
    using c by simp_all
  have "hs_term (n_hard n) \<noteq> 0" if "n_role n = Leader"
    using that inv by (simp add: Node_inv_def role_ok_def)
  then have "ballot_ok n'"
    using ballot_ok_keeps [OF ok k] out by blast
  then show ?thesis
    using k by (simp add: keeps_def)
qed

text \<open>Every call of an idle node of the fixed engine.\<close>

definition sound :: "('v, 's) Node \<Rightarrow> ('v, 's) Node \<Rightarrow> bool" where
  "sound n n' \<longleftrightarrow> good n n' \<and> ballot_ok n' \<and> static n' = static n"

lemma soundI:
  assumes "returns m (\<lambda>(_, n'). good n n')" and "\<And>r n'. m = Some (r, n') \<Longrightarrow> ballot_ok n' \<and> static n' = static n"
  shows "returns m (\<lambda>(_, n'). sound n n')"
  using assms by (auto simp: returns_iff sound_def)

lemma fixed_hooks: "ballot_ok n \<Longrightarrow> n_hooks n = None"
  unfolding ballot_ok_def fixed_engine_def by blast

lemma sound_tick:
  assumes inv: "Node_inv n" "ballot_ok n" and av: "Node_available n = Ok ()"
  shows "returns (Node_tick n) (\<lambda>(_, n'). sound n n')"
  by (rule soundI [OF good_tick [OF inv(1) av]]) (use ballot_time [OF inv] in \<open>simp add: votes_step_def\<close>)

lemma sound_step:
  assumes inv: "Node_inv n" "ballot_ok n" and av: "Node_available n = Ok ()" and "\<not> is_probe (env_message env)"
  shows "returns (Node_step env n) (\<lambda>(_, n'). sound n n')"
proof -
  have "message_ok (n_hooks n) (Node_N n) (env_message env)"
    using message_ok_fixed fixed_hooks [OF inv(2)] by simp
  from soundI [OF good_step [OF inv(1) av this]] show ?thesis
    using ballot_receive [OF inv assms(4)] by (simp add: votes_step_def)
qed

lemma propose_many:
  assumes "Node_propose_many (length [Some v]) [Some v] n = Some (r, n')" and "r \<noteq> Unwound"
  shows "\<exists>p. Node_propose v n = Some (p, n')"
  using assms by (cases r) (auto simp: Node_propose_def split: Result.split)

lemma sound_propose:
  assumes inv: "Node_inv n" "ballot_ok n" and av: "Node_available n = Ok ()"
  shows "returns (Node_propose v n) (\<lambda>(_, n'). sound n n' \<and> snapped (st_snapshot (n_state n)) n')"
proof -
  have v: "list_all (value_ok (n_hooks n) (Node_N n)) [v]"
    using fixed_hooks [OF inv(2)] by (simp add: value_ok_def)
  then obtain r n' where r: "Node_propose_many (length [Some v]) [Some v] n = Some (r, n')" "good n n'"
    using good_propose [OF inv(1) av, of "[Some v]"] by (auto simp: returns_iff)
  have "r \<noteq> Unwound"
  proof (cases "admissible (length [v]) n")
    case True
    then show ?thesis
      using good_propose_done [OF inv(1) True v] r(1) by auto
  next
    case False
    then show ?thesis
      using propose_refused [of n 1 "[Some v]"] r(1) inv(1) by (auto simp: Node_inv_def dest: log_okD(2))
  qed
  then show ?thesis
    using propose_many [OF r(1)] r(2) ballot_proposal [OF inv r(1)] yieldsD [OF snap_propose [OF refl] r(1)]
    by (auto simp: sound_def votes_step_def)
qed

lemma sound_compact:
  assumes inv: "Node_inv n" "ballot_ok n" and av: "Node_available n = Ok ()"
  shows "returns (Node_compact index value n) (\<lambda>(_, n'). sound n n')"
proof (rule soundI)
  show "returns (Node_compact index value n) (\<lambda>(_, n'). good n n')"
    using fixed_hooks [OF inv(2)] by (intro good_compact [OF inv(1) av]) (simp add: carries_configuration_def)
qed (rule ballot_compact [OF inv av])

lemma host_call_node:
  assumes s: "settled i h" and c: "host_call h n"
  shows "sound (ho_node h) n \<and> snapshot_true (n_state (ho_node h)) (n_state n)"
proof -
  let ?n = "ho_node h"
  have ok: "host_ok i h" and av: "Node_available ?n = Ok ()"
    and app: "applied_ok (ho_applied h) (ho_total h) (n_state ?n)"
    using s by (simp_all add: settled_def)
  note inv = host_okD [OF ok]
  have kept: "snapshot_true (n_state ?n) (n_state n)" if "snapped (st_snapshot (n_state ?n)) n"
    using that by (simp add: snapshot_true_def)
  show ?thesis
    using c
  proof cases
    case (tick r)
    then show ?thesis
      using sound_tick [OF inv(1,2) av] yieldsD [OF snap_tick [OF refl] tick] kept by simp
  next
    case (receive env r)
    have "snapshot_true (n_state ?n) (n_state n)"
      using yieldsD [OF snap_step receive(3)] kept receive(2)
      by (auto simp: snapshot_true_def snapshot_fits_def vouched_def not_less)
    then show ?thesis
      using sound_step [OF inv(1,2) av receive(1)] receive(3) by simp
  next
    case (propose v p)
    then show ?thesis
      using sound_propose [OF inv(1,2) av, of v] kept by simp
  next
    case (compact r)
    have "snapshot_true (n_state ?n) (n_state n)"
      using yieldsD [OF snap_compact compact] kept app
        State_id_at_index [OF State_inv_D(1,2) [OF inv(3)], of "ho_applied h"]
      by (auto simp: snapshot_true_def applied_ok_def)
    then show ?thesis
      using sound_compact [OF inv(1,2) av, of "ho_applied h" "ho_total h"] compact by simp
  qed
qed

lemma host_ok_sound:
  assumes ok: "host_ok i h" and clean: "\<not> n_dirty (ho_node h)" and n: "sound (ho_node h) n"
  shows "host_ok i (h\<lparr>ho_node := n\<rparr>)"
proof -
  have g: "good (ho_node h) n" and b: "ballot_ok n" "static n = static (ho_node h)"
    using n by (simp_all add: sound_def)
  have "journal.synced (wid i) (ho_journal h) n"
    using journal.synced_operation [of "wid i" "ho_journal h" "ho_node h" n] ok clean g by (simp add: host_ok_def)
  then have "host_ok i (h\<lparr>ho_journal := ho_journal h, ho_node := n\<rparr>)"
    using b g good_inv by (intro host_ok_node [OF ok]) blast+
  then show ?thesis
    by simp
qed

lemma host_called:
  assumes s: "settled i h" and c: "host_call h n"
  shows "host_ok i (h\<lparr>ho_node := n\<rparr>)" and "behind (ho_applied h) (ho_total h) (n_state n)"
proof -
  note call = host_call_node [OF s c]
  have ok: "host_ok i h" and clean: "\<not> n_dirty (ho_node h)"
    and app: "applied_ok (ho_applied h) (ho_total h) (n_state (ho_node h))"
    using s by (simp_all add: settled_def available_iff)
  show ok': "host_ok i (h\<lparr>ho_node := n\<rparr>)"
    using host_ok_sound [OF ok clean] call by blast
  have "State_advances (n_state (ho_node h)) (n_state n)"
    using call good_inv unfolding sound_def by blast
  then show "behind (ho_applied h) (ho_total h) (n_state n)"
    using behind_call [OF host_okD(3) [OF ok] _ _ _ app] host_okD(3) [OF ok'] call by simp
qed

section \<open>Opening\<close>

lemma reads_any:
  "(\<And>x. P x) \<Longrightarrow> yields (read_word bs) P" "(\<And>x. Q x) \<Longrightarrow> yields (read_flag bs) Q"
  "(\<And>x. R x) \<Longrightarrow> yields (read_entries k bs) R"
  by (simp_all add: yields_triv)

lemma apply_frame_state:
  "yields (apply_frame st bs)
     (\<lambda>st'. State_inv st' \<and> State_CAP st' = CAP \<and> is_none_or example_voter (hs_voted_for (st_hard st')))"
  by (auto simp: apply_frame_def yields_bind State_restore_Ok example_voter_def not_le
      split: Result.split if_split intro!: reads_any)

text \<open>Whatever a file holds, if it opens then the journal is usable and its vote is for a voter.\<close>

lemma journal_opened:
  assumes "Journal_open i content = Inr j"
  shows "journal_usable i j \<and> is_none_or example_voter (hs_voted_for (st_hard (jr_state j)))"
proof -
  let ?h = "journal_header i"
  let ?bs = "if content = [] then ?h else content"
  let ?P = "\<lambda>st. State_inv st \<and> State_CAP st = CAP \<and> is_none_or example_voter (hs_voted_for (st_hard st))"
  have h: "take (length ?h) ?bs = ?h"
    using assms by (auto simp: Journal_open_def Let_def split: if_splits)
  define rest where "rest = drop (length ?h) ?bs"
  then have bs: "?bs = ?h @ rest"
    using h append_take_drop_id [of "length ?h" ?bs] by simp
  obtain st tail where r: "replay rest (State_new CAP) = Some (st, tail)"
    and j: "j = \<lparr>jr_file = take (length ?bs - length tail) ?bs, jr_state = st, jr_failed = False\<rparr>"
    using assms h unfolding Journal_open_def Let_def rest_def by (auto split: option.splits)
  have "?P (State_new CAP)"
    by (simp add: State_new_def HardState_default_def State_inv_def slots_wf_def State_entries_def
        State_base_def State_last_def list_all_iff)
  then obtain used where st: "?P st" and used: "rest = used @ tail" "\<forall>more. replay (used @ more) (State_new CAP) = replay more st"
    using journal_frames.replay_splits [where P = ?P, OF r] yieldsD [OF apply_frame_state] by blast
  then have "jr_file j = ?h @ used"
    using bs j by simp
  then show ?thesis
    using st used j by (auto simp: journal_usable_def journal_frames.replays_def)
qed

lemma host_opens:
  assumes i: "i < 3" and j: "Journal_open (wid i) content = Inr j"
  obtains h where "Host_open (wid i) content = Some (Inr h)" and "host_ok i h" and "ho_journal h = j"
    and "n_state (ho_node h) = jr_state j" and "\<not> n_dirty (ho_node h)"
    and "behind (ho_applied h) (ho_total h) (n_state (ho_node h))"
    and "Node_new (World_config i) (jr_state j) = Some (Ok (ho_node h))" and "Node_available (ho_node h) = Ok ()"
proof -
  have us: "journal_usable (wid i) j" and v: "is_none_or example_voter (hs_voted_for (st_hard (jr_state j)))"
    using journal_opened [OF j] by simp_all
  have st: "State_inv (jr_state j)" "State_CAP (jr_state j) = CAP"
    using us by (simp_all add: journal_usable_def)
  have "is_none_or (\<lambda>p. Some p \<in> set world_peers) (hs_voted_for (st_hard (jr_state j)))"
    using v unfolding world_peers_set example_voter_def is_none_or_def
    by (auto split: option.splits Id.splits intro!: exI [of _ "unat _"] simp: word_less_nat_alt)
  then obtain n where n: "Node_new (World_config i) (jr_state j) = Some (Ok n)" "member_ok i n" "n_state n = jr_state j" "\<not> n_dirty n"
      "Node_available n = Ok ()"
    using member_starts [OF i st(1)] st(2) by (auto simp: CAP_def)
  let ?h = "\<lparr>ho_node = n, ho_journal = j, ho_applied = 0, ho_total = 0\<rparr>"
  have "Host_open (wid i) content = Some (Inr ?h)"
    using j n(1) by (simp add: Host_open_def World_config_def)
  moreover have "journal.synced (wid i) j n"
    using n by (intro journal.synced_start us) (simp_all add: member_ok_def)
  ultimately show ?thesis
    using that [of ?h] i n st behind_start [OF st(1)] by (simp add: host_ok_def)
qed

section \<open>The life of a host\<close>

text \<open>A call and its flush, a restart after a flush, and a restart after a flush that failed.\<close>

inductive host_step :: "usize \<Rightarrow> Host \<Rightarrow> Host \<Rightarrow> bool" for i where
  round: "\<lbrakk>host_call h n; Host_flush io (h\<lparr>ho_node := n\<rparr>) net = Some (Inr u, h', net')\<rbrakk> \<Longrightarrow> host_step i h h'"
| restart: "\<lbrakk>Host_open (wid i) (jr_file (ho_journal h)) = Some (Inr h0); Host_flush io h0 net = Some (Inr u, h', net')\<rbrakk>
    \<Longrightarrow> host_step i h h'"
| crash: "\<lbrakk>host_call h n; Host_flush io (h\<lparr>ho_node := n\<rparr>) net = Some (Inl e, h1, net1);
    Host_open (wid i) (jr_file (ho_journal h1)) = Some (Inr h0); Host_flush io' h0 net2 = Some (Inr u, h', net')\<rbrakk>
    \<Longrightarrow> host_step i h h'"

definition host_started :: "usize \<Rightarrow> Host \<Rightarrow> bool" where
  "host_started i h \<longleftrightarrow>
     (\<exists>content h0 io net u net'. Host_open (wid i) content = Some (Inr h0) \<and> Host_flush io h0 net = Some (Inr u, h, net'))"

definition host_reachable :: "usize \<Rightarrow> Host \<Rightarrow> bool" where
  "host_reachable i h \<longleftrightarrow> i < 3 \<and> (\<exists>h0. host_started i h0 \<and> (host_step i)\<^sup>*\<^sup>* h0 h)"

lemma opened_host:
  assumes i: "i < 3" and opn: "Host_open (wid i) content = Some (Inr h0)" and flush: "Host_flush io h0 net = Some (Inr u, h, net')"
  shows "settled i h" and "\<exists>j. Journal_open (wid i) content = Inr j \<and> n_state (ho_node h) = jr_state j"
proof -
  obtain j where j: "Journal_open (wid i) content = Inr j"
    using opn by (auto simp: Host_open_def split: sum.splits)
  obtain h1 where h1: "Host_open (wid i) content = Some (Inr h1)" "host_ok i h1" "n_state (ho_node h1) = jr_state j"
    "\<not> n_dirty (ho_node h1)" "behind (ho_applied h1) (ho_total h1) (n_state (ho_node h1))"
    by (rule host_opens [OF i j])
  then have eq: "h1 = h0"
    using opn by simp
  obtain h2 sent where h2: "Host_flush io h0 net = Some (flushed h0, h2, net @ sent)"
    "n_state (ho_node h2) = n_state (ho_node h0)" "flushed h0 = Inr () \<Longrightarrow> settled i h2"
    using host_flushes [OF h1(2,5), of io net] h1(4) unfolding eq by blast
  then show "settled i h" and "\<exists>j. Journal_open (wid i) content = Inr j \<and> n_state (ho_node h) = jr_state j"
    using flush j h1(3) eq by (auto split: if_splits)
qed

lemma flush_written:
  assumes "host_ok i h" and "Host_flush io h net = Some (Inr u, h', net')"
  shows "io = Written \<or> \<not> n_dirty (ho_node h)"
  using assms(2)
  by (auto simp: Host_flush_def Host_save_def Node_ready_def Journal_save_def Let_def
      split: if_splits prod.splits sum.splits option.splits WriteOutcome.splits)

lemma step_settled:
  assumes i: "i < 3" and s: "settled i h" and step: "host_step i h h'"
  shows "settled i h'"
  using step
proof cases
  case (round n io net u net')
  note c = host_called [OF s round(1)]
  have b: "behind (ho_applied (h\<lparr>ho_node := n\<rparr>)) (ho_total (h\<lparr>ho_node := n\<rparr>)) (n_state (ho_node (h\<lparr>ho_node := n\<rparr>)))"
    using c(2) by simp
  show ?thesis
    by (rule host_flushes [OF c(1) b flush_written [OF c(1) round(2)], of net]) (use round(2) in \<open>auto split: if_splits\<close>)
next
  case (restart h0 io net u net')
  then show ?thesis
    using opened_host(1) [OF i] by blast
next
  case (crash n io net e h1 net1 h0 io' net2 u net')
  then show ?thesis
    using opened_host(1) [OF i] by blast
qed

lemma reachable_settled:
  assumes "host_reachable i h"
  shows "settled i h"
proof -
  obtain h0 where i: "i < 3" and h0: "host_started i h0" and steps: "(host_step i)\<^sup>*\<^sup>* h0 h"
    using assms by (auto simp: host_reachable_def)
  from steps show ?thesis
  proof (induction rule: rtranclp_induct)
    case base
    then show ?case
      using h0 opened_host(1) [OF i] by (auto simp: host_started_def)
  next
    case (step h1 h2)
    then show ?case
      using step_settled [OF i] by blast
  qed
qed

text \<open>What an idle host has is on its disk.\<close>

lemma host_durable:
  assumes "host_ok i h" and "Node_available (ho_node h) = Ok ()"
  shows "Journal_open (wid i) (jr_file (ho_journal h)) = Inr (ho_journal h)"
    and "Durable_of (jr_state (ho_journal h)) = Durable_of (n_state (ho_node h))"
proof -
  have sy: "journal.synced (wid i) (ho_journal h) (ho_node h)" and clean: "\<not> n_dirty (ho_node h)"
    using assms by (simp_all add: host_ok_def available_iff)
  then show "Durable_of (jr_state (ho_journal h)) = Durable_of (n_state (ho_node h))"
    unfolding journal.synced_def by blast
  show "Journal_open (wid i) (jr_file (ho_journal h)) = Inr (ho_journal h)"
    using sy unfolding journal.synced_def by (blast intro: journal_reopen)
qed

lemma replayed_durable:
  assumes "Durable_of st = Durable_of st'"
  shows "replayed index st = replayed index st'" and "hs_commit (st_hard st) = hs_commit (st_hard st')"
  using assms by (simp_all add: Durable_of_def replayed_def)

lemma settled_value: "settled i h \<Longrightarrow> replayed (hs_commit (n_hard (ho_node h))) (n_state (ho_node h)) = unat (ho_total h)"
  by (simp add: settled_def applied_ok_def)

text \<open>Restarting gives the application what it had.\<close>

lemma settled_restarts:
  assumes s: "settled i h"
  obtains h0 h' sent where "Host_open (wid i) (jr_file (ho_journal h)) = Some (Inr h0)"
    and "Host_flush io h0 net = Some (Inr (), h', net @ sent)"
    and "ho_applied h' = ho_applied h" and "ho_total h' = ho_total h"
proof -
  have ok: "host_ok i h" "Node_available (ho_node h) = Ok ()" and i: "i < 3"
    using s by (simp_all add: settled_def host_ok_def)
  note du = host_durable [OF ok]
  obtain h0 where h0: "Host_open (wid i) (jr_file (ho_journal h)) = Some (Inr h0)" "host_ok i h0"
    "n_state (ho_node h0) = jr_state (ho_journal h)" "\<not> n_dirty (ho_node h0)"
    "behind (ho_applied h0) (ho_total h0) (n_state (ho_node h0))"
    by (rule host_opens [OF i du(1)])
  have same: "replayed (hs_commit (n_hard (ho_node h0))) (n_state (ho_node h0)) = unat (ho_total h)"
    "hs_commit (n_hard (ho_node h0)) = ho_applied h"
    using settled_value [OF s] replayed_durable [OF du(2)] s by (simp_all add: h0(3) settled_def applied_ok_def)
  have fl: "flushed h0 = Inr ()"
    using same(1) unat_u64_lt [of "ho_total h"] by (simp add: flushed_def)
  obtain h' sent where h': "Host_flush io h0 net = Some (flushed h0, h', net @ sent)"
    "n_state (ho_node h') = n_state (ho_node h0)" "flushed h0 = Inr () \<Longrightarrow> settled i h'"
    using host_flushes [OF h0(2,5), of io net] h0(4) by blast
  have "settled i h'"
    using h'(3) fl by simp
  then have "ho_applied h' = ho_applied h" "unat (ho_total h') = unat (ho_total h)"
    using settled_value [of i h'] same h'(2) by (simp_all add: settled_def applied_ok_def)
  then show ?thesis
    using that [OF h0(1)] h'(1) fl by (simp add: u64_eq_iff)
qed

text \<open>A save that is cut short leaves the state before the call or the state after it.\<close>

lemma settled_torn:
  assumes s: "settled i h" and c: "host_call h n" and dirty: "n_dirty n"
  obtains h1 h0 where "Host_flush (Torn k) (h\<lparr>ho_node := n\<rparr>) net = Some (Inl (JournalFailed Io), h1, net)"
    and "ho_applied h1 = ho_applied h" and "ho_total h1 = ho_total h"
    and "Host_open (wid i) (jr_file (ho_journal h1)) = Some (Inr h0)"
    and "n_state (ho_node h0) = jr_state (ho_journal h) \<or> n_state (ho_node h0) = n_state n"
proof -
  have ok: "host_ok i (h\<lparr>ho_node := n\<rparr>)" and i: "i < 3"
    using host_called [OF s c] s by (simp_all add: settled_def host_ok_def)
  then have sy: "journal.synced (wid i) (ho_journal h) n" and cap: "State_CAP (n_state n) = CAP"
    by (simp_all add: host_ok_def)
  have vote: "is_none_or example_voter (hs_voted_for (n_hard n))"
    using host_okD(4) [OF ok] by simp
  obtain j1 j2 where sv: "Journal_save (Torn k) (Ready_write n) (ho_journal h) = (Inl Io, j1)"
    and j2: "Journal_open (wid i) (jr_file j1) = Inr j2" "jr_state j2 = jr_state (ho_journal h) \<or> jr_state j2 = n_state n"
    using journal_torn_save [OF sy cap vote, of k] by blast
  obtain h0 where h0: "Host_open (wid i) (jr_file j1) = Some (Inr h0)" "n_state (ho_node h0) = jr_state j2"
    by (rule host_opens [OF i j2(1)])
  have "Host_flush (Torn k) (h\<lparr>ho_node := n\<rparr>) net =
      Some (Inl (JournalFailed Io), h\<lparr>ho_node := n, ho_journal := j1\<rparr>, net)"
    using sv dirty by (simp add: Host_flush_def Host_save_def Node_ready_def)
  then show ?thesis
    using that [of "h\<lparr>ho_node := n, ho_journal := j1\<rparr>" h0] h0 j2(2) by simp
qed

section \<open>Every moment of a life\<close>

text \<open>The calls of a voter, whatever arrives, is proposed or compacted.\<close>

inductive member_call :: "HNode \<Rightarrow> HNode \<Rightarrow> bool" where
  tick: "Node_tick n = Some (r, n') \<Longrightarrow> member_call n n'"
| receive: "\<lbrakk>\<not> is_probe (env_message env); Node_step env n = Some (r, n')\<rbrakk> \<Longrightarrow> member_call n n'"
| propose: "Node_propose v n = Some (p, n') \<Longrightarrow> member_call n n'"
| compact: "Node_compact index value n = Some (r, n') \<Longrightarrow> member_call n n'"

lemma member_call_busy:
  assumes "member_call n n'" and "Node_available n = Err e"
  shows "n' = n"
  using assms by cases (auto simp: busy_unchanged Node_propose_def)

lemma member_call_sound:
  assumes "member_call n n'" and inv: "Node_inv n" "ballot_ok n" and av: "Node_available n = Ok ()"
  shows "sound n n'"
  using assms(1)
proof cases
  case (tick r)
  then show ?thesis
    using sound_tick [OF inv av] by simp
next
  case (receive env r)
  then show ?thesis
    using sound_step [OF inv av, of env] by simp
next
  case (propose v p)
  then show ?thesis
    using sound_propose [OF inv av, of v] by simp
next
  case (compact index "value" r)
  then show ?thesis
    using sound_compact [OF inv av, of index "value"] by simp
qed

text \<open>The life of a host at the grain of the statements of \<^verbatim>\<open>flush\<close>: a file is opened, and then calls,
  saves with any outcome, messages taken one by one and the application's step follow in any order.
  What happens after a crash is again a file that is opened.\<close>

inductive host_life :: "usize \<Rightarrow> Host \<Rightarrow> bool" for i where
  opened: "\<lbrakk>i < 3; Host_open (wid i) content = Some (Inr h)\<rbrakk> \<Longrightarrow> host_life i h"
| called: "\<lbrakk>host_life i h; member_call (ho_node h) n\<rbrakk> \<Longrightarrow> host_life i (h\<lparr>ho_node := n\<rparr>)"
| saved: "\<lbrakk>host_life i h; Host_save io h = (r, h')\<rbrakk> \<Longrightarrow> host_life i h'"
| sent: "\<lbrakk>host_life i h; Node_next_message (ho_node h) = Some (m, n)\<rbrakk> \<Longrightarrow> host_life i (h\<lparr>ho_node := n\<rparr>)"
| applied: "\<lbrakk>host_life i h; Host_apply h = (r, h')\<rbrakk> \<Longrightarrow> host_life i h'"

text \<open>After a save that failed the node stays unsaved and the journal refuses further saves.\<close>

definition stuck :: "Host \<Rightarrow> bool" where
  "stuck h \<longleftrightarrow> n_dirty (ho_node h) \<and> jr_failed (ho_journal h)"

lemma host_ok_called:
  assumes ok: "host_ok i h" and c: "member_call (ho_node h) n"
  shows "host_ok i (h\<lparr>ho_node := n\<rparr>)"
proof (cases "Node_available (ho_node h)")
  case (Err e)
  then show ?thesis
    using member_call_busy [OF c] ok by simp
next
  case (Ok u)
  then have "\<not> n_dirty (ho_node h)"
    by (simp add: available_iff)
  then show ?thesis
    using host_ok_sound [OF ok _ member_call_sound [OF c host_okD(1,2) [OF ok]]] Ok by simp
qed

lemma host_ok_saved:
  assumes ok: "host_ok i h" and sv: "Host_save io h = (r, h')"
  shows "host_ok i h' \<or> stuck h'"
proof (cases "io = Written \<or> \<not> n_dirty (ho_node h)")
  case True
  show ?thesis
    by (rule host_saves [OF ok True]) (use sv in simp)
next
  case False
  then obtain k where k: "io = Torn k" and dirty: "n_dirty (ho_node h)"
    by (cases io) auto
  have sy: "journal.synced (wid i) (ho_journal h) (ho_node h)" and cap: "State_CAP (n_state (ho_node h)) = CAP"
    using ok by (simp_all add: host_ok_def)
  obtain j where "Journal_save io (Ready_write (ho_node h)) (ho_journal h) = (Inl Io, j)"
    using journal_torn_save [OF sy cap host_okD(4) [OF ok], of k] k by auto
  moreover from this have "jr_failed j"
    by (auto simp: Journal_save_def Let_def split: if_splits option.splits WriteOutcome.splits)
  ultimately show ?thesis
    using sv dirty by (auto simp: Host_save_def Node_ready_def stuck_def)
qed

lemma host_ok_sent:
  assumes ok: "host_ok i h" and nm: "Node_next_message (ho_node h) = Some (m, n)"
  shows "host_ok i (h\<lparr>ho_node := n\<rparr>)"
proof (cases m)
  case None
  then show ?thesis
    using next_message_inv(2) [OF host_okD(1) [OF ok] nm] ok by simp
next
  case (Some env)
  let ?n = "ho_node h"
  obtain k where out: "ballot_ok n" "\<not> n_dirty ?n" "n = ?n\<lparr>n_outbox := (n_outbox ?n)[k := None]\<rparr>"
    using ballot_output [OF host_okD(1,2) [OF ok]] nm Some by blast
  have inv: "Node_inv n"
    using next_message_safe [OF host_okD(1) [OF ok]] nm by simp
  have sy: "journal.synced (wid i) (ho_journal h) ?n"
    using ok by (simp add: host_ok_def)
  then have "journal.synced (wid i) (ho_journal h) n"
    using out(2,3) unfolding journal.synced_def by (intro journal.synced_start [OF _ inv, unfolded journal.synced_def]) simp_all
  then have "host_ok i (h\<lparr>ho_journal := ho_journal h, ho_node := n\<rparr>)"
    using out inv by (intro host_ok_node [OF ok]) (simp_all add: static_def)
  then show ?thesis
    by simp
qed

lemma stuck_stays:
  assumes "stuck h"
  shows "member_call (ho_node h) n \<Longrightarrow> stuck (h\<lparr>ho_node := n\<rparr>)"
    and "Host_save io h = (r, h') \<Longrightarrow> stuck h'"
    and "Node_next_message (ho_node h) = Some (m, n) \<Longrightarrow> stuck (h\<lparr>ho_node := n\<rparr>)"
proof -
  have dirty: "n_dirty (ho_node h)" "jr_failed (ho_journal h)"
    using assms by (simp_all add: stuck_def)
  then obtain e where "Node_available (ho_node h) = Err e"
    by (auto simp: Node_available_def)
  then show "member_call (ho_node h) n \<Longrightarrow> stuck (h\<lparr>ho_node := n\<rparr>)"
    using member_call_busy assms by (auto simp: stuck_def)
  show "Host_save io h = (r, h') \<Longrightarrow> stuck h'"
    using dirty by (auto simp: Host_save_def Node_ready_def Journal_save_def stuck_def)
  show "Node_next_message (ho_node h) = Some (m, n) \<Longrightarrow> stuck (h\<lparr>ho_node := n\<rparr>)"
    using dirty next_message_none [of "ho_node h"] by (auto simp: stuck_def)
qed

lemma host_life_ok: "host_life i h \<Longrightarrow> host_ok i h \<or> stuck h"
proof (induction rule: host_life.induct)
  case (opened content h)
  then obtain j where j: "Journal_open (wid i) content = Inr j"
    by (auto simp: Host_open_def split: sum.splits)
  show ?case
    by (rule host_opens [OF opened(1) j]) (use opened(2) in simp)
next
  case (called h n)
  then show ?case
    using host_ok_called stuck_stays(1) by blast
next
  case (saved h io r h')
  then show ?case
    using host_ok_saved stuck_stays(2) by blast
next
  case (sent h m n)
  then show ?case
    using host_ok_sent stuck_stays(3) by blast
next
  case (applied h r h')
  then show ?case
    using Host_apply_keeps [OF applied(2)] by (simp add: host_ok_def stuck_def)
qed

text \<open>Whenever the node lets something out, a host that opens the file resumes from its checkpoint.\<close>

lemma published_resumes:
  assumes life: "host_life i h"
    and out: "Node_next_message (ho_node h) = Some (Some env, n') \<or> Node_committed (ho_node h) \<noteq> []
      \<or> Node_snapshot (ho_node h) \<noteq> None"
  obtains h0 where "Host_open (wid i) (jr_file (ho_journal h)) = Some (Inr h0)"
    and "Durable_of (n_state (ho_node h0)) = Durable_of (n_state (ho_node h))"
proof -
  have clean: "\<not> n_dirty (ho_node h)"
    using out next_message_none [of "ho_node h"] by (auto simp: Node_committed_def Node_snapshot_def takeWhile_eq_Nil_iff)
  then have ok: "host_ok i h"
    using host_life_ok [OF life] by (auto simp: stuck_def)
  then have sy: "journal_usable (wid i) (ho_journal h)" and i: "i < 3"
    and d: "Durable_of (jr_state (ho_journal h)) = Durable_of (n_state (ho_node h))"
    using clean unfolding host_ok_def journal.synced_def by blast+
  obtain h0 where "Host_open (wid i) (jr_file (ho_journal h)) = Some (Inr h0)"
    "n_state (ho_node h0) = jr_state (ho_journal h)"
    by (rule host_opens [OF i journal_reopen [OF sy]])
  then show ?thesis
    using that d by simp
qed

end
