(* ===== verification/Jarl_Program.thy ===== *)
theory Jarl_Program
  imports Jarl_Hosts
begin

text \<open>
  The program of \<^verbatim>\<open>jarl/examples/cluster.rs\<close> does not panic: every message in its queue is for one
  of its three hosts, and every call it makes of a node, a journal or an application returns,
  whatever the files hold and the disks do.
\<close>

section \<open>The program does not panic\<close>

text \<open>Messages between the three voters.\<close>

definition between_voters :: "HEnvelope \<Rightarrow> bool" where
  "between_voters env \<longleftrightarrow> Some (env_to env) \<in> set world_peers \<and> \<not> is_probe (env_message env)"

definition program_ok :: "Program \<Rightarrow> bool" where
  "program_ok p \<longleftrightarrow>
     length (pg_hosts p) = 3 \<and> (\<forall>i < 3. host_ok i (pg_hosts p ! i)) \<and> (\<forall>env \<in> set (pg_network p). between_voters env)"

text \<open>\<open>m\<close> does not panic, and unless it ends with an error it keeps the invariant.\<close>

definition goes_on :: "('a \<Rightarrow> bool) \<Rightarrow> 'a Run \<Rightarrow> bool" where
  "goes_on Q m \<longleftrightarrow> (\<exists>r p. m = Some (r, p) \<and> (\<forall>x. r = Inr x \<longrightarrow> program_ok p \<and> Q x))"

abbreviation keeps_running :: "unit Run \<Rightarrow> bool" where
  "keeps_running \<equiv> goes_on (\<lambda>_. True)"

lemma goes_on_then:
  assumes "goes_on Q m" and "\<And>x p. program_ok p \<Longrightarrow> Q x \<Longrightarrow> goes_on R (f x p)"
  shows "goes_on R (try_then m f)"
proof -
  obtain r p where m: "m = Some (r, p)" "\<forall>x. r = Inr x \<longrightarrow> program_ok p \<and> Q x"
    using assms(1) by (auto simp: goes_on_def)
  then show ?thesis
    using assms(2) by (cases r) (auto simp: try_then_def goes_on_def)
qed

lemma goes_on_Some [simp]:
  "goes_on Q (Some (Inr x, p)) \<longleftrightarrow> program_ok p \<and> Q x" "goes_on Q (Some (Inl e, p))"
  by (simp_all add: goes_on_def)

lemmas running_then = goes_on_then [where Q = "\<lambda>_. True"]

lemma program_update:
  assumes "program_ok p" and "host_ok i h" and "\<forall>env \<in> set network. between_voters env"
  shows "program_ok (p\<lparr>pg_hosts := (pg_hosts p)[i := h], pg_network := network, pg_flushes := k\<rparr>)"
proof -
  have "i < 3"
    using assms(2) by (simp add: host_ok_def)
  then show ?thesis
    using assms by (simp add: program_ok_def nth_list_update)
qed

lemma torn_fails: "\<exists>e j'. Journal_save (Torn k) w j = (Inl e, j')"
  by (simp add: Journal_save_def Let_def split: option.split)

lemma running_flush:
  assumes p: "program_ok p" and i: "i < 3"
  shows "keeps_running (flush_host io i p)"
proof -
  let ?h = "pg_hosts p ! i" and ?io = "io (pg_flushes p)"
  have ok: "host_ok i ?h" and rd: "index_read (pg_hosts p) i = Some ?h"
    using p i by (simp_all add: program_ok_def index_read_def)
  obtain r h' network where fl: "Host_flush ?io ?h (pg_network p) = Some (r, h', network)"
    and h': "r = Inr () \<Longrightarrow> host_ok i h' \<and> (\<forall>env \<in> set network. between_voters env)"
  proof (cases "?io = Written \<or> \<not> n_dirty (ho_node ?h)")
    case True
    obtain n j sent where d: "Host_flush ?io ?h (pg_network p) =
        (let (r, h') = Host_apply (?h\<lparr>ho_journal := j, ho_node := n\<rparr>) in Some (r, h', pg_network p @ sent))"
      and ok': "host_ok i (?h\<lparr>ho_journal := j, ho_node := n\<rparr>)" and sent: "\<forall>env \<in> set sent. handed_out (ho_node ?h) env"
      by (rule host_delivers [OF ok True])
    obtain r h' where ap: "Host_apply (?h\<lparr>ho_journal := j, ho_node := n\<rparr>) = (r, h')"
      by fastforce
    have "host_ok i h'"
      using ok' Host_apply_keeps [OF ap] by (simp add: host_ok_def)
    moreover have "between_voters env" if "env \<in> set sent" for env
      using sent that ok by (auto simp: between_voters_def handed_out_def emitted_def host_ok_def member_ok_def)
    ultimately show ?thesis
      using that [of r h' "pg_network p @ sent"] d ap p by (auto simp: program_ok_def)
  next
    case False
    then obtain k where k: "?io = Torn k" "n_dirty (ho_node ?h)"
      by (cases ?io) auto
    obtain e h1 where "Host_save ?io ?h = (Inl e, h1)"
      using torn_fails [of k "Ready_write (ho_node ?h)" "ho_journal ?h"] k
      by (auto simp: Host_save_def Node_ready_def)
    then show ?thesis
      using that [of "Inl e" h1 "pg_network p"] by (simp add: Host_flush_def)
  qed
  show ?thesis
    unfolding flush_host_def rd using fl h' program_update [OF p] by (simp add: goes_on_def)
qed

lemma running_call:
  assumes p: "program_ok p" and i: "i < 3"
    and idle: "\<And>n. Node_inv n \<Longrightarrow> ballot_ok n \<Longrightarrow> Node_available n = Ok () \<Longrightarrow> returns (f n) (\<lambda>(_, n'). sound n n')"
    and busy: "\<And>n e. Node_available n = Err e \<Longrightarrow> \<exists>r. f n = Some (r, n)"
  shows "keeps_running (on_node f i p)"
proof -
  let ?h = "pg_hosts p ! i"
  have ok: "host_ok i ?h" and rd: "index_read (pg_hosts p) i = Some ?h"
    using p i by (simp_all add: program_ok_def index_read_def)
  have "returns (f (ho_node ?h)) (\<lambda>(_, n). host_ok i (?h\<lparr>ho_node := n\<rparr>))"
  proof (cases "Node_available (ho_node ?h)")
    case (Ok u)
    then have "returns (f (ho_node ?h)) (\<lambda>(_, n). sound (ho_node ?h) n)" "\<not> n_dirty (ho_node ?h)"
      using idle host_okD(1,2) [OF ok] by (simp_all add: available_iff)
    then show ?thesis
      using host_ok_sound [OF ok] by (auto elim: returns_conseq)
  next
    case (Err e)
    then obtain r where "f (ho_node ?h) = Some (r, ho_node ?h)"
      using busy by blast
    then show ?thesis
      using ok by simp
  qed
  then obtain r n where "f (ho_node ?h) = Some (r, n)" "host_ok i (?h\<lparr>ho_node := n\<rparr>)"
    by (auto simp: returns_iff)
  then show ?thesis
    unfolding on_node_def rd using program_update [OF p, of i "?h\<lparr>ho_node := n\<rparr>" "pg_network p" "pg_flushes p"] p
    by (auto simp: goes_on_def program_ok_def)
qed

lemma running_drain: "program_ok p \<Longrightarrow> keeps_running (drain_network fuel io p)"
proof (induction fuel arbitrary: p)
  case 0
  then show ?case
    by (subst drain_network.simps) (simp split: list.split)
next
  case (Suc fuel)
  show ?case
  proof (cases "pg_network p")
    case Nil
    then show ?thesis
      using Suc.prems by (subst drain_network.simps) simp
  next
    case (Cons env network)
    then have env: "between_voters env" and p': "program_ok (p\<lparr>pg_network := network\<rparr>)"
      using Suc.prems by (auto simp: program_ok_def)
    obtain i where i: "i < 3" "env_to env = wid i"
      using env by (auto simp: between_voters_def world_peers_set)
    have "keeps_running (on_node (Node_step env) i (p\<lparr>pg_network := network\<rparr>))"
      using env by (intro running_call [OF p' i(1)] sound_step) (auto simp: between_voters_def busy_unchanged)
    then show ?thesis
      unfolding drain_network.simps [of "Suc fuel"]
      using Cons i running_flush Suc.IH unat_wid [OF i(1)] by (auto intro!: running_then)
  qed
qed

lemma running_each:
  assumes "program_ok p" and "\<And>i p. i \<in> set is \<Longrightarrow> program_ok p \<Longrightarrow> keeps_running (f i p)"
  shows "keeps_running (each_host f is p)"
  using assms by (induction "is" arbitrary: p) (auto intro!: running_then)

lemma running_hosts: "program_ok p \<Longrightarrow> [0..<length (pg_hosts p)] = [0..<3]"
  by (simp add: program_ok_def)

lemma running_tick: "program_ok p \<Longrightarrow> i < 3 \<Longrightarrow> keeps_running (on_node Node_tick i p)"
  by (rule running_call) (auto intro: sound_tick simp: busy_unchanged)

lemma running_elect: "program_ok p \<Longrightarrow> goes_on (\<lambda>leader. leader < 3) (elect fuel io rounds p)"
proof (induction rounds arbitrary: p)
  case (Suc rounds)
  have "keeps_running (each_host (\<lambda>i p. try_then (on_node Node_tick i p) (\<lambda>_. flush_host io i)) [0..<3] p)"
    by (rule running_each [OF Suc.prems]) (auto intro!: running_then running_tick running_flush)
  moreover have "leader < 3" if "program_ok q" "position P (pg_hosts q) = Some leader" for q P leader
    using that by (auto simp: position_Some program_ok_def)
  ultimately show ?case
    using Suc by (auto simp: running_hosts split: option.split intro!: running_then running_drain)
qed simp

lemma running_propose:
  assumes "program_ok p" and "i < 3"
  shows "keeps_running (on_node (Node_propose v) i p)"
proof (rule running_call [OF assms])
  fix n :: HNode assume "Node_inv n" "ballot_ok n" "Node_available n = Ok ()"
  then show "returns (Node_propose v n) (\<lambda>(_, n'). sound n n')"
    using sound_propose [of n v] by (auto elim: returns_conseq)
next
  fix n :: HNode and e assume "Node_available n = Err e"
  then show "\<exists>r. Node_propose v n = Some (r, n)"
    by (simp add: Node_propose_def busy_unchanged)
qed

lemma running_propose_all:
  "program_ok p \<Longrightarrow> leader < 3 \<Longrightarrow> keeps_running (propose_all fuel io leader cs p)"
  by (induction cs arbitrary: p) (auto intro!: running_then running_propose running_flush running_drain)

lemma running_compact:
  assumes p: "program_ok p" and i: "i < 3"
  shows "keeps_running (compact_host io i p)"
proof -
  let ?h = "pg_hosts p ! i"
  have rd: "index_read (pg_hosts p) i = Some ?h"
    using p i by (simp add: program_ok_def index_read_def)
  have "keeps_running (on_node (Node_compact (ho_applied ?h) (ho_total ?h)) i p)"
    by (rule running_call [OF p i]) (auto intro: sound_compact simp: busy_unchanged)
  then show ?thesis
    unfolding compact_host_def rd using running_flush i by (auto intro!: running_then)
qed

lemma running_run:
  assumes "program_ok p"
  shows "goes_on (\<lambda>_. True) (run_hosts fuel io p)"
proof -
  have "keeps_running (each_host (flush_host io) [0..<3] q)" "keeps_running (each_host (compact_host io) [0..<3] q)"
    if "program_ok q" for q
    using that by (auto intro!: running_each running_flush running_compact)
  then show ?thesis
    unfolding run_hosts_def using assms
    by (auto simp: running_hosts simp del: propose_all.simps intro!: running_then goes_on_then [OF running_elect] running_propose_all running_drain)
qed

text \<open>Opening: an error of a journal, or all three hosts.\<close>

lemma open_one:
  assumes "i < 3"
  shows "\<exists>r. Host_open (wid i) content = Some r \<and> (\<forall>h. r = Inr h \<longrightarrow> host_ok i h)"
proof (cases "Journal_open (wid i) content")
  case (Inl e)
  then show ?thesis
    by (simp add: Host_open_def)
next
  case (Inr j)
  show ?thesis
    by (rule host_opens [OF assms Inr]) auto
qed

lemma open_all:
  assumes "k + length contents = 3"
  shows "\<exists>r hs. open_hosts (map wid [k..<3]) contents = Some (r, hs)
    \<and> (r = Inr () \<longrightarrow> length hs = length contents \<and> (\<forall>i < length hs. host_ok (k + i) (hs ! i)))"
  using assms
proof (induction contents arbitrary: k)
  case (Cons content contents)
  then have k: "k < 3" "[k..<3] = k # [Suc k..<3]"
    by (simp_all add: upt_conv_Cons)
  obtain r where r: "Host_open (wid k) content = Some r" "\<forall>h. r = Inr h \<longrightarrow> host_ok k h"
    using open_one [OF k(1)] by blast
  obtain rs hs where rs: "open_hosts (map wid [Suc k..<3]) contents = Some (rs, hs)"
    "rs = Inr () \<longrightarrow> length hs = length contents \<and> (\<forall>i < length hs. host_ok (Suc k + i) (hs ! i))"
    using Cons.IH [of "Suc k"] Cons.prems by auto
  show ?case
  proof (cases r)
    case (Inr h)
    then have "\<forall>i < Suc (length hs). host_ok (k + i) ((h # hs) ! i)" if "rs = Inr ()"
      using r(2) rs(2) that by (auto simp: nth_Cons split: nat.split)
    then show ?thesis
      using Inr r(1) rs k(2) by simp
  qed (use r(1) k(2) in simp)
qed simp

lemma run_returns:
  assumes "length contents = 3"
  shows "run_cluster fuel io contents \<noteq> None"
proof -
  have ids: "map wid [0..<3] = [Id 0, Id 1, Id 2]"
    by (simp add: upt_rec)
  obtain r hs where o: "open_hosts [Id 0, Id 1, Id 2] contents = Some (r, hs)"
    "r = Inr () \<Longrightarrow> length hs = 3 \<and> (\<forall>i < 3. host_ok i (hs ! i))"
    using open_all [of 0 contents] assms unfolding ids by auto
  show ?thesis
  proof (cases r)
    case (Inr u)
    then have "program_ok \<lparr>pg_hosts = hs, pg_network = [], pg_flushes = 0\<rparr>"
      using o(2) by (simp add: program_ok_def)
    then show ?thesis
      using running_run [of _ fuel io] o(1) Inr by (fastforce simp: run_cluster_def goes_on_def)
  qed (use o(1) in \<open>simp add: run_cluster_def\<close>)
qed

end
