(* ===== verification/Jarl_Program_Examples.thy ===== *)
theory Jarl_Program_Examples
  imports Jarl_Program "HOL-Library.Code_Target_Nat"
begin

text \<open>
  A host at which the properties of the example program are applied: its journal holds one
  transaction, in which the command 42 is committed.
\<close>

definition demo_saved :: JState where
  "demo_saved =
     \<lparr>st_hard = \<lparr>hs_term = 1, hs_voted_for = Some (Id 0), hs_commit = 1\<rparr>, st_snapshot = None,
      st_entries = Some \<lparr>en_id = \<lparr>li_index = 1, li_term = 1\<rparr>, en_value = Some 42\<rparr> # replicate 7 None,
      st_len = 1\<rparr>"

text \<open>A request of a later term, which every voter records before it answers.\<close>

definition demo_request :: HEnvelope where
  "demo_request = \<lparr>env_from = Id 1, env_to = Id 0, env_message = Vote 2 \<lparr>li_index = 1, li_term = 1\<rparr>\<rparr>"

definition demo_answer :: "HNode option" where
  "demo_answer = do {
     r \<leftarrow> Node_new (World_config 0) demo_saved;
     n \<leftarrow> unwrap r;
     (_, n') \<leftarrow> Node_step demo_request n;
     Some n'
   }"

lemma demo_answer_dirty: "map_option n_dirty demo_answer = Some True"
  by code_simp

lemma demo_saved_facts:
  "apply_frame (State_new CAP) (encode (State_write demo_saved (Some 1) False)) = Some demo_saved"
  "journal_write_ok (State_write demo_saved (Some 1) False)" "replayed 1 demo_saved = 42"
  by code_simp+

lemma demo_file:
  obtains j where "journal_usable (Id 0) j" and "jr_state j = demo_saved"
proof -
  obtain j where j: "journal_usable (Id 0) j" "jr_state j = State_new CAP"
    using journal_fresh by blast
  show ?thesis
    using that journal_save_frame(1) [OF j(1) demo_saved_facts(2)] demo_saved_facts(1) j(2) by fastforce
qed

lemma demo_opened:
  obtains h where "host_life 0 h" and "n_state (ho_node h) = demo_saved" and "\<not> n_dirty (ho_node h)"
proof -
  have id: "wid 0 = Id 0" and i: "(0 :: usize) < 3"
    by simp_all
  obtain j where j: "journal_usable (Id 0) j" "jr_state j = demo_saved"
    by (rule demo_file)
  obtain h where h: "Host_open (wid 0) (jr_file j) = Some (Inr h)" "n_state (ho_node h) = demo_saved"
    "\<not> n_dirty (ho_node h)"
    by (rule host_opens [OF i journal_reopen [OF j(1), folded id]]) (use j(2) in simp)
  then show ?thesis
    using that host_life.opened [OF i h(1)] by blast
qed

text \<open>The host that opens the file, flushed once.\<close>

lemma demo_host:
  obtains h r n where "host_reachable 0 h" and "n_state (ho_node h) = demo_saved"
    and "Node_step demo_request (ho_node h) = Some (r, n)" and "n_dirty n"
proof -
  have id: "wid 0 = Id 0" and i: "(0 :: usize) < 3"
    by simp_all
  obtain j where j: "journal_usable (Id 0) j" "jr_state j = demo_saved"
    by (rule demo_file)
  note opn = journal_reopen [OF j(1), folded id]
  obtain h0 where h0: "Host_open (wid 0) (jr_file j) = Some (Inr h0)" "host_ok 0 h0" "n_state (ho_node h0) = demo_saved"
    "\<not> n_dirty (ho_node h0)" "behind (ho_applied h0) (ho_total h0) (n_state (ho_node h0))"
    and new: "Node_new (World_config 0) demo_saved = Some (Ok (ho_node h0))" "Node_available (ho_node h0) = Ok ()"
    by (rule host_opens [OF i opn]) (use j(2) in simp)
  have commit: "hs_commit (n_hard (ho_node h0)) = 1"
    by (simp add: h0(3) demo_saved_def)
  then have fl: "flushed h0 = Inr ()"
    using demo_saved_facts(3) by (simp add: flushed_def h0(3))
  obtain h sent where h: "Host_flush Written h0 [] = Some (flushed h0, h, [] @ sent)" "n_state (ho_node h) = n_state (ho_node h0)"
    by (rule host_flushes [OF h0(2,5), where outcome = Written and network = "[]"]) simp
  have "pending (ho_node h0) = 0"
    using new(2) flatten_all_None [of "n_outbox (ho_node h0)"] by (simp add: available_iff pending_eq)
  then have "drain (ho_node h0) [] = Some (ho_node h0, [])"
    by (subst drain.simps) (simp add: next_message_none)
  moreover obtain a h' where ap: "Host_apply h0 = (a, h')"
    by (cases "Host_apply h0")
  ultimately have "Host_flush Written h0 [] = Some (a, h', [])"
    using h0(4) by (simp add: Host_flush_def Host_save_def Node_ready_def)
  then have node: "ho_node h = ho_node h0"
    using h(1) Host_apply_keeps(1) [OF ap] by simp
  have "host_started 0 h"
    using h0(1) h(1) unfolding host_started_def fl by blast
  then have "host_reachable 0 h"
    unfolding host_reachable_def by (intro conjI exI [of _ h]) simp_all
  moreover obtain r n where n: "Node_step demo_request (ho_node h) = Some (r, n)" "demo_answer = Some n"
    using demo_answer_dirty new(1)
    by (cases "Node_step demo_request (ho_node h0)") (auto simp: demo_answer_def unwrap_def node)
  moreover have "n_dirty n"
    using demo_answer_dirty unfolding n(2) by simp
  ultimately show ?thesis
    using that [of h r n] h(2) h0(3) by simp
qed

end
