(* ===== verification/Spec2Isabelle.thy ===== *)
theory Spec2Isabelle
  imports Jarl_Examples Provium_Examples Jarl_World_Examples Jarl_Safety Jarl_Schedules Provium_Lean Provium_Cfg Jarl_Program_Examples
begin

text \<open>
  \<^bold>\<open>A verification development for jarl\<close>

  \<^verbatim>\<open>jarl\<close> is an allocation-free, sans-I/O implementation of Raft with runtime membership. A host
  owns the clock, the transport, durable storage and the application. It calls the node
  (\<^verbatim>\<open>tick\<close>, \<^verbatim>\<open>step\<close>, \<^verbatim>\<open>propose\<close>, \<^verbatim>\<open>compact\<close>), and after every call that leaves a pending write
  it must save the write, acknowledge it, and only then take messages and committed entries.

  \<^bold>\<open>Parts and theories\<close> (sources under \<^verbatim>\<open>src/jarl/\<close>)

  \<^item> \<open>Jarl_Prelude\<close>: Rust's \<^verbatim>\<open>u64\<close>/\<^verbatim>\<open>usize\<close> as words, checked, saturating and wrapping
    arithmetic, array accesses, slices and rotations that panic out of range, iterator helpers, and
    the calculus \<open>returns\<close>
    (the computation does not panic and its value satisfies a predicate).
  \<^item> \<open>Jarl_Types\<close> (\<^verbatim>\<open>src/lib.rs\<close>): identities, log positions, entries, messages, errors.
  \<^item> \<open>Jarl_State\<close>, \<open>Jarl_Storage\<close> (\<^verbatim>\<open>src/state.rs\<close>, \<^verbatim>\<open>src/ready.rs\<close>): the checkpoint with its
    fixed slot array, and the storage transaction \<open>Write\<close>. Locale \<open>bounded_log\<close> is what the
    proposal loop needs of a log; it is interpreted on the slot array.
  \<^item> \<open>Jarl_Membership\<close> (\<^verbatim>\<open>src/membership.rs\<close>): voters, old voters and learners in \<open>MAX\<close> slots,
    quorums and the quorum index. Locales \<open>overlapping_quorums\<close> and \<open>quorum_system\<close> are
    interpreted on the quorums of successive and of stable configurations.
  \<^item> \<open>Jarl_Node\<close> (\<^verbatim>\<open>src/node.rs\<close>, \<^verbatim>\<open>src/ready.rs\<close>): the whole node, one definition per method
    and one per arm of \<^verbatim>\<open>step\<close>. \<open>Jarl_Node_Inv\<close> has the invariant and the transition relation,
    \<open>Jarl_Node_Ops\<close> one preservation lemma per method along the call graph, \<open>Jarl_Node_Life\<close>
    construction, compaction, the outbox, acknowledgement, growth, and the step relation
    \<open>node_step\<close> of all calls a host can make.
  \<^item> \<open>Jarl_Cluster\<close> (\<^verbatim>\<open>src/cluster.rs\<close>): the dynamic engine, its membership hooks, the
    administrative calls and the proposal reserve.
  \<^item> \<open>Jarl_Host\<close> (\<^verbatim>\<open>src/host.rs\<close>): \<^verbatim>\<open>persist\<close> over a storage backend; the trait \<^verbatim>\<open>Storage\<close> is
    the locale \<open>storage\<close>.
  \<^item> \<open>Jarl_Frames\<close>: words as bytes, checksum and frames of the journals; locale \<open>frames\<close> is the
    replay loop they share.
  \<^item> \<open>Jarl_Journal\<close> (\<^verbatim>\<open>examples/support/journal.rs\<close>): the reference journal, byte for byte:
    encoding, decoding, replay, saves that may stop after any number of bytes. It interprets the
    locales \<open>frames\<close> and \<open>storage\<close>.
  \<^item> \<open>Jarl_Dynamic_Journal\<close> (\<^verbatim>\<open>examples/support/dynamic_journal.rs\<close>): the journal of a dynamic
    cluster, which stores configurations as sets of identities; it interprets the same locales,
    content being compared up to the slots of the members.
  \<^item> \<open>Provium_IR\<close> (\<^verbatim>\<open>../provium/src/ir.rs\<close>): the expression language of the provium extractor, its
    sizes and renamings, and the evaluator with the faults of checked Rust.
  \<^item> \<open>Provium_Frontend\<close> (\<^verbatim>\<open>../provium/src/frontend.rs\<close>): the compiler from Rust syntax to that
    language: parsing of items, signatures, type hints, statements, expressions and the expansion
    of calls. A tree of the crate \<^verbatim>\<open>syn\<close> is a value of datatypes with the cases the compiler
    tells apart; an error is its message, without the source position in front of it.
    \<open>Provium_Compile\<close> proves that what is compiled is well typed, \<open>Provium_Examples\<close> compiles a
    small source.
  \<^item> \<open>Jarl_World\<close> (\<^verbatim>\<open>src/explore.rs\<close>): three nodes, their disks and the network between them, the
    actions of a schedule, the assertions checked after each, and the bounded search.
    \<open>Jarl_Ballot\<close> has what a call changes of the vote of a node and which votes it sends,
    \<open>Jarl_Election\<close> the invariant of the cluster over a ghost set of granted votes,
    \<open>Jarl_Explore\<close> that nothing the explorer does panics, \<open>Jarl_World_Examples\<close> a run that elects
    a leader and commits an entry.
  \<^item> Agreement of the logs of that cluster: \<open>Jarl_Agreement\<close> has the argument on logs alone, within
    the locale \<open>quorum_system\<close>, over a ghost map of the logs of the leaders and a ghost set of
    acknowledgements; \<open>Jarl_Replica\<close> what each method of a node does to its log, commit index and
    outbox; \<open>Jarl_Logs\<close> the invariant that ties the ghosts to nodes, disks and network, with
    \<open>quorum_system\<close> interpreted on the majorities of the three members; \<open>Jarl_Safety\<close> that every
    action and observation keeps it.
  \<^item> \<open>Jarl_Machine\<close>, \<open>Jarl_Schedules\<close> (\<^verbatim>\<open>src/node/machine.rs\<close>): the value syntax in which the
    differential test prints nodes, messages and results, and the random schedules it records.
    Locale \<open>value_text\<close> of \<open>Jarl_Text\<close> is the trait \<^verbatim>\<open>Value\<close>: a text can be told from what follows it. It is
    interpreted on the types of the node, and carried through options, arrays and pairs.
  \<^item> \<open>Provium_Lean\<close> (\<^verbatim>\<open>../provium/src/lean.rs\<close>, \<^verbatim>\<open>../provium/lean/Provium/Semantics.lean\<close>): the evaluator of the
    Lean library, the generator of Lean text, and the Lean expressions, terms, types and declarations
    that text stands for, with the operators under the names the Lean library gives them; its
    expressions interpret \<open>value_text\<close>. The collision check of \<^verbatim>\<open>project.rs\<close> is here as well.
  \<^item> \<open>Provium_Cfg\<close> (\<^verbatim>\<open>../provium/src/cfg.rs\<close>): conditional compilation, with the token parsers of
    \<^verbatim>\<open>syn\<close> as arguments.
  \<^item> The program \<^verbatim>\<open>examples/cluster.rs\<close>: \<open>Jarl_Replicas\<close> has its definitions, a host with node, journal
    and application, \<^verbatim>\<open>flush\<close>, the queue of messages and \<^verbatim>\<open>run\<close>; \<open>Jarl_Snapshots\<close> which calls of a node
    touch its snapshot, and what compaction leaves; \<open>Jarl_Totals\<close> the value of a checkpoint and what the application computes of
    it; \<open>Jarl_Hosts\<close> the life of a host, call by call (\<open>host_step\<close>) and statement by statement
    (\<open>host_life\<close>), over the interpretation of \<open>storage\<close> on the journal;
    \<open>Jarl_Program\<close> that the program does not panic; \<open>Jarl_Program_Examples\<close> a host with a committed
    command.
  \<^item> \<open>Jarl_Examples\<close>: concrete nodes and clusters at which the properties are applied.

  \<^bold>\<open>How the state corresponds to the code\<close>

  A struct is a record whose field names carry a prefix (\<open>hs_term\<close> is \<^verbatim>\<open>HardState::term\<close>,
  \<open>n_next\<close> is \<^verbatim>\<open>Node::next\<close>), an enum is a datatype with the constructors of the source,
  \<^verbatim>\<open>Result\<close> is \<open>Error + 'a\<close> with \<open>Err\<close>/\<open>Ok\<close>, and a \<^verbatim>\<open>&mut self\<close> method returns the new self.
  A const parameter (\<^verbatim>\<open>MAX\<close>, \<^verbatim>\<open>N\<close>, \<^verbatim>\<open>CAP\<close>) is the length of the array it sizes, and the arrays
  of a value have that length by an invariant. Integers are 64-bit words; \<^verbatim>\<open>usize\<close> is taken at
  64 bits. An addition the source leaves unchecked is modelled with overflow checks on, so that a
  wrap would be a panic, and it is proved that none happens. Panics of the code itself
  (an index, a slice or a rotation out of range, overflow or underflow, a failed \<^verbatim>\<open>expect\<close>) are
  \<open>None\<close>. The exceptions are the slot writes of \<^verbatim>\<open>State::push\<close> and \<^verbatim>\<open>State::truncate\<close> and the slice of
  \<^verbatim>\<open>State::write\<close>, whose bounds are the slot invariant (\<open>slots_wf\<close>) that every operation is proved to
  keep; panics of the
  application's \<^verbatim>\<open>Clone\<close> are explicit in the list of values a batch proposal clones from.

  \<^bold>\<open>What the properties show\<close>

  \<^item> C1 to C3: no sequence of calls panics or breaks the invariant.
  \<^item> C4, C7: the write of an operation is exactly the change of the checkpoint, and nothing
    leaves the node before the write is acknowledged.
  \<^item> C5, C6, C11: local safety of a node over its whole life: votes, terms, committed entries, the
    effective membership.
  \<^item> C8 to C10, C12: the outbox, proposals and their rollback, compaction in every role.
  \<^item> C13: the checkpoint's restoration. C14 to C16: membership and quorums.
  \<^item> C17 to C19: reconfiguration and proposals of a cluster.
  \<^item> C20, C21: the journal, and that a host at any moment of its life publishes only what its file
    restores.
  \<^item> C22 to C26: the example program: a host's total is the committed prefix, a flush fails only when
    that value does not fit, restarts and torn writes recover it, and the program does not panic.
  \<^item> C27 to C30: the provium compiler returns, what it returns runs without type faults, calls are
    expanded to what they mean, and the operators are those of the machine.
  \<^item> C31 to C34: in the explored cluster no term has two leaders, the search ends and reports no
    violation, what any two nodes have applied agrees, and logs match.
  \<^item> C35: the journal of a dynamic cluster accepts and recovers the cluster's writes.
  \<^item> C36: the differential test records its schedules without a panic, and what it records of a
    call determines the call.
  \<^item> C37, C38: the Lean evaluator agrees with the Rust evaluator, and the generated Lean file
    is accepted and computes the functions it was generated from.
  \<^item> C39, C40: conditions and attributes have their meaning exactly when all of them can be read.

  \<^bold>\<open>Termination and bounds\<close>

  Every definition is a total HOL function; the loops of the source are structural recursions
  over arrays and lists, and the replay loop of the journal recurses on the length of the unread
  bytes. The one loop whose end depends on the protocol, the wait for a timeout in the explorer,
  is a \<^theory_text>\<open>partial_function\<close> in the option monad, and C32 includes that it returns. The loop of the
  example program that delivers queued messages has a bound \<open>fuel\<close> on their number; C26 holds for
  every bound, hence at every moment of the loop, and C22 to C25 are about the single calls the
  loop is made of. That the queue becomes empty is not claimed. The capacities are arbitrary; C1 needs only \<open>0 < CAP\<close>. C31, C33 and C34 hold for any terms.
  C32 uses that the explorer stops at term 2: its oracle compares the log of every leader, also
  of one that was superseded, with all entries of earlier terms that are committed by now, which
  Raft promises of a superseded leader only as long as there are two terms.

  \<^bold>\<open>Not modelled\<close>

  \<^item> Operating-system calls: locking, directory synchronisation and metadata checks of the
    journals, sockets of the example hosts. \<^verbatim>\<open>persist_async\<close> awaits the same save and then
    acknowledges it; its completed runs are those of \<open>host_persist\<close>.
  \<^item> The safety of a network of nodes is proved for the cluster of the explorer: three nodes of the
    fixed engine that do not compact (C31 to C34). For reconfiguration and snapshots it is not;
    what it rests on within a node and between quorums is (C5, C6, C15, C16). C22 to C25 therefore
    take it as given that a snapshot another host sends of a prefix this host has committed holds
    this host's value there (\<open>vouched\<close>).
  \<^item> The dynamic explorer (\<^verbatim>\<open>src/explore_dynamic.rs\<close>), the part of the differential test
    (\<^verbatim>\<open>src/node/machine.rs\<close>) that runs Lean on the recorded cases, and the
    example programs other than \<^verbatim>\<open>cluster.rs\<close> (runtime membership, the asynchronous executor, the
    benchmark).
  \<^item> The method extractor and, but for its check of generated symbols, the project tooling of
    \<^verbatim>\<open>provium\<close>, which print Lean text from token
    streams of third-party crates.
\<close>

section \<open>The node\<close>

text \<open>C1: every node a host can reach. A node built from a well-formed checkpoint and
  configuration satisfies the node invariant after any sequence of calls (ticks, messages,
  proposals, compactions, taking messages, acknowledging writes, growing the log), its
  checkpoint is again well formed, and the checkpoint has only moved forward.\<close>

theorem reachable_nodes_keep_invariant:
  assumes "State_inv st" and "0 < State_CAP st" and "valid_timing config"
    and "Membership_ok (Membership_MAX m) m" and "payloads_ok hooks (Membership_MAX m) st"
    and "Node_build config st m hooks = Some (Ok n)" and "node_step\<^sup>*\<^sup>* n n'"
  shows "Node_inv n' \<and> State_inv (n_state n') \<and> State_advances st (n_state n')"
proof -
  have "Node_inv n" and "n_state n = st"
    using Node_build_returns [OF assms(1-5)] assms(6) by auto
  then show ?thesis
    using node_steps_inv [OF assms(7)] by (auto simp: Node_inv_def log_ok_def)
qed

theorem reachable_nodes_keep_invariant_witness:
  "\<exists>n r n'. Node_build demo_config (State_new 8 :: (u64, u64) State) demo_membership None = Some (Ok n)
    \<and> node_step\<^sup>*\<^sup>* n n' \<and> Node_tick n = Some (r, n') \<and> Node_inv n'"
proof -
  have pre: "State_inv (State_new 8 :: (u64, u64) State)" "0 < State_CAP (State_new 8 :: (u64, u64) State)"
    "valid_timing demo_config" "Membership_ok (Membership_MAX demo_membership) demo_membership"
    "payloads_ok None (Membership_MAX demo_membership) (State_new 8 :: (u64, u64) State)"
    by code_simp+
  obtain n where build: "Node_build demo_config (State_new 8 :: (u64, u64) State) demo_membership None = Some (Ok n)"
    and inv: "Node_inv n"
    using Node_build_returns [OF pre] by (auto simp: returns_iff)
  obtain r n' where tick: "Node_tick n = Some (r, n')"
    using tick_safe [OF inv] by (auto simp: returns_iff)
  then have st: "node_step\<^sup>*\<^sup>* n n'"
    by (blast intro: node_step.operate operation.tick)
  show ?thesis
    using reachable_nodes_keep_invariant [OF pre build st] build tick st by blast
qed

text \<open>C2: receiving a message never panics. Whatever the message, valid or not, fresh or stale,
  from a member or not, \<^verbatim>\<open>step\<close> returns and leaves a node that satisfies the invariant, as
  long as the configurations in the message's payloads are values of the membership type.\<close>

theorem step_never_panics:
  assumes "Node_inv n" and "message_ok (n_hooks n) (Node_N n) (env_message env)"
  shows "\<exists>r n'. Node_step env n = Some (r, n') \<and> Node_inv n'"
  using step_safe [OF assms] by (auto simp: returns_iff)

theorem step_never_panics_witness:
  "\<exists>r n'. Node_step demo_append demo_node = Some (r, n') \<and> Node_inv n'"
  using step_never_panics [OF demo_node_inv demo_append_ok] .

text \<open>C3: a tick never panics. In every role, with elections, pre-vote rounds, quorum checks,
  heartbeats and exhausted terms included, \<^verbatim>\<open>tick\<close> returns and keeps the invariant.\<close>

theorem tick_never_panics:
  assumes "Node_inv n"
  shows "\<exists>r n'. Node_tick n = Some (r, n') \<and> Node_inv n'"
  using tick_safe [OF assms] by (auto simp: returns_iff)

theorem tick_never_panics_witness: "\<exists>r n'. Node_tick demo_leader = Some (r, n') \<and> Node_inv n'"
  using tick_never_panics [OF demo_leader_inv] .

text \<open>C4: the storage transaction is exact. After any operation on an idle node, applying the
  write it leaves, in the documented order, to the checkpoint before the operation gives the
  checkpoint after it; and an operation that leaves no write has not changed the checkpoint.\<close>

theorem write_is_exact:
  assumes "Node_inv n" and "Node_available n = Ok ()" and "operation n n'"
  shows "Durable_apply (Ready_write n') (Durable_of (n_state n)) = Durable_of (n_state n')
    \<and> (\<not> n_dirty n' \<longrightarrow> n_state n' = n_state n)"
  using operation_good [OF assms(3,1,2)] good_write good_unchanged by blast

theorem write_is_exact_witness:
  "\<exists>r n'. Node_step demo_append demo_node = Some (r, n') \<and> n_dirty n'
    \<and> Durable_apply (Ready_write n') (Durable_of (n_state demo_node)) = Durable_of (n_state n')"
proof -
  have "(case Node_step demo_append demo_node of Some (_, n') \<Rightarrow> n_dirty n' | None \<Rightarrow> False)"
    by code_simp
  then obtain r n' where n': "Node_step demo_append demo_node = Some (r, n')" "n_dirty n'"
    by (auto split: option.splits)
  have "operation demo_node n'"
    using demo_append_ok n'(1) by (rule operation.receive)
  then show ?thesis
    using write_is_exact [OF demo_node_inv demo_node_available] n' by blast
qed

text \<open>The documented shape of a write. When the write of an operation contains entries,
  its truncation point is the index of the first of them; and applying the write twice has
  the same effect as applying it once.\<close>

theorem write_shape:
  assumes "Node_inv n" and "Node_available n = Ok ()" and "operation n n'"
  shows "(Write_entries (Ready_write n') \<noteq> [] \<longrightarrow>
      w_truncate_from (Ready_write n') = Some (li_index (en_id (hd (Write_entries (Ready_write n'))))))
    \<and> Durable_apply (Ready_write n') (Durable_apply (Ready_write n') d) = Durable_apply (Ready_write n') d"
  using operation_good [OF assms(3,1,2)] good_write_shape good_write_idem by blast

theorem write_shape_witness:
  "\<exists>r n'. Node_step demo_append demo_node = Some (r, n') \<and> Write_entries (Ready_write n') \<noteq> []
    \<and> w_truncate_from (Ready_write n') = Some (li_index (en_id (hd (Write_entries (Ready_write n')))))"
proof -
  have "(case Node_step demo_append demo_node of Some (_, n') \<Rightarrow> Write_entries (Ready_write n') \<noteq> [] | None \<Rightarrow> False)"
    by code_simp
  then obtain r n' where n': "Node_step demo_append demo_node = Some (r, n')" "Write_entries (Ready_write n') \<noteq> []"
    by (auto split: option.splits)
  have "operation demo_node n'"
    using demo_append_ok n'(1) by (rule operation.receive)
  then show ?thesis
    using write_shape [OF demo_node_inv demo_node_available] n' by blast
qed

text \<open>C5: one vote per term. Through any sequence of calls the term and the commit index never
  decrease, and a vote cast in a term is never changed while the term lasts.\<close>

theorem one_vote_per_term:
  assumes "Node_inv n" and "node_step\<^sup>*\<^sup>* n n'"
  shows "hs_term (n_hard n) \<le> hs_term (n_hard n') \<and> hs_commit (n_hard n) \<le> hs_commit (n_hard n')
    \<and> (hs_term (n_hard n') = hs_term (n_hard n) \<and> hs_voted_for (n_hard n) = Some v
         \<longrightarrow> hs_voted_for (n_hard n') = Some v)"
  using node_steps_inv [OF assms(2,1)] by (auto simp: State_advances_def HardState_le_def)

theorem one_vote_per_term_witness:
  "\<exists>r n'. Node_tick demo_leader = Some (r, n') \<and> hs_term (n_hard n') = 1 \<and> hs_voted_for (n_hard n') = Some (Id 0)"
proof -
  have "(case Node_tick demo_leader of Some (_, n') \<Rightarrow> hs_term (n_hard n') = 1 | None \<Rightarrow> False)"
    by code_simp
  then obtain r n' where n': "Node_tick demo_leader = Some (r, n')" "hs_term (n_hard n') = 1"
    by (auto split: option.splits)
  have st: "node_step\<^sup>*\<^sup>* demo_leader n'"
    using n'(1) by (blast intro: node_step.operate operation.tick)
  have "hs_term (n_hard demo_leader) = 1" "hs_voted_for (n_hard demo_leader) = Some (Id 0)"
    by code_simp+
  then show ?thesis
    using one_vote_per_term [OF demo_leader_inv st, of "Id 0"] n' by auto
qed

text \<open>C6: committed entries stay. Through any sequence of calls a committed entry remains in the
  log unchanged until a snapshot at or above its index replaces it.\<close>

theorem committed_entries_stay:
  assumes "Node_inv n" and "node_step\<^sup>*\<^sup>* n n'"
    and "e \<in> set (State_entries (n_state n))" and "li_index (en_id e) \<le> hs_commit (n_hard n)"
  shows "e \<in> set (State_entries (n_state n')) \<or> li_index (en_id e) \<le> li_index (n_base n')"
  using node_steps_inv [OF assms(2,1)] assms(3,4) by (auto simp: State_advances_def)

theorem committed_entries_stay_witness:
  "\<exists>r n'. Node_tick demo_leader = Some (r, n')
    \<and> (\<lparr>en_id = \<lparr>li_index = 1, li_term = 1\<rparr>, en_value = None\<rparr> \<in> set (State_entries (n_state n'))
       \<or> 1 \<le> li_index (n_base n'))"
proof -
  let ?e = "\<lparr>en_id = \<lparr>li_index = 1, li_term = 1\<rparr>, en_value = None\<rparr> :: u64 Entry"
  obtain r n' where n': "Node_tick demo_leader = Some (r, n')"
    using tick_safe [OF demo_leader_inv] by (auto simp: returns_iff)
  have st: "node_step\<^sup>*\<^sup>* demo_leader n'"
    using n' by (blast intro: node_step.operate operation.tick)
  have "?e \<in> set (State_entries (n_state demo_leader))" "li_index (en_id ?e) \<le> hs_commit (n_hard demo_leader)"
    by code_simp+
  from committed_entries_stay [OF demo_leader_inv st this] show ?thesis
    using n' by auto
qed

text \<open>C7: nothing leaves an unsaved node. While a write is pending, \<^verbatim>\<open>next_message\<close>, \<^verbatim>\<open>committed\<close>
  and \<^verbatim>\<open>snapshot\<close> yield nothing and every operation answers \<open>Busy\<close> and changes nothing.\<close>

theorem unsaved_node_is_silent:
  assumes "n_dirty n"
  shows "Node_next_message n = Some (None, n) \<and> Node_committed n = [] \<and> Node_snapshot n = None
    \<and> Node_tick n = Some (Err ErrBusy, n) \<and> Node_step env n = Some (Err ErrBusy, n)
    \<and> Node_propose_many c vs n = Some (Returned (Err ErrBusy), n)
    \<and> Node_compact i v n = Some (Err ErrBusy, n)"
proof -
  have "Node_available n = Err ErrBusy"
    using assms by (simp add: Node_available_def)
  then show ?thesis
    using assms busy_unchanged next_message_none [of n]
    by (auto simp: Node_committed_def Node_snapshot_def takeWhile_eq_Nil_iff)
qed

theorem unsaved_node_is_silent_witness:
  "Node_committed demo_leader \<noteq> []
   \<and> (let n = demo_leader\<lparr>n_dirty := True, n_outbox := [None, Some OutReplicate, None]\<rparr>
      in Node_next_message n = Some (None, n) \<and> Node_committed n = [])"
proof -
  have "Node_committed demo_leader \<noteq> []"
    by code_simp
  then show ?thesis
    using unsaved_node_is_silent [of "demo_leader\<lparr>n_dirty := True, n_outbox := [None, Some OutReplicate, None]\<rparr>"]
    by simp
qed

text \<open>C8: every queued message can be taken. While no write is pending and messages are queued,
  \<^verbatim>\<open>next_message\<close> returns one, from this node, and exactly one fewer remains; a replication
  descriptor always finds its predecessor in the log or its snapshot.\<close>

theorem queued_messages_drain:
  assumes "Node_inv n" and "\<not> n_dirty n" and "status_messages_pending (Node_status n) \<noteq> 0"
  shows "\<exists>env n'. Node_next_message n = Some (Some env, n') \<and> Node_inv n' \<and> n_state n' = n_state n
    \<and> status_messages_pending (Node_status n) = Suc (status_messages_pending (Node_status n'))
    \<and> env_from env = cfg_id (n_config n)"
proof -
  have "pending n \<noteq> 0"
    using assms(3) by (simp add: pending_def)
  from next_message_takes [OF assms(1,2) this] show ?thesis
    by (auto simp: pending_def elim!: sentE)
qed

theorem queued_messages_drain_witness:
  "\<exists>env n'. Node_next_message (demo_leader\<lparr>n_outbox := [None, Some OutReplicate, None]\<rparr>) = Some (Some env, n')
    \<and> Node_inv n'"
proof -
  let ?n = "demo_leader\<lparr>n_outbox := [None, Some OutReplicate, None]\<rparr>"
  have "Node_inv ?n" "\<not> n_dirty ?n" "status_messages_pending (Node_status ?n) \<noteq> 0"
    by code_simp+
  from queued_messages_drain [OF this] show ?thesis
    by blast
qed

text \<open>C9: an admitted batch. When an idle leader has room and indices for a nonempty batch, the
  proposal returns the identities of its first and last entry and appends exactly the
  batch, in order, with consecutive indices and the leader's term, as one pending write.\<close>

theorem batch_is_appended:
  assumes "Node_inv n" and "admissible (length vs) n"
    and "list_all (value_ok (n_hooks n) (Node_N n)) vs"
  shows "\<exists>n'. Node_propose_many (length vs) (map Some vs) n =
      Some (Returned (Ok
        \<lparr>pr_first = \<lparr>li_index = li_index (n_last n) + 1, li_term = hs_term (n_hard n)\<rparr>,
         pr_last = \<lparr>li_index = li_index (n_last n) + of_nat (length vs), li_term = hs_term (n_hard n)\<rparr>\<rparr>), n')
    \<and> n_dirty n' \<and> Node_inv n'
    \<and> State_entries (n_state n') =
        State_entries (n_state n) @ batch_entries (li_index (n_last n) + 1) (hs_term (n_hard n)) vs"
  using good_propose_done [OF assms] good_inv by (fastforce simp: returns_iff)

theorem batch_is_appended_witness:
  "\<exists>r n'. Node_propose_many 2 [Some 5, Some 6] demo_leader = Some (r, n') \<and> n_dirty n'
    \<and> State_entries (n_state n') = State_entries (n_state demo_leader) @ batch_entries 2 1 [5, 6]"
proof -
  have "admissible (length [5, 6 :: u64]) demo_leader" "list_all (value_ok (n_hooks demo_leader) (Node_N demo_leader)) [5, 6 :: u64]"
    "li_index (n_last demo_leader) + 1 = 2" "hs_term (n_hard demo_leader) = 1"
    by code_simp+
  from batch_is_appended [OF demo_leader_inv this(1,2)] this(3,4) show ?thesis
    by (auto simp: numeral_2_eq_2)
qed

text \<open>C10: an abandoned batch. When the construction of a batch unwinds part of the way, because
  cloning one of the values panics, the rollback guard leaves the node exactly as it was.\<close>

theorem batch_rolls_back:
  assumes "Node_inv n" and "admissible count n" and "length vs \<le> count" and "None \<in> set vs"
  shows "Node_propose_many count vs n = Some (Unwound, n)"
  using assms by (rule propose_rolled_back)

theorem batch_rolls_back_witness:
  "Node_propose_many 2 [Some 5, None] demo_leader = Some (Unwound, demo_leader)"
  using batch_rolls_back [OF demo_leader_inv demo_leader_admissible, of "[Some 5, None]"] by simp

text \<open>A refused batch. A proposal that meets a busy node, another role, an empty batch, a
  full log or exhausted indices answers an error and leaves the node exactly as it was.\<close>

theorem batch_refused_unchanged:
  assumes "Node_inv n" and "\<not> admissible count n"
  shows "\<exists>e. Node_propose_many count vs n = Some (Returned (Err e), n)"
  using propose_refused [OF _ assms(2)] assms(1) by (auto simp: Node_inv_def dest: log_okD(2))

theorem batch_refused_unchanged_witness:
  "\<exists>e. Node_propose_many 1 [Some 5] demo_node = Some (Returned (Err e), demo_node)"
proof -
  have "\<not> admissible 1 demo_node"
    by code_simp
  from batch_refused_unchanged [OF demo_node_inv this] show ?thesis .
qed

text \<open>C11: the effective membership. Whatever calls were made, the membership a node acts under is
  the newest configuration of its log (or its snapshot's, or the bootstrap one), it is well
  formed, and each of its members has a peer slot.\<close>

theorem membership_is_newest:
  assumes "Node_inv n" and "node_step\<^sup>*\<^sup>* n n'"
  shows "n_membership n' = snd (Node_membership_at (li_index (n_last n')) n')
    \<and> Membership_wf (n_membership n')
    \<and> (\<forall>i. Membership_contains i (n_membership n') \<longrightarrow> (\<exists>k < Node_N n'. Node_peer_slot i n' = Some k))"
proof -
  have inv: "Node_inv n'"
    using node_steps_inv [OF assms(2,1)] by simp
  have "\<exists>k < Node_N n'. Node_peer_slot i n' = Some k" if "Membership_contains i (n_membership n')" for i
  proof -
    have "Some i \<in> set (n_peers n')"
      using inv that by (auto simp: Node_inv_def members_ok_def contains_iff)
    then show ?thesis
      unfolding Node_peer_slot_def
      using position_exists [of _ "n_peers n'" "\<lambda>p. p = Some i"] position_less by fastforce
  qed
  then show ?thesis
    using inv members_ok_wf [of n'] by (auto simp: Node_inv_def members_ok_def Membership_ok_def)
qed

theorem membership_is_newest_witness:
  "n_membership demo_cluster = snd (Node_membership_at (li_index (n_last demo_cluster)) demo_cluster)"
  using membership_is_newest [OF demo_cluster_inv rtranclp.rtrancl_refl] by blast

text \<open>Construction. A node built from a well-formed checkpoint with valid timing starts as an
  idle follower with exactly that checkpoint, satisfies the invariant, and draws its election
  deadline from \<open>[election_ticks, 2 * election_ticks)\<close>, as the configuration documents.\<close>

theorem build_establishes_invariant:
  assumes "State_inv st" and "0 < State_CAP st" and "valid_timing config"
    and "Membership_ok (Membership_MAX m) m" and "payloads_ok hooks (Membership_MAX m) st"
  shows "\<exists>n. Node_build config st m hooks = Some (Ok n) \<and> Node_inv n \<and> n_state n = st
    \<and> n_role n = Follower \<and> Node_available n = Ok ()
    \<and> cfg_election_ticks config \<le> n_election_deadline n
    \<and> unat (n_election_deadline n) < 2 * unat (cfg_election_ticks config)"
  using Node_build_returns [OF assms] by (auto simp: returns_iff)

theorem build_establishes_invariant_witness:
  "\<exists>n. Node_build demo_config (State_new 8 :: (u64, u64) State) demo_membership None = Some (Ok n) \<and> Node_inv n"
proof -
  have "State_inv (State_new 8 :: (u64, u64) State)" "0 < State_CAP (State_new 8 :: (u64, u64) State)"
    "valid_timing demo_config" "Membership_ok (Membership_MAX demo_membership) demo_membership"
    "payloads_ok None (Membership_MAX demo_membership) (State_new 8 :: (u64, u64) State)"
    by code_simp+
  from build_establishes_invariant [OF this] show ?thesis by blast
qed

text \<open>C12: compaction. A node that is idle, with nothing unsaved and nothing queued, compacts any
  committed index above its snapshot: the call succeeds, installs the given snapshot at that index,
  keeps the invariant and leaves a checkpoint to be saved, whose log is exactly the entries above
  the index. A leader whose log ends in an earlier term adds its barrier entry after them, unless
  there is no further index, and every leader queues a replication for each other member. A node
  of fixed membership may be given any value; a dynamic one needs the snapshot to carry the
  configuration at that index.\<close>

theorem compaction_installs_snapshot:
  assumes "Node_inv n" and "Node_available n = Ok ()"
    and "carries_configuration index v n"
    and "li_index (n_base n) < index" and "index \<le> hs_commit (n_hard n)"
  shows "\<exists>n' lst. Node_compact index v n = Some (Ok (), n') \<and> Node_inv n' \<and> n_dirty n'
    \<and> State_id_at index (n_state n) = Some lst
    \<and> st_snapshot (n_state n') = Some \<lparr>sn_last = lst, sn_value = v\<rparr>
    \<and> State_entries (n_state n') = filter (\<lambda>e. index < li_index (en_id e)) (State_entries (n_state n))
        @ (if n_role n = Leader \<and> li_term (n_last n) \<noteq> hs_term (n_hard n)
           then (case checked_add (li_index (n_last n)) 1 of
                   None \<Rightarrow> []
                 | Some i \<Rightarrow> [\<lparr>en_id = \<lparr>li_index = i, li_term = hs_term (n_hard n)\<rparr>, en_value = None\<rparr>])
           else [])
    \<and> (n_role n = Leader \<longrightarrow> (\<forall>p < Node_N n'. p \<noteq> n_local n'
          \<and> is_some_and (\<lambda>i. Membership_contains i (n_membership n')) (n_peers n' ! p)
        \<longrightarrow> n_outbox n' ! p = Some OutReplicate))"
  using compact_log [OF assms] good_inv unfolding told_def by metis

theorem compaction_installs_snapshot_witness:
  "\<exists>n'. Node_compact 1 9 demo_leader = Some (Ok (), n') \<and> Node_inv n' \<and> n_role demo_leader = Leader
    \<and> State_entries (n_state n') = []"
proof -
  have h: "Node_inv demo_leader" "Node_available demo_leader = Ok ()" "carries_configuration 1 9 demo_leader"
    "li_index (n_base demo_leader) < 1" "1 \<le> hs_commit (n_hard demo_leader)"
    by code_simp+
  have "filter (\<lambda>e. 1 < li_index (en_id e)) (State_entries (n_state demo_leader)) = []"
    "li_term (n_last demo_leader) = hs_term (n_hard demo_leader)" "n_role demo_leader = Leader"
    by code_simp+
  then show ?thesis
    using compaction_installs_snapshot [OF h] by auto
qed

section \<open>Checkpoints\<close>

text \<open>C13: what \<^verbatim>\<open>State::restore\<close> accepts. It succeeds exactly for the parts of a well-formed
  checkpoint of that capacity, and returns that checkpoint; in particular restoring the
  parts of a well-formed checkpoint gives it back.\<close>

theorem restore_accepts_exactly:
  fixes st :: "('v, 's) State"
  shows "(State_restore cap hard snapshot es = Ok st \<longleftrightarrow>
      State_inv st \<and> State_CAP st = cap \<and> st_hard st = hard \<and> st_snapshot st = snapshot \<and> State_entries st = es)
    \<and> (\<not> State_inv st \<or>
        State_restore (State_CAP st) (st_hard st) (st_snapshot st) (State_entries st) = Ok st)"
  by (simp add: State_restore_Ok)

theorem restore_accepts_exactly_witness:
  "State_restore 8 (st_hard demo_checkpoint) None (State_entries demo_checkpoint) = Ok demo_checkpoint"
proof -
  have "State_inv demo_checkpoint" "State_CAP demo_checkpoint = 8"
    "st_snapshot demo_checkpoint = None"
    by code_simp+
  then show ?thesis
    using restore_accepts_exactly [of 8 "st_hard demo_checkpoint" None
        "State_entries demo_checkpoint" demo_checkpoint] by simp
qed

text \<open>Truncation. On a contiguous log, \<^verbatim>\<open>truncate\<close> keeps exactly the entries below the index,
  and nothing else of the checkpoint changes.\<close>

theorem truncate_keeps_below:
  assumes "State_inv st"
  shows "slots_wf (State_truncate i st)
    \<and> State_entries (State_truncate i st) = filter (\<lambda>e. li_index (en_id e) < i) (State_entries st)
    \<and> State_CAP (State_truncate i st) = State_CAP st \<and> st_hard (State_truncate i st) = st_hard st
    \<and> st_snapshot (State_truncate i st) = st_snapshot st"
  by (rule State_truncate_spec [OF State_inv_D(1,2) [OF assms]])

theorem truncate_keeps_below_witness: "State_entries (State_truncate 1 demo_checkpoint) = []"
proof -
  have "State_inv demo_checkpoint"
    "filter (\<lambda>e. li_index (en_id e) < 1) (State_entries demo_checkpoint) = []"
    by code_simp+
  then show ?thesis
    using truncate_keeps_below [of demo_checkpoint 1] by simp
qed

text \<open>Installation. Installing a snapshot keeps the entries above it when the log holds its
  last entry, clears the log otherwise, and raises the commit index to it; nothing
  panics, and the rotation of the slot array loses and duplicates nothing.\<close>

theorem install_keeps_suffix:
  assumes "State_inv st"
  shows "\<exists>st'. State_install sn st = Some st' \<and> slots_wf st'
    \<and> State_entries st' =
        (if State_id_at (li_index (sn_last sn)) st = Some (sn_last sn)
         then filter (\<lambda>e. li_index (sn_last sn) < li_index (en_id e)) (State_entries st) else [])
    \<and> State_CAP st' = State_CAP st
    \<and> st_hard st' = (st_hard st)\<lparr>hs_commit := max (hs_commit (st_hard st)) (li_index (sn_last sn))\<rparr>
    \<and> st_snapshot st' = Some sn"
  using State_install_installed [OF State_inv_D(1,2) [OF assms], of sn]
    installed_spec [OF State_inv_D(1,2) [OF assms], of sn] by simp

theorem install_keeps_suffix_witness:
  "\<exists>st'. State_install \<lparr>sn_last = \<lparr>li_index = 1, li_term = 1\<rparr>, sn_value = 9\<rparr> demo_checkpoint = Some st'
    \<and> State_entries st' = []"
proof -
  have st: "State_inv demo_checkpoint" "filter (\<lambda>e. 1 < li_index (en_id e)) (State_entries demo_checkpoint) = []"
    by code_simp+
  from install_keeps_suffix [OF st(1), of "\<lparr>sn_last = \<lparr>li_index = 1, li_term = 1\<rparr>, sn_value = 9\<rparr>"] st(2)
  show ?thesis by auto
qed

text \<open>Growth. Moving a checkpoint to a larger log keeps its metadata, snapshot and entries,
  and the pending write described by any truncation point and flag.\<close>

theorem grow_keeps_contents:
  assumes "State_inv st" and "State_CAP st \<le> c"
  shows "State_inv (State_grow c st) \<and> State_CAP (State_grow c st) = c
    \<and> Durable_of (State_grow c st) = Durable_of st
    \<and> State_write (State_grow c st) f b = State_write st f b"
  using State_grow_spec [OF State_inv_D(1) [OF assms(1)] assms(2)] State_grow_advances(1) [OF assms]
    State_grow_write [OF State_inv_D(1) [OF assms(1)] assms(2)]
  by (simp add: Durable_of_def)

theorem grow_keeps_contents_witness:
  "Durable_of (State_grow 9 demo_checkpoint) = Durable_of demo_checkpoint"
proof -
  have "State_inv demo_checkpoint" "State_CAP demo_checkpoint \<le> 9"
    by code_simp+
  from grow_keeps_contents [OF this] show ?thesis by blast
qed

section \<open>Memberships and quorums\<close>

text \<open>C14: what \<^verbatim>\<open>Membership::restore\<close> accepts. It succeeds exactly when there is a voter, no list
  repeats an identity, no voter is a learner, and the union fits; the result is well formed and
  has exactly the given voters, old voters and learners.\<close>

theorem membership_restore_exact:
  "((\<exists>m. Membership_restore mx vs os ls = Ok m) \<longleftrightarrow>
      vs \<noteq> [] \<and> distinct vs \<and> distinct ls \<and> distinct os \<and> set vs \<inter> set ls = {}
      \<and> card (set vs \<union> set ls \<union> set os) \<le> mx)
   \<and> (\<forall>m. Membership_restore mx vs os ls = Ok m \<longrightarrow>
      Membership_wf m \<and> Membership_MAX m = mx \<and> set (Membership_voters m) = set vs
      \<and> set (Membership_old_voters m) = set os \<and> set (Membership_learners m) = set ls)"
  using Membership_restore_defined [of mx vs os ls] Membership_restore_Ok [of mx vs os ls] by blast

theorem membership_restore_exact_witness:
  "\<exists>m. Membership_restore 3 [Id 0, Id 1, Id 2] [] [] = Ok m \<and> Membership_wf m"
proof -
  have "(case Membership_restore 3 [Id 0, Id 1, Id 2] [] [] of Ok _ \<Rightarrow> True | Err _ \<Rightarrow> False)"
    by code_simp
  then obtain m where "Membership_restore 3 [Id 0, Id 1, Id 2] [] [] = Ok m"
    by (auto split: Result.splits)
  then show ?thesis
    using membership_restore_exact [of 3 "[Id 0, Id 1, Id 2]" "[]" "[]"] by blast
qed

text \<open>C15: commitment counts as a quorum. The index \<^verbatim>\<open>quorum_index\<close> returns is the largest one
  that a quorum has reached: an index is at most it exactly when the members that reached that
  index form a quorum, of both configurations while they are joint.\<close>

theorem quorum_index_is_largest:
  assumes "Membership_wf m"
  shows "\<exists>p. Membership_quorum_index f m = Some p \<and> (\<forall>t. t \<le> p \<longleftrightarrow> Membership_quorum (\<lambda>i. t \<le> f i) m)"
  using quorum_index_spec [of m f] assms by (auto simp: returns_iff Membership_wf_def)

theorem quorum_index_is_largest_witness:
  "\<exists>p. Membership_quorum_index (\<lambda>i. if i = Id 0 then 3 else 2) demo_membership = Some p
    \<and> (\<forall>t. t \<le> p \<longleftrightarrow> Membership_quorum (\<lambda>i. t \<le> (if i = Id 0 then 3 else 2)) demo_membership)"
proof -
  have "Membership_wf demo_membership"
    by code_simp
  from quorum_index_is_largest [OF this] show ?thesis .
qed

text \<open>C16: quorums overlap. Any quorum of a configuration and any quorum of one that shares a
  majority with it, such as each next step of a reconfiguration, have a common member.\<close>

theorem successive_quorums_overlap:
  assumes "shares_majority m m'" and "Membership_quorum a m" and "Membership_quorum b m'"
  shows "\<exists>i. a i \<and> b i"
  using successive.overlap [of m m' a b] assms by blast

theorem successive_quorums_overlap_witness:
  "Membership_quorum (\<lambda>i. i \<in> {Id 0, Id 1}) demo_membership \<and> Membership_quorum (\<lambda>i. i \<in> {Id 1, Id 2}) demo_membership
   \<and> (\<exists>i. i \<in> {Id 0, Id 1} \<and> i \<in> {Id 1, Id 2})"
proof -
  have q: "shares_majority demo_membership demo_membership"
    "Membership_quorum (\<lambda>i. i \<in> {Id 0, Id 1}) demo_membership"
    "Membership_quorum (\<lambda>i. i \<in> {Id 1, Id 2}) demo_membership"
    by code_simp+
  from successive_quorums_overlap [OF this] q(2,3) show ?thesis by blast
qed

text \<open>Equality of memberships. \<^verbatim>\<open>PartialEq\<close> on memberships ignores the slot layout: it holds
  exactly when the two values have the same members with the same flags.\<close>

theorem membership_equality:
  assumes "Membership_wf a" and "Membership_wf b"
  shows "Membership_eq a b \<longleftrightarrow> Membership_set a = Membership_set b"
  using Membership_eq_iff assms Membership_wf_distinct by blast

theorem membership_equality_witness:
  "Membership_eq demo_membership
     \<lparr>mb_members = [Some (voter (Id 2)), Some (voter (Id 0)), Some (voter (Id 1))]\<rparr>"
proof -
  let ?b = "\<lparr>mb_members = [Some (voter (Id 2)), Some (voter (Id 0)), Some (voter (Id 1))]\<rparr>"
  have "Membership_wf demo_membership" "Membership_wf ?b"
    by code_simp+
  moreover have "Membership_set demo_membership = Membership_set ?b"
    by (auto simp: Membership_set_def demo_membership_def)
  ultimately show ?thesis
    using membership_equality by blast
qed

section \<open>Dynamic clusters\<close>

text \<open>C17: beginning a reconfiguration. \<^verbatim>\<open>reconfigure\<close> returns; either it refuses and changes
  nothing, or it answers the position of the record it appended: exactly one, the joint
  configuration of the current voters and the target's, which takes effect at once and shares a
  majority with the configuration it replaces. It succeeds exactly when a change is possible
  (the node is an idle leader, its configuration is stable and committed, and so is an entry of
  its term), the target is not joint, every new voter is a learner that has acknowledged the
  leader's whole log, three slots and one index are free, and the members of both fit.\<close>

theorem reconfigure_appends_joint:
  assumes "Cluster_inv c" and "Membership_ok (Node_N c) target"
  shows "\<exists>r c'. Cluster_reconfigure target c = Some (r, c') \<and> Cluster_inv c'
    \<and> ((\<exists>e. r = Err e) \<and> c' = c
       \<or> (\<exists>i. i = \<lparr>li_index = li_index (n_last c) + 1, li_term = hs_term (n_hard c)\<rparr> \<and> r = Ok i
             \<and> State_entries (n_state c') = State_entries (n_state c)
                 @ [\<lparr>en_id = i, en_value = Some (Configuration (Cluster_membership c'))\<rparr>])
         \<and> shares_majority (Cluster_membership c) (Cluster_membership c')
         \<and> Membership_is_joint (Cluster_membership c')
         \<and> set (Membership_voters (Cluster_membership c')) = set (Membership_voters target)
         \<and> set (Membership_old_voters (Cluster_membership c')) = set (Membership_voters (Cluster_membership c))
         \<and> (\<forall>i \<in> set (Membership_voters target). Membership_is_voter i (Cluster_membership c) \<or> caught_up c i))
    \<and> ((\<exists>i. r = Ok i) \<longleftrightarrow>
         Cluster_change_available c = Ok () \<and> \<not> Membership_is_joint target
         \<and> (\<forall>i \<in> set (Membership_voters target). Membership_is_voter i (Cluster_membership c) \<or> caught_up c i)
         \<and> 3 \<le> Cluster_remaining c \<and> li_index (n_last c) \<noteq> u64_MAX
         \<and> card (set (Membership_voters (Cluster_membership c)) \<union> Membership_ids target) \<le> Node_N c)"
proof -
  obtain r c' where r: "Cluster_reconfigure target c = Some (r, c')" and c': "Cluster_inv c'"
    and res: "refused r c c' \<or> appended (Configuration (Cluster_membership c')) r c c'
      \<and> shares_majority (Cluster_membership c) (Cluster_membership c')
      \<and> Membership_is_joint (Cluster_membership c')
      \<and> set (Membership_voters (Cluster_membership c')) = set (Membership_voters target)
      \<and> set (Membership_old_voters (Cluster_membership c')) = set (Membership_voters (Cluster_membership c))
      \<and> (\<forall>i \<in> set (Membership_voters target). Membership_is_voter i (Cluster_membership c) \<or> caught_up c i)"
    using reconfigure_returns [OF assms] by (auto simp: returns_iff)
  show ?thesis
    unfolding reconfigure_accepts [OF assms, symmetric]
    using r c' res by (simp add: refused_def appended_def) blast
qed

theorem reconfigure_appends_joint_witness:
  "\<exists>i c'. Cluster_reconfigure demo_membership demo_cluster = Some (Ok i, c') \<and> Cluster_inv c'
    \<and> Membership_is_joint (Cluster_membership c')"
proof -
  have inv: "Cluster_inv demo_cluster"
    using demo_cluster_inv demo_cluster_hooks by (simp add: Cluster_inv_def)
  have ok: "Membership_ok (Node_N demo_cluster) demo_membership"
    by code_simp
  have "Cluster_change_available demo_cluster = Ok ()" "\<not> Membership_is_joint demo_membership"
    "\<forall>i \<in> set (Membership_voters demo_membership).
       Membership_is_voter i (Cluster_membership demo_cluster) \<or> caught_up demo_cluster i"
    "3 \<le> Cluster_remaining demo_cluster" "li_index (n_last demo_cluster) \<noteq> u64_MAX"
    "card (set (Membership_voters (Cluster_membership demo_cluster)) \<union> Membership_ids demo_membership)
       \<le> Node_N demo_cluster"
    by code_simp+
  then show ?thesis
    using reconfigure_appends_joint [OF inv ok] by auto
qed

text \<open>C18: finishing a reconfiguration. \<^verbatim>\<open>finish_reconfiguration\<close> returns; either it refuses and
  changes nothing, or the configuration was joint and the one that takes effect is stable, has
  the new voters only, and shares a majority with the joint one.\<close>

theorem finish_leaves_joint:
  assumes "Cluster_inv c"
  shows "\<exists>r c'. Cluster_finish_reconfiguration c = Some (r, c') \<and> Cluster_inv c'
    \<and> ((\<exists>e. r = Err e) \<and> c' = c
       \<or> Membership_is_joint (Cluster_membership c) \<and> \<not> Membership_is_joint (Cluster_membership c')
         \<and> set (Membership_voters (Cluster_membership c')) = set (Membership_voters (Cluster_membership c))
         \<and> shares_majority (Cluster_membership c) (Cluster_membership c'))"
  using finish_returns [OF assms] by (auto simp: returns_iff refused_def)

theorem finish_leaves_joint_witness:
  "\<exists>i c'. Cluster_finish_reconfiguration demo_joint = Some (Ok i, c') \<and> Cluster_inv c'
    \<and> Membership_is_joint (Cluster_membership demo_joint) \<and> \<not> Membership_is_joint (Cluster_membership c')"
proof -
  have "case Cluster_finish_reconfiguration demo_joint of Some (Ok _, _) \<Rightarrow> True | _ \<Rightarrow> False"
    by code_simp
  then obtain i c' where c': "Cluster_finish_reconfiguration demo_joint = Some (Ok i, c')"
    by (auto split: option.splits prod.splits Result.splits)
  then show ?thesis
    using finish_leaves_joint [OF demo_joint_inv] by auto
qed

text \<open>Changing learners. \<^verbatim>\<open>set_learners\<close> returns; either it refuses and changes nothing, or
  the configuration that takes effect is stable, has exactly the given learners, and shares its
  voters' majority with the one it replaces.\<close>

theorem set_learners_keeps_voters:
  assumes "Cluster_inv c"
  shows "\<exists>r c'. Cluster_set_learners ls c = Some (r, c') \<and> Cluster_inv c'
    \<and> ((\<exists>e. r = Err e) \<and> c' = c
       \<or> \<not> Membership_is_joint (Cluster_membership c')
         \<and> set (Membership_learners (Cluster_membership c')) = set ls
         \<and> shares_majority (Cluster_membership c) (Cluster_membership c'))"
  using set_learners_returns [OF assms, of ls] by (auto simp: returns_iff refused_def)

theorem set_learners_keeps_voters_witness:
  "\<exists>r c'. Cluster_set_learners [] demo_cluster = Some (r, c') \<and> Cluster_inv c'"
proof -
  have "Cluster_inv demo_cluster"
    using demo_cluster_inv demo_cluster_hooks by (simp add: Cluster_inv_def)
  from set_learners_keeps_voters [OF this] show ?thesis by blast
qed

text \<open>C19: the protocol reserve. An application proposal of a cluster returns; either it refuses
  and changes nothing, or it appends the command and leaves at least three free slots.\<close>

theorem proposals_leave_reserve:
  assumes "Cluster_inv c"
  shows "\<exists>r c'. Cluster_propose v c = Some (r, c') \<and> Cluster_inv c'
    \<and> ((\<exists>e. r = Err e) \<and> c' = c
       \<or> 3 \<le> Cluster_remaining c'
         \<and> (\<exists>e. State_entries (n_state c') = State_entries (n_state c) @ [e] \<and> en_value e = Some (Command v)))"
  using cluster_propose_returns [OF assms, of v] assms appended_inv [OF assms]
  unfolding returns_iff refused_def by (clarsimp; fastforce simp: appended_def)

theorem proposals_leave_reserve_witness:
  "\<exists>r c'. Cluster_propose 7 demo_cluster = Some (r, c') \<and> Cluster_inv c'"
proof -
  have "Cluster_inv demo_cluster"
    using demo_cluster_inv demo_cluster_hooks by (simp add: Cluster_inv_def)
  from proposals_leave_reserve [OF this] show ?thesis by blast
qed

section \<open>Storage\<close>

text \<open>C20: the journal's encoding. Take a transaction of at most \<open>CAP\<close> entries, as every node with that
  capacity writes, whose vote is not for the identity \<open>u64::MAX\<close>, which the format uses for no
  vote. Applying its bytes to a well-formed checkpoint gives a checkpoint exactly when its vote is
  for one of the three voters or for nobody and its documented effect is a well-formed
  checkpoint, and then it gives that one.\<close>

theorem journal_applies_write:
  assumes "State_inv st" and "length (Write_entries w) \<le> CAP"
    and "hs_voted_for (w_hard w) \<noteq> Some (Id u64_MAX)"
  shows "apply_frame st (encode w) = Some st' \<longleftrightarrow>
    is_none_or example_voter (hs_voted_for (w_hard w))
    \<and> State_inv st' \<and> State_CAP st' = CAP \<and> Durable_of st' = Durable_apply w (Durable_of st)"
proof (cases "is_none_or example_voter (hs_voted_for (w_hard w))")
  case True
  then have "journal_write_ok w"
    using assms(2) by (simp add: journal_write_ok_def example_voter_def [abs_def])
  then show ?thesis
    using apply_durable [OF assms(1), of w st'] True by blast
next
  case False
  then obtain x where "hs_voted_for (w_hard w) = Some (Id x)" "3 \<le> x"
    by (cases "hs_voted_for (w_hard w)") (auto simp: example_voter_def not_less split: Id.splits)
  then show ?thesis
    using apply_other_vote [of w x st] assms(3) False by auto
qed

theorem journal_applies_write_witness:
  "apply_frame (State_new CAP) (encode (State_write demo_checkpoint (Some 1) False)) = Some demo_checkpoint"
proof -
  have "State_inv (State_new CAP :: JState)" "length (Write_entries (State_write demo_checkpoint (Some 1) False)) \<le> CAP"
    "hs_voted_for (w_hard (State_write demo_checkpoint (Some 1) False)) \<noteq> Some (Id u64_MAX)"
    "is_none_or example_voter (hs_voted_for (w_hard (State_write demo_checkpoint (Some 1) False)))"
    "State_inv demo_checkpoint" "State_CAP demo_checkpoint = CAP"
    "Durable_of demo_checkpoint = Durable_apply (State_write demo_checkpoint (Some 1) False) (Durable_of (State_new CAP))"
    by code_simp+
  then show ?thesis
    using journal_applies_write by blast
qed

text \<open>Saving a node's write. On a journal that is in step with a node, the node's pending
  write is accepted; afterwards the node is acknowledged, the journal holds the node's
  checkpoint, and reopening its file gives the same journal.\<close>

theorem journal_holds_saved_node:
  assumes "journal.synced i j n" and "State_CAP (n_state n) = CAP"
    and "is_none_or example_voter (hs_voted_for (n_hard n))"
  shows "\<exists>j'. host_persist (Journal_save Written) n j = (Inr (), Ready_persisted n, j')
    \<and> journal.synced i j' (Ready_persisted n) \<and> jr_state j' = n_state n
    \<and> Journal_open i (jr_file j') = Inr j'"
  using journal_saves_node [OF assms] by metis

theorem journal_holds_saved_node_witness:
  "\<exists>j j'. Journal_open (Id 0) [] = Inr j
    \<and> host_persist (Journal_save Written) demo_node j = (Inr (), Ready_persisted demo_node, j')
    \<and> jr_state j' = n_state demo_node"
proof -
  obtain j where j: "Journal_open (Id 0) [] = Inr j" "journal_usable (Id 0) j" "jr_state j = State_new CAP"
    using journal_fresh by blast
  have st: "Durable_apply (Ready_write demo_node) (Durable_of (State_new CAP)) = Durable_of (n_state demo_node)"
    "Durable_of (State_new CAP) = Durable_of (n_state demo_node)"
    "State_CAP (n_state demo_node) = CAP" "is_none_or example_voter (hs_voted_for (n_hard demo_node))"
    by code_simp+
  have "journal.synced (Id 0) j demo_node"
    using j st(1,2) demo_node_inv by (simp add: journal.synced_def)
  from journal_holds_saved_node [OF this st(3,4)] j(1) show ?thesis by blast
qed

text \<open>A crash in the middle of a save. However many bytes of the frame reach the file, the
  save reports an error and reopening the file succeeds with either the checkpoint before the
  transaction or the one after it.\<close>

theorem torn_save_recovers:
  assumes "journal.synced i j n" and "State_CAP (n_state n) = CAP"
    and "is_none_or example_voter (hs_voted_for (n_hard n))"
  shows "\<exists>j' j''. Journal_save (Torn k) (Ready_write n) j = (Inl Io, j')
    \<and> Journal_open i (jr_file j') = Inr j'' \<and> (jr_state j'' = jr_state j \<or> jr_state j'' = n_state n)"
  using assms by (rule journal_torn_save)

theorem torn_save_recovers_witness:
  "\<exists>j j' j''. Journal_save (Torn 9) (Ready_write demo_node) j = (Inl Io, j')
    \<and> Journal_open (Id 0) (jr_file j') = Inr j''"
proof -
  obtain j where j: "journal_usable (Id 0) j" "jr_state j = State_new CAP"
    using journal_fresh by blast
  have st: "Durable_apply (Ready_write demo_node) (Durable_of (State_new CAP)) = Durable_of (n_state demo_node)"
    "Durable_of (State_new CAP) = Durable_of (n_state demo_node)"
    "State_CAP (n_state demo_node) = CAP" "is_none_or example_voter (hs_voted_for (n_hard demo_node))"
    by code_simp+
  have "journal.synced (Id 0) j demo_node"
    using j st(1,2) demo_node_inv by (simp add: journal.synced_def)
  from torn_save_recovers [OF this st(3,4), of 9] show ?thesis by blast
qed

text \<open>C21: what is published is durable. Take a host of the example program at any moment of its life:
  it opens a file with any content that opens, and then calls of its node with any messages,
  proposals and compactions, saves of which any may fail after any number of bytes, messages
  taken one by one and steps of the application follow in any order. Whenever its node hands out
  a message, a committed entry or a snapshot, a host that opens the file as it is at that moment
  resumes with exactly the node's checkpoint. Only the pre-vote messages of the dynamic engine
  are excluded.\<close>

theorem published_is_durable:
  assumes "host_life i h"
    and "Node_next_message (ho_node h) = Some (Some env, n') \<or> Node_committed (ho_node h) \<noteq> []
      \<or> Node_snapshot (ho_node h) \<noteq> None"
  shows "\<exists>h0. Host_open (wid i) (jr_file (ho_journal h)) = Some (Inr h0)
    \<and> Durable_of (n_state (ho_node h0)) = Durable_of (n_state (ho_node h))"
  using published_resumes [OF assms] by metis

theorem published_is_durable_witness:
  "\<exists>h h0. host_life 0 h \<and> Node_committed (ho_node h) \<noteq> []
    \<and> Host_open (wid 0) (jr_file (ho_journal h)) = Some (Inr h0)
    \<and> Durable_of (n_state (ho_node h0)) = Durable_of demo_saved"
proof -
  obtain h where h: "host_life 0 h" "n_state (ho_node h) = demo_saved" "\<not> n_dirty (ho_node h)"
    by (rule demo_opened)
  have "takeWhile (\<lambda>e. li_index (en_id e) \<le> hs_commit (st_hard demo_saved)) (State_entries demo_saved) \<noteq> []"
    by code_simp
  then have "Node_committed (ho_node h) \<noteq> []"
    using h(2,3) by (simp add: Node_committed_def)
  then show ?thesis
    using published_is_durable [OF h(1)] h by metis
qed

section \<open>The example program\<close>

text \<open>C22: the total of a host. At every moment between calls of a host's life (calls of its node,
  restarts, and restarts after a flush that failed, whatever its file held when it was first opened)
  the application has applied exactly the committed prefix: its total is the value of the
  checkpoint's snapshot plus the committed commands after it, counted once each and without wrap,
  and reopening its journal gives the checkpoint this is computed from. A received snapshot of a
  prefix the host has itself committed is taken to hold the value the host has there.\<close>

theorem host_total_is_replay:
  assumes "host_reachable i h"
  shows "ho_applied h = hs_commit (n_hard (ho_node h))
    \<and> unat (ho_total h) = replayed (ho_applied h) (n_state (ho_node h))
    \<and> Journal_open (wid i) (jr_file (ho_journal h)) = Inr (ho_journal h)
    \<and> Durable_of (jr_state (ho_journal h)) = Durable_of (n_state (ho_node h))"
proof -
  have s: "settled i h"
    using assms by (rule reachable_settled)
  then have "host_ok i h" "Node_available (ho_node h) = Ok ()"
    and "applied_ok (ho_applied h) (ho_total h) (n_state (ho_node h))"
    unfolding settled_def by blast+
  then show ?thesis
    using host_durable [of i h] by (simp add: applied_ok_def)
qed

theorem host_total_is_replay_witness:
  "\<exists>h. host_reachable 0 h \<and> ho_applied h = 1 \<and> ho_total h = 42"
proof -
  obtain h where h: "host_reachable 0 h" "n_state (ho_node h) = demo_saved"
    by (rule demo_host)
  have "hs_commit (st_hard demo_saved) = 1"
    by code_simp
  then have "ho_applied h = 1" "unat (ho_total h) = unat (42 :: u64)"
    using host_total_is_replay [OF h(1)] h(2) demo_saved_facts(3) by simp_all
  then show ?thesis
    using h(1) by (auto simp: u64_eq_iff)
qed

text \<open>C23: a flush. When the disk takes the write, a flush after any call stores the checkpoint, queues
  messages behind those already queued and leaves nothing pending; it succeeds exactly when the
  application's value fits 64 bits, and otherwise reports the overflow.\<close>

theorem flush_fails_only_on_overflow:
  assumes "host_reachable i h" and "host_call h n"
  shows "\<exists>h' sent. Host_flush Written (h\<lparr>ho_node := n\<rparr>) network =
      Some (if replayed (hs_commit (n_hard n)) (n_state n) < 2 ^ 64 then Inr () else Inl ApplicationOverflow,
            h', network @ sent)
    \<and> n_state (ho_node h') = n_state n \<and> Node_available (ho_node h') = Ok ()
    \<and> Durable_of (jr_state (ho_journal h')) = Durable_of (n_state n)"
proof -
  let ?h = "h\<lparr>ho_node := n\<rparr>"
  note call = host_called [OF reachable_settled [OF assms(1)] assms(2)]
  have b: "behind (ho_applied ?h) (ho_total ?h) (n_state (ho_node ?h))"
    using call(2) by simp
  obtain h' sent where fl: "Host_flush Written ?h network = Some (flushed ?h, h', network @ sent)"
    and h': "host_ok i h'" "n_state (ho_node h') = n_state (ho_node ?h)" "Node_available (ho_node h') = Ok ()"
    by (rule host_flushes [OF call(1) b, where outcome = Written and network = network]) simp
  show ?thesis
    using fl h' host_durable(2) [OF h'(1,3)]
    by (intro exI [of _ h'] exI [of _ sent]) (simp add: flushed_def)
qed

theorem flush_fails_only_on_overflow_witness:
  "\<exists>(h :: Host) n r h' sent. Node_tick (ho_node h) = Some (r, n) \<and> n_state (ho_node h) = demo_saved
    \<and> (\<exists>e. Host_flush Written (h\<lparr>ho_node := n\<rparr>) [demo_request] = Some (e, h', [demo_request] @ sent))"
proof -
  obtain h where h: "host_reachable 0 h" "n_state (ho_node h) = demo_saved"
    by (rule demo_host)
  have "host_ok 0 h"
    using reachable_settled [OF h(1)] by (simp add: settled_def)
  then have "Node_inv (ho_node h)"
    by (rule host_okD(1))
  then obtain r n where n: "Node_tick (ho_node h) = Some (r, n)"
    using tick_safe by (fastforce simp: returns_iff)
  from flush_fails_only_on_overflow [OF h(1) host_call.tick [OF n], of "[demo_request]"] show ?thesis
    using h(2) n by blast
qed

text \<open>C24: restart. A host that is stopped between calls and opened again from its file reaches, with
  its first flush and without writing, the applied index and the total it had.\<close>

theorem restart_recovers_total:
  assumes "host_reachable i h"
  shows "\<exists>h0 h' sent. Host_open (wid i) (jr_file (ho_journal h)) = Some (Inr h0)
    \<and> Host_flush io h0 network = Some (Inr (), h', network @ sent)
    \<and> ho_applied h' = ho_applied h \<and> ho_total h' = ho_total h"
  by (rule settled_restarts [OF reachable_settled [OF assms], of io network]) blast

theorem restart_recovers_total_witness:
  "\<exists>(h :: Host) h0 h' sent. n_state (ho_node h) = demo_saved
    \<and> Host_open (wid 0) (jr_file (ho_journal h)) = Some (Inr h0)
    \<and> Host_flush (Torn 3) h0 [] = Some (Inr (), h', [] @ sent) \<and> ho_total h' = ho_total h"
proof -
  obtain h where h: "host_reachable 0 h" "n_state (ho_node h) = demo_saved"
    by (rule demo_host)
  from restart_recovers_total [OF h(1), of "Torn 3" "[]"] show ?thesis
    using h(2) by blast
qed

text \<open>C25: a flush that is cut short. When the write of a call stops after any number of bytes, the
  flush reports it, nothing is sent and nothing applied, and the file opens with the checkpoint
  before the call or with the one after it.\<close>

theorem torn_flush_recovers:
  assumes "host_reachable i h" and "host_call h n" and "n_dirty n"
  shows "\<exists>h1 h0. Host_flush (Torn k) (h\<lparr>ho_node := n\<rparr>) network = Some (Inl (JournalFailed Io), h1, network)
    \<and> ho_applied h1 = ho_applied h \<and> ho_total h1 = ho_total h
    \<and> Host_open (wid i) (jr_file (ho_journal h1)) = Some (Inr h0)
    \<and> (n_state (ho_node h0) = jr_state (ho_journal h) \<or> n_state (ho_node h0) = n_state n)"
  by (rule settled_torn [OF reachable_settled [OF assms(1)] assms(2,3), of k network]) blast

theorem torn_flush_recovers_witness:
  "\<exists>(h :: Host) n h1 h0. n_state (ho_node h) = demo_saved
    \<and> Host_flush (Torn 9) (h\<lparr>ho_node := n\<rparr>) [] = Some (Inl (JournalFailed Io), h1, [])
    \<and> Host_open (wid 0) (jr_file (ho_journal h1)) = Some (Inr h0)"
proof -
  obtain h r n where h: "host_reachable 0 h" "n_state (ho_node h) = demo_saved"
    and n: "Node_step demo_request (ho_node h) = Some (r, n)" "n_dirty n"
    by (rule demo_host)
  have "host_call h n"
    by (rule host_call.receive [OF _ _ n(1)]) (simp_all add: demo_request_def vouched_def)
  from torn_flush_recovers [OF h(1) this n(2), of 9 "[]"] show ?thesis
    using h(2) by blast
qed

text \<open>C26: the program does not panic. Whatever three files hold and whatever the disks do with each
  save, at no moment of the program, however many messages it has delivered, does an index leave its
  array, an arithmetic operation overflow or an assertion fail: it returns totals or an error.\<close>

theorem program_never_panics:
  assumes "length contents = 3"
  shows "run_cluster fuel io contents \<noteq> None"
  using assms by (rule run_returns)

theorem program_never_panics_witness:
  "run_cluster 1000 (\<lambda>k. if k = 7 then Torn 5 else Written) [[1, 2], [], [0x4A]] \<noteq> None"
  using program_never_panics [of "[[1, 2], [], [0x4A]]"] by simp


section \<open>The provium compiler\<close>

text \<open>C27: what the compiler returns is safe to run. Whatever source is parsed and compiled, each
  compiled function answers every list of arguments without a panic: arguments that do not fit
  its parameters are refused as input faults, and all others give a value of the declared
  result type or one of the faults of checked Rust (overflow, division by zero, a failed
  assertion), never a type fault.\<close>
theorem compiled_functions_are_safe:
  assumes "Compiler_parse file ub = Inr c" and "Compiler_compile c = Some (Inr fs)" and "f \<in> set fs"
  shows "\<exists>r. run f args ub = Some r
     \<and> (if list_all2 (has_ty ub) args (map pa_ty (fn_parameters f))
        then good_outcome ub (fn_result f) r else r = Inl InputFault)"
proof (rule run_sound)
  have c: "sized c" "co_usize_bits c = ub"
    using Compiler_parse_sized [OF assms(1)] by simp_all
  then show "ub \<in> {32, 64}"
    by (simp add: sized_def)
  show "function_typed ub f"
    using okayD [OF compile_sound [OF c(1)] assms(2)] assms(3) c(2) by simp
qed

theorem compiled_functions_are_safe_witness:
  "\<exists>r. run demo_twice_compiled [VUInt 8 254] 64 = Some r \<and> good_outcome 64 TyU8 r"
proof -
  have "demo_twice_compiled \<in> set [demo_next_compiled, demo_twice_compiled]"
    by simp
  from compiled_functions_are_safe [OF demo_parse demo_compile this, of "[VUInt 8 254]"]
  show ?thesis
    by (simp add: demo_twice_compiled_def)
qed

text \<open>C28: compilation ends. Whatever the parsed source, cyclic and deeply nested calls included,
  the compiler returns the compiled functions or an error; it neither panics nor runs forever.\<close>
theorem compiler_returns:
  assumes "Compiler_parse file ub = Inr c"
  shows "\<exists>r. Compiler_compile c = Some r"
  using okay_returns compile_sound Compiler_parse_sized [OF assms] by blast

theorem compiler_returns_witness:
  "\<exists>r. Compiler_compile demo_compiler = Some r"
  by (rule compiler_returns [OF demo_parse])

text \<open>C29: expanding a call is calling. For arguments and a body whose variables are in scope, the
  nested bindings that replace a call evaluate the arguments from left to right, each in the
  caller's environment, and then the function's body on exactly their values; a fault of an
  argument is the fault of the call.\<close>
theorem call_expansion_is_call:
  assumes "\<forall>arg \<in> set args. scoped (length env) arg"
    and "scoped (length args) (fn_body f)" and "ex_ty (fn_body f) = fn_result f"
  shows "\<exists>e. expand_call f args = Some e \<and> ex_ty e = fn_result f
     \<and> evaluate e env = try_bind (evaluate_all args env) (evaluate (fn_body f))"
  by (rule expand_call_evaluate [OF assms])

theorem call_expansion_is_call_witness:
  "\<exists>e. expand_call demo_next_compiled [Expr TyU8 (KVar 1)] = Some e
     \<and> evaluate e [VBool True, VUInt 8 41] = Some (Inr (VUInt 8 42))"
proof -
  obtain e where e: "expand_call demo_next_compiled [Expr TyU8 (KVar 1)] = Some e"
    "evaluate e [VBool True, VUInt 8 41]
     = try_bind (evaluate_all [Expr TyU8 (KVar 1)] [VBool True, VUInt 8 41]) (evaluate (fn_body demo_next_compiled))"
    using call_expansion_is_call [of "[Expr TyU8 (KVar 1)]" "[VBool True, VUInt 8 41]" demo_next_compiled]
    by (auto simp: demo_next_compiled_def demo_add_def)
  moreover have "try_bind (evaluate_all [Expr TyU8 (KVar 1)] [VBool True, VUInt 8 41]) (evaluate (fn_body demo_next_compiled))
     = Some (Inr (VUInt 8 42))"
    by code_simp
  ultimately show ?thesis
    by auto
qed

text \<open>C30: the evaluator's operators are those of the machine. At each supported width, checked
  addition, subtraction and multiplication give the machine result exactly when it is exact,
  division and remainder fail exactly for a zero divisor, the wrapping and the three bitwise
  operators always give the machine result, and shifts do for every amount below the width and
  overflow from it on.\<close>
theorem operators_are_machine_words:
  fixes x y :: "'a::len word"
  assumes "LENGTH('a) \<in> {8, 16, 32, 64}"
  shows "binary OpAdd (of_word x) (of_word y)
      = Some (if unat x + unat y < 2 ^ LENGTH('a) then Inr (of_word (x + y)) else Inl Overflow)
    \<and> binary OpSub (of_word x) (of_word y) = Some (if y \<le> x then Inr (of_word (x - y)) else Inl Overflow)
    \<and> binary OpMul (of_word x) (of_word y)
      = Some (if unat x * unat y < 2 ^ LENGTH('a) then Inr (of_word (x * y)) else Inl Overflow)
    \<and> binary OpDiv (of_word x) (of_word y) = Some (if y = 0 then Inl DivisionByZero else Inr (of_word (x div y)))
    \<and> binary OpRem (of_word x) (of_word y) = Some (if y = 0 then Inl DivisionByZero else Inr (of_word (x mod y)))
    \<and> binary OpWrappingAdd (of_word x) (of_word y) = Some (Inr (of_word (x + y)))
    \<and> binary OpWrappingSub (of_word x) (of_word y) = Some (Inr (of_word (x - y)))
    \<and> binary OpWrappingMul (of_word x) (of_word y) = Some (Inr (of_word (x * y)))
    \<and> binary OpBitAnd (of_word x) (of_word y) = Some (Inr (of_word (x AND y)))
    \<and> binary OpBitOr (of_word x) (of_word y) = Some (Inr (of_word (x OR y)))
    \<and> binary OpBitXor (of_word x) (of_word y) = Some (Inr (of_word (x XOR y)))
    \<and> binary OpShl (of_word x) (of_word y)
      = Some (if unat y < LENGTH('a) then Inr (of_word (push_bit (unat y) x)) else Inl Overflow)
    \<and> binary OpShr (of_word x) (of_word y)
      = Some (if unat y < LENGTH('a) then Inr (of_word (drop_bit (unat y) x)) else Inl Overflow)"
  using binary_checked_words [OF assms, of x y] binary_wrapping_words(1-6) [OF assms, of x y]
    binary_wrapping_words(7,8) [OF assms, of y x]
    op_value_fault [OF assms, of OpShl x y Overflow] op_value_fault [OF assms, of OpShr x y Overflow]
  by (auto simp: not_less)

theorem operators_are_machine_words_witness:
  "binary OpAdd (of_word (200 :: u8)) (of_word (100 :: u8)) = Some (Inl Overflow)
   \<and> binary OpWrappingAdd (of_word (200 :: u8)) (of_word (100 :: u8)) = Some (Inr (of_word (44 :: u8)))"
proof -
  have "(300 :: u8) = 44"
    by simp
  then have "of_word (300 :: u8) = of_word (44 :: u8)"
    by (rule arg_cong)
  then show ?thesis
    using operators_are_machine_words [of "200 :: u8" "100 :: u8"] by simp
qed

section \<open>The explored cluster\<close>

text \<open>C31: election safety. In the three-node cluster of the explorer, whatever the schedule of
  deliveries, losses, duplicates, saves, crashes, timeouts and proposals, two nodes that are
  leader in the same term, at the same or at different times, are the same node.\<close>
theorem election_safety:
  assumes "reachable debug w" and "(schedule debug)\<^sup>*\<^sup>* w w'" and "i < 3" and "j < 3"
    and "n_role (w_nodes w ! i) = Leader" and "n_role (w_nodes w' ! j) = Leader"
    and "hs_term (n_hard (w_nodes w ! i)) = hs_term (n_hard (w_nodes w' ! j))"
  shows "i = j"
  using one_leader [OF assms] .

theorem election_safety_witness:
  "\<exists>w. reachable (\<lambda>_. []) w \<and> {j. j < 3 \<and> n_role (w_nodes w ! j) = Leader \<and> hs_term (n_hard (w_nodes w ! j)) = 1} = {0}"
proof -
  obtain w where w: "World_apply (\<lambda>_. []) (Deliver 1) demo_granted = Some w"
    "map (\<lambda>n. (n_role n, hs_term (n_hard n))) (w_nodes w) = [(Leader, 1), (Follower, 1), (Follower, 0)]"
    using demo_counted by (cases "World_apply (\<lambda>_. []) (Deliver 1) demo_granted") auto
  have r: "reachable (\<lambda>_. []) w"
    using demo_reachable schedule.acts [OF w(1)] unfolding reachable_def by (meson rtranclp.rtrancl_into_rtrancl)
  have 0: "n_role (w_nodes w ! 0) = Leader" "hs_term (n_hard (w_nodes w ! 0)) = 1"
    using w(2) by (auto simp: map_eq_Cons_conv)
  have "j = 0" if "j < 3" "n_role (w_nodes w ! j) = Leader" "hs_term (n_hard (w_nodes w ! j)) = 1" for j
    using election_safety [OF r rtranclp.rtrancl_refl _ that(1) 0(1) that(2)] 0(2) that(3) by simp
  with r 0 show ?thesis
    by (intro exI [of _ w]) auto
qed

text \<open>C32: the search ends and finds no violation. From the initial world and to any depth, whatever
  the texts that sort messages and identify worlds, the explorer can compute and carry out every
  action it offers, waiting for a timeout returns, terms index the table of leaders, and the
  search returns without reporting a violation of any of the five kinds its oracle knows: two
  leaders in a term, a leader without an entry committed in an earlier term, output or commitment
  before persistence, nodes that applied different entries.\<close>
theorem search_finds_no_violation:
  "\<exists>w seen'. World_new = Some w \<and> visit debug key w left seen path = Some (Inr seen')"
proof -
  obtain w where w: "World_new = Some w" "bounded w"
    using world_starts unfolding bounded_def by fastforce
  then show ?thesis
    using search_passes(1) [OF agree_starts] by blast
qed

text \<open>C33: state machine safety. In the three-node cluster of the explorer, whatever the schedule of
  deliveries, losses, duplicates, saves, crashes, timeouts and proposals, what one node has
  applied at one time and what another, or the same node, has applied at a later time agree: one
  is a prefix of the other.\<close>
theorem state_machine_safety:
  assumes "reachable debug w" and "(schedule debug)\<^sup>*\<^sup>* w w'" and "i < 3" and "j < 3"
  shows "prefix (Node_committed (w_nodes w ! i)) (Node_committed (w_nodes w' ! j))
    \<or> prefix (Node_committed (w_nodes w' ! j)) (Node_committed (w_nodes w ! i))"
  using applied_agree [OF assms] .

theorem state_machine_safety_witness:
  "\<exists>w. reachable (\<lambda>_. []) w \<and> Node_committed (w_nodes w ! 0) = [demo_entry] \<and> Node_committed (w_nodes w ! 1) = [demo_entry]
     \<and> (prefix (Node_committed (w_nodes w ! 0)) (Node_committed (w_nodes w ! 1))
        \<or> prefix (Node_committed (w_nodes w ! 1)) (Node_committed (w_nodes w ! 0)))"
proof -
  obtain w where r: "reachable (\<lambda>_. []) w" and w: "map (\<lambda>n. (Node_committed n, State_entries (n_state n))) (w_nodes w)
      = [([demo_entry], [demo_entry]), ([demo_entry], [demo_entry]), ([], [])]"
    using demo_committed .
  have "Node_committed (w_nodes w ! 0) = [demo_entry]" "Node_committed (w_nodes w ! 1) = [demo_entry]"
    using w by (auto simp: map_eq_Cons_conv)
  then show ?thesis
    using r state_machine_safety [OF r rtranclp.rtrancl_refl, of 0 1] by auto
qed

text \<open>C34: log matching. In every reachable world, two nodes whose logs, durable or not, hold an entry
  with the same index and term at some position hold the same entries up to that position.\<close>
theorem equal_entries_equal_prefixes:
  assumes "reachable debug w" and "i < 3" and "j < 3"
    and "k < length (State_entries (n_state (w_nodes w ! i)))" and "k < length (State_entries (n_state (w_nodes w ! j)))"
    and "en_id (State_entries (n_state (w_nodes w ! i)) ! k) = en_id (State_entries (n_state (w_nodes w ! j)) ! k)"
  shows "take (Suc k) (State_entries (n_state (w_nodes w ! i))) = take (Suc k) (State_entries (n_state (w_nodes w ! j)))"
  using logs_match [OF assms] .

theorem equal_entries_equal_prefixes_witness:
  "\<exists>w. reachable (\<lambda>_. []) w \<and> State_entries (n_state (w_nodes w ! 0)) = [demo_entry]
     \<and> take 1 (State_entries (n_state (w_nodes w ! 0))) = take 1 (State_entries (n_state (w_nodes w ! 1)))"
proof -
  obtain w where r: "reachable (\<lambda>_. []) w" and w: "map (\<lambda>n. (Node_committed n, State_entries (n_state n))) (w_nodes w)
      = [([demo_entry], [demo_entry]), ([demo_entry], [demo_entry]), ([], [])]"
    using demo_committed .
  have l: "State_entries (n_state (w_nodes w ! 0)) = [demo_entry]" "State_entries (n_state (w_nodes w ! 1)) = [demo_entry]"
    using w by (auto simp: map_eq_Cons_conv)
  have "take (Suc 0) (State_entries (n_state (w_nodes w ! 0))) = take (Suc 0) (State_entries (n_state (w_nodes w ! 1)))"
    by (rule equal_entries_equal_prefixes [OF r]) (simp_all add: l [simplified])
  then show ?thesis
    using r l(1) by auto
qed


section \<open>The journal of a dynamic cluster\<close>

text \<open>C35: the journal of a dynamic cluster. On a journal in step with a cluster, the pending write
  is accepted; afterwards the cluster is acknowledged, journal and cluster are in step, and
  reopening the file gives a journal with the cluster's checkpoint, configurations compared by
  their members. If only part of the frame reaches the file, reopening it gives the old content
  or that checkpoint.\<close>
theorem dynamic_journal_recovers:
  assumes "dynamic.synced ns i g j c" and "Cluster_inv c"
    and "Node_N c = DYNAMIC_MAX" and "State_CAP (n_state c) = DYNAMIC_CAP"
  shows "(\<exists>j'. host_persist (DynamicJournal_save Written) c j = (Inr (), Ready_persisted c, j')
      \<and> dynamic.synced ns i g j' (Ready_persisted c)
      \<and> DynamicJournal_open ns i g (dj_file j') = Inr j'
      \<and> Durable_like (Durable_of (dj_state j')) (Durable_of (n_state c)))
    \<and> (\<exists>j' j''. DynamicJournal_save (Torn k) (Ready_write c) j = (Inl Io, j')
      \<and> DynamicJournal_open ns i g (dj_file j') = Inr j''
      \<and> (dj_state j'' = dj_state j \<or> Durable_like (Durable_of (dj_state j'')) (Durable_of (n_state c))))"
  using dynamic_saves_cluster [OF assms] dynamic_torn_cluster [OF assms] by metis

theorem dynamic_journal_recovers_witness:
  "\<exists>j j'. DynamicJournal_open 5 (Id 0) sparse_membership [] = Inr j
    \<and> host_persist (DynamicJournal_save Written) demo_dynamic j = (Inr (), Ready_persisted demo_dynamic, j')
    \<and> DynamicJournal_open 5 (Id 0) sparse_membership (dj_file j') = Inr j'"
proof -
  obtain j where j: "DynamicJournal_open 5 (Id 0) sparse_membership [] = Inr j"
    "dynamic_usable (dynamic_header 5 (Id 0) sparse_membership) j" "dj_state j = State_new DYNAMIC_CAP"
    using dynamic_fresh by blast
  have "dynamic.synced 5 (Id 0) sparse_membership j demo_dynamic"
    using j demo_dynamic_inv demo_dynamic_write
    by (simp add: dynamic.synced_def Cluster_inv_def Durable_like_refl) (simp add: demo_dynamic_def)
  from dynamic_journal_recovers [OF this demo_dynamic_inv demo_dynamic_sizes] j(1) show ?thesis
    by blast
qed

section \<open>The differential test\<close>

text \<open>C36: the recording of the differential test. For every number of seeds whose values fit, the
  schedules run to the end without a panic and record at least 720 calls of \<^verbatim>\<open>next_message\<close> per
  seed. Every recorded case is the text of a call of a method under test with its true result,
  and its function, receiver and arguments determine the call: no other call has these texts, and
  any case with them has the same result and the same receiver afterwards.\<close>

theorem recorded_cases_determine_calls:
  assumes "count \<le> 184467440737095516"
  shows "\<exists>cases. schedules count = Some cases
    \<and> 720 * count \<le> length (filter (\<lambda>c. ca_function c = ''node_Node_next_message'') cases)
    \<and> (\<forall>c \<in> set cases. \<exists>k. Call_case k = Some c
        \<and> (\<forall>k' c'. Call_case k' = Some c' \<longrightarrow> same_input c c' \<longrightarrow> k' = k \<and> c' = c))"
proof -
  obtain cases where cases: "schedules count = Some cases" "records cases" "720 * count \<le> taken cases"
    using schedules_return [OF assms] by blast
  have "\<exists>k. Call_case k = Some c \<and> (\<forall>k' c'. Call_case k' = Some c' \<longrightarrow> same_input c c' \<longrightarrow> k' = k \<and> c' = c)"
    if "c \<in> set cases" for c
    using cases(2) that input_determines_call unfolding records_def by (metis option.inject)
  then show ?thesis
    using cases(1,3) by (auto simp: taken_def)
qed

theorem recorded_cases_determine_calls_witness:
  "\<exists>cases. schedules 12 = Some cases \<and> 200 < length cases"
proof -
  obtain cases where c: "schedules 12 = Some cases"
      "720 * 12 \<le> length (filter (\<lambda>c. ca_function c = ''node_Node_next_message'') cases)"
    using recorded_cases_determine_calls [of 12] by auto
  have "200 < length cases"
    using c(2) length_filter_le [of "\<lambda>c. ca_function c = ''node_Node_next_message''" cases] by linarith
  then show ?thesis
    using c(1) by blast
qed

section \<open>The Lean backend\<close>

text \<open>C37: the two evaluators agree. For a pointer width of 32 or 64 bits, the Rust evaluator runs any
  function on any arguments without a panic, and the evaluator of the Lean library gives the
  corresponding value or fault for the corresponding expression, argument types and arguments.\<close>

theorem evaluators_agree:
  assumes "ub \<in> {32, 64}"
  shows "\<exists>r. run f args ub = Some r
    \<and> lean_run (lean_schema ub f) (lean_expr (fn_body f)) (map lean_value args) = lean_outcome r"
  using assms by (rule run_agrees)

theorem evaluators_agree_witness:
  "lean_run [LTyUint 8] (lean_expr (fn_body demo_twice_compiled)) [LUint 8 254] = Inl LOverflow"
proof -
  obtain r where r: "run demo_twice_compiled [VUInt 8 254] 64 = Some r"
      "lean_run (lean_schema 64 demo_twice_compiled) (lean_expr (fn_body demo_twice_compiled)) (map lean_value [VUInt 8 254]) = lean_outcome r"
    using evaluators_agree [of 64 demo_twice_compiled "[VUInt 8 254]"] by auto
  have "run demo_twice_compiled [VUInt 8 254] 64 = Some (Inl Overflow)"
    by code_simp
  moreover have "lean_schema 64 demo_twice_compiled = [LTyUint 8]" and "map lean_value [VUInt 8 254] = [LUint 8 254]"
    by code_simp+
  ultimately show ?thesis
    using r by simp
qed

text \<open>C38: the generated Lean file means the functions. The texts printed for a function can be read in
  one way each, as an expression, a term and a list of types; operators are read by the names the
  Lean library declares. Together they are four lines of Lean: a comment, the definition of the
  expression, the definition of the function, and the theorem that relates them, and the file is, after
  its comments, the sequence of these in the project's namespace. When the generated symbols do not collide,
  which the project checks, Lean accepts these declarations: no name is declared twice, no term
  has an unbound name, and every theorem is true, its function being the Lean evaluator applied
  to the expression. On every list of arguments it gives what the Rust evaluator gives for the function.\<close>

theorem generated_term_is_function:
  assumes "ub \<in> {32, 64}" and "symbols_checked fs"
  shows "(\<forall>f. (\<exists>!e. ast (fn_body f) = expr_text e) \<and> ast (fn_body f) = expr_text (lean_expr (fn_body f))
        \<and> (\<exists>!t. fst (code (fn_body f) ''env'' 0) = ''('' @ term_text t @ '')'')
        \<and> (\<exists>!ts. schema_text ub f = types_text ts) \<and> schema_text ub f = types_text (lean_schema ub f)
        \<and> function_text ub f = concat (map decl_text (lean_decls ub f)))
    \<and> (\<exists>comments. generate fs ns ub hash
        = comments @ file_text ns (unat ub) (concat (map (lean_decls ub) fs)))
    \<and> decls_hold (concat (map (lean_decls ub) fs)) {''proviumUsizeBits''} Map.empty Map.empty
    \<and> (\<forall>f \<in> set fs. \<exists>t. LDefFunction (fn_name f) (lean_schema ub f) t \<in> set (lean_decls ub f)
        \<and> fst (code (fn_body f) ''env'' 0) = ''('' @ term_text t @ '')'' \<and> term_scoped {} t
        \<and> lean_function (lean_schema ub f) t = lean_run (lean_schema ub f) (lean_expr (fn_body f))
        \<and> (\<forall>args. \<exists>r. run f args ub = Some r
             \<and> lean_function (lean_schema ub f) t (map lean_value args) = lean_outcome r))"
proof (intro conjI allI ballI)
  fix f :: Function
  let ?t = "fst (lterm_of (fn_body f) EnvVar 0)"
  show "\<exists>!e. ast (fn_body f) = expr_text e"
    unfolding ast_text(1) by (rule ex1I [of _ "lean_expr (fn_body f)"]) (auto dest: lean_expr_text.value_inj)
  show "\<exists>!t. fst (code (fn_body f) ''env'' 0) = ''('' @ term_text t @ '')''"
    unfolding generated_term(1) by (rule ex1I [of _ ?t]) (auto dest: term_text_inj)
  show "\<exists>!ts. schema_text ub f = types_text ts"
    unfolding schema_text_types by (rule ex1I [of _ "lean_schema ub f"]) (auto dest: types_text_inj)
  show "\<exists>t. LDefFunction (fn_name f) (lean_schema ub f) t \<in> set (lean_decls ub f)
        \<and> fst (code (fn_body f) ''env'' 0) = ''('' @ term_text t @ '')'' \<and> term_scoped {} t
        \<and> lean_function (lean_schema ub f) t = lean_run (lean_schema ub f) (lean_expr (fn_body f))
        \<and> (\<forall>args. \<exists>r. run f args ub = Some r
             \<and> lean_function (lean_schema ub f) t (map lean_value args) = lean_outcome r)"
    using generated_term(1,2) [of f] run_agrees [OF assms(1), of f]
    by (intro exI [of _ ?t]) (simp add: generated_function lean_decls_def)
next
  show "decls_hold (concat (map (lean_decls ub) fs)) {''proviumUsizeBits''} Map.empty Map.empty"
    using assms(2) file_holds by (auto simp: symbols_checked_def)
  show "\<exists>comments. generate fs ns ub hash
      = comments @ file_text ns (unat ub) (concat (map (lean_decls ub) fs))"
    using generated_file by blast
qed (simp_all add: ast_text(1) schema_text_types function_text_decls)

theorem generated_term_is_function_witness:
  "\<exists>t. LDefFunction (fn_name demo_twice_compiled) [LTyUint 8] t \<in> set (lean_decls 64 demo_twice_compiled)
    \<and> lean_function [LTyUint 8] t [LUint 8 254] = Inl LOverflow"
proof -
  have sy: "symbols_checked [demo_twice_compiled]"
    by code_simp
  have ub: "(64 :: u32) \<in> {32, 64}" and f: "demo_twice_compiled \<in> set [demo_twice_compiled]"
    by simp_all
  obtain t where t: "LDefFunction (fn_name demo_twice_compiled) (lean_schema 64 demo_twice_compiled) t
      \<in> set (lean_decls 64 demo_twice_compiled)"
    and all: "\<forall>args. \<exists>r. run demo_twice_compiled args 64 = Some r
      \<and> lean_function (lean_schema 64 demo_twice_compiled) t (map lean_value args) = lean_outcome r"
    using generated_term_is_function [OF ub sy] f by blast
  obtain r where r: "run demo_twice_compiled [VUInt 8 254] 64 = Some r"
      "lean_function (lean_schema 64 demo_twice_compiled) t (map lean_value [VUInt 8 254]) = lean_outcome r"
    using all by blast
  have "run demo_twice_compiled [VUInt 8 254] 64 = Some (Inl Overflow)"
    by code_simp
  moreover have "lean_schema 64 demo_twice_compiled = [LTyUint 8]" and "map lean_value [VUInt 8 254] = [LUint 8 254]"
    by code_simp+
  ultimately show ?thesis
    using t r by auto
qed

section \<open>Conditional compilation\<close>

text \<open>C39: evaluation of predicates. Whatever the token parser, evaluation ends, and it answers a truth
  value exactly when the whole predicate can be read, with single identifiers, string values,
  known operators and arities in every operand, nested at most 64 deep; the answer is its Boolean
  meaning. Nothing that cannot be read is skipped.\<close>

theorem cfg_evaluates_exactly:
  "Configuration_evaluate args cfg m = Inr b \<longleftrightarrow> (\<exists>p. reads args m p \<and> nested 64 p \<and> pred_holds cfg p = b)"
  by (rule evaluate_exact)

text \<open>C40: attributes of a declaration. They are accepted exactly when every \<^verbatim>\<open>cfg_attr\<close> can be expanded
  and every \<^verbatim>\<open>cfg\<close> among the results can be read; the declaration is then present exactly when all
  of these hold, with the other attributes in their order.\<close>

theorem attributes_are_exact:
  "Configuration_attributes args arg cfg attrs = Inr r \<longleftrightarrow>
     (\<exists>mss ps. list_all2 (expands args cfg 64) attrs mss
        \<and> list_all2 (requires args arg) (filter is_cfg (concat mss)) ps
        \<and> r = (if list_all (pred_holds cfg) ps then Some (filter (\<lambda>a. \<not> is_cfg a) (concat mss)) else None))"
  by (auto simp: Configuration_attributes_def and_then_Inr expand_exact test_exact list_all_iff)

end
